(* ===== verification/Prelude.thy ===== *)
theory Prelude
  imports Main "HOL-Library.AList" "HOL-Library.Monad_Syntax"
begin

text \<open>
  Shared vocabulary of the development.

  A Python dict or \<open>OrderedDict\<close> whose iteration order the code relies on is an
  association list with distinct keys in insertion order: assignment keeps the position of
  a key that is present and appends a new one (\<^const>\<open>AList.update\<close>), \<open>pop\<close> deletes
  (\<^const>\<open>AList.delete\<close>), \<open>move_to_end\<close> and \<open>popitem(last=False)\<close> are written out
  below. A bounded \<open>deque\<close> is a list that drops elements on the left. \<open>str.split\<close> and
  \<open>str.join\<close> are written on \<open>string\<close>. The locale \<open>kv_store\<close> is the interface under which
  the components use a key-value store (a dict, Django's cache): what a lookup returns after
  an assignment or a deletion.

  The collection \<open>odict_simps\<close> holds the rewrite rules on ordered dictionaries that the
  component proofs share.
\<close>

named_theorems odict_simps

text \<open>
  Dictionaries are looked up, never searched as sets of pairs, and keys are tuples that the
  proofs do not take apart.
\<close>

declare map_of_eq_Some_iff [simp del] split_paired_All [simp del] split_paired_Ex [simp del]

section \<open>Ordered dictionaries\<close>

type_synonym ('k, 'v) odict = "('k \<times> 'v) list"

abbreviation od_keys :: "('k, 'v) odict \<Rightarrow> 'k list" where
  "od_keys d \<equiv> map fst d"

abbreviation od_get :: "('k, 'v) odict \<Rightarrow> 'k \<Rightarrow> 'v option" where
  "od_get d k \<equiv> map_of d k"

abbreviation od_set :: "'k \<Rightarrow> 'v \<Rightarrow> ('k, 'v) odict \<Rightarrow> ('k, 'v) odict" where
  "od_set k v d \<equiv> AList.update k v d"

abbreviation od_pop :: "'k \<Rightarrow> ('k, 'v) odict \<Rightarrow> ('k, 'v) odict" where
  "od_pop k d \<equiv> AList.delete k d"

abbreviation od_wf :: "('k, 'v) odict \<Rightarrow> bool" where
  "od_wf d \<equiv> distinct (od_keys d)"

definition od_move_to_end :: "'k \<Rightarrow> ('k, 'v) odict \<Rightarrow> ('k, 'v) odict" where
  "od_move_to_end k d =
     (case od_get d k of None \<Rightarrow> d | Some v \<Rightarrow> od_pop k d @ [(k, v)])"

lemma od_get_set [odict_simps]: "od_get (od_set k v d) k' = (if k' = k then Some v else od_get d k')"
  by (simp add: update_conv')

lemma od_get_pop [odict_simps]: "od_get (od_pop k d) k' = (if k' = k then None else od_get d k')"
  by (simp add: delete_conv')

lemma od_keys_pop [odict_simps]: "od_keys (od_pop k d) = filter (\<lambda>k'. k' \<noteq> k) (od_keys d)"
  by (induction d) auto

lemma od_wf_pop [odict_simps, intro]: "od_wf d \<Longrightarrow> od_wf (od_pop k d)"
  by (simp add: od_keys_pop)

lemma od_wf_set [odict_simps, intro]: "od_wf d \<Longrightarrow> od_wf (od_set k v d)"
  by (rule distinct_update)

lemma od_set_fresh: "od_get d k = None \<Longrightarrow> od_set k v d = d @ [(k, v)]"
  by (induction d) (auto split: if_splits)

lemma od_get_None_iff: "od_get d k = None \<longleftrightarrow> k \<notin> set (od_keys d)"
  by (simp add: map_of_eq_None_iff image_def)

lemma od_pop_absent: "od_get d k = None \<Longrightarrow> od_pop k d = d"
  by (induction d) (auto split: if_splits)

lemma od_get_move_to_end [odict_simps]: "od_get (od_move_to_end k d) k' = od_get d k'"
  by (auto simp: od_move_to_end_def od_get_pop map_add_def split: option.splits)

lemma od_set_iff: "od_wf d \<Longrightarrow> (k, v) \<in> set d \<longleftrightarrow> od_get d k = Some v"
  by (simp add: map_of_eq_Some_iff)

lemma od_wf_append_fresh [odict_simps]: "od_wf (d @ [(k, v)]) \<longleftrightarrow> od_wf d \<and> od_get d k = None"
  by (auto simp: od_get_None_iff)

lemma od_move_to_end_wf [odict_simps, intro]: "od_wf d \<Longrightarrow> od_wf (od_move_to_end k d)"
  by (auto simp: od_move_to_end_def od_keys_pop split: option.splits)

section \<open>Sums over the values of a dictionary\<close>

definition od_sum :: "('v \<Rightarrow> int) \<Rightarrow> ('k, 'v) odict \<Rightarrow> int" where
  "od_sum f d = sum_list (map (\<lambda>(k, v). f v) d)"

lemma od_sum_Nil [simp]: "od_sum f [] = 0"
  by (simp add: od_sum_def)

lemma od_sum_Cons [simp]: "od_sum f ((k, v) # d) = f v + od_sum f d"
  by (simp add: od_sum_def)

lemma od_sum_append [simp]: "od_sum f (d @ e) = od_sum f d + od_sum f e"
  by (simp add: od_sum_def)

lemma od_sum_nonneg: "(\<And>k v. (k, v) \<in> set d \<Longrightarrow> 0 \<le> f v) \<Longrightarrow> 0 \<le> od_sum f d"
  by (induction d) (fastforce intro: add_nonneg_nonneg)+

lemma od_sum_zero: "(\<And>k v. (k, v) \<in> set d \<Longrightarrow> f v = 0) \<Longrightarrow> od_sum f d = 0"
  by (induction d) fastforce+

lemma od_sum_pop:
  "od_wf d \<Longrightarrow> od_sum f (od_pop k d) = od_sum f d - (case od_get d k of None \<Rightarrow> 0 | Some v \<Rightarrow> f v)"
proof (induction d)
  case Nil
  then show ?case by simp
next
  case (Cons p d)
  obtain a b where p: "p = (a, b)" by (cases p)
  show ?case
  proof (cases "a = k")
    case True
    with Cons.prems p have "od_get d k = None" by (simp add: od_get_None_iff)
    with True p show ?thesis by (simp add: od_pop_absent)
  next
    case False
    with Cons p show ?thesis by simp
  qed
qed

lemma od_sum_set:
  "od_wf d \<Longrightarrow> od_sum f (od_set k v d) =
     od_sum f d - (case od_get d k of None \<Rightarrow> 0 | Some w \<Rightarrow> f w) + f v"
proof (induction d)
  case Nil
  then show ?case by simp
next
  case (Cons p d)
  then show ?case by (cases p) auto
qed

lemma od_sum_get_le:
  assumes "od_wf d" "od_get d k = Some v" "\<And>k v. (k, v) \<in> set d \<Longrightarrow> 0 \<le> f v"
  shows "f v \<le> od_sum f d"
proof -
  have "0 \<le> od_sum f (od_pop k d)"
    using assms(3) by (intro od_sum_nonneg) (auto simp: AList.delete_eq)
  with assms(1,2) show ?thesis by (simp add: od_sum_pop)
qed

lemma od_sum_move_to_end [odict_simps]: "od_wf d \<Longrightarrow> od_sum f (od_move_to_end k d) = od_sum f d"
  by (auto simp: od_move_to_end_def od_sum_pop split: option.splits)

section \<open>Bounded deques\<close>

definition keep_last :: "nat \<Rightarrow> 'a list \<Rightarrow> 'a list" where
  "keep_last n xs = drop (length xs - n) xs"

definition deque_append :: "nat \<Rightarrow> 'a list \<Rightarrow> 'a \<Rightarrow> 'a list" where
  "deque_append n xs x = keep_last n (xs @ [x])"

lemma length_keep_last [simp]: "length (keep_last n xs) = min n (length xs)"
  by (simp add: keep_last_def)

lemma keep_last_short [simp]: "length xs \<le> n \<Longrightarrow> keep_last n xs = xs"
  by (simp add: keep_last_def)

lemma set_keep_last: "set (keep_last n xs) \<subseteq> set xs"
  by (simp add: keep_last_def set_drop_subset)

lemma deque_append_nonempty [simp]: "0 < n \<Longrightarrow> deque_append n xs x \<noteq> []"
  by (simp add: deque_append_def keep_last_def)

lemma deque_append_full:
  "length (y # ys) = n \<Longrightarrow> deque_append n (y # ys) x = ys @ [x]"
  by (auto simp: deque_append_def keep_last_def)

lemma deque_append_room: "length xs < n \<Longrightarrow> deque_append n xs x = xs @ [x]"
  by (simp add: deque_append_def)

section \<open>Key-value stores\<close>

text \<open>
  The interface of a key-value store: its lookup after an assignment and after a deletion,
  for stores that satisfy the well-formedness \<open>ok\<close>, which both operations keep.
\<close>

locale kv_store =
  fixes lookup :: "'s \<Rightarrow> 'k \<Rightarrow> 'v option"
    and put :: "'k \<Rightarrow> 'v \<Rightarrow> 's \<Rightarrow> 's"
    and remove :: "'k \<Rightarrow> 's \<Rightarrow> 's"
    and ok :: "'s \<Rightarrow> bool"
  assumes lookup_put: "ok s \<Longrightarrow> lookup (put k v s) k' = (if k' = k then Some v else lookup s k')"
    and lookup_remove: "ok s \<Longrightarrow> lookup (remove k s) k' = (if k' = k then None else lookup s k')"
    and ok_put: "ok s \<Longrightarrow> ok (put k v s)"
    and ok_remove: "ok s \<Longrightarrow> ok (remove k s)"
begin

lemma lookup_fold_remove:
  "ok s \<Longrightarrow> lookup (fold remove ks s) k = (if k \<in> set ks then None else lookup s k)"
  by (induction ks arbitrary: s) (auto simp: lookup_remove ok_remove)

lemma ok_fold_remove: "ok s \<Longrightarrow> ok (fold remove ks s)"
  by (induction ks arbitrary: s) (auto simp: ok_remove)

lemma put_shadows: "ok s \<Longrightarrow> lookup (put k v (put k w s)) k' = lookup (put k v s) k'"
  by (simp add: lookup_put ok_put)

end

interpretation odict: kv_store map_of AList.update AList.delete "\<lambda>d. distinct (map fst d)"
  by unfold_locales (simp_all add: od_get_set od_get_pop od_wf_set od_wf_pop)

section \<open>Strings\<close>

text \<open>
  \<open>split_char c s\<close> is \<open>s.split(c)\<close> for a one-character separator: it is never empty and
  keeps empty parts.
\<close>

fun split_char :: "char \<Rightarrow> string \<Rightarrow> string list" where
  "split_char c [] = [[]]"
| "split_char c (x # xs) =
     (if x = c then [] # split_char c xs
      else (case split_char c xs of [] \<Rightarrow> [[x]] | p # ps \<Rightarrow> (x # p) # ps))"

lemma split_char_nonempty [simp]: "split_char c s \<noteq> []"
  by (induction s) (auto split: list.splits)

lemma split_char_parts: "p \<in> set (split_char c s) \<Longrightarrow> c \<notin> set p"
  by (induction s arbitrary: p) (force split: if_splits list.splits)+

fun join_char :: "char \<Rightarrow> string list \<Rightarrow> string" where
  "join_char c [] = []"
| "join_char c [p] = p"
| "join_char c (p # q # ps) = p @ c # join_char c (q # ps)"

lemma join_split: "join_char c (split_char c s) = s"
proof (induction s)
  case Nil
  then show ?case by simp
next
  case (Cons x xs)
  obtain p ps where s: "split_char c xs = p # ps" by (cases "split_char c xs") simp_all
  with Cons show ?case by (cases ps) auto
qed

text \<open>\<open>str()\<close> of a number.\<close>

fun decimal_digits :: "nat \<Rightarrow> string \<Rightarrow> string" where
  "decimal_digits n acc =
     (let acc' = char_of (48 + n mod 10) # acc
      in if n < 10 then acc' else decimal_digits (n div 10) acc')"

declare decimal_digits.simps [simp del]

definition decimal :: "nat \<Rightarrow> string" where
  "decimal n = decimal_digits n []"

definition int_str :: "int \<Rightarrow> string" where
  "int_str i = (if i < 0 then CHR ''-'' # decimal (nat (- i)) else decimal (nat i))"

end
