(* ===== verification/RunCacheLru.thy ===== *)
theory RunCacheLru
  imports Prelude
begin

text \<open>
  The process-wide budget of the calculation run caches
  (\<open>src/general_manager/cache/run_context_lru.py\<close>, class \<open>ProcessRunContextCacheBudget\<close>).

  State: the record \<open>budget\<close> has one field per attribute of the class. \<open>_entries\<close> and
  \<open>_calibration_history\<close> are \<open>OrderedDict\<close>s, \<open>_strata\<close> is a dict: all three are ordered
  dictionaries of the prelude. Byte counts are Python integers (\<open>int\<close>). An owner is an object:
  its \<open>id()\<close> and an incarnation number that tells two objects apart whose \<open>id()\<close> was
  reused. A weak reference is the owner it points to together with the list \<open>live\<close> of
  owners that have not been collected. Calls of \<open>owner._evict_run_cache_entry\<close> are
  appended to \<open>evict_log\<close>.

  An \<open>assert\<close> that fails and a \<open>KeyError\<close> on \<open>_strata\<close> are \<open>None\<close>; everything else is
  \<open>Some\<close> of the new state. The sizes of Python objects are inputs of the model: the signal
  of an entry is computed by \<open>admission_signal\<close> from a description of the object, the deep
  estimate is an argument. Each operation that runs under the coordinator's lock is one
  atomic definition; \<open>track\<close> is split where the code leaves the lock to estimate a size.
\<close>

section \<open>Constants and keys\<close>

abbreviation MIN_TRACKED_ENTRY_BYTES :: int where "MIN_TRACKED_ENTRY_BYTES \<equiv> 256"
abbreviation RUN_CONTEXT_CALIBRATION_INTERVAL :: int where "RUN_CONTEXT_CALIBRATION_INTERVAL \<equiv> 256"
abbreviation RUN_CONTEXT_CALIBRATION_WINDOW :: nat where "RUN_CONTEXT_CALIBRATION_WINDOW \<equiv> 8"
abbreviation RUN_CONTEXT_CALIBRATION_HISTORY_LIMIT :: nat where
  "RUN_CONTEXT_CALIBRATION_HISTORY_LIMIT \<equiv> 256"
abbreviation RUN_CONTEXT_TRACK_MAX_REESTIMATES :: nat where "RUN_CONTEXT_TRACK_MAX_REESTIMATES \<equiv> 3"
abbreviation RUN_CONTEXT_RECENCY_ENABLE_PERCENT :: int where "RUN_CONTEXT_RECENCY_ENABLE_PERCENT \<equiv> 80"
abbreviation RUN_CONTEXT_RECENCY_DISABLE_PERCENT :: int where "RUN_CONTEXT_RECENCY_DISABLE_PERCENT \<equiv> 70"

datatype run_namespace = Values | DependencyHits

datatype storage_family = FDict | FList | FTuple | FSet | FFrozenset | FInstanceDict | FSlots
  | FShallowLeaf | FOpaque

datatype owner = Owner (ow_id: nat) (ow_incarnation: nat)

type_synonym cache_key = string
type_synonym stratum_key = "run_namespace \<times> storage_family \<times> int"
type_synonym tracked_key = "nat \<times> run_namespace \<times> cache_key"
type_synonym calibration_pair = "int \<times> int"

record tracked_entry =
  te_owner :: owner
  te_namespace :: run_namespace
  te_key :: cache_key
  te_exact :: int
  te_stratum :: "stratum_key option"
  te_shallow :: int

record stratum_state =
  ss_count :: int
  ss_shallow_total :: int
  ss_admissions :: int
  ss_samples :: "calibration_pair list"
  ss_sampled_shallow :: int
  ss_sampled_residual :: int

record calibration_metadata =
  cm_admissions :: int
  cm_samples :: "calibration_pair list"

record admission_signal =
  sg_stratum :: "stratum_key option"
  sg_shallow :: int
  sg_exact :: "int option"

type_synonym mode_publication = "owner list \<times> bool \<times> bool \<times> int"

record budget =
  owners :: "owner list"
  live :: "owner list"
  owner_refs :: "(nat, owner) odict"
  entries :: "(tracked_key, tracked_entry) odict"
  strata :: "(stratum_key, stratum_state) odict"
  history :: "(stratum_key, calibration_metadata) odict"
  mru_key :: "tracked_key option"
  exact_total :: int
  total_bytes :: int
  max_bytes :: "int option"
  config_gen :: int
  next_gen :: int
  lifecycle_gens :: "(nat, int) odict"
  attempt_gens :: "(tracked_key, int) odict"
  recency_enabled :: bool
  mode_gen :: int
  published_modes :: "(bool \<times> bool) option"
  publications :: "mode_publication list"
  evict_log :: "(owner \<times> run_namespace \<times> cache_key) list"

definition init_budget :: budget where
  "init_budget = \<lparr>owners = [], live = [], owner_refs = [], entries = [], strata = [],
     history = [], mru_key = None, exact_total = 0, total_bytes = 0, max_bytes = None,
     config_gen = 0, next_gen = 0, lifecycle_gens = [], attempt_gens = [],
     recency_enabled = False, mode_gen = 0, published_modes = None, publications = [],
     evict_log = []\<rparr>"

section \<open>Strata: the sampled size model\<close>

definition eviction_target :: "int \<Rightarrow> int" where
  "eviction_target m = m * 95 div 100"

definition should_calibrate_next :: "int \<Rightarrow> bool" where
  "should_calibrate_next admissions \<longleftrightarrow>
     admissions = 0 \<or> (admissions + 1) mod RUN_CONTEXT_CALIBRATION_INTERVAL = 0"

definition residual :: "calibration_pair \<Rightarrow> int" where
  "residual p = max 0 (snd p - MIN_TRACKED_ENTRY_BYTES)"

definition new_stratum :: "int \<Rightarrow> calibration_pair list \<Rightarrow> stratum_state" where
  "new_stratum admissions samples =
     (let kept = keep_last RUN_CONTEXT_CALIBRATION_WINDOW samples in
      \<lparr>ss_count = 0, ss_shallow_total = 0, ss_admissions = admissions, ss_samples = kept,
       ss_sampled_shallow = sum_list (map fst kept),
       ss_sampled_residual = sum_list (map residual kept)\<rparr>)"

text \<open>The ceiling division both size formulas share.\<close>

definition projected_residual :: "int \<Rightarrow> stratum_state \<Rightarrow> int" where
  "projected_residual shallow st =
     (shallow * ss_sampled_residual st + max 1 (ss_sampled_shallow st) - 1)
       div max 1 (ss_sampled_shallow st)"

definition modeled_bytes :: "stratum_state \<Rightarrow> int option" where
  "modeled_bytes st =
     (if ss_count st = 0 then Some 0
      else if ss_samples st = [] then None
      else Some (ss_count st * MIN_TRACKED_ENTRY_BYTES
                 + projected_residual (ss_shallow_total st) st))"

section \<open>Accounting\<close>

definition refresh_mru :: "budget \<Rightarrow> budget" where
  "refresh_mru s =
     s\<lparr>mru_key := (if entries s = [] then None else Some (fst (last (entries s))))\<rparr>"

definition add_entry_accounting :: "tracked_key \<Rightarrow> tracked_entry \<Rightarrow> budget \<Rightarrow> budget option" where
  "add_entry_accounting tk e s =
     (if od_get (entries s) tk \<noteq> None then None
      else let s1 = s\<lparr>entries := entries s @ [(tk, e)]\<rparr> in
        case te_stratum e of
          None \<Rightarrow> Some (s1\<lparr>exact_total := exact_total s1 + te_exact e,
                          total_bytes := total_bytes s1 + te_exact e\<rparr>)
        | Some k \<Rightarrow> do {
            st \<leftarrow> od_get (strata s1) k;
            old \<leftarrow> modeled_bytes st;
            let st' = st\<lparr>ss_count := ss_count st + 1,
                         ss_shallow_total := ss_shallow_total st + te_shallow e\<rparr>;
            new \<leftarrow> modeled_bytes st';
            Some (s1\<lparr>strata := od_set k st' (strata s1),
                     total_bytes := total_bytes s1 + (new - old)\<rparr>)
          })"

definition retain_calibration :: "stratum_key \<Rightarrow> stratum_state \<Rightarrow> budget \<Rightarrow> budget" where
  "retain_calibration k st s =
     (if ss_samples st = [] then s
      else let h = od_set k \<lparr>cm_admissions = ss_admissions st, cm_samples = ss_samples st\<rparr>
                     (history s);
               h' = od_move_to_end k h
           in s\<lparr>history := keep_last RUN_CONTEXT_CALIBRATION_HISTORY_LIMIT h'\<rparr>)"

definition remove_entry_accounting :: "tracked_key \<Rightarrow> budget \<Rightarrow> budget option" where
  "remove_entry_accounting tk s =
     (case od_get (entries s) tk of
        None \<Rightarrow> Some s
      | Some e \<Rightarrow>
          let s1 = s\<lparr>entries := od_pop tk (entries s)\<rparr>;
              s2 = (if mru_key s1 = Some tk then refresh_mru s1 else s1)
          in do {
            s3 \<leftarrow> (case te_stratum e of
                None \<Rightarrow> Some (s2\<lparr>exact_total := exact_total s2 - te_exact e,
                                total_bytes := total_bytes s2 - te_exact e\<rparr>)
              | Some k \<Rightarrow> do {
                  st \<leftarrow> od_get (strata s2) k;
                  old \<leftarrow> modeled_bytes st;
                  let st' = st\<lparr>ss_count := ss_count st - 1,
                               ss_shallow_total := ss_shallow_total st - te_shallow e\<rparr>;
                  if ss_count st' = 0
                  then let s4 = retain_calibration k st' (s2\<lparr>strata := od_pop k (strata s2)\<rparr>)
                       in Some (s4\<lparr>total_bytes := total_bytes s4 + (0 - old)\<rparr>)
                  else do {
                    new \<leftarrow> modeled_bytes st';
                    Some (s2\<lparr>strata := od_set k st' (strata s2),
                             total_bytes := total_bytes s2 + (new - old)\<rparr>)
                  }
                });
            if 0 \<le> exact_total s3 \<and> 0 \<le> total_bytes s3 then Some s3 else None
          })"

definition activate_stratum :: "stratum_key \<Rightarrow> budget \<Rightarrow> budget" where
  "activate_stratum k s =
     (case od_get (strata s) k of
        Some st \<Rightarrow> s
      | None \<Rightarrow>
          (case od_get (history s) k of
             None \<Rightarrow> s\<lparr>strata := od_set k (new_stratum 0 []) (strata s)\<rparr>
           | Some m \<Rightarrow> s\<lparr>history := od_pop k (history s),
                         strata := od_set k (new_stratum (cm_admissions m) (cm_samples m))
                                     (strata s)\<rparr>))"

definition publish_calibration :: "stratum_key \<Rightarrow> int \<Rightarrow> int \<Rightarrow> budget \<Rightarrow> budget option" where
  "publish_calibration k shallow estimated s =
     (let st0 = (case od_get (strata s) k of Some st \<Rightarrow> st | None \<Rightarrow> new_stratum 0 []) in do {
        old \<leftarrow> modeled_bytes st0;
        let st1 = (case ss_samples st0 of
            [] \<Rightarrow> st0
          | p # ps \<Rightarrow>
              (if length (p # ps) = RUN_CONTEXT_CALIBRATION_WINDOW
               then st0\<lparr>ss_sampled_shallow := ss_sampled_shallow st0 - fst p,
                        ss_sampled_residual := ss_sampled_residual st0 - residual p\<rparr>
               else st0));
        let st2 = st1\<lparr>ss_samples :=
              deque_append RUN_CONTEXT_CALIBRATION_WINDOW (ss_samples st1) (shallow, estimated),
            ss_sampled_shallow := ss_sampled_shallow st1 + shallow,
            ss_sampled_residual := ss_sampled_residual st1 + residual (shallow, estimated)\<rparr>;
        new \<leftarrow> modeled_bytes st2;
        Some (s\<lparr>strata := od_set k st2 (strata s),
                total_bytes := total_bytes s + (new - old)\<rparr>)
      })"

definition modeled_entry_bytes :: "tracked_entry \<Rightarrow> budget \<Rightarrow> int option" where
  "modeled_entry_bytes e s =
     (case te_stratum e of
        None \<Rightarrow> Some (te_exact e)
      | Some k \<Rightarrow> do {
          st \<leftarrow> od_get (strata s) k;
          Some (MIN_TRACKED_ENTRY_BYTES + projected_residual (te_shallow e) st)
        })"

section \<open>The accounting invariant\<close>

definition modeled :: "stratum_state \<Rightarrow> int" where
  "modeled st =
     (if ss_count st = 0 then 0
      else ss_count st * MIN_TRACKED_ENTRY_BYTES + projected_residual (ss_shallow_total st) st)"

definition members :: "stratum_key \<Rightarrow> (tracked_key, tracked_entry) odict \<Rightarrow> int" where
  "members k es = od_sum (\<lambda>e. if te_stratum e = Some k then 1 else 0) es"

definition member_shallow :: "stratum_key \<Rightarrow> (tracked_key, tracked_entry) odict \<Rightarrow> int" where
  "member_shallow k es = od_sum (\<lambda>e. if te_stratum e = Some k then te_shallow e else 0) es"

definition exact_sum :: "(tracked_key, tracked_entry) odict \<Rightarrow> int" where
  "exact_sum es = od_sum (\<lambda>e. if te_stratum e = None then te_exact e else 0) es"

definition entry_ok :: "tracked_entry \<Rightarrow> bool" where
  "entry_ok e \<longleftrightarrow> (case te_stratum e of
     None \<Rightarrow> MIN_TRACKED_ENTRY_BYTES \<le> te_exact e | Some k \<Rightarrow> 1 \<le> te_shallow e)"

definition samples_ok :: "calibration_pair list \<Rightarrow> bool" where
  "samples_ok ps \<longleftrightarrow> length ps \<le> RUN_CONTEXT_CALIBRATION_WINDOW \<and> (\<forall>p\<in>set ps. 1 \<le> fst p)"

definition stratum_ok :: "stratum_state \<Rightarrow> bool" where
  "stratum_ok st \<longleftrightarrow> samples_ok (ss_samples st)
     \<and> ss_sampled_shallow st = sum_list (map fst (ss_samples st))
     \<and> ss_sampled_residual st = sum_list (map residual (ss_samples st))
     \<and> 0 \<le> ss_admissions st
     \<and> (ss_samples st = [] \<longrightarrow> ss_count st = 0 \<and> ss_admissions st = 0)"

definition acct_inv :: "budget \<Rightarrow> bool" where
  "acct_inv s \<longleftrightarrow>
     od_wf (entries s) \<and> od_wf (strata s) \<and> od_wf (history s)
     \<and> (\<forall>tk e. od_get (entries s) tk = Some e \<longrightarrow> entry_ok e)
     \<and> (\<forall>tk e k. od_get (entries s) tk = Some e \<longrightarrow> te_stratum e = Some k
          \<longrightarrow> od_get (strata s) k \<noteq> None)
     \<and> (\<forall>k st. od_get (strata s) k = Some st \<longrightarrow> stratum_ok st
          \<and> ss_count st = members k (entries s)
          \<and> ss_shallow_total st = member_shallow k (entries s))
     \<and> (\<forall>k m. od_get (history s) k = Some m \<longrightarrow>
          samples_ok (cm_samples m) \<and> cm_samples m \<noteq> [] \<and> 0 \<le> cm_admissions m)
     \<and> length (history s) \<le> RUN_CONTEXT_CALIBRATION_HISTORY_LIMIT
     \<and> exact_total s = exact_sum (entries s)
     \<and> total_bytes s = exact_total s + od_sum modeled (strata s)"

text \<open>Between two critical sections every stratum has a member and the mru key is the last entry.\<close>

definition settled :: "budget \<Rightarrow> bool" where
  "settled s \<longleftrightarrow> (\<forall>k st. od_get (strata s) k = Some st \<longrightarrow> 1 \<le> ss_count st)
     \<and> mru_key s = (if entries s = [] then None else Some (fst (last (entries s))))"

named_theorems acct_defs
declare members_def [acct_defs] member_shallow_def [acct_defs] exact_sum_def [acct_defs]

subsection \<open>Facts on the size model\<close>

lemma residual_nonneg [simp]: "0 \<le> residual p"
  by (simp add: residual_def)

lemma sum_residual_nonneg [simp]: "0 \<le> sum_list (map residual ps)"
  by (induction ps) simp_all

lemma projected_residual_nonneg:
  assumes "0 \<le> shallow" "0 \<le> ss_sampled_residual st"
  shows "0 \<le> projected_residual shallow st"
proof -
  from assms have "0 \<le> shallow * ss_sampled_residual st" by simp
  then have "0 \<le> shallow * ss_sampled_residual st + max 1 (ss_sampled_shallow st) - 1" by linarith
  then show ?thesis by (simp add: projected_residual_def pos_imp_zdiv_nonneg_iff)
qed

lemma projected_residual_mono:
  assumes "a \<le> b" "0 \<le> ss_sampled_residual st"
  shows "projected_residual a st \<le> projected_residual b st"
proof -
  from assms have "a * ss_sampled_residual st \<le> b * ss_sampled_residual st"
    by (rule mult_right_mono)
  then show ?thesis unfolding projected_residual_def by (intro zdiv_mono1) auto
qed

lemma modeled_bytes_Some:
  "ss_samples st \<noteq> [] \<or> ss_count st = 0 \<Longrightarrow> modeled_bytes st = Some (modeled st)"
  by (auto simp: modeled_bytes_def modeled_def)

lemma modeled_bytes_eqD: "modeled_bytes st = Some b \<Longrightarrow> b = modeled st"
  by (auto simp: modeled_bytes_def modeled_def split: if_splits)

lemma stratum_ok_residual: "stratum_ok st \<Longrightarrow> 0 \<le> ss_sampled_residual st"
  by (simp add: stratum_ok_def)

lemma modeled_nonneg:
  "stratum_ok st \<Longrightarrow> 0 \<le> ss_count st \<Longrightarrow> 0 \<le> ss_shallow_total st \<Longrightarrow> 0 \<le> modeled st"
  by (simp add: modeled_def projected_residual_nonneg stratum_ok_residual)

subsection \<open>The parts of the invariant\<close>

lemma acct_wf:
  assumes "acct_inv s"
  shows "od_wf (entries s)" "od_wf (strata s)" "od_wf (history s)"
    "length (history s) \<le> RUN_CONTEXT_CALIBRATION_HISTORY_LIMIT"
    "exact_total s = exact_sum (entries s)"
    "total_bytes s = exact_total s + od_sum modeled (strata s)"
  using assms unfolding acct_inv_def by blast+

lemma acct_entry: "acct_inv s \<Longrightarrow> od_get (entries s) tk = Some e \<Longrightarrow> entry_ok e"
  unfolding acct_inv_def by blast

lemma acct_entry_stratum:
  "acct_inv s \<Longrightarrow> od_get (entries s) tk = Some e \<Longrightarrow> te_stratum e = Some k
    \<Longrightarrow> \<exists>st. od_get (strata s) k = Some st"
  unfolding acct_inv_def by blast

lemma acct_history:
  "acct_inv s \<Longrightarrow> od_get (history s) k = Some m \<Longrightarrow>
     samples_ok (cm_samples m) \<and> cm_samples m \<noteq> [] \<and> 0 \<le> cm_admissions m"
  unfolding acct_inv_def by blast

lemma acct_set_entry: "acct_inv s \<Longrightarrow> (tk, e) \<in> set (entries s) \<Longrightarrow> entry_ok e"
  by (rule acct_entry [of s tk e]) (simp_all only: od_set_iff [OF acct_wf(1)])

lemma members_nonneg: "0 \<le> members k es"
  by (simp add: members_def od_sum_nonneg)

lemma member_shallow_nonneg:
  "(\<And>tk e. (tk, e) \<in> set es \<Longrightarrow> entry_ok e) \<Longrightarrow> 0 \<le> member_shallow k es"
  unfolding member_shallow_def by (intro od_sum_nonneg) (fastforce simp: entry_ok_def)

lemma exact_sum_nonneg:
  "(\<And>tk e. (tk, e) \<in> set es \<Longrightarrow> entry_ok e) \<Longrightarrow> 0 \<le> exact_sum es"
  unfolding exact_sum_def by (intro od_sum_nonneg) (fastforce simp: entry_ok_def)

lemma acct_stratum:
  assumes "acct_inv s" "od_get (strata s) k = Some st"
  shows "stratum_ok st" "ss_count st = members k (entries s)"
    "ss_shallow_total st = member_shallow k (entries s)"
  using assms unfolding acct_inv_def by blast+

lemma acct_stratum_nonneg:
  assumes "acct_inv s" "od_get (strata s) k = Some st"
  shows "0 \<le> ss_count st" "0 \<le> ss_shallow_total st" "0 \<le> modeled st"
proof -
  show 1: "0 \<le> ss_count st" using acct_stratum [OF assms] members_nonneg by simp
  show 2: "0 \<le> ss_shallow_total st"
    using acct_stratum [OF assms] member_shallow_nonneg [of "entries s" k]
      acct_set_entry [OF assms(1)] by simp
  show "0 \<le> modeled st" by (rule modeled_nonneg [OF acct_stratum(1) [OF assms] 1 2])
qed

lemma acct_strata_sum_nonneg: "acct_inv s \<Longrightarrow> 0 \<le> od_sum modeled (strata s)"
  by (rule od_sum_nonneg) (metis acct_stratum_nonneg(3) acct_wf(2) od_set_iff)

lemma acct_totals_nonneg: "acct_inv s \<Longrightarrow> 0 \<le> exact_total s \<and> 0 \<le> total_bytes s"
  using acct_strata_sum_nonneg [of s] exact_sum_nonneg [of "entries s"] acct_wf [of s]
    acct_set_entry [of s] by simp

lemma acct_invI:
  assumes "od_wf (entries s)" "od_wf (strata s)" "od_wf (history s)"
    "\<And>tk e. od_get (entries s) tk = Some e \<Longrightarrow> entry_ok e"
    "\<And>tk e k. od_get (entries s) tk = Some e \<Longrightarrow> te_stratum e = Some k
       \<Longrightarrow> od_get (strata s) k \<noteq> None"
    "\<And>k st. od_get (strata s) k = Some st \<Longrightarrow> stratum_ok st
       \<and> ss_count st = members k (entries s) \<and> ss_shallow_total st = member_shallow k (entries s)"
    "\<And>k m. od_get (history s) k = Some m \<Longrightarrow>
       samples_ok (cm_samples m) \<and> cm_samples m \<noteq> [] \<and> 0 \<le> cm_admissions m"
    "length (history s) \<le> RUN_CONTEXT_CALIBRATION_HISTORY_LIMIT"
    "exact_total s = exact_sum (entries s)"
    "total_bytes s = exact_total s + od_sum modeled (strata s)"
  shows "acct_inv s"
  using assms unfolding acct_inv_def by blast

subsection \<open>Adding an entry\<close>

text \<open>The fields that accounting never writes.\<close>

definition frame_of where
  "frame_of s = (owners s, live s, owner_refs s, max_bytes s, config_gen s, next_gen s,
     lifecycle_gens s, attempt_gens s, recency_enabled s, mode_gen s, published_modes s,
     publications s, evict_log s)"

lemma frame_fields:
  assumes "frame_of s' = frame_of s"
  shows "owners s' = owners s" "live s' = live s" "owner_refs s' = owner_refs s"
    "max_bytes s' = max_bytes s" "config_gen s' = config_gen s" "next_gen s' = next_gen s"
    "lifecycle_gens s' = lifecycle_gens s" "attempt_gens s' = attempt_gens s"
    "recency_enabled s' = recency_enabled s" "mode_gen s' = mode_gen s"
    "published_modes s' = published_modes s" "publications s' = publications s"
    "evict_log s' = evict_log s"
  using assms by (simp_all add: frame_of_def)

lemma frame_of_update [simp]:
  "frame_of (s\<lparr>entries := es\<rparr>) = frame_of s" "frame_of (s\<lparr>strata := ss\<rparr>) = frame_of s"
  "frame_of (s\<lparr>history := h\<rparr>) = frame_of s" "frame_of (s\<lparr>mru_key := m\<rparr>) = frame_of s"
  "frame_of (s\<lparr>exact_total := n\<rparr>) = frame_of s" "frame_of (s\<lparr>total_bytes := n\<rparr>) = frame_of s"
  by (simp_all add: frame_of_def)

lemma members_snoc [simp]:
  "members k (es @ [(tk, e)]) = members k es + (if te_stratum e = Some k then 1 else 0)"
  "member_shallow k (es @ [(tk, e)])
     = member_shallow k es + (if te_stratum e = Some k then te_shallow e else 0)"
  "exact_sum (es @ [(tk, e)]) = exact_sum es + (if te_stratum e = None then te_exact e else 0)"
  by (simp_all add: acct_defs)

lemma members_pop:
  assumes "od_wf es" "od_get es tk = Some e"
  shows "members k (od_pop tk es) = members k es - (if te_stratum e = Some k then 1 else 0)"
    "member_shallow k (od_pop tk es)
       = member_shallow k es - (if te_stratum e = Some k then te_shallow e else 0)"
    "exact_sum (od_pop tk es) = exact_sum es - (if te_stratum e = None then te_exact e else 0)"
  using assms by (simp_all add: acct_defs od_sum_pop)

lemma stratum_ok_count:
  "stratum_ok (st\<lparr>ss_count := n, ss_shallow_total := m\<rparr>)
     \<longleftrightarrow> stratum_ok (st\<lparr>ss_count := 0\<rparr>) \<and> (ss_samples st = [] \<longrightarrow> n = 0)"
  by (auto simp: stratum_ok_def)

lemma stratum_ok_count0: "stratum_ok st \<Longrightarrow> stratum_ok (st\<lparr>ss_count := 0\<rparr>)"
  by (auto simp: stratum_ok_def)

lemma od_get_snoc: "od_get d k = None \<Longrightarrow> od_get (d @ [(k, v)]) k' = (if k' = k then Some v else od_get d k')"
  by (auto simp: map_add_def split: option.splits)

lemma od_get_snocE:
  assumes "od_get (d @ [(k, v)]) k' = Some w" "od_get d k = None"
  obtains "k' = k" "w = v" | "od_get d k' = Some w"
  using assms by (auto simp: od_get_snoc split: if_splits)

lemma od_wf_snoc: "od_wf d \<Longrightarrow> od_get d k = None \<Longrightarrow> od_wf (d @ [(k, v)])"
  by (simp only: od_wf_append_fresh)

lemma add_entry_exact:
  assumes inv: "acct_inv s" and ok: "entry_ok e" and st: "te_stratum e = None"
    and add: "add_entry_accounting tk e s = Some s'"
  shows "acct_inv s'"
proof -
  from add st have fresh: "od_get (entries s) tk = None"
    and s': "s' = s\<lparr>entries := entries s @ [(tk, e)], exact_total := exact_total s + te_exact e,
      total_bytes := total_bytes s + te_exact e\<rparr>"
    by (auto simp: add_entry_accounting_def Let_def split: if_splits)
  show ?thesis
  proof (rule acct_invI)
    show "od_wf (entries s')" using acct_wf(1) [OF inv] fresh by (auto simp: s' od_get_None_iff)
    show "entry_ok e'" if "od_get (entries s') tk' = Some e'" for tk' e'
      using that fresh ok acct_entry [OF inv, of tk' e'] by (auto simp: s' od_get_snoc split: if_splits)
    show "od_get (strata s') k \<noteq> None"
      if "od_get (entries s') tk' = Some e'" "te_stratum e' = Some k" for tk' e' k
      using that fresh st acct_entry_stratum [OF inv, of tk' e' k] by (auto simp: s' od_get_snoc split: if_splits)
    show "stratum_ok st' \<and> ss_count st' = members k (entries s')
        \<and> ss_shallow_total st' = member_shallow k (entries s')"
      if "od_get (strata s') k = Some st'" for k st'
      using that st acct_stratum [OF inv, of k st'] by (simp add: s')
  qed (use inv st acct_history in \<open>auto simp: s' acct_wf\<close>)
qed

lemma add_entry_sampled:
  assumes inv: "acct_inv s" and ok: "entry_ok e" and st: "te_stratum e = Some k"
    and add: "add_entry_accounting tk e s = Some s'"
  shows "acct_inv s'"
proof -
  from add st obtain x old new where fresh: "od_get (entries s) tk = None"
    and x: "od_get (strata s) k = Some x"
    and old: "modeled_bytes x = Some old"
    and new: "modeled_bytes (x\<lparr>ss_count := ss_count x + 1,
        ss_shallow_total := ss_shallow_total x + te_shallow e\<rparr>) = Some new"
    and s'0: "s' = s\<lparr>entries := entries s @ [(tk, e)],
      strata := od_set k (x\<lparr>ss_count := ss_count x + 1,
        ss_shallow_total := ss_shallow_total x + te_shallow e\<rparr>) (strata s),
      total_bytes := total_bytes s + (new - old)\<rparr>"
    by (auto simp: add_entry_accounting_def Let_def Option.bind_eq_Some_conv split: if_splits)
  define y where "y = x\<lparr>ss_count := ss_count x + 1,
    ss_shallow_total := ss_shallow_total x + te_shallow e\<rparr>"
  note s' = s'0 [folded y_def]
  have count: "0 \<le> ss_count x" by (rule acct_stratum_nonneg [OF inv x])
  from new count have samples: "ss_samples x \<noteq> []" by (auto simp: modeled_bytes_def split: if_splits)
  have y: "stratum_ok y" "ss_count y = members k (entries s) + 1"
    "ss_shallow_total y = member_shallow k (entries s) + te_shallow e"
    using acct_stratum [OF inv x] samples by (auto simp: y_def stratum_ok_def)
  have tot: "old = modeled x" "new = modeled y"
    using modeled_bytes_eqD [OF old] modeled_bytes_eqD [OF new] by (simp_all add: y_def)
  show ?thesis
  proof (rule acct_invI)
    show "od_wf (entries s')" using acct_wf(1) [OF inv] fresh by (auto simp: s' od_get_None_iff)
    show "od_wf (strata s')" using inv by (simp add: s' od_wf_set acct_wf)
    show "entry_ok e'" if "od_get (entries s') tk' = Some e'" for tk' e'
      using that fresh ok acct_entry [OF inv, of tk' e'] by (auto simp: s' od_get_snoc split: if_splits)
    show "od_get (strata s') k' \<noteq> None"
      if "od_get (entries s') tk' = Some e'" "te_stratum e' = Some k'" for tk' e' k'
      using that fresh st acct_entry_stratum [OF inv, of tk' e' k']
      by (auto simp: s' od_get_snoc odict_simps split: if_splits)
    show "stratum_ok st' \<and> ss_count st' = members k' (entries s')
        \<and> ss_shallow_total st' = member_shallow k' (entries s')"
      if "od_get (strata s') k' = Some st'" for k' st'
      using that st y acct_stratum [OF inv, of k' st'] by (auto simp: s' odict_simps split: if_splits)
    show "total_bytes s' = exact_total s' + od_sum modeled (strata s')"
      using acct_wf(2,6) [OF inv] by (simp add: s' od_sum_set x tot)
  qed (use inv st acct_history in \<open>auto simp: s' acct_wf\<close>)
qed

lemma add_entry_frame:
  assumes "add_entry_accounting tk e s = Some s'"
  shows "frame_of s' = frame_of s" "entries s' = entries s @ [(tk, e)]" "history s' = history s"
    "mru_key s' = mru_key s"
    "od_get (strata s') k' = None \<longleftrightarrow> od_get (strata s) k' = None"
    "te_stratum e \<noteq> Some k' \<Longrightarrow> od_get (strata s') k' = od_get (strata s) k'"
  using assms by (auto simp: add_entry_accounting_def Let_def Option.bind_eq_Some_conv frame_of_def
      odict_simps split: if_splits option.splits)

lemma add_entry_inv:
  "acct_inv s \<Longrightarrow> entry_ok e \<Longrightarrow> add_entry_accounting tk e s = Some s' \<Longrightarrow> acct_inv s'"
  using add_entry_exact [of s e tk s'] add_entry_sampled [of s e _ tk s'] by (cases "te_stratum e") auto

subsection \<open>Removing an entry\<close>

lemma od_keys_set_other: "od_get d k \<noteq> None \<Longrightarrow> od_keys (od_set k v d) = od_keys d"
  by (induction d) (auto split: if_splits)

lemma length_od_pop: "od_wf d \<Longrightarrow> od_get d k = Some v \<Longrightarrow> length d = Suc (length (od_pop k d))"
proof (induction d)
  case (Cons p d)
  then show ?case by (cases p) (auto simp: od_pop_absent od_get_None_iff)
qed simp

lemma length_od_move_to_end [odict_simps]: "od_wf d \<Longrightarrow> length (od_move_to_end k d) = length d"
  by (auto simp: od_move_to_end_def length_od_pop split: option.splits)

lemma od_wf_keep_last: "od_wf d \<Longrightarrow> od_wf (keep_last n d)"
  by (simp add: keep_last_def drop_map [symmetric] distinct_drop)

lemma od_get_keep_last: "od_wf d \<Longrightarrow> od_get (keep_last n d) k = Some v \<Longrightarrow> od_get d k = Some v"
  using od_wf_keep_last [of d n] set_keep_last [of n d] by (auto simp: od_set_iff [symmetric])

lemma retain_calibration_fields [simp]:
  "entries (retain_calibration k st s) = entries s" "strata (retain_calibration k st s) = strata s"
  "exact_total (retain_calibration k st s) = exact_total s"
  "total_bytes (retain_calibration k st s) = total_bytes s"
  "mru_key (retain_calibration k st s) = mru_key s"
  "frame_of (retain_calibration k st s) = frame_of s"
  by (simp_all add: retain_calibration_def Let_def frame_of_def)

lemma retain_calibration_history:
  assumes "od_wf (history s)" "length (history s) \<le> RUN_CONTEXT_CALIBRATION_HISTORY_LIMIT"
    and "\<And>k m. od_get (history s) k = Some m \<Longrightarrow>
       samples_ok (cm_samples m) \<and> cm_samples m \<noteq> [] \<and> 0 \<le> cm_admissions m"
    and "stratum_ok st"
  shows "od_wf (history (retain_calibration k st s))"
    "length (history (retain_calibration k st s)) \<le> RUN_CONTEXT_CALIBRATION_HISTORY_LIMIT"
    "od_get (history (retain_calibration k st s)) k' = Some m \<Longrightarrow>
       samples_ok (cm_samples m) \<and> cm_samples m \<noteq> [] \<and> 0 \<le> cm_admissions m"
proof -
  let ?h = "od_set k \<lparr>cm_admissions = ss_admissions st, cm_samples = ss_samples st\<rparr> (history s)"
  have wf: "od_wf (od_move_to_end k ?h)" using assms(1) by (simp add: odict_simps)
  show "od_wf (history (retain_calibration k st s))"
    using assms(1) wf by (simp add: retain_calibration_def Let_def od_wf_keep_last)
  show "length (history (retain_calibration k st s)) \<le> RUN_CONTEXT_CALIBRATION_HISTORY_LIMIT"
    using assms(2) by (simp add: retain_calibration_def Let_def)
  assume m: "od_get (history (retain_calibration k st s)) k' = Some m"
  show "samples_ok (cm_samples m) \<and> cm_samples m \<noteq> [] \<and> 0 \<le> cm_admissions m"
  proof (cases "ss_samples st = []")
    case True
    with m assms(3) show ?thesis by (simp add: retain_calibration_def)
  next
    case False
    with m od_get_keep_last [OF wf] have "od_get ?h k' = Some m"
      by (simp add: retain_calibration_def Let_def odict_simps)
    with False assms(3,4) show ?thesis
      by (auto simp: odict_simps stratum_ok_def split: if_splits)
  qed
qed

text \<open>Removal on an invariant state always succeeds: neither assertion can fail.\<close>

definition without_entry :: "tracked_key \<Rightarrow> budget \<Rightarrow> budget" where
  "without_entry tk s =
     (let s1 = s\<lparr>entries := od_pop tk (entries s)\<rparr>
      in if mru_key s1 = Some tk then refresh_mru s1 else s1)"

lemma without_entry_fields [simp]:
  "entries (without_entry tk s) = od_pop tk (entries s)" "strata (without_entry tk s) = strata s"
  "history (without_entry tk s) = history s" "exact_total (without_entry tk s) = exact_total s"
  "total_bytes (without_entry tk s) = total_bytes s" "frame_of (without_entry tk s) = frame_of s"
  by (simp_all add: without_entry_def Let_def refresh_mru_def frame_of_def)

lemma remove_entry_unfold:
  "remove_entry_accounting tk s =
     (case od_get (entries s) tk of
        None \<Rightarrow> Some s
      | Some e \<Rightarrow> do {
          s3 \<leftarrow> (let s2 = without_entry tk s in case te_stratum e of
              None \<Rightarrow> Some (s2\<lparr>exact_total := exact_total s2 - te_exact e,
                              total_bytes := total_bytes s2 - te_exact e\<rparr>)
            | Some k \<Rightarrow> do {
                st \<leftarrow> od_get (strata s2) k;
                old \<leftarrow> modeled_bytes st;
                let st' = st\<lparr>ss_count := ss_count st - 1,
                             ss_shallow_total := ss_shallow_total st - te_shallow e\<rparr>;
                if ss_count st' = 0
                then let s4 = retain_calibration k st' (s2\<lparr>strata := od_pop k (strata s2)\<rparr>)
                     in Some (s4\<lparr>total_bytes := total_bytes s4 + (0 - old)\<rparr>)
                else do {
                  new \<leftarrow> modeled_bytes st';
                  Some (s2\<lparr>strata := od_set k st' (strata s2),
                           total_bytes := total_bytes s2 + (new - old)\<rparr>)
                }
              });
          if 0 \<le> exact_total s3 \<and> 0 \<le> total_bytes s3 then Some s3 else None
        })"
  by (simp add: remove_entry_accounting_def without_entry_def Let_def cong: option.case_cong)


text \<open>
  How the strata change when one stratum is written: the three patterns of the code are
  an update of \<open>k\<close>, a deletion of \<open>k\<close>, and no change.
\<close>

lemma acct_entry_pop:
  assumes "acct_inv s" "od_get (od_pop tk (entries s)) tk' = Some e'"
  shows "entry_ok e'" "te_stratum e' = Some k \<Longrightarrow> \<exists>st. od_get (strata s) k = Some st"
  using assms acct_entry [of s tk' e'] acct_entry_stratum [of s tk' e' k]
  by (auto simp: od_get_pop split: if_splits)

lemma members_zero:
  assumes "od_wf es" "members k es = 0" "od_get es tk = Some e"
  shows "te_stratum e \<noteq> Some k"
proof
  assume k: "te_stratum e = Some k"
  have "(if te_stratum e = Some k then 1 else 0 :: int) \<le> members k es"
    unfolding members_def by (rule od_sum_get_le [OF assms(1,3)]) simp
  with k assms(2) show False by simp
qed

lemma member_shallow_pop_nonneg: "acct_inv s \<Longrightarrow> 0 \<le> member_shallow k (od_pop tk (entries s))"
  by (rule member_shallow_nonneg) (use acct_set_entry [of s] in \<open>auto simp: AList.delete_eq\<close>)

lemma exact_sum_pop_nonneg: "acct_inv s \<Longrightarrow> 0 \<le> exact_sum (od_pop tk (entries s))"
  by (rule exact_sum_nonneg) (use acct_set_entry [of s] in \<open>auto simp: AList.delete_eq\<close>)

lemma acct_total_nonneg:
  assumes "acct_inv s"
  shows "0 \<le> exact_total s" "0 \<le> total_bytes s" "0 \<le> exact_total s \<and> 0 \<le> total_bytes s"
  using acct_totals_nonneg [OF assms] by simp_all

lemma remove_entry_exact:
  assumes inv: "acct_inv s" and e: "od_get (entries s) tk = Some e" and st: "te_stratum e = None"
  defines "s' \<equiv> (without_entry tk s)\<lparr>exact_total := exact_total s - te_exact e,
                    total_bytes := total_bytes s - te_exact e\<rparr>"
  shows "acct_inv s'" "remove_entry_accounting tk s = Some s'"
proof -
  show inv': "acct_inv s'"
  proof (rule acct_invI)
    show "entry_ok e'" if "od_get (entries s') tk' = Some e'" for tk' e'
      using that acct_entry_pop(1) [OF inv, of tk tk' e'] by (simp add: s'_def)
    show "od_get (strata s') k \<noteq> None"
      if "od_get (entries s') tk' = Some e'" "te_stratum e' = Some k" for tk' e' k
      using that acct_entry_pop(2) [OF inv, of tk tk' e' k] by (auto simp: s'_def)
    show "stratum_ok st' \<and> ss_count st' = members k (entries s')
        \<and> ss_shallow_total st' = member_shallow k (entries s')"
      if "od_get (strata s') k = Some st'" for k st'
      using that st acct_stratum [OF inv, of k st'] members_pop [OF acct_wf(1) [OF inv] e]
      by (simp add: s'_def)
    show "exact_total s' = exact_sum (entries s')"
      using members_pop(3) [OF acct_wf(1) [OF inv] e] acct_wf(5) [OF inv] st by (simp add: s'_def)
  qed (use inv acct_history [OF inv] in \<open>simp_all add: s'_def acct_wf od_wf_pop\<close>)
  show "remove_entry_accounting tk s = Some s'"
    using acct_total_nonneg [OF inv'] e st by (simp add: remove_entry_unfold Let_def s'_def)
qed

lemma remove_entry_last:
  assumes inv: "acct_inv s" and e: "od_get (entries s) tk = Some e" and k: "te_stratum e = Some k"
    and x: "od_get (strata s) k = Some x" and one: "ss_count x = 1"
  defines "y \<equiv> x\<lparr>ss_count := ss_count x - 1, ss_shallow_total := ss_shallow_total x - te_shallow e\<rparr>"
  defines "r \<equiv> retain_calibration k y ((without_entry tk s)\<lparr>strata := od_pop k (strata s)\<rparr>)"
  defines "s' \<equiv> r\<lparr>total_bytes := total_bytes s - modeled x\<rparr>"
  shows "acct_inv s'" "remove_entry_accounting tk s = Some s'"
proof -
  note wf = acct_wf [OF inv] and pop = members_pop [OF acct_wf(1) [OF inv] e]
  have ok: "stratum_ok x" and samples: "ss_samples x \<noteq> []"
    using acct_stratum(1) [OF inv x] one by (auto simp: stratum_ok_def)
  have y: "stratum_ok y" using ok one by (auto simp: y_def stratum_ok_def)
  have empty: "members k (od_pop tk (entries s)) = 0"
    using pop(1) [of k] k acct_stratum(2) [OF inv x] one by simp
  have f: "entries s' = od_pop tk (entries s)" "strata s' = od_pop k (strata s)"
    "exact_total s' = exact_total s" "history s' = history r"
    by (simp_all add: s'_def r_def)
  have hist: "od_wf (history r)" "length (history r) \<le> RUN_CONTEXT_CALIBRATION_HISTORY_LIMIT"
    "od_get (history r) k' = Some m \<Longrightarrow>
       samples_ok (cm_samples m) \<and> cm_samples m \<noteq> [] \<and> 0 \<le> cm_admissions m" for k' m
    using retain_calibration_history(1,2) [OF _ _ _ y, of "(without_entry tk s)\<lparr>strata := od_pop k (strata s)\<rparr>" k]
      retain_calibration_history(3) [OF _ _ _ y, of "(without_entry tk s)\<lparr>strata := od_pop k (strata s)\<rparr>" k k' m]
      wf acct_history [OF inv] by (simp_all add: r_def)
  show inv': "acct_inv s'"
  proof (rule acct_invI)
    show "entry_ok e'" if "od_get (entries s') tk' = Some e'" for tk' e'
      using that acct_entry_pop(1) [OF inv, of tk tk' e'] by (simp add: f)
    show "od_get (strata s') k' \<noteq> None"
      if "od_get (entries s') tk' = Some e'" "te_stratum e' = Some k'" for tk' e' k'
      using that acct_entry_pop(2) [OF inv, of tk tk' e' k'] members_zero [OF od_wf_pop [OF wf(1)] empty, of tk' e']
      by (auto simp: f odict_simps)
    show "stratum_ok st' \<and> ss_count st' = members k' (entries s')
        \<and> ss_shallow_total st' = member_shallow k' (entries s')"
      if "od_get (strata s') k' = Some st'" for k' st'
      using that k acct_stratum [OF inv, of k' st'] pop(1,2) by (auto simp: f od_get_pop split: if_splits)
    show "exact_total s' = exact_sum (entries s')" using pop(3) wf(5) k by (simp add: f)
    show "total_bytes s' = exact_total s' + od_sum modeled (strata s')"
      using wf(6) by (simp add: f od_sum_pop [OF wf(2)] x) (simp add: s'_def)
    show "od_wf (entries s')" "od_wf (strata s')" using wf by (simp_all add: f od_wf_pop)
  qed (use hist f in \<open>simp_all add: f\<close>)
  show "remove_entry_accounting tk s = Some s'"
    using acct_total_nonneg [OF inv'] e k x one samples
    by (simp add: remove_entry_unfold Let_def modeled_bytes_Some s'_def r_def y_def)
qed

lemma remove_entry_member:
  assumes inv: "acct_inv s" and e: "od_get (entries s) tk = Some e" and k: "te_stratum e = Some k"
    and x: "od_get (strata s) k = Some x" and more: "ss_count x \<noteq> 1"
  defines "y \<equiv> x\<lparr>ss_count := ss_count x - 1, ss_shallow_total := ss_shallow_total x - te_shallow e\<rparr>"
  defines "s' \<equiv> (without_entry tk s)\<lparr>strata := od_set k y (strata s),
                    total_bytes := total_bytes s + (modeled y - modeled x)\<rparr>"
  shows "acct_inv s'" "remove_entry_accounting tk s = Some s'"
    "modeled y \<le> modeled x" "1 \<le> ss_count y"
proof -
  note wf = acct_wf [OF inv] and pop = members_pop [OF acct_wf(1) [OF inv] e]
  have one: "1 \<le> ss_count x"
    using members_zero [OF wf(1) _ e, of k] k acct_stratum(2) [OF inv x] members_nonneg [of k "entries s"]
    by linarith
  then show y1: "1 \<le> ss_count y" using more by (simp add: y_def)
  have ok: "stratum_ok x" and samples: "ss_samples x \<noteq> []"
    using acct_stratum(1) [OF inv x] one by (auto simp: stratum_ok_def)
  have y: "stratum_ok y" "ss_count y = members k (od_pop tk (entries s))"
    "ss_shallow_total y = member_shallow k (od_pop tk (entries s))"
    using ok samples acct_stratum(2,3) [OF inv x] pop(1,2) k by (auto simp: y_def stratum_ok_def)
  have sh: "1 \<le> te_shallow e" using acct_entry [OF inv e] k by (simp add: entry_ok_def)
  have proj: "projected_residual a y = projected_residual a x" for a
    by (simp add: projected_residual_def y_def)
  show "modeled y \<le> modeled x"
    using projected_residual_mono [of "ss_shallow_total y" "ss_shallow_total x" x] stratum_ok_residual [OF ok]
      one more sh by (simp add: modeled_def proj) (simp add: y_def)
  have f: "entries s' = od_pop tk (entries s)" "strata s' = od_set k y (strata s)"
    "exact_total s' = exact_total s" "history s' = history s"
    by (simp_all add: s'_def)
  show inv': "acct_inv s'"
  proof (rule acct_invI)
    show "entry_ok e'" if "od_get (entries s') tk' = Some e'" for tk' e'
      using that acct_entry_pop(1) [OF inv, of tk tk' e'] by (simp add: f)
    show "od_get (strata s') k' \<noteq> None"
      if "od_get (entries s') tk' = Some e'" "te_stratum e' = Some k'" for tk' e' k'
      using that acct_entry_pop(2) [OF inv, of tk tk' e' k'] by (auto simp: f odict_simps)
    show "stratum_ok st' \<and> ss_count st' = members k' (entries s')
        \<and> ss_shallow_total st' = member_shallow k' (entries s')"
      if "od_get (strata s') k' = Some st'" for k' st'
      using that k y acct_stratum [OF inv, of k' st'] pop(1,2) by (auto simp: f od_get_set split: if_splits)
    show "exact_total s' = exact_sum (entries s')" using pop(3) wf(5) k by (simp add: f)
    show "total_bytes s' = exact_total s' + od_sum modeled (strata s')"
      using wf(6) by (simp add: f od_sum_set [OF wf(2)] x) (simp add: s'_def)
    show "od_wf (entries s')" "od_wf (strata s')" using wf by (simp_all add: f od_wf_pop od_wf_set)
  qed (use wf acct_history [OF inv] in \<open>simp_all add: f\<close>)
  show "remove_entry_accounting tk s = Some s'"
    using acct_total_nonneg [OF inv'] e k x more samples y1
    by (simp add: remove_entry_unfold Let_def modeled_bytes_Some s'_def y_def)
qed

lemma remove_entry_mru:
  assumes "od_wf (entries s)"
    and "mru_key s = (if entries s = [] then None else Some (fst (last (entries s))))"
  shows "mru_key (without_entry tk s)
    = (let es = od_pop tk (entries s) in if es = [] then None else Some (fst (last es)))"
proof (cases "mru_key s = Some tk")
  case True
  then show ?thesis by (simp add: without_entry_def Let_def refresh_mru_def)
next
  case False
  show ?thesis
  proof (cases "entries s" rule: rev_exhaust)
    case Nil
    with assms False show ?thesis by (simp add: without_entry_def Let_def)
  next
    case (snoc es p)
    with assms(2) False have "fst p \<noteq> tk" by simp
    with assms(2) False snoc show ?thesis
      by (cases p) (simp add: without_entry_def Let_def AList.delete_eq)
  qed
qed

text \<open>
  Removing a key from an invariant state never fails an assertion; it deletes exactly that
  entry, keeps the invariant and the settled form, and never increases the total.
\<close>

lemma remove_entry_works:
  assumes inv: "acct_inv s"
  obtains s' where "remove_entry_accounting tk s = Some s'" "acct_inv s'"
    "entries s' = od_pop tk (entries s)" "frame_of s' = frame_of s"
    "total_bytes s' \<le> total_bytes s"
    "settled s \<Longrightarrow> settled s'"
proof (cases "od_get (entries s) tk")
  case None
  then show thesis
    using that [of s] inv by (simp add: remove_entry_accounting_def od_pop_absent)
next
  case (Some e)
  note mru = remove_entry_mru [OF acct_wf(1) [OF inv], of tk]
  show thesis
  proof (cases "te_stratum e")
    case None
    from acct_entry [OF inv Some] None have "0 \<le> te_exact e" by (simp add: entry_ok_def)
    with mru show thesis
      by (intro that [OF remove_entry_exact(2,1) [OF inv Some None]])
        (auto simp: settled_def Let_def)
  next
    case k: (Some k)
    from acct_entry_stratum [OF inv Some k] obtain x where x: "od_get (strata s) k = Some x" by auto
    show thesis
    proof (cases "ss_count x = 1")
      case True
      have "0 \<le> modeled x" by (rule acct_stratum_nonneg(3) [OF inv x])
      with mru show thesis
        by (intro that [OF remove_entry_last(2,1) [OF inv Some k x True]])
          (auto simp: settled_def Let_def odict_simps split: if_splits)
    next
      case False
      with mru show thesis
        using remove_entry_member(3,4) [OF inv Some k x False] x
        by (intro that [OF remove_entry_member(2,1) [OF inv Some k x False]])
          (auto simp: settled_def Let_def odict_simps split: if_splits)
    qed
  qed
qed

lemma remove_entry_stratum:
  assumes "remove_entry_accounting tk s = Some s'" "od_get (entries s) tk = Some e"
  shows "te_stratum e \<noteq> Some k \<Longrightarrow> od_get (strata s') k = od_get (strata s) k"
    "te_stratum e = Some k \<Longrightarrow> od_get (strata s) k = Some x \<Longrightarrow> od_get (strata s') k =
       (if ss_count x = 1 then None
        else Some (x\<lparr>ss_count := ss_count x - 1, ss_shallow_total := ss_shallow_total x - te_shallow e\<rparr>))"
proof -
  show "te_stratum e \<noteq> Some k \<Longrightarrow> od_get (strata s') k = od_get (strata s) k"
    using assms by (auto simp: remove_entry_unfold Let_def Option.bind_eq_Some_conv odict_simps
        split: option.splits if_splits)
  assume "te_stratum e = Some k" "od_get (strata s) k = Some x"
  with assms show "od_get (strata s') k = (if ss_count x = 1 then None
        else Some (x\<lparr>ss_count := ss_count x - 1, ss_shallow_total := ss_shallow_total x - te_shallow e\<rparr>))"
    by (cases "ss_count x = 1") (auto simp: remove_entry_unfold Let_def Option.bind_eq_Some_conv
        odict_simps split: if_splits)
qed

lemma remove_entry_absent: "od_get (entries s) tk = None \<Longrightarrow> remove_entry_accounting tk s = Some s"
  by (simp add: remove_entry_accounting_def)

lemma length_od_set_le: "length (od_set k v d) \<le> Suc (length d)"
  by (induction d) auto

lemma retain_calibration_keeps:
  assumes "length (history s) < RUN_CONTEXT_CALIBRATION_HISTORY_LIMIT" "od_wf (history s)"
    "od_get (history s) k \<noteq> None"
  shows "od_get (history (retain_calibration j st s)) k \<noteq> None"
proof (cases "ss_samples st = []")
  case False
  let ?h = "od_set j \<lparr>cm_admissions = ss_admissions st, cm_samples = ss_samples st\<rparr> (history s)"
  have "length (od_move_to_end j ?h) = length ?h"
    using assms(2) by (simp only: length_od_move_to_end od_wf_set)
  then have "length (od_move_to_end j ?h) \<le> RUN_CONTEXT_CALIBRATION_HISTORY_LIMIT"
    using assms(1) length_od_set_le [of j "\<lparr>cm_admissions = ss_admissions st, cm_samples = ss_samples st\<rparr>" "history s"]
    by linarith
  with False assms(3) show ?thesis by (auto simp: retain_calibration_def Let_def odict_simps)
qed (use assms(3) in \<open>simp add: retain_calibration_def\<close>)

lemma remove_entry_history:
  assumes "remove_entry_accounting tk s = Some s'" "od_wf (history s)"
    "length (history s) < RUN_CONTEXT_CALIBRATION_HISTORY_LIMIT" "od_get (history s) k \<noteq> None"
  shows "od_get (history s') k \<noteq> None"
  using assms retain_calibration_keeps [of "(without_entry tk s)\<lparr>strata := _\<rparr>" k]
  by (auto simp: remove_entry_unfold Let_def Option.bind_eq_Some_conv split: option.splits if_splits)

end
