(* ===== verification/RunCacheOps.thy ===== *)
theory RunCacheOps
  imports RunCacheLru
begin

text \<open>
  The operations of \<open>ProcessRunContextCacheBudget\<close> over the accounting of
  \<open>RunCacheLru\<close> (\<open>src/general_manager/cache/run_context_lru.py\<close>): admission of an entry,
  eviction, recency, registration and removal of owners, and the two critical sections of
  \<open>track\<close> with the generations that tell a stale admission from a current one.

  A cached value is its description \<open>cached_value\<close>: the admission signal of the pair
  (key, value) and its deep size as a function of \<open>stop_after\<close>.
\<close>

record cached_value =
  cv_namespace :: run_namespace
  cv_key :: cache_key
  cv_signal :: admission_signal
  cv_estimate :: "int \<Rightarrow> int"

section \<open>Modes\<close>

definition desired_recency :: "budget \<Rightarrow> bool" where
  "desired_recency s =
     (case max_bytes s of
        None \<Rightarrow> False
      | Some m \<Rightarrow>
          if m \<le> 0 then False
          else if recency_enabled s
          then total_bytes s * 100 \<ge> m * RUN_CONTEXT_RECENCY_DISABLE_PERCENT
          else total_bytes s * 100 \<ge> m * RUN_CONTEXT_RECENCY_ENABLE_PERCENT)"

definition capture_mode_publication :: "owner option \<Rightarrow> budget \<Rightarrow> budget" where
  "capture_mode_publication new_owner s =
     (let r = desired_recency s;
          modes = (max_bytes s \<noteq> None, r)
      in if Some modes \<noteq> published_modes s
         then s\<lparr>recency_enabled := r, published_modes := Some modes, mode_gen := mode_gen s + 1,
                publications := publications s @ [(owners s, fst modes, snd modes, mode_gen s + 1)]\<rparr>
         else (case new_owner of
                 Some ow \<Rightarrow> s\<lparr>publications := publications s @ [([ow], fst modes, snd modes, mode_gen s)]\<rparr>
               | None \<Rightarrow> s))"

section \<open>Eviction and removal\<close>

lemma length_remove_head:
  assumes "remove_entry_accounting tk s = Some s1" "entries s = (tk, e) # es"
  shows "length (entries s1) < length (entries s)"
proof -
  have "entries s1 = od_pop tk (entries s)"
    using assms by (auto simp: remove_entry_unfold Let_def Option.bind_eq_Some_conv
        split: option.splits if_splits)
  with assms(2) show ?thesis by (simp add: AList.delete_eq le_imp_less_Suc)
qed

definition evict_callback :: "owner \<Rightarrow> run_namespace \<Rightarrow> cache_key \<Rightarrow> budget \<Rightarrow> budget" where
  "evict_callback ow ns key s = s\<lparr>evict_log := evict_log s @ [(ow, ns, key)]\<rparr>"

definition pop_attempt :: "tracked_key \<Rightarrow> budget \<Rightarrow> budget" where
  "pop_attempt tk s = s\<lparr>attempt_gens := od_pop tk (attempt_gens s)\<rparr>"

definition over_budget :: "budget \<Rightarrow> bool" where
  "over_budget s = (case max_bytes s of None \<Rightarrow> False | Some m \<Rightarrow> eviction_target m < total_bytes s)"

function evict_excess :: "budget \<Rightarrow> budget option" where
  "evict_excess s =
     (case entries s of
        [] \<Rightarrow> Some s
      | (tk, e) # es \<Rightarrow>
          if \<not> over_budget s then Some s
          else (case remove_entry_accounting tk s of
              None \<Rightarrow> None
            | Some s1 \<Rightarrow>
                if te_owner e \<notin> set (live s1) then evict_excess s1
                else evict_excess
                  (evict_callback (te_owner e) (te_namespace e) (te_key e) (pop_attempt tk s1))))"
  by auto
termination
  by (relation "measure (\<lambda>s. length (entries s))")
    (auto simp: evict_callback_def pop_attempt_def dest: length_remove_head)

declare evict_excess.simps [simp del]

fun remove_keys :: "tracked_key list \<Rightarrow> budget \<Rightarrow> budget option" where
  "remove_keys [] s = Some s"
| "remove_keys (tk # tks) s = do { s1 \<leftarrow> remove_entry_accounting tk s; remove_keys tks s1 }"

definition remove_owner_entries :: "nat \<Rightarrow> budget \<Rightarrow> budget option" where
  "remove_owner_entries oid s =
     remove_keys (filter (\<lambda>tk. fst tk = oid) (od_keys (entries s))) s"

definition clear_owner_attempts :: "nat \<Rightarrow> budget \<Rightarrow> budget" where
  "clear_owner_attempts oid s =
     s\<lparr>attempt_gens := filter (\<lambda>p. fst (fst p) \<noteq> oid) (attempt_gens s),
       lifecycle_gens := od_pop oid (lifecycle_gens s)\<rparr>"

definition next_admission_generation :: "budget \<Rightarrow> int \<times> budget" where
  "next_admission_generation s = (next_gen s + 1, s\<lparr>next_gen := next_gen s + 1\<rparr>)"

definition owner_lifecycle_generation :: "nat \<Rightarrow> budget \<Rightarrow> int \<times> budget" where
  "owner_lifecycle_generation oid s =
     (case od_get (lifecycle_gens s) oid of
        Some g \<Rightarrow> (g, s)
      | None \<Rightarrow> let (g, s1) = next_admission_generation s
                in (g, s1\<lparr>lifecycle_gens := od_set oid g (lifecycle_gens s1)\<rparr>))"

text \<open>\<open>owner_reference() is owner\<close>: the weak reference is to this very object (the caller holds it).\<close>

definition owner_reference :: "owner \<Rightarrow> budget \<Rightarrow> budget option" where
  "owner_reference ow s =
     (case od_get (owner_refs s) (ow_id ow) of
        None \<Rightarrow> Some (s\<lparr>owner_refs := od_set (ow_id ow) ow (owner_refs s)\<rparr>)
      | Some r \<Rightarrow>
          if r = ow then Some s
          else do {
            s1 \<leftarrow> remove_owner_entries (ow_id ow) s;
            let s2 = clear_owner_attempts (ow_id ow) s1;
            Some (s2\<lparr>owner_refs := od_set (ow_id ow) ow (owner_refs s2)\<rparr>)
          })"

section \<open>Publishing an entry\<close>

definition entry_of :: "owner \<Rightarrow> run_namespace \<Rightarrow> cache_key \<Rightarrow> admission_signal \<Rightarrow> tracked_entry" where
  "entry_of ow ns key sg =
     \<lparr>te_owner = ow, te_namespace = ns, te_key = key,
      te_exact = (case sg_exact sg of Some n \<Rightarrow> n | None \<Rightarrow> 0),
      te_stratum = sg_stratum sg,
      te_shallow = (if sg_stratum sg = None then 0 else sg_shallow sg)\<rparr>"

text \<open>
  Removal of the old entry. When the entry stays in its stratum, the code keeps the stratum
  object: the removal has decremented it, and if that emptied it the same object is put back.
\<close>

definition replace_old_entry :: "tracked_key \<Rightarrow> admission_signal \<Rightarrow> budget \<Rightarrow> budget option" where
  "replace_old_entry tk sg s =
     (case od_get (entries s) tk of
        None \<Rightarrow> remove_entry_accounting tk s
      | Some e \<Rightarrow>
          (case te_stratum e of
             None \<Rightarrow> remove_entry_accounting tk s
           | Some k \<Rightarrow>
               if sg_stratum sg \<noteq> Some k then remove_entry_accounting tk s
               else do {
                 st \<leftarrow> od_get (strata s) k;
                 s1 \<leftarrow> remove_entry_accounting tk s;
                 if od_get (strata s1) k \<noteq> None then Some s1
                 else let preserved = st\<lparr>ss_count := ss_count st - 1,
                            ss_shallow_total := ss_shallow_total st - te_shallow e\<rparr>
                      in Some (s1\<lparr>history := od_pop k (history s1),
                                  strata := od_set k preserved (strata s1)\<rparr>)
               }))"

definition prepare_stratum :: "admission_signal \<Rightarrow> int option \<Rightarrow> budget \<Rightarrow> budget option" where
  "prepare_stratum sg estimated s =
     (case sg_stratum sg of
        None \<Rightarrow> Some s
      | Some k \<Rightarrow>
          let s1 = activate_stratum k s in
          do {
            st \<leftarrow> od_get (strata s1) k;
            case estimated of
              None \<Rightarrow> Some s1
            | Some n \<Rightarrow> if should_calibrate_next (ss_admissions st)
                        then publish_calibration k (sg_shallow sg) n s1 else Some s1
          })"

definition count_admission :: "admission_signal \<Rightarrow> budget \<Rightarrow> budget option" where
  "count_admission sg s =
     (case sg_stratum sg of
        None \<Rightarrow> Some s
      | Some k \<Rightarrow> do {
          st \<leftarrow> od_get (strata s) k;
          Some (s\<lparr>strata := od_set k (st\<lparr>ss_admissions := ss_admissions st + 1\<rparr>) (strata s)\<rparr>)
        })"

definition publish_entry ::
    "owner \<Rightarrow> run_namespace \<Rightarrow> cache_key \<Rightarrow> admission_signal \<Rightarrow> int option \<Rightarrow> int \<Rightarrow> budget
      \<Rightarrow> budget option" where
  "publish_entry ow ns key sg estimated mb s =
     (let tk = (ow_id ow, ns, key); e = entry_of ow ns key sg in do {
        s1 \<leftarrow> replace_old_entry tk sg s;
        s2 \<leftarrow> prepare_stratum sg estimated s1;
        s3 \<leftarrow> owner_reference ow s2;
        s4 \<leftarrow> add_entry_accounting tk e s3;
        s5 \<leftarrow> count_admission sg s4;
        let s6 = s5\<lparr>mru_key := Some tk\<rparr>;
        bytes \<leftarrow> modeled_entry_bytes e s6;
        let s7 = pop_attempt tk s6;
        if bytes > mb then do {
          s8 \<leftarrow> remove_entry_accounting tk s7;
          Some (evict_callback ow ns key s8)
        }
        else evict_excess s7
      })"

section \<open>Admission keeps the accounting\<close>

definition signal_ok :: "admission_signal \<Rightarrow> bool" where
  "signal_ok sg \<longleftrightarrow> (case sg_stratum sg of
     None \<Rightarrow> (case sg_exact sg of None \<Rightarrow> False | Some n \<Rightarrow> MIN_TRACKED_ENTRY_BYTES \<le> n)
   | Some k \<Rightarrow> 1 \<le> sg_shallow sg)"

text \<open>A sampled entry can be added only to an active stratum that has a sample.\<close>

definition usable :: "admission_signal \<Rightarrow> budget \<Rightarrow> bool" where
  "usable sg s \<longleftrightarrow> (case sg_stratum sg of
     None \<Rightarrow> True
   | Some k \<Rightarrow> (case od_get (strata s) k of None \<Rightarrow> False | Some st \<Rightarrow> ss_samples st \<noteq> []))"

lemma members_absent:
  assumes "acct_inv s" "od_get (strata s) k = None"
  shows "members k (entries s) = 0" "member_shallow k (entries s) = 0"
proof -
  have no: "te_stratum e \<noteq> Some k" if "(tk, e) \<in> set (entries s)" for tk e
    using acct_entry_stratum [OF assms(1), of tk e k] that assms(2)
    by (auto simp only: od_set_iff [OF acct_wf(1) [OF assms(1)]])
  then show "members k (entries s) = 0" "member_shallow k (entries s) = 0"
    unfolding acct_defs by (auto intro!: od_sum_zero)
qed

text \<open>Changing one stratum without changing the members.\<close>

lemma acct_set_stratum:
  assumes inv: "acct_inv s" and st: "stratum_ok st" "ss_count st = members k (entries s)"
    "ss_shallow_total st = member_shallow k (entries s)"
    and h: "history s' = history s \<or> history s' = od_pop k (history s)"
    and s': "entries s' = entries s" "strata s' = od_set k st (strata s)" "exact_total s' = exact_total s"
      "total_bytes s' = total_bytes s + modeled st
         - (case od_get (strata s) k of None \<Rightarrow> 0 | Some x \<Rightarrow> modeled x)"
  shows "acct_inv s'"
proof (rule acct_invI)
  note wf = acct_wf [OF inv]
  show "od_wf (history s')" using wf(3) h by (auto simp: od_wf_pop)
  show "length (history s') \<le> RUN_CONTEXT_CALIBRATION_HISTORY_LIMIT"
    using wf(4) h by (auto intro: order_trans [OF length_delete_le])
  show "samples_ok (cm_samples m) \<and> cm_samples m \<noteq> [] \<and> 0 \<le> cm_admissions m"
    if "od_get (history s') k' = Some m" for k' m
    using that h acct_history [OF inv, of k' m] by (auto simp: od_get_pop split: if_splits)
  show "stratum_ok st' \<and> ss_count st' = members k' (entries s')
      \<and> ss_shallow_total st' = member_shallow k' (entries s')"
    if "od_get (strata s') k' = Some st'" for k' st'
    using that st acct_stratum [OF inv, of k' st'] by (auto simp: s' od_get_set split: if_splits)
  show "od_get (strata s') k' \<noteq> None"
    if "od_get (entries s') tk = Some e" "te_stratum e = Some k'" for tk e k'
    using that acct_entry_stratum [OF inv, of tk e k'] by (auto simp: s' od_get_set)
  show "entry_ok e" if "od_get (entries s') tk = Some e" for tk e
    using that acct_entry [OF inv, of tk e] by (simp add: s')
  show "total_bytes s' = exact_total s' + od_sum modeled (strata s')"
    using wf(6) by (simp add: s' od_sum_set [OF wf(2)])
qed (use acct_wf [OF inv] in \<open>simp_all add: s' od_wf_set\<close>)

lemma modeled_empty: "ss_count st = 0 \<Longrightarrow> modeled st = 0"
  by (simp add: modeled_def)

lemma stratum_ok_new:
  assumes "samples_ok ps" "0 \<le> n" "ps = [] \<longrightarrow> n = 0"
  shows "stratum_ok (new_stratum n ps)" "ss_samples (new_stratum n ps) = ps"
    "ss_count (new_stratum n ps) = 0" "ss_shallow_total (new_stratum n ps) = 0"
    "ss_admissions (new_stratum n ps) = n"
  using assms by (simp_all add: stratum_ok_def new_stratum_def Let_def samples_ok_def)

lemma stratum_ok_unsampled: "stratum_ok st \<Longrightarrow> ss_samples st = [] \<Longrightarrow> ss_admissions st = 0 \<and> ss_count st = 0"
  by (simp add: stratum_ok_def)

lemma activate_stratum_works:
  assumes inv: "acct_inv s"
  shows "acct_inv (activate_stratum k s)" "frame_of (activate_stratum k s) = frame_of s"
    "entries (activate_stratum k s) = entries s" "mru_key (activate_stratum k s) = mru_key s"
    "total_bytes (activate_stratum k s) = total_bytes s"
    "\<forall>k'. k' \<noteq> k \<longrightarrow> od_get (strata (activate_stratum k s)) k' = od_get (strata s) k'"
    "\<exists>st. od_get (strata (activate_stratum k s)) k = Some st \<and> (ss_samples st = [] \<longrightarrow>
       ss_admissions st = 0 \<and> (case od_get (strata s) k of None \<Rightarrow> od_get (history s) k = None
                               | Some x \<Rightarrow> x = st))"
proof -
  show "acct_inv (activate_stratum k s)"
  proof (cases "od_get (strata s) k")
    case None
    note 0 = members_absent [OF inv None]
    show ?thesis
    proof (cases "od_get (history s) k")
      case n: None
      have "stratum_ok (new_stratum 0 [])" "ss_count (new_stratum 0 []) = 0"
        "ss_shallow_total (new_stratum 0 []) = 0"
        by (rule stratum_ok_new; simp add: samples_ok_def)+
      with 0 None n show ?thesis
        by (intro acct_set_stratum [OF inv, of "new_stratum 0 []" k])
          (simp_all add: activate_stratum_def modeled_empty)
    next
      case (Some m)
      note m = acct_history [OF inv Some]
      have "stratum_ok (new_stratum (cm_admissions m) (cm_samples m))"
        "ss_count (new_stratum (cm_admissions m) (cm_samples m)) = 0"
        "ss_shallow_total (new_stratum (cm_admissions m) (cm_samples m)) = 0"
        using m by (simp_all add: stratum_ok_new)
      with 0 None Some show ?thesis
        by (intro acct_set_stratum [OF inv, of "new_stratum (cm_admissions m) (cm_samples m)" k])
          (simp_all add: activate_stratum_def modeled_empty)
    qed
  qed (simp add: activate_stratum_def inv)
  show "\<exists>st. od_get (strata (activate_stratum k s)) k = Some st \<and> (ss_samples st = [] \<longrightarrow>
       ss_admissions st = 0 \<and> (case od_get (strata s) k of None \<Rightarrow> od_get (history s) k = None
                               | Some x \<Rightarrow> x = st))"
    using acct_history [OF inv, of k] acct_stratum(1) [OF inv, of k]
    by (auto simp: activate_stratum_def od_get_set stratum_ok_new samples_ok_def
        dest: stratum_ok_unsampled split: option.splits)
qed (simp_all add: activate_stratum_def odict_simps split: option.splits)

lemma modeled_bytes_ok: "stratum_ok st \<Longrightarrow> modeled_bytes st = Some (modeled st)"
  by (rule modeled_bytes_Some) (auto simp: stratum_ok_def)

lemma samples_ok_append: "samples_ok ps \<Longrightarrow> 1 \<le> a \<Longrightarrow> samples_ok (deque_append RUN_CONTEXT_CALIBRATION_WINDOW ps (a, b))"
  using set_keep_last [of 8 "ps @ [(a, b)]"] by (auto simp: samples_ok_def deque_append_def)

lemma publish_calibration_works:
  assumes inv: "acct_inv s" and x: "od_get (strata s) k = Some x" and sh: "1 \<le> shallow"
  obtains s' y where "publish_calibration k shallow n s = Some s'" "acct_inv s'"
    "od_get (strata s') k = Some y" "ss_samples y \<noteq> []" "ss_admissions y = ss_admissions x"
    "\<forall>k'. k' \<noteq> k \<longrightarrow> od_get (strata s') k' = od_get (strata s) k'"
    "frame_of s' = frame_of s" "entries s' = entries s" "mru_key s' = mru_key s" "history s' = history s"
proof -
  note ok = acct_stratum [OF inv x]
  define ps where "ps = ss_samples x"
  define full where "full \<longleftrightarrow> length ps = RUN_CONTEXT_CALIBRATION_WINDOW"
  define y where "y = x\<lparr>
    ss_samples := deque_append RUN_CONTEXT_CALIBRATION_WINDOW ps (shallow, n),
    ss_sampled_shallow := ss_sampled_shallow x - (if full then fst (hd ps) else 0) + shallow,
    ss_sampled_residual := ss_sampled_residual x - (if full then residual (hd ps) else 0)
      + residual (shallow, n)\<rparr>"
  have sums: "ss_sampled_shallow y = sum_list (map fst (ss_samples y))"
    "ss_sampled_residual y = sum_list (map residual (ss_samples y))"
  proof -
    have "samples_ok ps" using ok(1) by (simp add: stratum_ok_def ps_def)
    then have "length ps \<le> 8" by (simp add: samples_ok_def)
    show "ss_sampled_shallow y = sum_list (map fst (ss_samples y))"
      "ss_sampled_residual y = sum_list (map residual (ss_samples y))"
    proof (atomize (full), cases ps)
      case (Cons p qs)
      with ok(1) \<open>length ps \<le> 8\<close> show "ss_sampled_shallow y = sum_list (map fst (ss_samples y))
        \<and> ss_sampled_residual y = sum_list (map residual (ss_samples y))"
        by (cases full) (auto simp: stratum_ok_def y_def full_def ps_def [symmetric] deque_append_full
            deque_append_room)
    qed (use ok(1) in \<open>auto simp: stratum_ok_def y_def full_def ps_def [symmetric] deque_append_room\<close>)
  qed
  have y: "stratum_ok y" "ss_count y = ss_count x" "ss_shallow_total y = ss_shallow_total x"
    "ss_samples y \<noteq> []" "ss_admissions y = ss_admissions x"
    using ok(1) sh sums samples_ok_append [of ps shallow n] by (simp_all add: stratum_ok_def ps_def y_def)
  define s' where "s' = s\<lparr>strata := od_set k y (strata s),
      total_bytes := total_bytes s + (modeled y - modeled x)\<rparr>"
  show thesis
  proof (rule that)
    show "publish_calibration k shallow n s = Some s'"
      using ok(1) y(1) x
      by (cases "ss_samples x") (auto simp: publish_calibration_def Let_def modeled_bytes_ok s'_def y_def
          full_def ps_def)
    show "acct_inv s'"
      using y ok x by (intro acct_set_stratum [OF inv, of y k]) (simp_all add: s'_def)
    show "od_get (strata s') k = Some y" by (simp add: s'_def odict_simps)
  qed (simp_all add: s'_def y odict_simps)
qed

lemma prepare_stratum_works:
  assumes inv: "acct_inv s" and ok: "signal_ok sg"
    and known: "\<And>k. sg_stratum sg = Some k \<Longrightarrow> estimated = None \<Longrightarrow>
      (case od_get (strata s) k of None \<Rightarrow> od_get (history s) k \<noteq> None | Some x \<Rightarrow> ss_samples x \<noteq> [])"
  obtains s' where "prepare_stratum sg estimated s = Some s'" "acct_inv s'" "usable sg s'"
    "frame_of s' = frame_of s" "entries s' = entries s" "mru_key s' = mru_key s"
    "\<forall>k. sg_stratum sg \<noteq> Some k \<longrightarrow> od_get (strata s') k = od_get (strata s) k"
proof (cases "sg_stratum sg")
  case None
  then show thesis using that [of s] inv by (simp add: prepare_stratum_def usable_def)
next
  case (Some k)
  note a = activate_stratum_works [OF inv, of k]
  from a(7) obtain st where st: "od_get (strata (activate_stratum k s)) k = Some st"
    and unsampled: "ss_samples st = [] \<Longrightarrow> ss_admissions st = 0 \<and>
      (case od_get (strata s) k of None \<Rightarrow> od_get (history s) k = None | Some x \<Rightarrow> x = st)" by auto
  show thesis
  proof (cases "estimated \<noteq> None \<and> should_calibrate_next (ss_admissions st)")
    case True
    then obtain n where n: "estimated = Some n" by auto
    from ok Some have "1 \<le> sg_shallow sg" by (simp add: signal_ok_def)
    from publish_calibration_works [OF a(1) st this, of n] obtain s' y where
      p: "publish_calibration k (sg_shallow sg) n (activate_stratum k s) = Some s'" "acct_inv s'"
        "od_get (strata s') k = Some y" "ss_samples y \<noteq> []"
        "\<forall>k'. k' \<noteq> k \<longrightarrow> od_get (strata s') k' = od_get (strata (activate_stratum k s)) k'"
        "frame_of s' = frame_of (activate_stratum k s)" "entries s' = entries (activate_stratum k s)"
        "mru_key s' = mru_key (activate_stratum k s)"
      by metis
    show thesis
      by (rule that [of s']) (use True n st p a Some in \<open>auto simp: prepare_stratum_def Let_def usable_def\<close>)
  next
    case False
    have "ss_samples st \<noteq> []"
    proof
      assume "ss_samples st = []"
      with unsampled known [OF Some] False show False
        by (auto simp: should_calibrate_next_def split: option.splits)
    qed
    then show thesis
      using that [of "activate_stratum k s"] False a st Some
      by (auto simp: prepare_stratum_def Let_def usable_def split: option.splits)
  qed
qed

text \<open>
  When no estimate is passed, the stratum must be calibrated: active, or retained in a history
  that the removal of the old entry cannot push it out of.
\<close>

definition calibrated :: "admission_signal \<Rightarrow> budget \<Rightarrow> bool" where
  "calibrated sg s \<longleftrightarrow> (case sg_stratum sg of
     None \<Rightarrow> True
   | Some k \<Rightarrow> od_get (strata s) k \<noteq> None
       \<or> od_get (history s) k \<noteq> None
         \<and> length (history s) < RUN_CONTEXT_CALIBRATION_HISTORY_LIMIT)"

definition populated :: "budget \<Rightarrow> bool" where
  "populated s \<longleftrightarrow> (\<forall>k st. od_get (strata s) k = Some st \<longrightarrow> 1 \<le> ss_count st)"

lemma populatedD: "populated s \<Longrightarrow> od_get (strata s) k = Some st \<Longrightarrow> 1 \<le> ss_count st"
  by (simp add: populated_def)

lemma settled_iff: "settled s \<longleftrightarrow> populated s
    \<and> mru_key s = (if entries s = [] then None else Some (fst (last (entries s))))"
  by (simp add: settled_def populated_def)

lemma populated_samples: "acct_inv s \<Longrightarrow> populated s \<Longrightarrow> od_get (strata s) k = Some x \<Longrightarrow> ss_samples x \<noteq> []"
  using acct_stratum(1) [of s k x] populatedD [of s k x] by (auto simp: stratum_ok_def)

lemma replace_old_entry_works:
  assumes inv: "acct_inv s" and set: "settled s"
  obtains s' where "replace_old_entry tk sg s = Some s'" "acct_inv s'"
    "entries s' = od_pop tk (entries s)" "frame_of s' = frame_of s"
    "\<forall>k st. od_get (strata s') k = Some st \<longrightarrow> sg_stratum sg = Some k \<or> 1 \<le> ss_count st"
    "\<forall>k. calibrated sg s \<longrightarrow> sg_stratum sg = Some k \<longrightarrow>
      (case od_get (strata s') k of None \<Rightarrow> od_get (history s') k \<noteq> None | Some x \<Rightarrow> ss_samples x \<noteq> [])"
proof -
  from remove_entry_works [OF inv, of tk] obtain r where r: "remove_entry_accounting tk s = Some r"
    "acct_inv r" "entries r = od_pop tk (entries s)" "frame_of r = frame_of s" "settled s \<Longrightarrow> settled r"
    by metis
  have pop: "populated s" "populated r" using set r(5) by (simp_all add: settled_iff)
  have hist: "length (history s) < RUN_CONTEXT_CALIBRATION_HISTORY_LIMIT \<Longrightarrow> od_get (history s) k \<noteq> None
      \<Longrightarrow> od_get (history r) k \<noteq> None" for k
    by (rule remove_entry_history [OF r(1) acct_wf(3) [OF inv]])
  consider (other) "\<forall>e k. od_get (entries s) tk = Some e \<longrightarrow> te_stratum e = Some k \<longrightarrow> sg_stratum sg \<noteq> Some k"
    | (same) e k where "od_get (entries s) tk = Some e" "te_stratum e = Some k" "sg_stratum sg = Some k"
    by blast
  then show thesis
  proof cases
    case other
    have kept: "od_get (strata r) k = od_get (strata s) k" if "sg_stratum sg = Some k" for k
      using other that r(1) remove_entry_stratum(1) [OF r(1), of _ k] remove_entry_absent [of s tk]
      by (cases "od_get (entries s) tk") auto
    show thesis
    proof (rule that [OF _ r(2-4)])
      show "replace_old_entry tk sg s = Some r"
        using other r(1) by (auto simp: replace_old_entry_def split: option.splits)
    qed (use kept hist pop r(2) populated_samples [of r] in
        \<open>auto simp: calibrated_def populated_def split: option.splits\<close>)
  next
    case (same e k)
    from acct_entry_stratum [OF inv same(1,2)] obtain x where x: "od_get (strata s) k = Some x" by auto
    have samples: "ss_samples x \<noteq> []" by (rule populated_samples [OF inv pop(1) x])
    note rk = remove_entry_stratum(2) [OF r(1) same(1,2) x]
    show thesis
    proof (cases "ss_count x = 1")
      case False
      show thesis
      proof (rule that [OF _ r(2-4)])
        show "replace_old_entry tk sg s = Some r"
          using False same r(1) x rk by (simp add: replace_old_entry_def)
      qed (use False same rk samples pop in \<open>auto simp: populated_def\<close>)
    next
      case True
      define y where "y = x\<lparr>ss_count := ss_count x - 1, ss_shallow_total := ss_shallow_total x - te_shallow e\<rparr>"
      define t where "t = r\<lparr>history := od_pop k (history r), strata := od_set k y (strata r)\<rparr>"
      have rk: "od_get (strata r) k = None" using rk True by simp
      have pops: "ss_shallow_total y = 0" "ss_count y = 0"
        using members_absent(2) [OF r(2) rk] members_pop(2) [OF acct_wf(1) [OF inv] same(1), of k]
          acct_stratum(3) [OF inv x] same(2) r(3) True by (simp_all add: y_def)
      have "stratum_ok y"
        using acct_stratum(1) [OF inv x] True by (auto simp: y_def stratum_ok_def)
      then have "acct_inv t"
        using pops members_absent [OF r(2) rk]
        by (intro acct_set_stratum [OF r(2), of y k]) (simp_all add: t_def rk modeled_empty)
      then show thesis
      proof (rule that [rotated])
        show "replace_old_entry tk sg s = Some t"
          using same r(1) x rk by (simp add: replace_old_entry_def Let_def t_def y_def)
      qed (use samples same pop(2) r(3,4) in \<open>auto simp: t_def y_def populated_def odict_simps\<close>)
    qed
  qed
qed

section \<open>Eviction restores the budget\<close>

lemma acct_inv_cong:
  assumes "entries s' = entries s" "strata s' = strata s" "history s' = history s"
    "exact_total s' = exact_total s" "total_bytes s' = total_bytes s"
  shows "acct_inv s' = acct_inv s"
  using assms by (simp add: acct_inv_def)

lemma acct_inv_frame [simp]:
  "acct_inv (evict_callback ow ns key s) = acct_inv s" "acct_inv (pop_attempt tk s) = acct_inv s"
  "acct_inv (s\<lparr>mru_key := m\<rparr>) = acct_inv s" "acct_inv (s\<lparr>owner_refs := rs\<rparr>) = acct_inv s"
  "acct_inv (clear_owner_attempts oid s) = acct_inv s"
  by (simp_all add: acct_inv_def evict_callback_def pop_attempt_def clear_owner_attempts_def)

lemma settled_frame [simp]:
  "settled (evict_callback ow ns key s) = settled s" "settled (pop_attempt tk s) = settled s"
  "settled (s\<lparr>owner_refs := rs\<rparr>) = settled s" "settled (clear_owner_attempts oid s) = settled s"
  by (simp_all add: settled_def evict_callback_def pop_attempt_def clear_owner_attempts_def)

lemma callback_fields [simp]:
  "entries (evict_callback ow ns key s) = entries s" "live (evict_callback ow ns key s) = live s"
  "evict_log (evict_callback ow ns key s) = evict_log s @ [(ow, ns, key)]"
  "entries (pop_attempt tk s) = entries s" "live (pop_attempt tk s) = live s"
  "evict_log (pop_attempt tk s) = evict_log s"
  "owner_refs (evict_callback ow ns key s) = owner_refs s" "owner_refs (pop_attempt tk s) = owner_refs s"
  "max_bytes (evict_callback ow ns key s) = max_bytes s" "max_bytes (pop_attempt tk s) = max_bytes s"
  "total_bytes (evict_callback ow ns key s) = total_bytes s"
  "total_bytes (pop_attempt tk s) = total_bytes s"
  "strata (evict_callback ow ns key s) = strata s" "strata (pop_attempt tk s) = strata s"
  by (simp_all add: evict_callback_def pop_attempt_def)

text \<open>The fields that eviction never writes.\<close>

definition base_of where
  "base_of s = (owners s, live s, owner_refs s, max_bytes s, config_gen s, next_gen s,
     lifecycle_gens s, recency_enabled s, mode_gen s, published_modes s, publications s)"

lemma base_fields:
  assumes "base_of s' = base_of s"
  shows "owners s' = owners s" "live s' = live s" "owner_refs s' = owner_refs s"
    "max_bytes s' = max_bytes s" "config_gen s' = config_gen s" "next_gen s' = next_gen s"
    "lifecycle_gens s' = lifecycle_gens s" "recency_enabled s' = recency_enabled s"
    "mode_gen s' = mode_gen s" "published_modes s' = published_modes s"
    "publications s' = publications s"
  using assms by (simp_all add: base_of_def)

lemma base_of_frame: "frame_of s' = frame_of s \<Longrightarrow> base_of s' = base_of s"
  by (simp add: frame_of_def base_of_def)

lemma base_of_callback [simp]:
  "base_of (evict_callback ow ns key s) = base_of s" "base_of (pop_attempt tk s) = base_of s"
  "base_of (s\<lparr>mru_key := m\<rparr>) = base_of s"
  by (simp_all add: base_of_def evict_callback_def pop_attempt_def)

definition eviction_calls :: "owner list \<Rightarrow> (tracked_key \<times> tracked_entry) list
    \<Rightarrow> (owner \<times> run_namespace \<times> cache_key) list" where
  "eviction_calls alive es =
     map (\<lambda>(tk, e). (te_owner e, te_namespace e, te_key e)) (filter (\<lambda>(tk, e). te_owner e \<in> set alive) es)"

lemma od_pop_head: "od_wf ((k, v) # d) \<Longrightarrow> od_pop k ((k, v) # d) = d"
  by (simp add: AList.delete_eq) (rule filter_True, force)

lemma evict_excess_works:
  assumes "acct_inv s" "settled s"
  shows "\<exists>s' n. evict_excess s = Some s' \<and> acct_inv s' \<and> settled s' \<and> entries s' = drop n (entries s)
    \<and> n \<le> length (entries s) \<and> (entries s' = [] \<or> \<not> over_budget s')
    \<and> (\<not> over_budget s \<longrightarrow> n = 0)
    \<and> evict_log s' = evict_log s @ eviction_calls (live s) (take n (entries s))
    \<and> base_of s' = base_of s \<and> total_bytes s' \<le> total_bytes s"
  using assms
proof (induction "length (entries s)" arbitrary: s rule: less_induct)
  case (less s)
  show ?case
  proof (cases "entries s = [] \<or> \<not> over_budget s")
    case True
    then have "evict_excess s = Some s" by (subst evict_excess.simps) (auto split: list.splits)
    then show ?thesis
      using True less(2,3) by (intro exI [of _ s] exI [of _ 0]) (auto simp: eviction_calls_def)
  next
    case False
    then obtain tk e es where es: "entries s = (tk, e) # es" by (cases "entries s") auto
    from remove_entry_works [OF less(2), of tk] less(3) obtain r where r:
      "remove_entry_accounting tk s = Some r" "acct_inv r" "settled r" "entries r = od_pop tk (entries s)"
      "frame_of r = frame_of s" "total_bytes r \<le> total_bytes s" by metis
    have er: "entries r = es" using r(4) es acct_wf(1) [OF less(2)] by (simp only: od_pop_head)
    note fr = frame_fields [OF r(5)]
    define t where "t = (if te_owner e \<notin> set (live r) then r
      else evict_callback (te_owner e) (te_namespace e) (te_key e) (pop_attempt tk r))"
    have t: "acct_inv t" "settled t" "entries t = es" "live t = live s"
      "evict_log t = evict_log s @ eviction_calls (live s) [(tk, e)]" "base_of t = base_of s"
      "total_bytes t \<le> total_bytes s"
      using r er fr base_of_frame [OF r(5)] by (simp_all add: t_def eviction_calls_def)
    have step: "evict_excess s = evict_excess t"
      using False es r(1) by (subst evict_excess.simps) (simp add: t_def)
    have "length (entries t) < length (entries s)" using es t(3) by simp
    from less(1) [OF this t(1,2)]
    obtain s' n where "evict_excess t = Some s'" "acct_inv s'" "settled s'" "entries s' = drop n es"
      "n \<le> length es" "entries s' = [] \<or> \<not> over_budget s'"
      "evict_log s' = evict_log t @ eviction_calls (live s) (take n es)"
      "base_of s' = base_of t" "total_bytes s' \<le> total_bytes t"
      unfolding t(3,4) by blast
    then show ?thesis
      using False t es
      by (intro exI [of _ s'] exI [of _ "Suc n"]) (auto simp: step eviction_calls_def)
  qed
qed

section \<open>The coordinator's invariant\<close>

text \<open>
  Every entry is keyed by its owner's \<open>id()\<close>, its namespace and its key, and its weak
  reference is the one the coordinator holds for that \<open>id()\<close>.
\<close>

definition keyed :: "tracked_key \<Rightarrow> tracked_entry \<Rightarrow> bool" where
  "keyed tk e \<longleftrightarrow> tk = (ow_id (te_owner e), te_namespace e, te_key e)"

definition refs_ok :: "budget \<Rightarrow> bool" where
  "refs_ok s \<longleftrightarrow> (\<forall>tk e. od_get (entries s) tk = Some e \<longrightarrow>
     keyed tk e \<and> od_get (owner_refs s) (fst tk) = Some (te_owner e))"

definition coord_inv :: "budget \<Rightarrow> bool" where
  "coord_inv s \<longleftrightarrow> acct_inv s \<and> settled s \<and> refs_ok s"

lemma coord_invD: "coord_inv s \<Longrightarrow> acct_inv s" "coord_inv s \<Longrightarrow> settled s" "coord_inv s \<Longrightarrow> refs_ok s"
  by (simp_all add: coord_inv_def)

lemma refs_okD:
  assumes "refs_ok s" "od_get (entries s) tk = Some e"
  shows "keyed tk e" "od_get (owner_refs s) (fst tk) = Some (te_owner e)"
  using assms unfolding refs_ok_def by blast+

lemma refs_ok_sub:
  assumes "refs_ok s" "owner_refs s' = owner_refs s"
    "\<forall>tk e. od_get (entries s') tk = Some e \<longrightarrow> od_get (entries s) tk = Some e"
  shows "refs_ok s'"
  using assms unfolding refs_ok_def by metis

lemma od_get_drop: "od_wf d \<Longrightarrow> od_get (drop n d) k = Some v \<Longrightarrow> od_get d k = Some v"
  by (metis distinct_drop drop_map in_set_dropD od_set_iff)

lemma refs_ok_drop: "refs_ok s \<Longrightarrow> od_wf (entries s) \<Longrightarrow> owner_refs s' = owner_refs s
    \<Longrightarrow> entries s' = drop n (entries s) \<Longrightarrow> refs_ok s'"
  by (rule refs_ok_sub) (auto dest: od_get_drop)

lemma refs_ok_pop: "refs_ok s \<Longrightarrow> owner_refs s' = owner_refs s
    \<Longrightarrow> entries s' = od_pop tk (entries s) \<Longrightarrow> refs_ok s'"
  by (rule refs_ok_sub) (auto simp: od_get_pop split: if_splits)

lemma add_entry_works:
  assumes inv: "acct_inv s" and ok: "entry_ok e" and fresh: "od_get (entries s) tk = None"
    and st: "\<And>k. te_stratum e = Some k \<Longrightarrow> \<exists>x. od_get (strata s) k = Some x \<and> ss_samples x \<noteq> []"
  obtains s' where "add_entry_accounting tk e s = Some s'" "acct_inv s'"
    "\<forall>k. te_stratum e \<noteq> Some k \<longrightarrow> od_get (strata s') k = od_get (strata s) k"
    "\<forall>k. te_stratum e = Some k \<longrightarrow>
       (\<exists>y. od_get (strata s') k = Some y \<and> 1 \<le> ss_count y \<and> ss_samples y \<noteq> [])"
    "frame_of s' = frame_of s" "entries s' = entries s @ [(tk, e)]"
proof -
  have "\<exists>s'. add_entry_accounting tk e s = Some s' \<and> (\<forall>k. te_stratum e = Some k \<longrightarrow>
       (\<exists>y. od_get (strata s') k = Some y \<and> 1 \<le> ss_count y \<and> ss_samples y \<noteq> []))"
  proof (cases "te_stratum e")
    case (Some k)
    then obtain x where x: "od_get (strata s) k = Some x" "ss_samples x \<noteq> []" using st by blast
    then show ?thesis
      using Some fresh acct_stratum_nonneg(1) [OF inv x(1)]
      by (auto simp: add_entry_accounting_def Let_def modeled_bytes_Some odict_simps)
  qed (use fresh in \<open>simp add: add_entry_accounting_def Let_def\<close>)
  then obtain s' where s': "add_entry_accounting tk e s = Some s'" and "\<forall>k. te_stratum e = Some k \<longrightarrow>
       (\<exists>y. od_get (strata s') k = Some y \<and> 1 \<le> ss_count y \<and> ss_samples y \<noteq> [])" by blast
  with add_entry_inv [OF inv ok s'] add_entry_frame [OF s'] show thesis by (intro that) auto
qed

lemma stratum_ok_admission:
  "stratum_ok st \<Longrightarrow> ss_samples st \<noteq> [] \<Longrightarrow> stratum_ok (st\<lparr>ss_admissions := ss_admissions st + 1\<rparr>)"
  by (simp add: stratum_ok_def)

lemma count_admission_works:
  assumes inv: "acct_inv s"
    and st: "\<And>k. sg_stratum sg = Some k \<Longrightarrow> \<exists>x. od_get (strata s) k = Some x \<and> ss_samples x \<noteq> []"
  obtains s' where "count_admission sg s = Some s'" "acct_inv s'" "frame_of s' = frame_of s"
    "entries s' = entries s"
    "\<forall>k y. od_get (strata s') k = Some y \<longrightarrow> (\<exists>x. od_get (strata s) k = Some x \<and> ss_count y = ss_count x)"
    "\<forall>k. od_get (strata s) k \<noteq> None \<longrightarrow> od_get (strata s') k \<noteq> None"
proof (cases "sg_stratum sg")
  case None
  then show thesis using that [of s] inv by (simp add: count_admission_def)
next
  case (Some k)
  then obtain x where x: "od_get (strata s) k = Some x" "ss_samples x \<noteq> []" using st by blast
  define y where "y = x\<lparr>ss_admissions := ss_admissions x + 1\<rparr>"
  define t where "t = s\<lparr>strata := od_set k y (strata s)\<rparr>"
  have m: "modeled y = modeled x" by (simp add: y_def modeled_def projected_residual_def)
  have "acct_inv t"
    using acct_stratum [OF inv x(1)] x m
    by (intro acct_set_stratum [OF inv, of y k]) (simp_all add: t_def y_def [symmetric],
        simp_all add: y_def stratum_ok_admission)
  then show thesis
    by (intro that [of t]) (use Some x in \<open>auto simp: count_admission_def t_def y_def odict_simps\<close>)
qed

lemma entry_of_fields [simp]:
  "te_owner (entry_of ow ns key sg) = ow" "te_namespace (entry_of ow ns key sg) = ns"
  "te_key (entry_of ow ns key sg) = key" "te_stratum (entry_of ow ns key sg) = sg_stratum sg"
  by (simp_all add: entry_of_def)

lemma entry_of_ok: "signal_ok sg \<Longrightarrow> entry_ok (entry_of ow ns key sg)"
  by (auto simp: signal_ok_def entry_ok_def entry_of_def split: option.splits)

lemma owner_reference_known:
  assumes "od_get (owner_refs s) (ow_id ow) \<in> {None, Some ow}"
  obtains rs where "owner_reference ow s = Some (s\<lparr>owner_refs := rs\<rparr>)"
    "\<forall>oid. od_get rs oid = (if oid = ow_id ow then Some ow else od_get (owner_refs s) oid)"
proof (cases "od_get (owner_refs s) (ow_id ow)")
  case None
  then show thesis
    by (intro that [of "od_set (ow_id ow) ow (owner_refs s)"])
      (simp_all add: owner_reference_def odict_simps)
next
  case (Some r)
  with assms show thesis by (intro that [of "owner_refs s"]) (auto simp: owner_reference_def)
qed

text \<open>
  What admission without an estimate needs once the old entry is gone: the stratum is active
  with a sample, or its calibration is retained.
\<close>

definition samples_known :: "tracked_key \<Rightarrow> admission_signal \<Rightarrow> budget \<Rightarrow> bool" where
  "samples_known tk sg s \<longleftrightarrow> (\<forall>s1 k. replace_old_entry tk sg s = Some s1 \<longrightarrow> sg_stratum sg = Some k \<longrightarrow>
     (case od_get (strata s1) k of None \<Rightarrow> od_get (history s1) k \<noteq> None | Some x \<Rightarrow> ss_samples x \<noteq> []))"

lemma calibrated_known: "acct_inv s \<Longrightarrow> settled s \<Longrightarrow> calibrated sg s \<Longrightarrow> samples_known tk sg s"
  by (rule replace_old_entry_works [of s tk sg]) (simp_all add: samples_known_def)

text \<open>The state of \<open>publish_entry\<close> just before the size check.\<close>

lemma publish_entry_admits:
  fixes ow ns key sg
  defines "tk \<equiv> (ow_id ow, ns, key)" and "e \<equiv> entry_of ow ns key sg"
  assumes inv: "coord_inv s" and ok: "signal_ok sg"
    and owner: "od_get (owner_refs s) (ow_id ow) \<in> {None, Some ow}"
    and est: "estimated = None \<Longrightarrow> samples_known (ow_id ow, ns, key) sg s"
  obtains s7 bytes where "coord_inv s7" "entries s7 = od_pop tk (entries s) @ [(tk, e)]"
    "od_get (owner_refs s7) (ow_id ow) = Some ow" "max_bytes s7 = max_bytes s"
    "live s7 = live s" "evict_log s7 = evict_log s" "modeled_entry_bytes e s7 = Some bytes"
    "base_of (s7\<lparr>owner_refs := owner_refs s\<rparr>) = base_of s"
    "\<forall>oid. oid \<noteq> ow_id ow \<longrightarrow> od_get (owner_refs s7) oid = od_get (owner_refs s) oid"
    "publish_entry ow ns key sg estimated mb s =
      (if bytes > mb then map_option (evict_callback ow ns key) (remove_entry_accounting tk s7)
       else evict_excess s7)"
proof -
  note ci = coord_invD [OF inv]
  from replace_old_entry_works [OF ci(1,2), of tk sg] obtain s1 where s1:
    "replace_old_entry tk sg s = Some s1" "acct_inv s1" "entries s1 = od_pop tk (entries s)"
    "frame_of s1 = frame_of s"
    "\<forall>k st. od_get (strata s1) k = Some st \<longrightarrow> sg_stratum sg = Some k \<or> 1 \<le> ss_count st"
    by metis
  have known: "\<And>k. sg_stratum sg = Some k \<Longrightarrow> estimated = None \<Longrightarrow>
      (case od_get (strata s1) k of None \<Rightarrow> od_get (history s1) k \<noteq> None | Some x \<Rightarrow> ss_samples x \<noteq> [])"
    using s1(1) est unfolding samples_known_def tk_def by blast
  from prepare_stratum_works [OF s1(2) ok, of estimated, OF known] obtain s2 where s2:
    "prepare_stratum sg estimated s1 = Some s2" "acct_inv s2" "usable sg s2" "frame_of s2 = frame_of s1"
    "entries s2 = entries s1"
    "\<forall>k. sg_stratum sg \<noteq> Some k \<longrightarrow> od_get (strata s2) k = od_get (strata s1) k" by metis
  note f2 = frame_fields [OF s2(4)] frame_fields [OF s1(4)]
  have "od_get (owner_refs s2) (ow_id ow) \<in> {None, Some ow}" using owner f2 by simp
  then obtain rs where rs: "owner_reference ow s2 = Some (s2\<lparr>owner_refs := rs\<rparr>)"
    "\<forall>oid. od_get rs oid = (if oid = ow_id ow then Some ow else od_get (owner_refs s2) oid)"
    by (rule owner_reference_known)
  let ?s3 = "s2\<lparr>owner_refs := rs\<rparr>"
  have use3: "\<exists>x. od_get (strata ?s3) k = Some x \<and> ss_samples x \<noteq> []" if "sg_stratum sg = Some k" for k
    using s2(3) that by (auto simp: usable_def split: option.splits)
  have st3: "\<And>k. te_stratum e = Some k \<Longrightarrow> \<exists>x. od_get (strata ?s3) k = Some x \<and> ss_samples x \<noteq> []"
    using use3 by (simp add: e_def)
  have "acct_inv ?s3" "entry_ok e" "od_get (entries ?s3) tk = None"
    using s2(2,5) s1(3) entry_of_ok [OF ok] by (simp_all add: e_def odict_simps)
  from this st3 obtain s4 where s4: "add_entry_accounting tk e ?s3 = Some s4"
    "acct_inv s4"
    "\<forall>k. te_stratum e \<noteq> Some k \<longrightarrow> od_get (strata s4) k = od_get (strata ?s3) k"
    "\<forall>k. te_stratum e = Some k \<longrightarrow> (\<exists>y. od_get (strata s4) k = Some y \<and> 1 \<le> ss_count y \<and> ss_samples y \<noteq> [])"
    "frame_of s4 = frame_of ?s3" "entries s4 = entries ?s3 @ [(tk, e)]"
    by (rule add_entry_works)
  have "\<And>k. sg_stratum sg = Some k \<Longrightarrow> \<exists>x. od_get (strata s4) k = Some x \<and> ss_samples x \<noteq> []"
    using s4(4) by (simp add: e_def) blast
  with s4(2) obtain s5 where s5: "count_admission sg s4 = Some s5"
    "acct_inv s5" "frame_of s5 = frame_of s4" "entries s5 = entries s4"
    "\<forall>k y. od_get (strata s5) k = Some y \<longrightarrow> (\<exists>x. od_get (strata s4) k = Some x \<and> ss_count y = ss_count x)"
    "\<forall>k. od_get (strata s4) k \<noteq> None \<longrightarrow> od_get (strata s5) k \<noteq> None"
    by (rule count_admission_works)
  define s6 where "s6 = s5\<lparr>mru_key := Some tk\<rparr>"
  define s7 where "s7 = pop_attempt tk s6"
  have ents: "entries s7 = od_pop tk (entries s) @ [(tk, e)]"
    using s5(4) s4(6) s2(5) s1(3) by (simp add: s7_def s6_def)
  have "populated s4"
    unfolding populated_def
  proof (intro allI impI)
    fix k st assume st: "od_get (strata s4) k = Some st"
    show "1 \<le> ss_count st"
    proof (cases "te_stratum e = Some k")
      case True
      with s4(4) st show ?thesis by auto
    next
      case False
      with s4(3) st have "od_get (strata s2) k = Some st" by simp
      moreover from False s2(6) have "od_get (strata s2) k = od_get (strata s1) k" by (simp add: e_def)
      ultimately have "od_get (strata s1) k = Some st" by simp
      with s1(5) False show ?thesis by (auto simp: e_def)
    qed
  qed
  then have "populated s5" unfolding populated_def using s5(5) by metis
  then have set7: "settled s7" using ents by (simp add: settled_iff populated_def s7_def s6_def pop_attempt_def)
  have f7: "frame_of s5 = frame_of ?s3" using s5(3) s4(5) by simp
  note f7 = frame_fields [OF f7]
  have refs: "owner_refs s7 = rs" using f7 by (simp add: s7_def s6_def)
  have "refs_ok s7"
    unfolding refs_ok_def
  proof (intro allI impI)
    fix tk' e' assume "od_get (entries s7) tk' = Some e'"
    then consider "tk' = tk" "e' = e" | "od_get (entries s) tk' = Some e'" "tk' \<noteq> tk"
      unfolding ents by (auto simp: od_get_snoc od_get_pop split: if_splits)
    then show "keyed tk' e' \<and> od_get (owner_refs s7) (fst tk') = Some (te_owner e')"
    proof cases
      case 1
      then show ?thesis by (simp add: keyed_def refs rs(2) tk_def e_def)
    next
      case 2
      note r = refs_okD [OF ci(3) 2(1)]
      have "owner_refs s2 = owner_refs s" using f2 by simp
      with r owner show ?thesis by (auto simp: refs rs(2))
    qed
  qed
  with s5(2) set7 have c7: "coord_inv s7" by (simp add: coord_inv_def s7_def s6_def)
  obtain bytes where bytes: "modeled_entry_bytes e s7 = Some bytes"
  proof (cases "te_stratum e")
    case (Some k)
    with s4(4) s5(6) obtain y where "od_get (strata s5) k = Some y" by fastforce
    with Some show thesis by (intro that) (simp add: modeled_entry_bytes_def s7_def s6_def)
  qed (simp add: modeled_entry_bytes_def)
  have b6: "modeled_entry_bytes e s6 = Some bytes"
    using bytes by (simp add: modeled_entry_bytes_def s7_def cong: option.case_cong)
  show thesis
  proof (rule that [OF c7 ents _ _ _ _ bytes])
    show "publish_entry ow ns key sg estimated mb s =
      (if bytes > mb then map_option (evict_callback ow ns key) (remove_entry_accounting tk s7)
       else evict_excess s7)"
      unfolding publish_entry_def Let_def tk_def [symmetric] e_def [symmetric]
      by (cases "remove_entry_accounting tk s7")
        (simp_all add: s1(1) s2(1) rs(1) s4(1) s5(1) b6 s6_def [symmetric] s7_def [symmetric])
  qed (use bytes refs rs f2 f7 in \<open>simp_all add: s7_def s6_def base_of_def pop_attempt_def\<close>)
qed

definition budget_ok :: "budget \<Rightarrow> bool" where
  "budget_ok s \<longleftrightarrow> (case max_bytes s of None \<Rightarrow> True | Some m \<Rightarrow> 0 \<le> m)"

lemma empty_not_over:
  assumes "acct_inv s" "settled s" "entries s = []" "budget_ok s"
  shows "\<not> over_budget s"
proof -
  have "strata s = []"
  proof (rule ccontr)
    assume "strata s \<noteq> []"
    then obtain k st where "(k, st) \<in> set (strata s)" by (cases "strata s") auto
    then have st: "od_get (strata s) k = Some st" by (simp only: od_set_iff [OF acct_wf(2) [OF assms(1)]])
    then have "1 \<le> ss_count st" using assms(2) by (simp add: settled_def)
    moreover have "ss_count st = 0"
      using acct_stratum(2) [OF assms(1) st] assms(3) by (simp add: acct_defs)
    ultimately show False by simp
  qed
  then have "total_bytes s = 0" using acct_wf(5,6) [OF assms(1)] assms(3) by (simp add: acct_defs)
  with assms(4) show ?thesis
    by (auto simp: over_budget_def budget_ok_def eviction_target_def split: option.splits)
qed

lemma publish_entry_works:
  fixes ow ns key sg
  defines "tk \<equiv> (ow_id ow, ns, key)" and "e \<equiv> entry_of ow ns key sg"
  assumes inv: "coord_inv s" and ok: "signal_ok sg"
    and owner: "od_get (owner_refs s) (ow_id ow) \<in> {None, Some ow}"
    and est: "estimated = None \<Longrightarrow> samples_known (ow_id ow, ns, key) sg s" and mb: "budget_ok s"
  obtains s' where "publish_entry ow ns key sg estimated mb s = Some s'" "coord_inv s'"
    "max_bytes s' = max_bytes s" "live s' = live s"
    "base_of (s'\<lparr>owner_refs := owner_refs s\<rparr>) = base_of s"
    "od_get (owner_refs s') (ow_id ow) = Some ow"
    "\<forall>oid. oid \<noteq> ow_id ow \<longrightarrow> od_get (owner_refs s') oid = od_get (owner_refs s) oid"
    "entries s' = od_pop tk (entries s) \<and> evict_log s' = evict_log s @ [(ow, ns, key)]
     \<or> \<not> over_budget s' \<and> (\<exists>n. entries s' = drop n (od_pop tk (entries s) @ [(tk, e)])
          \<and> evict_log s' = evict_log s
              @ eviction_calls (live s) (take n (od_pop tk (entries s) @ [(tk, e)])))"
proof -
  from publish_entry_admits [where ns = ns and key = key and mb = mb and estimated = estimated, OF inv ok owner est] obtain s7 bytes where
    s7: "coord_inv s7" "entries s7 = od_pop tk (entries s) @ [(tk, e)]"
    and f7: "od_get (owner_refs s7) (ow_id ow) = Some ow" "max_bytes s7 = max_bytes s"
    "live s7 = live s" "evict_log s7 = evict_log s"
    "base_of (s7\<lparr>owner_refs := owner_refs s\<rparr>) = base_of s"
    "\<forall>oid. oid \<noteq> ow_id ow \<longrightarrow> od_get (owner_refs s7) oid = od_get (owner_refs s) oid"
    and pub: "publish_entry ow ns key sg estimated mb s =
      (if bytes > mb then map_option (evict_callback ow ns key) (remove_entry_accounting tk s7)
       else evict_excess s7)"
    unfolding tk_def e_def by metis
  note c7 = coord_invD [OF s7(1)]
  have base: "base_of (s'\<lparr>owner_refs := owner_refs s\<rparr>) = base_of s" if "base_of s' = base_of s7" for s'
    using f7(5) base_fields [OF that] by (simp add: base_of_def)
  show thesis
  proof (cases "bytes > mb")
    case True
    from remove_entry_works [OF c7(1), of tk] c7(2) obtain r where r:
      "remove_entry_accounting tk s7 = Some r" "acct_inv r" "entries r = od_pop tk (entries s7)"
      "frame_of r = frame_of s7" "settled r" by metis
    note fr = frame_fields [OF r(4)]
    have b: "base_of (evict_callback ow ns key r) = base_of s7"
      using base_of_frame [OF r(4)] by simp
    have "refs_ok (evict_callback ow ns key r)"
      by (rule refs_ok_pop [OF c7(3), of _ tk]) (simp_all add: r(3) fr(3))
    moreover have "od_pop tk (entries s7) = od_pop tk (entries s)"
      by (simp add: s7(2) AList.delete_eq)
    ultimately show thesis
      using r fr f7 True base [OF b]
      by (intro that [of "evict_callback ow ns key r"]) (simp_all add: pub coord_inv_def)
  next
    case False
    from evict_excess_works [OF c7(1,2)] obtain r n where r: "evict_excess s7 = Some r" "acct_inv r"
      "settled r" "entries r = drop n (entries s7)" "entries r = [] \<or> \<not> over_budget r"
      "evict_log r = evict_log s7 @ eviction_calls (live s7) (take n (entries s7))"
      "base_of r = base_of s7" by blast
    note fr = base_fields [OF r(7)]
    have "refs_ok r" by (rule refs_ok_drop [OF c7(3) acct_wf(1) [OF c7(1)] fr(3) r(4)])
    moreover have "\<not> over_budget r"
      using r(5) empty_not_over [OF r(2,3)] mb fr(4) f7(2) by (auto simp: budget_ok_def)
    ultimately show thesis
      using r fr f7 False base [OF r(7)] s7(2)
      by (intro that [of r]) (auto simp: pub coord_inv_def)
  qed
qed

text \<open>Without samples the admission stops at the assertion of \<open>modeled_bytes\<close>.\<close>

lemma publish_entry_fails:
  assumes inv: "coord_inv s" and owner: "od_get (owner_refs s) (ow_id ow) \<in> {None, Some ow}"
    and unknown: "\<not> samples_known (ow_id ow, ns, key) sg s"
  shows "publish_entry ow ns key sg None mb s = None"
proof -
  from unknown obtain s1 k where s1: "replace_old_entry (ow_id ow, ns, key) sg s = Some s1"
    and k: "sg_stratum sg = Some k"
    and no: "case od_get (strata s1) k of None \<Rightarrow> od_get (history s1) k = None | Some x \<Rightarrow> ss_samples x = []"
    unfolding samples_known_def by (auto split: option.splits)
  from replace_old_entry_works [OF coord_invD(1) [OF inv] coord_invD(2) [OF inv], of "(ow_id ow, ns, key)" sg] s1
  have i1: "acct_inv s1" "frame_of s1 = frame_of s" by (metis option.inject)+
  let ?s2 = "activate_stratum k s1"
  from no obtain st where st: "od_get (strata ?s2) k = Some st" "ss_samples st = []"
    by (cases "od_get (strata s1) k") (auto simp: activate_stratum_def odict_simps new_stratum_def)
  have s2: "prepare_stratum sg None s1 = Some ?s2" using k st(1) by (simp add: prepare_stratum_def Let_def)
  note a = activate_stratum_works(1,2) [OF i1(1), of k]
  have "od_get (owner_refs ?s2) (ow_id ow) \<in> {None, Some ow}"
    using owner frame_fields(3) [OF a(2)] frame_fields(3) [OF i1(2)] by simp
  then obtain rs where rs: "owner_reference ow ?s2 = Some (?s2\<lparr>owner_refs := rs\<rparr>)"
    by (rule owner_reference_known)
  have "0 \<le> ss_count st" by (rule acct_stratum_nonneg(1) [OF a(1) st(1)])
  then have "add_entry_accounting (ow_id ow, ns, key) (entry_of ow ns key sg) (?s2\<lparr>owner_refs := rs\<rparr>) = None"
    using k st by (auto simp: add_entry_accounting_def Let_def modeled_bytes_def)
  then show ?thesis using s1 s2 rs by (simp add: publish_entry_def Let_def)
qed

end
