(* ===== verification/RunCacheStep.thy ===== *)
theory RunCacheStep
  imports RunCacheOps
begin

text \<open>
  The public operations of \<open>ProcessRunContextCacheBudget\<close>
  (\<open>src/general_manager/cache/run_context_lru.py\<close>), one definition per critical section, and
  the coordinator as a transition system: any interleaving of registrations, the two
  critical sections of \<open>track\<close>, reads, removals, the death of owners and their finalizers.

  The entries an owner yields to a rebuild are an argument (\<open>owner \<Rightarrow> cached_value list\<close>).
\<close>

section \<open>Track: the two critical sections\<close>

record pending_admission =
  pa_owner :: owner
  pa_namespace :: run_namespace
  pa_key :: cache_key
  pa_signal :: admission_signal
  pa_max :: int
  pa_config :: int
  pa_lifecycle :: int
  pa_attempt :: int
  pa_reestimates :: nat

abbreviation pa_tracked :: "pending_admission \<Rightarrow> tracked_key" where
  "pa_tracked p \<equiv> (ow_id (pa_owner p), pa_namespace p, pa_key p)"

definition requires_calibration :: "admission_signal \<Rightarrow> budget \<Rightarrow> bool" where
  "requires_calibration sg s \<longleftrightarrow> (case sg_stratum sg of
     None \<Rightarrow> False
   | Some k \<Rightarrow>
       (case od_get (strata s) k of
          Some st \<Rightarrow> should_calibrate_next (ss_admissions st)
        | None \<Rightarrow>
            (case od_get (history s) k of
               Some m \<Rightarrow> should_calibrate_next (cm_admissions m)
             | None \<Rightarrow> True)))"

text \<open>A refused entry leaves the accounting and its owner's storage.\<close>

definition refuse :: "owner \<Rightarrow> run_namespace \<Rightarrow> cache_key \<Rightarrow> budget \<Rightarrow> budget option" where
  "refuse ow ns key s = do {
     s1 \<leftarrow> remove_entry_accounting (ow_id ow, ns, key) s;
     Some (evict_callback ow ns key s1)
   }"

definition track_begin ::
    "owner \<Rightarrow> run_namespace \<Rightarrow> cache_key \<Rightarrow> admission_signal \<Rightarrow> budget
      \<Rightarrow> (budget \<times> pending_admission option) option" where
  "track_begin ow ns key sg s =
     (case max_bytes s of
        None \<Rightarrow> Some (s, None)
      | Some m \<Rightarrow>
          let tk = (ow_id ow, ns, key) in
          if m = 0 then do {
            s1 \<leftarrow> refuse ow ns key (pop_attempt tk s);
            Some (capture_mode_publication None s1, None)
          }
          else if \<not> requires_calibration sg s then do {
            s1 \<leftarrow> publish_entry ow ns key sg None m (pop_attempt tk s);
            Some (capture_mode_publication None s1, None)
          }
          else
            let (lg, s1) = owner_lifecycle_generation (ow_id ow) s;
                (ag, s2) = next_admission_generation s1
            in Some (s2\<lparr>attempt_gens := od_set tk ag (attempt_gens s2)\<rparr>,
                     Some \<lparr>pa_owner = ow, pa_namespace = ns, pa_key = key, pa_signal = sg,
                           pa_max = m, pa_config = config_gen s, pa_lifecycle = lg,
                           pa_attempt = ag, pa_reestimates = 0\<rparr>))"

definition gen_or_0 :: "('k, int) odict \<Rightarrow> 'k \<Rightarrow> int" where
  "gen_or_0 d k = (case od_get d k of Some g \<Rightarrow> g | None \<Rightarrow> 0)"

definition is_current :: "pending_admission \<Rightarrow> budget \<Rightarrow> bool" where
  "is_current p s \<longleftrightarrow> pa_lifecycle p = gen_or_0 (lifecycle_gens s) (ow_id (pa_owner p))
     \<and> pa_attempt p = gen_or_0 (attempt_gens s) (pa_tracked p)"

text \<open>The estimate raised: the entry leaves, and the modes are reconciled before re-raising.\<close>

definition track_fail :: "pending_admission \<Rightarrow> budget \<Rightarrow> budget option" where
  "track_fail p s = do {
     s1 \<leftarrow> (if is_current p s then do {
               s1 \<leftarrow> refuse (pa_owner p) (pa_namespace p) (pa_key p) (pop_attempt (pa_tracked p) s);
               Some (capture_mode_publication None s1)
             }
             else Some s);
     Some (capture_mode_publication None s1)
   }"

definition track_commit ::
    "pending_admission \<Rightarrow> int \<Rightarrow> budget \<Rightarrow> (budget \<times> pending_admission option) option" where
  "track_commit p estimated s =
     (if \<not> is_current p s then Some (s, None)
      else if pa_config p \<noteq> config_gen s then
        (case max_bytes s of
           None \<Rightarrow> Some (s, None)
         | Some m \<Rightarrow>
             if m = 0 \<or> pa_reestimates p \<ge> RUN_CONTEXT_TRACK_MAX_REESTIMATES then do {
               s1 \<leftarrow> refuse (pa_owner p) (pa_namespace p) (pa_key p) (pop_attempt (pa_tracked p) s);
               Some (capture_mode_publication None s1, None)
             }
             else Some (s, Some (p\<lparr>pa_max := m, pa_config := config_gen s,
                                   pa_reestimates := pa_reestimates p + 1\<rparr>)))
      else do {
        s1 \<leftarrow> publish_entry (pa_owner p) (pa_namespace p) (pa_key p) (pa_signal p) (Some estimated)
                (pa_max p) s;
        Some (capture_mode_publication None s1, None)
      })"

section \<open>Recency and removal\<close>

fun move_touched :: "tracked_key list \<Rightarrow> budget \<times> tracked_key option \<Rightarrow> budget \<times> tracked_key option" where
  "move_touched [] r = r"
| "move_touched (tk # tks) (s, moved) =
     (if od_get (entries s) tk \<noteq> None
      then move_touched tks (s\<lparr>entries := od_move_to_end tk (entries s)\<rparr>, Some tk)
      else move_touched tks (s, moved))"

definition touch_many ::
    "owner \<Rightarrow> (run_namespace \<times> cache_key) list \<Rightarrow> int option \<Rightarrow> budget \<Rightarrow> budget" where
  "touch_many ow keys mode s =
     (if max_bytes s = None then s
      else let tks = map (\<lambda>(ns, key). (ow_id ow, ns, key)) keys in
        if tks = [] then s
        else if length tks = 1 \<and> Some (hd tks) = mru_key s then s
        else if mode \<noteq> None \<and> (mode \<noteq> Some (mode_gen s) \<or> \<not> recency_enabled s) then s
        else (case move_touched tks (s, None) of
                (s1, None) \<Rightarrow> s1
              | (s1, Some tk) \<Rightarrow> s1\<lparr>mru_key := Some tk\<rparr>))"

definition coord_remove :: "owner \<Rightarrow> run_namespace \<Rightarrow> cache_key \<Rightarrow> budget \<Rightarrow> budget option" where
  "coord_remove ow ns key s =
     (if max_bytes s = None \<and> attempt_gens s = [] then Some s
      else let tk = (ow_id ow, ns, key); s1 = pop_attempt tk s in
        if max_bytes s1 = None then Some s1
        else do {
          s2 \<leftarrow> remove_entry_accounting tk s1;
          Some (capture_mode_publication None s2)
        })"

definition forget_owner :: "nat \<Rightarrow> budget \<Rightarrow> budget" where
  "forget_owner oid s = s\<lparr>owner_refs := od_pop oid (owner_refs s)\<rparr>"

definition clear_context :: "owner \<Rightarrow> budget \<Rightarrow> budget option" where
  "clear_context ow s = do {
     s1 \<leftarrow> remove_owner_entries (ow_id ow) (clear_owner_attempts (ow_id ow) s);
     let s2 = forget_owner (ow_id ow) s1;
     Some (capture_mode_publication None (s2\<lparr>owners := removeAll ow (owners s2)\<rparr>))
   }"

definition remove_dead_owner :: "owner \<Rightarrow> budget \<Rightarrow> budget option" where
  "remove_dead_owner ow s =
     (if od_get (owner_refs s) (ow_id ow) \<noteq> Some ow then Some s
      else do {
        s1 \<leftarrow> remove_owner_entries (ow_id ow) s;
        let s2 = clear_owner_attempts (ow_id ow) s1;
        Some (capture_mode_publication None (forget_owner (ow_id ow) s2))
      })"

section \<open>Registration and rebuild\<close>

definition track_value :: "owner \<Rightarrow> cached_value \<Rightarrow> budget \<Rightarrow> budget option" where
  "track_value ow v s =
     (case max_bytes s of
        None \<Rightarrow> Some s
      | Some m \<Rightarrow>
          if m = 0 then refuse ow (cv_namespace v) (cv_key v) s
          else let sg = cv_signal v;
                   estimated = (case sg_stratum sg of
                       None \<Rightarrow> None
                     | Some k \<Rightarrow>
                         (case od_get (strata s) k of
                            None \<Rightarrow> Some (cv_estimate v m)
                          | Some st \<Rightarrow> if should_calibrate_next (ss_admissions st)
                                       then Some (cv_estimate v m) else None))
               in publish_entry ow (cv_namespace v) (cv_key v) sg estimated m s)"

fun track_owner_entries :: "owner \<Rightarrow> cached_value list \<Rightarrow> budget \<Rightarrow> budget option" where
  "track_owner_entries ow [] s = Some s"
| "track_owner_entries ow (v # vs) s = do { s1 \<leftarrow> track_value ow v s; track_owner_entries ow vs s1 }"

fun track_all :: "(owner \<Rightarrow> cached_value list) \<Rightarrow> owner list \<Rightarrow> budget \<Rightarrow> budget option" where
  "track_all vals [] s = Some s"
| "track_all vals (ow # ows) s = do { s1 \<leftarrow> track_owner_entries ow (vals ow) s; track_all vals ows s1 }"

definition reset_accounting :: "budget \<Rightarrow> budget" where
  "reset_accounting s = s\<lparr>entries := [], strata := [], mru_key := None, exact_total := 0, total_bytes := 0\<rparr>"

definition rebuild :: "(owner \<Rightarrow> cached_value list) \<Rightarrow> budget \<Rightarrow> budget option" where
  "rebuild vals s = track_all vals (owners s) ((reset_accounting s)\<lparr>history := []\<rparr>)"

definition register :: "(owner \<Rightarrow> cached_value list) \<Rightarrow> owner \<Rightarrow> int option \<Rightarrow> budget \<Rightarrow> budget option" where
  "register vals ow mb s =
     (let is_new = ow \<notin> set (owners s);
          s1 = (if is_new then s\<lparr>owners := owners s @ [ow]\<rparr> else s)
      in do {
        s2 \<leftarrow> owner_reference ow s1;
        if mb = max_bytes s2 then do {
          s3 \<leftarrow> (if is_new \<and> mb \<noteq> None then track_owner_entries ow (vals ow) s2 else Some s2);
          Some (capture_mode_publication (if is_new then Some ow else None) s3)
        }
        else
          let s3 = s2\<lparr>max_bytes := mb, config_gen := config_gen s2 + 1, history := []\<rparr> in do {
            s4 \<leftarrow> (if mb = None then Some ((reset_accounting s3)\<lparr>attempt_gens := []\<rparr>)
                    else if max_bytes s2 = None then rebuild vals s3
                    else if is_new then do {
                      s4 \<leftarrow> track_owner_entries ow (vals ow) s3;
                      evict_excess s4
                    }
                    else evict_excess s3);
            Some (capture_mode_publication None s4)
          }
      })"

section \<open>Every operation keeps the invariant\<close>

definition owners_ok :: "budget \<Rightarrow> bool" where
  "owners_ok s \<longleftrightarrow> set (owners s) \<subseteq> set (live s)
     \<and> (\<forall>ow\<in>set (owners s). od_get (owner_refs s) (ow_id ow) = Some ow)"

definition node_inv :: "budget \<Rightarrow> bool" where
  "node_inv s \<longleftrightarrow> coord_inv s \<and> budget_ok s \<and> owners_ok s"

text \<open>No weak reference to another object with this owner's \<open>id()\<close> is registered.\<close>

definition admits :: "owner \<Rightarrow> budget \<Rightarrow> bool" where
  "admits ow s \<longleftrightarrow> od_get (owner_refs s) (ow_id ow) \<in> {None, Some ow}"

lemma node_invD:
  "node_inv s \<Longrightarrow> coord_inv s" "node_inv s \<Longrightarrow> acct_inv s" "node_inv s \<Longrightarrow> settled s"
  "node_inv s \<Longrightarrow> refs_ok s" "node_inv s \<Longrightarrow> budget_ok s" "node_inv s \<Longrightarrow> owners_ok s"
  by (simp_all add: node_inv_def coord_inv_def)

text \<open>Operations that only write modes, generations and callbacks.\<close>

definition core_of where
  "core_of s = (owners s, live s, owner_refs s, entries s, strata s, history s, mru_key s,
     exact_total s, total_bytes s, max_bytes s)"

lemma node_inv_core: "core_of s' = core_of s \<Longrightarrow> node_inv s' = node_inv s"
  by (simp add: core_of_def node_inv_def coord_inv_def acct_inv_def settled_def refs_ok_def
      budget_ok_def owners_ok_def)

lemma admits_core: "core_of s' = core_of s \<Longrightarrow> admits ow s' = admits ow s"
  by (simp add: core_of_def admits_def)

lemma core_of_simps [simp]:
  "core_of (capture_mode_publication new s) = core_of s"
  "core_of (pop_attempt tk s) = core_of s" "core_of (evict_callback ow ns key s) = core_of s"
  "core_of (s\<lparr>attempt_gens := gs\<rparr>) = core_of s"
  "core_of (clear_owner_attempts oid s) = core_of s"
  "core_of (snd (next_admission_generation s)) = core_of s"
  "core_of (snd (owner_lifecycle_generation oid s)) = core_of s"
  by (simp_all add: core_of_def capture_mode_publication_def Let_def pop_attempt_def evict_callback_def
      clear_owner_attempts_def next_admission_generation_def owner_lifecycle_generation_def
      split: option.splits)

lemmas node_inv_simps [simp] = core_of_simps [THEN node_inv_core] core_of_simps [THEN admits_core]

lemma node_inv_sub:
  assumes "node_inv s" "acct_inv s'" "settled s'" "base_of s' = base_of s"
    "\<forall>tk e. od_get (entries s') tk = Some e \<longrightarrow> od_get (entries s) tk = Some e"
  shows "node_inv s'"
  using assms base_fields [OF assms(4)] refs_ok_sub [of s s']
  by (simp add: node_inv_def coord_inv_def budget_ok_def owners_ok_def)

lemma remove_entry_coord:
  assumes "coord_inv s"
  obtains s' where "remove_entry_accounting tk s = Some s'" "coord_inv s'"
    "entries s' = od_pop tk (entries s)" "frame_of s' = frame_of s"
proof -
  from remove_entry_works [OF coord_invD(1) [OF assms], of tk] coord_invD(2) [OF assms] obtain r where
    r: "remove_entry_accounting tk s = Some r" "acct_inv r" "settled r"
    "entries r = od_pop tk (entries s)" "frame_of r = frame_of s" by metis
  moreover have "refs_ok r"
    by (rule refs_ok_pop [OF coord_invD(3) [OF assms] frame_fields(3) [OF r(5)] r(4)])
  ultimately show thesis using that by (simp add: coord_inv_def)
qed

lemma remove_keys_coord:
  assumes "coord_inv s"
  shows "\<exists>s'. remove_keys tks s = Some s' \<and> coord_inv s' \<and> frame_of s' = frame_of s
    \<and> entries s' = filter (\<lambda>p. fst p \<notin> set tks) (entries s)"
  using assms
proof (induction tks arbitrary: s)
  case (Cons tk tks)
  from remove_entry_coord [OF Cons.prems, of tk] obtain r where r: "remove_entry_accounting tk s = Some r"
    "coord_inv r" "entries r = od_pop tk (entries s)" "frame_of r = frame_of s" .
  from Cons.IH [OF r(2)] r show ?case
    by (auto simp: AList.delete_eq split_def intro!: filter_cong)
qed simp

lemma remove_owner_coord:
  assumes "coord_inv s"
  obtains s' where "remove_owner_entries oid s = Some s'" "coord_inv s'" "frame_of s' = frame_of s"
    "entries s' = filter (\<lambda>p. fst (fst p) \<noteq> oid) (entries s)"
proof -
  from remove_keys_coord [OF assms, of "filter (\<lambda>tk. fst tk = oid) (od_keys (entries s))"] obtain s' where
    s': "remove_owner_entries oid s = Some s'" "coord_inv s'" "frame_of s' = frame_of s"
    "entries s' = filter (\<lambda>p. fst p \<notin> set (filter (\<lambda>tk. fst tk = oid) (od_keys (entries s)))) (entries s)"
    unfolding remove_owner_entries_def by blast
  have "entries s' = filter (\<lambda>p. fst (fst p) \<noteq> oid) (entries s)"
    unfolding s'(4) by (rule filter_cong) auto
  with s' show thesis by (intro that)
qed

lemma node_inv_frame: "node_inv s \<Longrightarrow> coord_inv s' \<Longrightarrow> frame_of s' = frame_of s \<Longrightarrow> node_inv s'"
  using frame_fields [of s' s] by (simp add: node_inv_def budget_ok_def owners_ok_def)

lemma remove_entry_node:
  assumes "node_inv s"
  obtains s' where "remove_entry_accounting tk s = Some s'" "node_inv s'"
    "entries s' = od_pop tk (entries s)" "frame_of s' = frame_of s"
  using remove_entry_coord [OF node_invD(1) [OF assms], of tk] node_inv_frame [OF assms] by metis

lemma refuse_works:
  assumes "node_inv s"
  obtains s' where "refuse ow ns key s = Some s'" "node_inv s'" "base_of s' = base_of s"
    "entries s' = od_pop (ow_id ow, ns, key) (entries s)" "evict_log s' = evict_log s @ [(ow, ns, key)]"
proof -
  from remove_entry_node [OF assms, of "(ow_id ow, ns, key)"] obtain r where
    r: "remove_entry_accounting (ow_id ow, ns, key) s = Some r" "node_inv r"
    "entries r = od_pop (ow_id ow, ns, key) (entries s)" "frame_of r = frame_of s" .
  then show thesis
    using base_of_frame [OF r(4)] frame_fields(13) [OF r(4)]
    by (intro that [of "evict_callback ow ns key r"]) (simp_all add: refuse_def)
qed

lemma publish_node:
  assumes inv: "node_inv s" and ok: "signal_ok sg" and adm: "admits ow s"
    and est: "estimated = None \<Longrightarrow> samples_known (ow_id ow, ns, key) sg s"
  obtains s' where "publish_entry ow ns key sg estimated mb s = Some s'" "node_inv s'"
    "admits ow s'" "max_bytes s' = max_bytes s" "live s' = live s" "owners s' = owners s"
    "\<forall>oid. oid \<noteq> ow_id ow \<longrightarrow> od_get (owner_refs s') oid = od_get (owner_refs s) oid"
proof -
  from publish_entry_works [where ns = ns and key = key and mb = mb and estimated = estimated,
      OF node_invD(1) [OF inv] ok adm [unfolded admits_def] est node_invD(5) [OF inv]]
  obtain s' where s': "publish_entry ow ns key sg estimated mb s = Some s'" "coord_inv s'"
    "max_bytes s' = max_bytes s" "live s' = live s"
    "base_of (s'\<lparr>owner_refs := owner_refs s\<rparr>) = base_of s"
    "od_get (owner_refs s') (ow_id ow) = Some ow"
    "\<forall>oid. oid \<noteq> ow_id ow \<longrightarrow> od_get (owner_refs s') oid = od_get (owner_refs s) oid" by metis
  have ow: "owners s' = owners s" using s'(5) by (simp add: base_of_def)
  have "owners_ok s'"
    unfolding owners_ok_def
  proof (intro conjI ballI)
    show "set (owners s') \<subseteq> set (live s')"
      using node_invD(6) [OF inv] by (simp add: owners_ok_def ow s'(4))
    fix o' assume o': "o' \<in> set (owners s')"
    then have "od_get (owner_refs s) (ow_id o') = Some o'"
      using node_invD(6) [OF inv] by (simp add: owners_ok_def ow)
    then show "od_get (owner_refs s') (ow_id o') = Some o'"
      using s'(6,7) adm by (cases "ow_id o' = ow_id ow") (auto simp: admits_def)
  qed
  moreover have "budget_ok s'" using node_invD(5) [OF inv] s'(3) by (simp add: budget_ok_def)
  ultimately show thesis
    using s' ow by (intro that [of s']) (simp_all add: node_inv_def admits_def)
qed

definition value_ok :: "cached_value \<Rightarrow> bool" where
  "value_ok v \<longleftrightarrow> signal_ok (cv_signal v)"

lemma track_value_node:
  assumes inv: "node_inv s" and adm: "admits ow s" and ok: "value_ok v"
  obtains s' where "track_value ow v s = Some s'" "node_inv s'" "admits ow s'"
    "max_bytes s' = max_bytes s" "live s' = live s" "owners s' = owners s"
    "\<forall>oid. oid \<noteq> ow_id ow \<longrightarrow> od_get (owner_refs s') oid = od_get (owner_refs s) oid"
proof (cases "max_bytes s")
  case None
  then show thesis using that [of s] inv adm by (simp add: track_value_def)
next
  case (Some m)
  show thesis
  proof (cases "m = 0")
    case True
    from refuse_works [OF inv] obtain r where r:
      "refuse ow (cv_namespace v) (cv_key v) s = Some r" "node_inv r" "base_of r = base_of s" by metis
    then show thesis
      using that [of r] Some True base_fields [OF r(3)] adm by (simp add: track_value_def admits_def)
  next
    case False
    let ?est = "case sg_stratum (cv_signal v) of None \<Rightarrow> None | Some k \<Rightarrow>
        (case od_get (strata s) k of None \<Rightarrow> Some (cv_estimate v m)
         | Some st \<Rightarrow> if should_calibrate_next (ss_admissions st) then Some (cv_estimate v m) else None)"
    have "?est = None \<Longrightarrow> samples_known (ow_id ow, cv_namespace v, cv_key v) (cv_signal v) s"
      by (rule calibrated_known [OF node_invD(2,3) [OF inv]])
        (auto simp: calibrated_def split: option.splits)
    from publish_node [where mb = m, OF inv ok [unfolded value_ok_def] adm this] obtain s' where
      "publish_entry ow (cv_namespace v) (cv_key v) (cv_signal v) ?est m s = Some s'" "node_inv s'"
      "admits ow s'" "max_bytes s' = max_bytes s" "live s' = live s" "owners s' = owners s"
      "\<forall>oid. oid \<noteq> ow_id ow \<longrightarrow> od_get (owner_refs s') oid = od_get (owner_refs s) oid" .
    with Some False show thesis by (intro that [of s']) (simp_all add: track_value_def Let_def)
  qed
qed

lemma track_owner_node:
  assumes "node_inv s" "admits ow s" "\<forall>v\<in>set vs. value_ok v"
  shows "\<exists>s'. track_owner_entries ow vs s = Some s' \<and> node_inv s' \<and> admits ow s'
    \<and> max_bytes s' = max_bytes s \<and> live s' = live s \<and> owners s' = owners s
    \<and> (\<forall>oid. oid \<noteq> ow_id ow \<longrightarrow> od_get (owner_refs s') oid = od_get (owner_refs s) oid)"
  using assms
proof (induction vs arbitrary: s)
  case (Cons v vs)
  then have "value_ok v" by simp
  from track_value_node [OF Cons.prems(1,2) this] obtain r where r: "track_value ow v s = Some r"
    "node_inv r" "admits ow r" "max_bytes r = max_bytes s" "live r = live s" "owners r = owners s"
    "\<forall>oid. oid \<noteq> ow_id ow \<longrightarrow> od_get (owner_refs r) oid = od_get (owner_refs s) oid" .
  from Cons.IH [OF r(2,3)] Cons.prems(3) r show ?case by auto
qed simp

lemma owners_admit: "node_inv s \<Longrightarrow> ow \<in> set (owners s) \<Longrightarrow> admits ow s"
  by (simp add: node_inv_def owners_ok_def admits_def)

lemma track_all_node:
  assumes "node_inv s" "\<forall>ow v. v \<in> set (vals ow) \<longrightarrow> value_ok v" "set ows \<subseteq> set (owners s)"
  shows "\<exists>s'. track_all vals ows s = Some s' \<and> node_inv s' \<and> max_bytes s' = max_bytes s
    \<and> live s' = live s \<and> owners s' = owners s"
  using assms
proof (induction ows arbitrary: s)
  case (Cons ow ows)
  then have "ow \<in> set (owners s)" by simp
  from track_owner_node [OF Cons.prems(1) owners_admit [OF Cons.prems(1) this], of "vals ow"]
    Cons.prems(2) obtain r where r: "track_owner_entries ow (vals ow) s = Some r" "node_inv r"
    "max_bytes r = max_bytes s" "live r = live s" "owners r = owners s" by blast
  from Cons.IH [OF r(2) Cons.prems(2)] Cons.prems(3) r show ?case by auto
qed simp

lemma acct_inv_reset:
  "acct_inv s \<Longrightarrow> acct_inv ((reset_accounting s)\<lparr>history := []\<rparr>)"
  by (simp add: acct_inv_def reset_accounting_def acct_defs)

lemma node_inv_reset:
  assumes "node_inv s" "budget_ok (s\<lparr>max_bytes := mb\<rparr>)"
    "base_of t = base_of (s\<lparr>max_bytes := mb, config_gen := config_gen t\<rparr>)"
    "entries t = []" "strata t = []" "history t = []" "mru_key t = None"
    "exact_total t = 0" "total_bytes t = 0"
  shows "node_inv t"
proof -
  note f = base_fields [OF assms(3)]
  have "acct_inv t" using assms(4-9) by (simp add: acct_inv_def acct_defs)
  moreover have "settled t" "refs_ok t" using assms(4-9) by (simp_all add: settled_def refs_ok_def)
  moreover have "budget_ok t" "owners_ok t"
    using assms(2) node_invD(6) [OF assms(1)] f by (simp_all add: budget_ok_def owners_ok_def)
  ultimately show ?thesis by (simp add: node_inv_def coord_inv_def)
qed

lemma node_inv_limit:
  assumes "node_inv s" "budget_ok (s\<lparr>max_bytes := mb\<rparr>)"
  shows "node_inv (s\<lparr>max_bytes := mb, config_gen := g, history := []\<rparr>)"
proof -
  let ?t = "s\<lparr>max_bytes := mb, config_gen := g, history := []\<rparr>"
  have "acct_inv ?t" using node_invD(2) [OF assms(1)] by (simp add: acct_inv_def)
  moreover have "settled ?t" "refs_ok ?t" "owners_ok ?t" "budget_ok ?t"
    using node_invD [OF assms(1)] assms(2)
    by (simp_all add: settled_def refs_ok_def owners_ok_def budget_ok_def)
  ultimately show ?thesis by (simp add: node_inv_def coord_inv_def)
qed

lemma evict_excess_node:
  assumes "node_inv s"
  obtains s' where "evict_excess s = Some s'" "node_inv s'" "\<not> over_budget s'" "base_of s' = base_of s"
proof -
  from evict_excess_works [OF node_invD(2,3) [OF assms]] obtain r n where r: "evict_excess s = Some r"
    "acct_inv r" "settled r" "entries r = drop n (entries s)" "entries r = [] \<or> \<not> over_budget r"
    "base_of r = base_of s" by blast
  have n: "node_inv r"
    by (rule node_inv_sub [OF assms r(2,3,6)])
      (use r(4) od_get_drop [OF acct_wf(1) [OF node_invD(2) [OF assms]]] in auto)
  then have "\<not> over_budget r"
    using r(5) empty_not_over [OF r(2,3)] node_invD(5) by blast
  with n r show thesis by (intro that)
qed

lemma set_ref_coord:
  assumes "coord_inv s" "\<forall>tk e. od_get (entries s) tk = Some e \<longrightarrow> fst tk = ow_id ow \<longrightarrow> te_owner e = ow"
  shows "coord_inv (s\<lparr>owner_refs := od_set (ow_id ow) ow (owner_refs s)\<rparr>)"
proof -
  have "refs_ok (s\<lparr>owner_refs := od_set (ow_id ow) ow (owner_refs s)\<rparr>)"
    using coord_invD(3) [OF assms(1)] assms(2) by (simp add: refs_ok_def odict_simps)
  with coord_invD [OF assms(1)] show ?thesis by (simp add: coord_inv_def)
qed

lemma od_get_filter_key:
  "od_get (filter (\<lambda>p. P (fst p)) d) k = (if P k then od_get d k else None)"
  by (induction d) auto

text \<open>After \<open>owner_reference\<close> the coordinator holds a reference to this very owner.\<close>

lemma owner_reference_coord:
  assumes inv: "coord_inv s"
  obtains s' where "owner_reference ow s = Some s'" "coord_inv s'"
    "\<forall>oid. od_get (owner_refs s') oid = (if oid = ow_id ow then Some ow else od_get (owner_refs s) oid)"
    "max_bytes s' = max_bytes s" "live s' = live s" "owners s' = owners s"
proof (cases "od_get (owner_refs s) (ow_id ow)")
  case None
  have "coord_inv (s\<lparr>owner_refs := od_set (ow_id ow) ow (owner_refs s)\<rparr>)"
    by (rule set_ref_coord [OF inv]) (use refs_okD(2) [OF coord_invD(3) [OF inv]] None in fastforce)
  with None show thesis
    by (intro that [of "s\<lparr>owner_refs := od_set (ow_id ow) ow (owner_refs s)\<rparr>"])
      (simp_all add: owner_reference_def odict_simps)
next
  case (Some r)
  show thesis
  proof (cases "r = ow")
    case True
    with Some inv show thesis by (intro that [of s]) (simp_all add: owner_reference_def)
  next
    case False
    from remove_owner_coord [OF inv, of "ow_id ow"] obtain t where t:
      "remove_owner_entries (ow_id ow) s = Some t" "coord_inv t" "frame_of t = frame_of s"
      "entries t = filter (\<lambda>p. fst (fst p) \<noteq> ow_id ow) (entries s)" .
    let ?t = "clear_owner_attempts (ow_id ow) t"
    note f = frame_fields [OF t(3)]
    have c: "coord_inv ?t"
      using coord_invD [OF t(2)]
      by (simp add: coord_inv_def) (simp add: refs_ok_def clear_owner_attempts_def)
    have g: "owner_refs ?t = owner_refs s" "entries ?t = entries t" "max_bytes ?t = max_bytes s"
      "live ?t = live s" "owners ?t = owners s"
      using f by (simp_all add: clear_owner_attempts_def)
    have "coord_inv (?t\<lparr>owner_refs := od_set (ow_id ow) ow (owner_refs ?t)\<rparr>)"
      by (rule set_ref_coord [OF c])
        (simp add: g(2) t(4) od_get_filter_key [of "\<lambda>k. fst k \<noteq> ow_id ow"])
    with Some False t(1) g show thesis
      by (intro that [of "?t\<lparr>owner_refs := od_set (ow_id ow) ow (owner_refs ?t)\<rparr>"])
        (simp_all add: owner_reference_def odict_simps)
  qed
qed

text \<open>
  Registering never fails: the limit is validated, the owner is a live object, and no other
  live owner has its \<open>id()\<close>.
\<close>

definition can_register :: "owner \<Rightarrow> budget \<Rightarrow> bool" where
  "can_register ow s \<longleftrightarrow> ow \<in> set (live s)
     \<and> (\<forall>o'\<in>set (owners s). ow_id o' = ow_id ow \<longrightarrow> o' = ow)"

definition values_ok :: "(owner \<Rightarrow> cached_value list) \<Rightarrow> bool" where
  "values_ok vals \<longleftrightarrow> (\<forall>ow. \<forall>v\<in>set (vals ow). value_ok v)"

definition limit_ok :: "int option \<Rightarrow> bool" where
  "limit_ok mb \<longleftrightarrow> (case mb of None \<Rightarrow> True | Some m \<Rightarrow> 0 \<le> m)"

lemma budget_ok_limit: "budget_ok (s\<lparr>max_bytes := mb\<rparr>) = limit_ok mb"
  by (simp add: budget_ok_def limit_ok_def)

lemma register_owner_node:
  assumes inv: "node_inv s" and can: "can_register ow s"
  obtains s2 where
    "owner_reference ow (if ow \<in> set (owners s) then s else s\<lparr>owners := owners s @ [ow]\<rparr>) = Some s2"
    "node_inv s2" "admits ow s2" "max_bytes s2 = max_bytes s" "live s2 = live s"
    "owners s2 = (if ow \<in> set (owners s) then owners s else owners s @ [ow])"
proof -
  let ?s1 = "if ow \<in> set (owners s) then s else s\<lparr>owners := owners s @ [ow]\<rparr>"
  have "coord_inv ?s1"
    using node_invD(1) [OF inv]
    by (auto simp: coord_inv_def acct_inv_def settled_def refs_ok_def)
  then obtain s2 where s2: "owner_reference ow ?s1 = Some s2" "coord_inv s2"
    "\<forall>oid. od_get (owner_refs s2) oid = (if oid = ow_id ow then Some ow else od_get (owner_refs ?s1) oid)"
    "max_bytes s2 = max_bytes ?s1" "live s2 = live ?s1" "owners s2 = owners ?s1"
    by (rule owner_reference_coord)
  have "owners_ok s2"
    using node_invD(6) [OF inv] can by (auto simp: owners_ok_def can_register_def s2(3,5,6))
  moreover have "budget_ok s2" using node_invD(5) [OF inv] by (simp add: budget_ok_def s2(4))
  moreover have "admits ow s2" using s2(3) by (simp add: admits_def)
  ultimately show thesis using s2 by (intro that [of s2]) (auto simp: node_inv_def)
qed

lemma rebuild_node:
  assumes "node_inv s" "values_ok vals"
  obtains s' where "rebuild vals s = Some s'" "node_inv s'"
proof -
  let ?t = "(reset_accounting s)\<lparr>history := []\<rparr>"
  have "node_inv ?t"
    by (rule node_inv_reset [OF assms(1), of "max_bytes s"])
      (use node_invD(5) [OF assms(1)] in \<open>simp_all add: reset_accounting_def base_of_def budget_ok_def\<close>)
  from track_all_node [OF this, of vals "owners s"] assms(2) that show thesis
    by (auto simp: rebuild_def values_ok_def reset_accounting_def)
qed

lemma register_node:
  assumes inv: "node_inv s" and can: "can_register ow s" and vals: "values_ok vals" and lim: "limit_ok mb"
  obtains s' where "register vals ow mb s = Some s'" "node_inv s'"
proof -
  from inv can obtain s2 where
    s2: "owner_reference ow (if ow \<in> set (owners s) then s else s\<lparr>owners := owners s @ [ow]\<rparr>) = Some s2"
    "node_inv s2" "admits ow s2"
    by (rule register_owner_node)
  have ref: "owner_reference ow (if ow \<notin> set (owners s) then s\<lparr>owners := owners s @ [ow]\<rparr> else s) = Some s2"
    using s2(1) by (simp split: if_splits)
  have vs: "\<forall>v\<in>set (vals ow). value_ok v" using vals by (simp add: values_ok_def)
  show thesis
  proof (cases "mb = max_bytes s2")
    case True
    obtain s3 where "(if ow \<notin> set (owners s) \<and> mb \<noteq> None then track_owner_entries ow (vals ow) s2
        else Some s2) = Some s3" "node_inv s3"
      using track_owner_node [OF s2(2,3) vs] s2(2) by (cases "ow \<notin> set (owners s) \<and> mb \<noteq> None") auto
    with True ref show thesis
      by (intro that [of "capture_mode_publication (if ow \<notin> set (owners s) then Some ow else None) s3"])
        (simp_all add: register_def Let_def)
  next
    case False
    let ?s3 = "s2\<lparr>max_bytes := mb, config_gen := config_gen s2 + 1, history := []\<rparr>"
    have n3: "node_inv ?s3" by (rule node_inv_limit [OF s2(2)]) (simp add: budget_ok_limit lim)
    have a3: "admits ow ?s3" using s2(3) by (simp add: admits_def)
    obtain s4 where s4: "(if mb = None then Some ((reset_accounting ?s3)\<lparr>attempt_gens := []\<rparr>)
        else if max_bytes s2 = None then rebuild vals ?s3
        else if ow \<notin> set (owners s) then do { s4 \<leftarrow> track_owner_entries ow (vals ow) ?s3; evict_excess s4 }
        else evict_excess ?s3) = Some s4" "node_inv s4"
    proof -
      consider "mb = None" | m where "mb = Some m" "max_bytes s2 = None"
        | m m2 where "mb = Some m" "max_bytes s2 = Some m2" "ow \<notin> set (owners s)"
        | m m2 where "mb = Some m" "max_bytes s2 = Some m2" "ow \<in> set (owners s)" by blast
      then show thesis
      proof cases
        case 1
        have "node_inv ((reset_accounting ?s3)\<lparr>attempt_gens := []\<rparr>)"
          by (rule node_inv_reset [OF n3, of mb])
            (simp_all add: reset_accounting_def base_of_def budget_ok_limit lim)
        with 1 that show thesis by simp
      next
        case 2
        from n3 vals obtain r where "rebuild vals ?s3 = Some r" "node_inv r" by (rule rebuild_node)
        with 2 show thesis by (intro that [of r]) simp_all
      next
        case 3
        from track_owner_node [OF n3 a3 vs] obtain r where r: "track_owner_entries ow (vals ow) ?s3 = Some r"
          "node_inv r" by blast
        from evict_excess_node [OF r(2)] obtain r' where "evict_excess r = Some r'" "node_inv r'" by metis
        with 3 r show thesis by (intro that [of r']) simp_all
      next
        case 4
        from evict_excess_node [OF n3] obtain r' where "evict_excess ?s3 = Some r'" "node_inv r'" by metis
        with 4 show thesis by (intro that [of r']) simp_all
      qed
    qed
    with False ref show thesis
      by (intro that [of "capture_mode_publication None s4"]) (simp_all add: register_def Let_def)
  qed
qed

lemma refuse_node: "node_inv s \<Longrightarrow> \<exists>t. refuse ow ns key s = Some t \<and> node_inv t"
  by (rule refuse_works [of s ow ns key]) auto

lemma publish_node_ex:
  assumes "node_inv s" "signal_ok sg" "admits ow s"
    "estimated \<noteq> None \<or> samples_known (ow_id ow, ns, key) sg s"
  shows "\<exists>t. publish_entry ow ns key sg estimated mb s = Some t \<and> node_inv t"
  by (rule publish_node [OF assms(1-3), of estimated ns key mb]) (use assms(4) in auto)

section \<open>The coordinator as a transition system\<close>

lemma track_begin_node:
  assumes inv: "node_inv s" and ok: "signal_ok sg" and adm: "admits ow s"
    and r: "track_begin ow ns key sg s = Some (s', p)"
  shows "node_inv s'"
proof (cases "max_bytes s")
  case None
  with r inv show ?thesis by (simp add: track_begin_def)
next
  case (Some m)
  let ?tk = "(ow_id ow, ns, key)"
  have i: "node_inv (pop_attempt ?tk s)" using inv by simp
  consider "m = 0" | "m \<noteq> 0" "requires_calibration sg s" | "m \<noteq> 0" "\<not> requires_calibration sg s" by blast
  then show ?thesis
  proof cases
    case 1
    with r Some refuse_node [OF i, of ow ns key] show ?thesis by (auto simp: track_begin_def)
  next
    case 2
    obtain lg s1 where l: "owner_lifecycle_generation (ow_id ow) s = (lg, s1)" by fastforce
    obtain ag s2 where n: "next_admission_generation s1 = (ag, s2)" by fastforce
    have "core_of s2 = core_of s"
      using core_of_simps(6) [of s1] core_of_simps(7) [of "ow_id ow" s] by (simp only: l n snd_conv)
    moreover have "track_begin ow ns key sg s = Some (s2\<lparr>attempt_gens := od_set ?tk ag (attempt_gens s2)\<rparr>,
         Some \<lparr>pa_owner = ow, pa_namespace = ns, pa_key = key, pa_signal = sg, pa_max = m,
           pa_config = config_gen s, pa_lifecycle = lg, pa_attempt = ag, pa_reestimates = 0\<rparr>)"
      using 2 by (simp add: track_begin_def Some l n)
    with r have "s' = s2\<lparr>attempt_gens := od_set ?tk ag (attempt_gens s2)\<rparr>" by simp
    ultimately have "core_of s' = core_of s" by (simp only: core_of_simps)
    from node_inv_core [OF this] inv show ?thesis by simp
  next
    case 3
    with r Some obtain t where t: "publish_entry ow ns key sg None m (pop_attempt ?tk s) = Some t"
      "s' = capture_mode_publication None t"
      by (auto simp: track_begin_def Option.bind_eq_Some_conv)
    have a: "admits ow (pop_attempt ?tk s)" using adm by simp
    have "samples_known ?tk sg (pop_attempt ?tk s)"
    proof (rule ccontr)
      assume "\<not> ?thesis"
      from publish_entry_fails [OF node_invD(1) [OF i] a [unfolded admits_def] this, of m] t(1)
      show False by simp
    qed
    with publish_node_ex [OF i ok a, of None ns key m] t show ?thesis by auto
  qed
qed

lemma track_fail_node:
  assumes inv: "node_inv s"
  obtains s' where "track_fail p s = Some s'" "node_inv s'"
proof -
  have i: "node_inv (pop_attempt (pa_tracked p) s)" using inv by simp
  from refuse_node [OF i, of "pa_owner p" "pa_namespace p" "pa_key p"] inv that show thesis by (cases "is_current p s") (auto simp: track_fail_def)
qed

lemma track_commit_node:
  assumes inv: "node_inv s" and ok: "signal_ok (pa_signal p)" and adm: "admits (pa_owner p) s"
  obtains s' p' where "track_commit p estimated s = Some (s', p')" "node_inv s'"
proof -
  have i: "node_inv (pop_attempt (pa_tracked p) s)" using inv by simp
  from refuse_node [OF i, of "pa_owner p" "pa_namespace p" "pa_key p"] obtain t where t:
    "refuse (pa_owner p) (pa_namespace p) (pa_key p) (pop_attempt (pa_tracked p) s) = Some t" "node_inv t"
    by blast
  from publish_node_ex [OF inv ok adm, of "Some estimated" "pa_namespace p" "pa_key p" "pa_max p"] obtain u where
    u: "publish_entry (pa_owner p) (pa_namespace p) (pa_key p) (pa_signal p) (Some estimated) (pa_max p) s
      = Some u" "node_inv u" by blast
  consider "\<not> is_current p s" | "is_current p s" "pa_config p = config_gen s"
    | "is_current p s" "pa_config p \<noteq> config_gen s" "max_bytes s = None"
    | m where "is_current p s" "pa_config p \<noteq> config_gen s" "max_bytes s = Some m"
        "m = 0 \<or> pa_reestimates p \<ge> RUN_CONTEXT_TRACK_MAX_REESTIMATES"
    | m where "is_current p s" "pa_config p \<noteq> config_gen s" "max_bytes s = Some m"
        "\<not> (m = 0 \<or> pa_reestimates p \<ge> RUN_CONTEXT_TRACK_MAX_REESTIMATES)" by blast
  then show thesis
    by cases (use t u inv that in \<open>auto simp: track_commit_def\<close>)
qed

lemma acct_inv_entries:
  assumes "acct_inv s" "od_wf es" "\<forall>tk. od_get es tk = od_get (entries s) tk"
    "\<forall>k. members k es = members k (entries s)" "\<forall>k. member_shallow k es = member_shallow k (entries s)"
    "exact_sum es = exact_sum (entries s)"
  shows "acct_inv (s\<lparr>entries := es\<rparr>)"
  using assms by (simp add: acct_inv_def)

lemma acct_inv_move_to_end: "acct_inv s \<Longrightarrow> acct_inv (s\<lparr>entries := od_move_to_end tk (entries s)\<rparr>)"
  using acct_wf(1) [of s]
  by (intro acct_inv_entries) (auto simp: odict_simps acct_defs)

text \<open>
  A batch of touches permutes the entries: the touched ones end up last, in the order of
  their last touch.
\<close>

lemma move_touched_spec:
  assumes "acct_inv s"
  shows "\<exists>es. fst (move_touched tks (s, moved)) = s\<lparr>entries := es\<rparr> \<and> acct_inv (s\<lparr>entries := es\<rparr>)
    \<and> (\<forall>tk. od_get es tk = od_get (entries s) tk)
    \<and> (\<forall>tk. snd (move_touched tks (s, moved)) = Some tk \<longrightarrow>
         (moved = Some tk \<and> es = entries s) \<or> es \<noteq> [] \<and> fst (last es) = tk)
    \<and> (snd (move_touched tks (s, moved)) = None \<longrightarrow> moved = None \<and> es = entries s)"
  using assms
proof (induction tks arbitrary: s moved)
  case Nil
  then show ?case by (intro exI [of _ "entries s"]) simp
next
  case (Cons tk tks)
  show ?case
  proof (cases "od_get (entries s) tk")
    case None
    with Cons.IH [OF Cons.prems, of moved] show ?thesis by simp
  next
    case (Some e)
    let ?s = "s\<lparr>entries := od_move_to_end tk (entries s)\<rparr>"
    have last: "od_move_to_end tk (entries s) \<noteq> []" "fst (last (od_move_to_end tk (entries s))) = tk"
      using Some by (simp_all add: od_move_to_end_def)
    from Cons.IH [OF acct_inv_move_to_end [OF Cons.prems], of tk "Some tk"] obtain es where
      es: "fst (move_touched tks (?s, Some tk)) = ?s\<lparr>entries := es\<rparr>" "acct_inv (?s\<lparr>entries := es\<rparr>)"
      "\<forall>tk'. od_get es tk' = od_get (entries ?s) tk'"
      "\<forall>tk'. snd (move_touched tks (?s, Some tk)) = Some tk' \<longrightarrow>
         Some tk = Some tk' \<and> es = entries ?s \<or> es \<noteq> [] \<and> fst (last es) = tk'"
      "snd (move_touched tks (?s, Some tk)) \<noteq> None"
      by blast
    then show ?thesis
      using Some last by (intro exI [of _ es]) (auto simp: od_get_move_to_end)
  qed
qed

lemma touch_many_node:
  assumes inv: "node_inv s"
  shows "node_inv (touch_many ow keys mode s)"
proof -
  let ?tks = "map (\<lambda>(ns, key). (ow_id ow, ns, key)) keys"
  obtain s1 moved where m: "move_touched ?tks (s, None) = (s1, moved)" by fastforce
  from move_touched_spec [OF node_invD(2) [OF inv], of ?tks None] m obtain es where
    es: "s1 = s\<lparr>entries := es\<rparr>" "acct_inv (s\<lparr>entries := es\<rparr>)" "\<forall>tk. od_get es tk = od_get (entries s) tk"
    "\<forall>tk. moved = Some tk \<longrightarrow> es \<noteq> [] \<and> fst (last es) = tk" "moved = None \<longrightarrow> es = entries s"
    by auto
  show ?thesis
  proof (cases moved)
    case None
    with es m have "touch_many ow keys mode s = s" by (simp add: touch_many_def Let_def)
    with inv show ?thesis by simp
  next
    case (Some tk)
    let ?t = "s1\<lparr>mru_key := Some tk\<rparr>"
    have "acct_inv ?t" using es(1,2) by (simp add: acct_inv_def)
    moreover have "settled ?t" using es(1,4) Some node_invD(3) [OF inv] by (simp add: settled_def)
    moreover have "base_of ?t = base_of s" by (simp add: base_of_def es(1))
    ultimately have t: "node_inv ?t"
      by (rule node_inv_sub [OF inv]) (simp add: es(1,3))
    have "touch_many ow keys mode s = s \<or> touch_many ow keys mode s = ?t"
      using m Some by (simp add: touch_many_def Let_def)
    with t inv show ?thesis by auto
  qed
qed

lemma coord_remove_node:
  assumes inv: "node_inv s"
  obtains s' where "coord_remove ow ns key s = Some s'" "node_inv s'"
proof -
  have "node_inv (pop_attempt (ow_id ow, ns, key) s)" using inv by simp
  from remove_entry_node [OF this, of "(ow_id ow, ns, key)"] obtain t where
    "remove_entry_accounting (ow_id ow, ns, key) (pop_attempt (ow_id ow, ns, key) s) = Some t" "node_inv t"
    by blast
  with inv that show thesis
    by (cases "max_bytes s"; cases "attempt_gens s = []") (auto simp: coord_remove_def Let_def)
qed

lemma forget_owner_node:
  assumes inv: "coord_inv t" and b: "budget_ok t" and none: "\<forall>p\<in>set (entries t). fst (fst p) \<noteq> oid"
    and o': "set os \<subseteq> set (live t)" "\<forall>o'\<in>set os. ow_id o' \<noteq> oid \<and> od_get (owner_refs t) (ow_id o') = Some o'"
  shows "node_inv ((forget_owner oid t)\<lparr>owners := os\<rparr>)"
proof -
  let ?t = "(forget_owner oid t)\<lparr>owners := os\<rparr>"
  have "acct_inv ?t" "settled ?t"
    using coord_invD [OF inv] by (simp_all add: forget_owner_def acct_inv_def settled_def)
  moreover have "refs_ok ?t"
    unfolding refs_ok_def
  proof (intro allI impI)
    fix tk e assume "od_get (entries ?t) tk = Some e"
    then have e: "od_get (entries t) tk = Some e" by (simp add: forget_owner_def)
    then have "(tk, e) \<in> set (entries t)" by (rule map_of_SomeD)
    with none have "fst tk \<noteq> oid" by fastforce
    with refs_okD [OF coord_invD(3) [OF inv] e] show "keyed tk e \<and> od_get (owner_refs ?t) (fst tk) = Some (te_owner e)"
      by (simp add: forget_owner_def odict_simps)
  qed
  moreover have "budget_ok ?t" "owners_ok ?t"
    using b o' by (auto simp: budget_ok_def owners_ok_def forget_owner_def odict_simps)
  ultimately show ?thesis by (simp add: node_inv_def coord_inv_def)
qed

lemma clear_context_node:
  assumes inv: "node_inv s" and adm: "admits ow s"
  obtains s' where "clear_context ow s = Some s'" "node_inv s'"
    "\<forall>p\<in>set (entries s'). fst (fst p) \<noteq> ow_id ow"
proof -
  have c: "coord_inv (clear_owner_attempts (ow_id ow) s)" using inv by (simp add: node_inv_def [of "clear_owner_attempts _ _"] node_invD(1))
  from remove_owner_coord [OF c, of "ow_id ow"] obtain t where
    t: "remove_owner_entries (ow_id ow) (clear_owner_attempts (ow_id ow) s) = Some t" "coord_inv t"
    "frame_of t = frame_of (clear_owner_attempts (ow_id ow) s)"
    "entries t = filter (\<lambda>p. fst (fst p) \<noteq> ow_id ow) (entries (clear_owner_attempts (ow_id ow) s))" .
  note f = frame_fields [OF t(3)]
  have own: "owners t = owners s" "owner_refs t = owner_refs s" "live t = live s" "max_bytes t = max_bytes s"
    using f by (simp_all add: clear_owner_attempts_def)
  have "node_inv ((forget_owner (ow_id ow) t)\<lparr>owners := removeAll ow (owners t)\<rparr>)"
    by (rule forget_owner_node [OF t(2)])
      (use node_invD(5,6) [OF inv] adm in \<open>auto simp: budget_ok_def owners_ok_def admits_def own t(4)\<close>)
  with t that [of "capture_mode_publication None ((forget_owner (ow_id ow) t)\<lparr>owners := removeAll ow (owners t)\<rparr>)"]
  show thesis
    by (auto simp: clear_context_def Let_def) (simp add: capture_mode_publication_def forget_owner_def Let_def)
qed

lemma remove_dead_owner_node:
  assumes inv: "node_inv s" and dead: "ow \<notin> set (live s)"
  obtains s' where "remove_dead_owner ow s = Some s'" "node_inv s'"
proof (cases "od_get (owner_refs s) (ow_id ow) = Some ow")
  case False
  with inv that show thesis by (auto simp: remove_dead_owner_def)
next
  case True
  from remove_owner_coord [OF node_invD(1) [OF inv], of "ow_id ow"] obtain t where
    t: "remove_owner_entries (ow_id ow) s = Some t" "coord_inv t" "frame_of t = frame_of s"
    "entries t = filter (\<lambda>p. fst (fst p) \<noteq> ow_id ow) (entries s)" .
  note f = frame_fields [OF t(3)]
  have c: "coord_inv (clear_owner_attempts (ow_id ow) t)"
    using coord_invD [OF t(2)] by (simp add: coord_inv_def) (simp add: refs_ok_def clear_owner_attempts_def)
  have "node_inv ((forget_owner (ow_id ow) (clear_owner_attempts (ow_id ow) t))\<lparr>owners := owners s\<rparr>)"
  proof (rule forget_owner_node [OF c])
    show "\<forall>o'\<in>set (owners s). ow_id o' \<noteq> ow_id ow
        \<and> od_get (owner_refs (clear_owner_attempts (ow_id ow) t)) (ow_id o') = Some o'"
    proof
      fix o' assume o': "o' \<in> set (owners s)"
      then have "o' \<noteq> ow" "od_get (owner_refs s) (ow_id o') = Some o'"
        using node_invD(6) [OF inv] dead by (auto simp: owners_ok_def)
      with True f(3) show "ow_id o' \<noteq> ow_id ow
          \<and> od_get (owner_refs (clear_owner_attempts (ow_id ow) t)) (ow_id o') = Some o'"
        by (auto simp: clear_owner_attempts_def)
    qed
  qed (use node_invD(5,6) [OF inv] f in
      \<open>auto simp: budget_ok_def owners_ok_def clear_owner_attempts_def t(4)\<close>)
  moreover have "(forget_owner (ow_id ow) (clear_owner_attempts (ow_id ow) t))\<lparr>owners := owners s\<rparr>
      = forget_owner (ow_id ow) (clear_owner_attempts (ow_id ow) t)"
    by (simp add: forget_owner_def clear_owner_attempts_def f)
  ultimately show thesis
    using True t(1) that by (simp add: remove_dead_owner_def Let_def)
qed

text \<open>
  The steps: an owner is created and registers, an owner starts an admission, an admission
  whose deep estimate was computed meanwhile commits or fails, entries are touched and
  removed, an owner's context is cleared, an owner is garbage collected, its finalizer runs.
\<close>

inductive coord_step :: "budget \<Rightarrow> budget \<Rightarrow> bool" where
  Create: "(\<forall>o'\<in>set (live s). ow_id o' \<noteq> ow_id ow) \<Longrightarrow> coord_step s (s\<lparr>live := ow # live s\<rparr>)"
| Register: "can_register ow s \<Longrightarrow> values_ok vals \<Longrightarrow> limit_ok mb \<Longrightarrow>
    register vals ow mb s = Some s' \<Longrightarrow> coord_step s s'"
| Begin: "admits ow s \<Longrightarrow> signal_ok sg \<Longrightarrow> track_begin ow ns key sg s = Some (s', p) \<Longrightarrow> coord_step s s'"
| Commit: "admits (pa_owner p) s \<Longrightarrow> signal_ok (pa_signal p) \<Longrightarrow>
    track_commit p estimated s = Some (s', p') \<Longrightarrow> coord_step s s'"
| Fail: "track_fail p s = Some s' \<Longrightarrow> coord_step s s'"
| Touch: "coord_step s (touch_many ow keys mode s)"
| Remove: "coord_remove ow ns key s = Some s' \<Longrightarrow> coord_step s s'"
| Clear: "admits ow s \<Longrightarrow> clear_context ow s = Some s' \<Longrightarrow> coord_step s s'"
| Collect: "coord_step s (s\<lparr>live := removeAll ow (live s), owners := removeAll ow (owners s)\<rparr>)"
| Finalize: "ow \<notin> set (live s) \<Longrightarrow> remove_dead_owner ow s = Some s' \<Longrightarrow> coord_step s s'"

inductive coord_reachable :: "budget \<Rightarrow> bool" where
  Init: "coord_reachable init_budget"
| Step: "coord_reachable s \<Longrightarrow> coord_step s s' \<Longrightarrow> coord_reachable s'"

lemma node_inv_init: "node_inv init_budget"
  by (simp add: node_inv_def coord_inv_def acct_inv_def settled_def refs_ok_def budget_ok_def
      owners_ok_def init_budget_def acct_defs)

lemma node_inv_live:
  assumes "node_inv s" "set os \<subseteq> set (owners s)" "set os \<subseteq> set lv"
  shows "node_inv (s\<lparr>live := lv, owners := os\<rparr>)"
proof -
  have "acct_inv (s\<lparr>live := lv, owners := os\<rparr>)" using node_invD(2) [OF assms(1)] by (simp add: acct_inv_def)
  moreover have "owners_ok (s\<lparr>live := lv, owners := os\<rparr>)"
    using node_invD(6) [OF assms(1)] assms(2,3) by (simp add: owners_ok_def) blast
  ultimately show ?thesis
    using node_invD(3,4,5) [OF assms(1)]
    by (simp add: node_inv_def coord_inv_def settled_def refs_ok_def budget_ok_def)
qed

lemma coord_step_node:
  assumes "coord_step s s'" "node_inv s"
  shows "node_inv s'"
  using assms
proof (induction rule: coord_step.induct)
  case (Create s ow)
  have "set (owners s) \<subseteq> set (ow # live s)" using node_invD(6) [OF Create(2)] by (auto simp: owners_ok_def)
  from node_inv_live [OF Create(2) subset_refl this] show ?case by simp
next
  case (Collect s ow)
  have "set (owners s) \<subseteq> set (live s)" using node_invD(6) [OF Collect] by (simp add: owners_ok_def)
  then show ?case by (intro node_inv_live [OF Collect]) auto
next
  case (Register ow s vals mb s')
  from register_node [OF Register(5,1-3)] obtain t where
    "register vals ow mb s = Some t" "node_inv t" .
  with Register(4) show ?case by simp
next
  case (Begin ow s sg ns key s' p)
  show ?case by (rule track_begin_node [OF Begin(4,2,1,3)])
next
  case (Commit p s estimated s' p')
  from track_commit_node [OF Commit(4,2,1), of estimated] obtain t q where
    "track_commit p estimated s = Some (t, q)" "node_inv t" .
  with Commit(3) show ?case by simp
next
  case (Fail p s s')
  from track_fail_node [OF Fail(2), of p] obtain t where "track_fail p s = Some t" "node_inv t" .
  with Fail(1) show ?case by simp
next
  case (Touch s ow keys mode)
  then show ?case by (rule touch_many_node)
next
  case (Remove ow ns key s s')
  from coord_remove_node [OF Remove(2), of ow ns key] obtain t where
    "coord_remove ow ns key s = Some t" "node_inv t" .
  with Remove(1) show ?case by simp
next
  case (Clear ow s s')
  from clear_context_node [OF Clear(3,1)] obtain t where "clear_context ow s = Some t" "node_inv t" .
  with Clear(2) show ?case by simp
next
  case (Finalize ow s s')
  from remove_dead_owner_node [OF Finalize(3,1)] obtain t where
    "remove_dead_owner ow s = Some t" "node_inv t" .
  with Finalize(2) show ?case by simp
qed

lemma coord_reachable_node: "coord_reachable s \<Longrightarrow> node_inv s"
  by (induction rule: coord_reachable.induct) (auto intro: node_inv_init coord_step_node)

section \<open>Properties\<close>


definition demo_owner :: owner where "demo_owner = Owner 7 0"

definition demo_signal :: admission_signal where
  "demo_signal = \<lparr>sg_stratum = Some (Values, FList, 4), sg_shallow = 100, sg_exact = None\<rparr>"

definition demo_values :: "owner \<Rightarrow> cached_value list" where
  "demo_values ow = [\<lparr>cv_namespace = Values, cv_key = ''a'', cv_signal = demo_signal, cv_estimate = (\<lambda>_. 900)\<rparr>]"

definition demo_state :: budget where
  "demo_state = the (register demo_values demo_owner (Some 2000)
     (init_budget\<lparr>live := demo_owner # live init_budget\<rparr>))"

lemma demo_register: "register demo_values demo_owner (Some 2000)
     (init_budget\<lparr>live := demo_owner # live init_budget\<rparr>) = Some demo_state"
  by code_simp

lemma demo_reachable: "coord_reachable demo_state"
proof -
  have "coord_reachable (init_budget\<lparr>live := demo_owner # live init_budget\<rparr>)"
    by (rule coord_reachable.Step [OF coord_reachable.Init coord_step.Create]) (simp add: init_budget_def)
  then show ?thesis
    by (rule coord_reachable.Step [OF _ coord_step.Register [OF _ _ _ demo_register]])
      (simp_all add: can_register_def values_ok_def demo_values_def value_ok_def signal_ok_def
        demo_signal_def limit_ok_def init_budget_def)
qed


text \<open>C6: admission succeeds (no assertion of the accounting fails) on every reachable state, when
the caller passes an estimate or the stratum is calibrated. Afterwards either the entry was
refused, its owner told to drop it and every other entry is untouched, or the total is at
most 95% of the limit and the entries are the old ones followed by the new entry, less a
prefix (least recently used first) whose live owners were told to drop them, in that order.\<close>

theorem admission_within_budget:
  fixes ow ns key sg
  defines "tk \<equiv> (ow_id ow, ns, key)"
  assumes reach: "coord_reachable s" and max: "max_bytes s = Some m"
    and ok: "signal_ok sg" and adm: "admits ow s" and est: "estimated \<noteq> None \<or> calibrated sg s"
  shows "\<exists>s'. publish_entry ow ns key sg estimated m s = Some s' \<and> node_inv s'
    \<and> (entries s' = od_pop tk (entries s) \<and> evict_log s' = evict_log s @ [(ow, ns, key)]
       \<or> total_bytes s' \<le> m * 95 div 100
         \<and> (\<exists>n. entries s' = drop n (od_pop tk (entries s) @ [(tk, entry_of ow ns key sg)])
              \<and> evict_log s' = evict_log s @ eviction_calls (live s)
                    (take n (od_pop tk (entries s) @ [(tk, entry_of ow ns key sg)]))))"
proof -
  note inv = coord_reachable_node [OF reach]
  have known: "estimated = None \<Longrightarrow> samples_known (ow_id ow, ns, key) sg s"
    using calibrated_known [OF node_invD(2,3) [OF inv]] est by blast
  from publish_node_ex [OF inv ok adm, of estimated ns key m] known obtain s1 where
    1: "publish_entry ow ns key sg estimated m s = Some s1" "node_inv s1" by blast
  from publish_entry_works [where ns = ns and key = key and mb = m, OF node_invD(1) [OF inv] ok
      adm [unfolded admits_def] known node_invD(5) [OF inv], folded tk_def]
  obtain s2 where 2: "publish_entry ow ns key sg estimated m s = Some s2" "max_bytes s2 = max_bytes s"
    "entries s2 = od_pop tk (entries s) \<and> evict_log s2 = evict_log s @ [(ow, ns, key)]
       \<or> \<not> over_budget s2 \<and> (\<exists>n. entries s2 = drop n (od_pop tk (entries s) @ [(tk, entry_of ow ns key sg)])
              \<and> evict_log s2 = evict_log s @ eviction_calls (live s)
                    (take n (od_pop tk (entries s) @ [(tk, entry_of ow ns key sg)])))" .
  have "\<not> over_budget s2 \<longleftrightarrow> total_bytes s2 \<le> m * 95 div 100"
    using 2(2) max by (simp add: over_budget_def eviction_target_def not_less)
  with 1 2 show ?thesis by (intro exI [of _ s2]) simp
qed

lemma demo_admits:
  "max_bytes demo_state = Some 2000" "admits demo_owner demo_state" "calibrated demo_signal demo_state"
  by (code_simp, simp add: admits_def, code_simp, simp add: calibrated_def, code_simp)

theorem admission_within_budget_witness:
  "\<exists>s'. publish_entry demo_owner Values ''b'' demo_signal None 2000 demo_state = Some s'
    \<and> node_inv s'"
  using admission_within_budget [OF demo_reachable demo_admits(1) _ demo_admits(2), of demo_signal None
      Values "''b''"] demo_admits(3)
  by (auto simp: signal_ok_def demo_signal_def)

text \<open>Eviction on any reachable accounting terminates without a failing assertion, drops a
prefix of the entries (the least recently used ones), calls back exactly the live owners of
the dropped entries in that order, drops nothing when the total is within the target, and
leaves the total within the target of the limit.\<close>

theorem eviction_is_lru:
  assumes "node_inv s"
  shows "\<exists>s' n. evict_excess s = Some s' \<and> node_inv s' \<and> \<not> over_budget s'
    \<and> entries s' = drop n (entries s) \<and> (\<not> over_budget s \<longrightarrow> n = 0)
    \<and> evict_log s' = evict_log s @ eviction_calls (live s) (take n (entries s))
    \<and> total_bytes s' \<le> total_bytes s"
proof -
  from evict_excess_node [OF assms] obtain t where t: "evict_excess s = Some t" "node_inv t" "\<not> over_budget t" .
  from evict_excess_works [OF node_invD(2,3) [OF assms]] t show ?thesis by auto
qed

definition tight_state :: budget where
  "tight_state = demo_state\<lparr>max_bytes := Some 500, config_gen := 2, history := []\<rparr>"

theorem eviction_is_lru_witness:
  "\<exists>s'. evict_excess tight_state = Some s' \<and> \<not> over_budget s' \<and> total_bytes s' \<le> 900"
proof -
  have "node_inv tight_state"
    unfolding tight_state_def
    by (rule node_inv_limit [OF coord_reachable_node [OF demo_reachable]])
      (simp add: budget_ok_limit limit_ok_def)
  moreover have "total_bytes tight_state = 900" by code_simp
  ultimately show ?thesis using eviction_is_lru [of tight_state] by auto
qed

text \<open>
  Batched touches: the untouched entries keep their order and come first, the touched ones
  follow in the order of their last touch (\<open>remdups\<close> keeps last occurrences).
\<close>

lemma od_keys_move_to_end:
  "od_get d k \<noteq> None \<Longrightarrow> od_keys (od_move_to_end k d) = filter (\<lambda>k'. k' \<noteq> k) (od_keys d) @ [k]"
  by (auto simp: od_move_to_end_def od_keys_pop)

lemma move_touched_keys:
  "od_keys (entries (fst (move_touched tks (s, moved))))
     = filter (\<lambda>k. k \<notin> set tks) (od_keys (entries s))
       @ filter (\<lambda>k. od_get (entries s) k \<noteq> None) (remdups tks)"
proof (induction tks arbitrary: s moved)
  case (Cons tk tks)
  show ?case
  proof (cases "od_get (entries s) tk")
    case None
    then have "tk \<notin> set (od_keys (entries s))" by (simp add: od_get_None_iff)
    then have "filter (\<lambda>k. k \<noteq> tk \<and> k \<notin> set tks) (od_keys (entries s))
        = filter (\<lambda>k. k \<notin> set tks) (od_keys (entries s))"
      by (intro filter_cong) auto
    with None show ?thesis by (simp add: Cons.IH)
  next
    case (Some e)
    then have k: "od_keys (od_move_to_end tk (entries s))
        = filter (\<lambda>k'. k' \<noteq> tk) (od_keys (entries s)) @ [tk]"
      by (intro od_keys_move_to_end) simp
    show ?thesis
      using Some by (simp add: Cons.IH k od_get_move_to_end conj_commute del: map_append)
  qed
qed simp

lemma last_touch_single: "od_wf d \<Longrightarrow> d \<noteq> [] \<Longrightarrow> k = fst (last d) \<Longrightarrow>
    filter (\<lambda>k'. k' \<noteq> k) (od_keys d) @ [k] = od_keys d"
  by (cases d rule: rev_exhaust) (force simp: filter_id_conv)+

text \<open>A batch of reads that carries the current mode generation reorders the entries and
nothing else: the untouched keys keep their order and come first, then the touched keys that
are tracked, in the order of their last touch; values, sizes and totals stay, and nothing is
added or dropped. The shortcut that skips a single touch of the most recent key changes
nothing of this.\<close>

theorem touch_many_recency:
  fixes ow keys
  defines "tks \<equiv> map (\<lambda>(ns, key). (ow_id ow, ns, key)) keys"
  assumes inv: "node_inv s" and on: "max_bytes s \<noteq> None"
    and mode: "mode = None \<or> mode = Some (mode_gen s) \<and> recency_enabled s"
  shows "od_keys (entries (touch_many ow keys mode s))
      = filter (\<lambda>k. k \<notin> set tks) (od_keys (entries s))
        @ filter (\<lambda>k. od_get (entries s) k \<noteq> None) (remdups tks)
    \<and> (\<forall>k. od_get (entries (touch_many ow keys mode s)) k = od_get (entries s) k)
    \<and> total_bytes (touch_many ow keys mode s) = total_bytes s"
proof -
  obtain s1 moved where m: "move_touched tks (s, None) = (s1, moved)" by fastforce
  from move_touched_spec [OF node_invD(2) [OF inv], of tks None] m obtain es where
    es: "s1 = s\<lparr>entries := es\<rparr>" "\<forall>tk. od_get es tk = od_get (entries s) tk" by auto
  have keys1: "od_keys es = filter (\<lambda>k. k \<notin> set tks) (od_keys (entries s))
      @ filter (\<lambda>k. od_get (entries s) k \<noteq> None) (remdups tks)"
    using move_touched_keys [of tks s None] by (simp add: m es(1))
  consider "tks = []" | "tks \<noteq> []" "length tks = 1 \<and> Some (hd tks) = mru_key s"
    | "tks \<noteq> []" "\<not> (length tks = 1 \<and> Some (hd tks) = mru_key s)" by blast
  then show ?thesis
  proof cases
    case 1
    then show ?thesis using on by (simp add: touch_many_def Let_def tks_def)
  next
    case 2
    then have same: "touch_many ow keys mode s = s" by (simp add: touch_many_def Let_def tks_def)
    from 2 obtain k where k: "tks = [k]" by (cases tks) auto
    with 2 node_invD(3) [OF inv] have "entries s \<noteq> []" "k = fst (last (entries s))"
      by (auto simp: settled_def split: if_splits)
    with last_touch_single [OF acct_wf(1) [OF node_invD(2) [OF inv]] this]
    show ?thesis by (simp add: same k od_get_None_iff)
  next
    case 3
    then have "touch_many ow keys mode s = s1 \<or> (\<exists>tk. touch_many ow keys mode s = s1\<lparr>mru_key := Some tk\<rparr>)"
      unfolding touch_many_def Let_def tks_def [symmetric]
      using m on mode by (cases moved) auto
    with keys1 es show ?thesis by auto
  qed
qed

theorem touch_many_recency_witness:
  "od_keys (entries (touch_many demo_owner [(Values, ''a''), (Values, ''zz'')] None demo_state))
     = [(7, Values, ''a'')]"
proof -
  have "od_keys (entries demo_state) = [(7, Values, ''a'')]" "max_bytes demo_state \<noteq> None" by code_simp+
  moreover have "od_get (entries demo_state) (7, Values, ''a'') \<noteq> None"
    "od_get (entries demo_state) (7, Values, ''zz'') = None" by code_simp+
  ultimately show ?thesis
    using touch_many_recency [OF coord_reachable_node [OF demo_reachable], of None demo_owner
        "[(Values, ''a''), (Values, ''zz'')]"]
    by (simp add: demo_owner_def)
qed

lemma track_begin_pending:
  assumes "track_begin ow ns key sg s = Some (s', Some p)"
  shows "pa_tracked p = (ow_id ow, ns, key)" "next_gen s < pa_attempt p"
    "gen_or_0 (attempt_gens s') (ow_id ow, ns, key) = pa_attempt p"
    "pa_lifecycle p = gen_or_0 (lifecycle_gens s') (ow_id ow)" "pa_config p = config_gen s'"
    "next_gen s' = pa_attempt p"
proof -
  from assms obtain m where m: "max_bytes s = Some m" by (cases "max_bytes s") (auto simp: track_begin_def)
  have c: "m \<noteq> 0" "requires_calibration sg s"
    using assms m by (cases "m = 0"; cases "requires_calibration sg s";
        fastforce simp: track_begin_def Let_def Option.bind_eq_Some_conv)+
  obtain lg s1 where l: "owner_lifecycle_generation (ow_id ow) s = (lg, s1)" by fastforce
  have l': "gen_or_0 (lifecycle_gens s1) (ow_id ow) = lg" "next_gen s \<le> next_gen s1"
    "config_gen s1 = config_gen s"
    using l by (auto simp: owner_lifecycle_generation_def next_admission_generation_def Let_def
        gen_or_0_def odict_simps split: option.splits)
  have "s' = (snd (next_admission_generation s1))\<lparr>attempt_gens :=
      od_set (ow_id ow, ns, key) (next_gen s1 + 1) (attempt_gens s1)\<rparr>"
    "p = \<lparr>pa_owner = ow, pa_namespace = ns, pa_key = key, pa_signal = sg, pa_max = m,
       pa_config = config_gen s, pa_lifecycle = lg, pa_attempt = next_gen s1 + 1, pa_reestimates = 0\<rparr>"
    using assms m c l by (simp_all add: track_begin_def Let_def next_admission_generation_def)
  with l' show "pa_tracked p = (ow_id ow, ns, key)" "next_gen s < pa_attempt p"
    "gen_or_0 (attempt_gens s') (ow_id ow, ns, key) = pa_attempt p"
    "pa_lifecycle p = gen_or_0 (lifecycle_gens s') (ow_id ow)" "pa_config p = config_gen s'"
    "next_gen s' = pa_attempt p"
    by (simp_all add: next_admission_generation_def gen_or_0_def odict_simps)
qed

text \<open>Of two admissions of the same key that overlap, only the later one can commit. When
a second \<open>track\<close> of the key has entered its first critical section after the first one took its
generation, the commit of the first changes nothing, and so does its failure (up to the
publication of modes).\<close>

theorem superseded_admission_ignored:
  assumes "track_begin ow ns key sg1 s0 = Some (s1, Some p1)" "next_gen s1 \<le> next_gen s"
    "track_begin ow ns key sg2 s = Some (s2, Some p2)"
  shows "track_commit p1 estimated s2 = Some (s2, None)
    \<and> track_fail p1 s2 = Some (capture_mode_publication None s2)"
proof -
  note a = track_begin_pending [OF assms(1)] and b = track_begin_pending [OF assms(3)]
  have "gen_or_0 (attempt_gens s2) (pa_tracked p1) = pa_attempt p2" using a(1) b(3) by simp
  moreover have "pa_attempt p1 < pa_attempt p2" using a(6) assms(2) b(2) by simp
  ultimately have "\<not> is_current p1 s2" by (simp add: is_current_def)
  then show ?thesis by (simp add: track_commit_def track_fail_def)
qed

definition demo_begin :: "budget \<times> pending_admission option" where
  "demo_begin = the (track_begin demo_owner Values ''b'' (demo_signal\<lparr>sg_stratum := Some (Values, FDict, 8)\<rparr>)
     demo_state)"

definition demo_begin_again :: "budget \<times> pending_admission option" where
  "demo_begin_again = the (track_begin demo_owner Values ''b''
     (demo_signal\<lparr>sg_stratum := Some (Values, FDict, 8)\<rparr>) (fst demo_begin))"

theorem superseded_admission_ignored_witness:
  "track_commit (the (snd demo_begin)) 500 (fst demo_begin_again) = Some (fst demo_begin_again, None)"
proof -
  have "track_begin demo_owner Values ''b'' (demo_signal\<lparr>sg_stratum := Some (Values, FDict, 8)\<rparr>) demo_state
      = Some (fst demo_begin, Some (the (snd demo_begin)))"
    "next_gen (fst demo_begin) \<le> next_gen (fst demo_begin)"
    "track_begin demo_owner Values ''b'' (demo_signal\<lparr>sg_stratum := Some (Values, FDict, 8)\<rparr>) (fst demo_begin)
      = Some (fst demo_begin_again, Some (the (snd demo_begin_again)))"
    by code_simp+
  from superseded_admission_ignored [OF this] show ?thesis by blast
qed

text \<open>Once an owner's context is cleared, or its weak reference died and the finalizer ran,
an admission that was still estimating in that owner's name commits to nothing.\<close>

theorem cleared_admission_ignored:
  assumes "node_inv s" "admits (pa_owner p) s" "0 < pa_lifecycle p"
    "clear_context (pa_owner p) s = Some s'"
  shows "track_commit p estimated s' = Some (s', None)
    \<and> (\<forall>q\<in>set (entries s'). fst (fst q) \<noteq> ow_id (pa_owner p))"
proof -
  let ?c = "clear_owner_attempts (ow_id (pa_owner p)) s"
  have c: "coord_inv ?c" using assms(1) by (simp add: node_inv_def [of "clear_owner_attempts _ _"] node_invD(1))
  from remove_owner_coord [OF c, of "ow_id (pa_owner p)"] obtain t where
    t: "remove_owner_entries (ow_id (pa_owner p)) ?c = Some t" "frame_of t = frame_of ?c" .
  then have "lifecycle_gens s' = od_pop (ow_id (pa_owner p)) (lifecycle_gens s)"
    using assms(4) frame_fields(7) [OF t(2)]
    by (auto simp: clear_context_def Let_def capture_mode_publication_def forget_owner_def
        clear_owner_attempts_def)
  then have "\<not> is_current p s'"
    using assms(3) by (simp add: is_current_def gen_or_0_def odict_simps)
  with clear_context_node [OF assms(1,2)] assms(4) show ?thesis
    by (simp add: track_commit_def) (metis option.inject)
qed

theorem cleared_admission_ignored_witness:
  "track_commit (the (snd demo_begin)) 500 (the (clear_context demo_owner (fst demo_begin)))
     = Some (the (clear_context demo_owner (fst demo_begin)), None)"
proof -
  have b: "track_begin demo_owner Values ''b'' (demo_signal\<lparr>sg_stratum := Some (Values, FDict, 8)\<rparr>) demo_state
      = Some (fst demo_begin, Some (the (snd demo_begin)))"
    by code_simp
  have "node_inv (fst demo_begin)"
    by (rule track_begin_node [OF coord_reachable_node [OF demo_reachable] _ demo_admits(2) b])
      (simp add: signal_ok_def demo_signal_def)
  moreover have "0 < pa_lifecycle (the (snd demo_begin))" "pa_owner (the (snd demo_begin)) = demo_owner"
    "od_get (owner_refs (fst demo_begin)) (ow_id demo_owner) = Some demo_owner"
    "clear_context demo_owner (fst demo_begin) = Some (the (clear_context demo_owner (fst demo_begin)))"
    by code_simp+
  ultimately show ?thesis
    using cleared_admission_ignored [of "fst demo_begin" "the (snd demo_begin)"] by (simp add: admits_def)
qed

section \<open>Two corners of the code\<close>

definition one_entry_state :: "stratum_state \<Rightarrow> (stratum_key, calibration_metadata) odict \<Rightarrow> int \<Rightarrow> budget" where
  "one_entry_state st h limit = init_budget\<lparr>
     owners := [demo_owner], live := [demo_owner], owner_refs := [(7, demo_owner)],
     entries := [((7, Values, ''a''), entry_of demo_owner Values ''a'' demo_signal)],
     strata := [((Values, FList, 4), st)], history := h, mru_key := Some (7, Values, ''a''),
     total_bytes := modeled st, max_bytes := Some limit\<rparr>"

lemma one_entry_state_node:
  assumes "stratum_ok st" "ss_count st = 1" "ss_shallow_total st = 100" "0 \<le> limit"
    "od_wf h" "length h \<le> RUN_CONTEXT_CALIBRATION_HISTORY_LIMIT"
    "\<forall>k m. od_get h k = Some m \<longrightarrow> samples_ok (cm_samples m) \<and> cm_samples m \<noteq> [] \<and> 0 \<le> cm_admissions m"
  shows "node_inv (one_entry_state st h limit)"
proof -
  let ?s = "one_entry_state st h limit"
  have "acct_inv ?s"
    using assms by (simp add: acct_inv_def one_entry_state_def init_budget_def acct_defs entry_ok_def
        entry_of_def demo_signal_def)
  moreover have "settled ?s" "refs_ok ?s" "budget_ok ?s" "owners_ok ?s"
    using assms by (simp_all add: one_entry_state_def init_budget_def settled_def refs_ok_def keyed_def
        entry_of_def demo_owner_def budget_ok_def owners_ok_def)
  ultimately show ?thesis by (simp add: node_inv_def coord_inv_def)
qed

definition full_history :: "(stratum_key, calibration_metadata) odict" where
  "full_history = map (\<lambda>i. ((Values, FDict, int i), \<lparr>cm_admissions = 1, cm_samples = [(100, 300)]\<rparr>)) [0..<256]"

definition full_history_state :: budget where
  "full_history_state = one_entry_state
     \<lparr>ss_count = 1, ss_shallow_total = 100, ss_admissions = 1, ss_samples = [(100, 300)],
      ss_sampled_shallow = 100, ss_sampled_residual = 44\<rparr> full_history 100000"

lemma full_history_state_node: "node_inv full_history_state"
  unfolding full_history_state_def
proof (rule one_entry_state_node)
  show "od_wf full_history" by (simp add: full_history_def distinct_map inj_on_def)
  show "\<forall>k m. od_get full_history k = Some m \<longrightarrow>
      samples_ok (cm_samples m) \<and> cm_samples m \<noteq> [] \<and> 0 \<le> cm_admissions m"
    by (auto simp: full_history_def samples_ok_def dest!: map_of_SomeD)
qed (simp_all add: stratum_ok_def samples_ok_def residual_def full_history_def)

text \<open>A state that satisfies every invariant and on which storing a value fails: the key's
old stratum empties and its calibration is retained, which pushes the oldest retained
calibration out of the full history; that one belongs to the stratum the new value falls in,
for which no estimate was made because it was still retained when \<open>track\<close> looked. The stratum is
created without samples and the assertion in \<open>modeled_bytes\<close> fails.\<close>

theorem track_assertion_can_fail:
  "node_inv full_history_state \<and> admits demo_owner full_history_state
   \<and> signal_ok (demo_signal\<lparr>sg_stratum := Some (Values, FDict, 0)\<rparr>)
   \<and> track_begin demo_owner Values ''a'' (demo_signal\<lparr>sg_stratum := Some (Values, FDict, 0)\<rparr>)
       full_history_state = None"
proof (intro conjI)
  show "node_inv full_history_state" by (rule full_history_state_node)
  show "admits demo_owner full_history_state"
    by (simp add: admits_def full_history_state_def one_entry_state_def demo_owner_def)
  show "signal_ok (demo_signal\<lparr>sg_stratum := Some (Values, FDict, 0)\<rparr>)"
    by (simp add: signal_ok_def demo_signal_def)
  show "track_begin demo_owner Values ''a'' (demo_signal\<lparr>sg_stratum := Some (Values, FDict, 0)\<rparr>)
       full_history_state = None"
    by code_simp
qed

definition skewed_state :: budget where
  "skewed_state = one_entry_state
     \<lparr>ss_count = 1, ss_shallow_total = 100, ss_admissions = 2047,
      ss_samples = (1000, 256) # replicate 7 (1, 356), ss_sampled_shallow = 1007,
      ss_sampled_residual = 700\<rparr> [] 400"

text \<open>A refused admission can leave the coordinator over its limit. Here the total is within
the target before the call; the admission calibrates its stratum, which replaces the oldest
sample and raises the modeled size of the entry already there, then the new entry is larger
than the limit and is refused; that path returns without evicting, with a total far above
the limit.\<close>

theorem refused_admission_over_budget:
  "node_inv skewed_state \<and> \<not> over_budget skewed_state
   \<and> (\<exists>s'. publish_entry demo_owner Values ''b'' (demo_signal\<lparr>sg_shallow := 1\<rparr>) (Some 1000) 400 skewed_state
          = Some s' \<and> evict_log s' = [(demo_owner, Values, ''b'')]
        \<and> over_budget s' \<and> max_bytes s' = Some 400 \<and> total_bytes s' = 18306)"
proof (intro conjI)
  show "node_inv skewed_state"
    unfolding skewed_state_def
    by (rule one_entry_state_node) (simp_all add: stratum_ok_def samples_ok_def residual_def numeral_eq_Suc)
  show "\<not> over_budget skewed_state" by code_simp
  let ?r = "the (publish_entry demo_owner Values ''b'' (demo_signal\<lparr>sg_shallow := 1\<rparr>) (Some 1000) 400 skewed_state)"
  have "publish_entry demo_owner Values ''b'' (demo_signal\<lparr>sg_shallow := 1\<rparr>) (Some 1000) 400 skewed_state = Some ?r"
    "evict_log ?r = [(demo_owner, Values, ''b'')]" "over_budget ?r" "max_bytes ?r = Some 400"
    "total_bytes ?r = 18306"
    by code_simp+
  then show "\<exists>s'. publish_entry demo_owner Values ''b'' (demo_signal\<lparr>sg_shallow := 1\<rparr>) (Some 1000) 400 skewed_state
          = Some s' \<and> evict_log s' = [(demo_owner, Values, ''b'')]
        \<and> over_budget s' \<and> max_bytes s' = Some 400 \<and> total_bytes s' = 18306" by blast
qed

end
