(* ===== verification/DepTracker.thy ===== *)
theory DepTracker
  imports Prelude
begin

text \<open>
  The dependency tracker (\<open>src/general_manager/cache/cache_tracker.py\<close>): which reads a cached
  computation depends on. A stack of collector sets, one per active \<open>with DependencyTracker()\<close>
  block; every tracked dependency goes into all of them.

  The record \<open>storage\<close> is the thread-local \<open>_DependencyStorage\<close> with its two shortcuts for
  repeated dependencies (the last one, and the ones seen since the stack last changed), each
  valid for one version of the stack. A value of any Python type is \<open>py_value\<close>: a string or
  something else. The specification is the stack of sets alone; the refinement says that the
  shortcuts never lose a dependency.
\<close>

section \<open>The tracker\<close>

datatype py_value = PyStr string | PyOther

type_synonym dependency = "string \<times> string \<times> string"

datatype tracker_error = InvalidDependencyTrackerValue | InvalidDependencyTrackerOperation string

definition supported_operations :: "string list" where
  "supported_operations = [''filter'', ''exclude'', ''identification'', ''request_query'', ''all'']"

record storage =
  deps :: "dependency set list"
  depth :: int
  stack_version :: int
  last_dep :: "dependency option"
  last_version :: int
  seen :: "dependency set"
  seen_version :: int

definition init_storage :: storage where
  "init_storage = \<lparr>deps = [], depth = - 1, stack_version = 0, last_dep = None, last_version = - 1,
     seen = {}, seen_version = - 1\<rparr>"

definition reset_storage :: "storage \<Rightarrow> storage" where
  "reset_storage s = s\<lparr>deps := [], depth := - 1, stack_version := stack_version s + 1,
     last_dep := None, last_version := - 1, seen := {}, seen_version := - 1\<rparr>"

definition enter :: "storage \<Rightarrow> storage" where
  "enter s = s\<lparr>depth := depth s + 1, deps := deps s @ [{}], stack_version := stack_version s + 1\<rparr>"

definition exit_tracker :: "storage \<Rightarrow> storage" where
  "exit_tracker s =
     (if depth s < 0 then s
      else if depth s = 0 then reset_storage s
      else s\<lparr>deps := butlast (deps s), depth := depth s - 1, stack_version := stack_version s + 1,
             last_dep := None, last_version := - 1\<rparr>)"

definition track_validated :: "dependency \<Rightarrow> storage \<Rightarrow> storage" where
  "track_validated d s =
     (if depth s < 0 then s
      else if last_version s = stack_version s \<and> last_dep s = Some d then s
      else
        let fresh = (seen_version s \<noteq> stack_version s);
            s1 = (if fresh then s\<lparr>seen := {}, seen_version := stack_version s\<rparr> else s)
        in if \<not> fresh \<and> d \<in> seen s1 then s1
           else
             let s2 = (if depth s1 = 0 then s1\<lparr>deps := (deps s1)[0 := insert d (deps s1 ! 0)]\<rparr>
                       else s1\<lparr>deps := map (insert d) (deps s1)\<rparr>)
             in s2\<lparr>last_dep := Some d, last_version := stack_version s2, seen := insert d (seen s2)\<rparr>)"

definition track_many_validated :: "dependency list \<Rightarrow> storage \<Rightarrow> storage" where
  "track_many_validated ds s =
     (if depth s < 0 then s else s\<lparr>deps := map (\<lambda>c. c \<union> set ds) (deps s)\<rparr>)"

definition track :: "py_value \<Rightarrow> py_value \<Rightarrow> py_value \<Rightarrow> storage \<Rightarrow> tracker_error + storage" where
  "track c op i s =
     (case (c, op, i) of
        (PyStr cn, PyStr o', PyStr ident) \<Rightarrow>
          if o' \<notin> set supported_operations then Inl (InvalidDependencyTrackerOperation o')
          else Inr (track_validated (cn, o', ident) s)
      | _ \<Rightarrow> Inl InvalidDependencyTrackerValue)"

definition is_active :: "storage \<Rightarrow> bool" where
  "is_active s \<longleftrightarrow> 0 \<le> depth s"

section \<open>The specification: a stack of sets\<close>

fun spec_exit :: "dependency set list \<Rightarrow> dependency set list" where
  "spec_exit cs = (if length cs \<le> 1 then [] else butlast cs)"

definition spec_track :: "dependency set \<Rightarrow> dependency set list \<Rightarrow> dependency set list" where
  "spec_track ds cs = map (\<lambda>c. c \<union> ds) cs"

section \<open>Refinement\<close>

text \<open>The shortcuts are sound while their version is the stack's.\<close>

definition storage_inv :: "storage \<Rightarrow> bool" where
  "storage_inv s \<longleftrightarrow> depth s = int (length (deps s)) - 1 \<and> 0 \<le> stack_version s
     \<and> last_version s \<le> stack_version s \<and> seen_version s \<le> stack_version s
     \<and> (last_version s = stack_version s \<longrightarrow> (\<forall>d. last_dep s = Some d \<longrightarrow> (\<forall>c\<in>set (deps s). d \<in> c)))
     \<and> (seen_version s = stack_version s \<longrightarrow> (\<forall>c\<in>set (deps s). seen s \<subseteq> c))"

lemma storage_inv_init: "storage_inv init_storage"
  by (simp add: storage_inv_def init_storage_def)

lemma storage_inv_enter: "storage_inv s \<Longrightarrow> storage_inv (enter s)"
  by (simp add: storage_inv_def enter_def)

lemma storage_inv_reset: "storage_inv s \<Longrightarrow> storage_inv (reset_storage s)"
  by (simp add: storage_inv_def reset_storage_def)

lemma storage_inv_exit: "storage_inv s \<Longrightarrow> storage_inv (exit_tracker s)"
proof -
  assume inv: "storage_inv s"
  then have len: "depth s = int (length (deps s)) - 1" by (simp add: storage_inv_def)
  consider "depth s < 0" | "depth s = 0" | "0 < depth s" by linarith
  then show "storage_inv (exit_tracker s)"
  proof cases
    case 3
    with inv len show ?thesis
      by (auto simp: storage_inv_def exit_tracker_def of_nat_diff)
  qed (use inv storage_inv_reset [OF inv] in \<open>simp_all add: exit_tracker_def\<close>)
qed

lemma map_insert_present: "\<forall>c\<in>set cs. d \<in> c \<Longrightarrow> map (insert d) cs = cs"
  by (simp add: map_idI insert_absorb)

lemma insert_at_0:
  "length cs = 1 \<Longrightarrow> cs[0 := insert d (cs ! 0)] = map (insert d) cs"
  by (cases cs) auto

text \<open>What tracking one validated dependency does to the collectors, on every branch.\<close>

lemma track_validated_deps:
  assumes "storage_inv s"
  shows "deps (track_validated d s) = map (insert d) (deps s)"
proof -
  have len: "depth s = int (length (deps s)) - 1" using assms by (simp add: storage_inv_def)
  consider (inactive) "depth s < 0"
    | (last) "0 \<le> depth s" "last_version s = stack_version s" "last_dep s = Some d"
    | (seen) "0 \<le> depth s" "\<not> (last_version s = stack_version s \<and> last_dep s = Some d)"
        "seen_version s = stack_version s" "d \<in> seen s"
    | (new) "0 \<le> depth s" "\<not> (last_version s = stack_version s \<and> last_dep s = Some d)"
        "\<not> (seen_version s = stack_version s \<and> d \<in> seen s)" by linarith
  then show ?thesis
  proof cases
    case inactive
    with len have "deps s = []" by simp
    with inactive show ?thesis by (simp add: track_validated_def)
  next
    case last
    with assms have "\<forall>c\<in>set (deps s). d \<in> c" by (simp add: storage_inv_def)
    with last show ?thesis by (simp add: track_validated_def map_insert_present)
  next
    case seen
    with assms have "\<forall>c\<in>set (deps s). d \<in> c" by (auto simp: storage_inv_def)
    with seen show ?thesis by (auto simp: track_validated_def Let_def map_insert_present)
  next
    case new
    then show ?thesis
      using len by (cases "depth s = 0") (auto simp: track_validated_def Let_def insert_at_0)
  qed
qed

lemma storage_inv_track:
  assumes "storage_inv s"
  shows "storage_inv (track_validated d s)"
proof -
  have "depth (track_validated d s) = depth s" "stack_version (track_validated d s) = stack_version s"
    by (simp_all add: track_validated_def Let_def)
  then show ?thesis
    using assms track_validated_deps [OF assms, of d]
    by (auto simp: storage_inv_def track_validated_def Let_def split: if_splits)
qed

lemma storage_inv_track_many: "storage_inv s \<Longrightarrow> storage_inv (track_many_validated ds s)"
  by (fastforce simp: storage_inv_def track_many_validated_def)

text \<open>
  The operations of one thread, and the runs of the tracker and of the specification.
\<close>

datatype tracker_op = Enter | Exit | Reset | Track py_value py_value py_value | TrackMany "dependency list"

fun run_op :: "tracker_op \<Rightarrow> storage \<Rightarrow> storage" where
  "run_op Enter s = enter s"
| "run_op Exit s = exit_tracker s"
| "run_op Reset s = reset_storage s"
| "run_op (Track c op i) s = (case track c op i s of Inl _ \<Rightarrow> s | Inr s' \<Rightarrow> s')"
| "run_op (TrackMany ds) s = track_many_validated ds s"

fun spec_op :: "tracker_op \<Rightarrow> dependency set list \<Rightarrow> dependency set list" where
  "spec_op Enter cs = cs @ [{}]"
| "spec_op Exit cs = spec_exit cs"
| "spec_op Reset cs = []"
| "spec_op (Track (PyStr c) (PyStr op) (PyStr i)) cs =
     (if op \<in> set supported_operations then spec_track {(c, op, i)} cs else cs)"
| "spec_op (Track _ _ _) cs = cs"
| "spec_op (TrackMany ds) cs = spec_track (set ds) cs"

lemma run_op_refines:
  assumes "storage_inv s"
  shows "storage_inv (run_op a s) \<and> deps (run_op a s) = spec_op a (deps s)"
proof (cases a)
  case Enter
  then show ?thesis using assms by (simp add: storage_inv_enter) (simp add: enter_def)
next
  case Exit
  have "depth s = int (length (deps s)) - 1" using assms by (simp add: storage_inv_def)
  then have "deps (exit_tracker s) = spec_exit (deps s)"
    by (cases "deps s" rule: rev_cases) (auto simp: exit_tracker_def reset_storage_def)
  then show ?thesis using Exit storage_inv_exit [OF assms] by simp
next
  case Reset
  then show ?thesis using assms by (simp add: storage_inv_reset) (simp add: reset_storage_def)
next
  case (Track c op i)
  show ?thesis
    using assms storage_inv_track [OF assms] track_validated_deps [OF assms]
    by (cases c; cases op; cases i) (auto simp: Track track_def spec_track_def)
next
  case (TrackMany ds)
  have "depth s = int (length (deps s)) - 1" using assms by (simp add: storage_inv_def)
  then show ?thesis
    using TrackMany storage_inv_track_many [OF assms, of ds]
    by (auto simp: track_many_validated_def spec_track_def)
qed

definition run_ops :: "tracker_op list \<Rightarrow> storage" where
  "run_ops ops = fold run_op ops init_storage"

lemma fold_run_refines:
  "storage_inv s \<Longrightarrow> storage_inv (fold run_op ops s) \<and> deps (fold run_op ops s) = fold spec_op ops (deps s)"
  using run_op_refines by (induction ops arbitrary: s) auto

section \<open>Properties\<close>

text \<open>C13: for every sequence of context entries, exits, resets and tracked dependencies, valid or
not, the collectors of the optimised tracker are those of the plain stack of sets in which
every dependency is added to every active collector: the last-dependency and seen-dependency
shortcuts never drop one, whatever the nesting.\<close>

theorem tracker_refines_stack_of_sets:
  "deps (run_ops ops) = fold spec_op ops [] \<and> storage_inv (run_ops ops)"
  using fold_run_refines [OF storage_inv_init, of ops]
  by (simp add: run_ops_def) (simp add: init_storage_def)

text \<open>The valid dependencies a sequence of operations tracks, and blocks that stay nested.\<close>

fun tracked :: "tracker_op \<Rightarrow> dependency set" where
  "tracked (Track (PyStr c) (PyStr op) (PyStr i)) =
     (if op \<in> set supported_operations then {(c, op, i)} else {})"
| "tracked (TrackMany ds) = set ds"
| "tracked _ = {}"

fun nested_body :: "nat \<Rightarrow> tracker_op list \<Rightarrow> bool" where
  "nested_body n [] = True"
| "nested_body n (Enter # ops) = nested_body (Suc n) ops"
| "nested_body n (Exit # ops) = (0 < n \<and> nested_body (n - 1) ops)"
| "nested_body n (Reset # ops) = False"
| "nested_body n (Track c op i # ops) = nested_body n ops"
| "nested_body n (TrackMany ds # ops) = nested_body n ops"

lemma spec_op_track:
  assumes "a \<noteq> Enter" "a \<noteq> Exit" "a \<noteq> Reset"
  shows "spec_op a cs = map (\<lambda>c. c \<union> tracked a) cs"
  using assms by (cases "(a, cs)" rule: spec_op.cases) (auto simp: spec_track_def)

lemma body_collects:
  assumes "nested_body n ops" "length cs = Suc (k + n)"
  shows "k < length (fold spec_op ops cs)
    \<and> fold spec_op ops cs ! k = cs ! k \<union> \<Union> (tracked ` set ops)"
  using assms
proof (induction n ops arbitrary: cs rule: nested_body.induct)
  case (2 n ops)
  from 2(1) [of "cs @ [{}]"] 2(2,3) show ?case by (simp add: nth_append)
next
  case (3 n ops)
  then have "spec_op Exit cs = butlast cs" by (auto simp: Suc_le_eq)
  with 3(1) [of "butlast cs"] 3(2,3) show ?case by (simp add: nth_butlast)
next
  case (5 n c op i ops)
  from 5(1) [of "spec_op (Track c op i) cs"] 5(2,3) show ?case
    by (simp add: spec_op_track Un_assoc)
next
  case (6 n ds ops)
  from 6(1) [of "spec_op (TrackMany ds) cs"] 6(2,3) show ?case
    by (simp add: spec_track_def Un_assoc)
qed simp_all

text \<open>The collector a \<open>with DependencyTracker()\<close> block returns holds exactly the valid
dependencies tracked since the block was entered, those of blocks nested in it included,
whatever ran before it.\<close>

theorem block_collects_exactly:
  assumes "nested_body 0 body"
  shows "deps (run_ops (before @ Enter # body)) ! length (deps (run_ops before))
    = \<Union> (tracked ` set body)"
proof -
  have b: "deps (run_ops before) = fold spec_op before []"
    using fold_run_refines [OF storage_inv_init, of before]
    by (simp add: run_ops_def) (simp add: init_storage_def)
  have "deps (run_ops (before @ Enter # body)) = fold spec_op body (deps (run_ops before) @ [{}])"
    using fold_run_refines [OF storage_inv_init, of "before @ Enter # body"] b
    by (simp add: run_ops_def) (simp add: init_storage_def)
  with body_collects [OF assms, of "deps (run_ops before) @ [{}]" "length (deps (run_ops before))"]
  show ?thesis by simp
qed

theorem block_collects_exactly_witness:
  "deps (run_ops [Enter, Enter, Track (PyStr ''A'') (PyStr ''all'') (PyStr ''''), Exit,
      Track (PyStr ''A'') (PyStr ''all'') (PyStr ''''), Track (PyStr ''A'') (PyStr ''bad'') (PyStr '''')]) ! 0
     = {(''A'', ''all'', '''')}"
  using block_collects_exactly [of "[Enter, Track (PyStr ''A'') (PyStr ''all'') (PyStr ''''), Exit,
      Track (PyStr ''A'') (PyStr ''all'') (PyStr ''''), Track (PyStr ''A'') (PyStr ''bad'') (PyStr '''')]" "[]"]
  by (simp add: supported_operations_def run_ops_def init_storage_def)

end
