(* ===== verification/Results.thy ===== *)
theory Results
  imports Prelude
begin

text \<open>
  Results of code that may raise: \<open>Inl e\<close> is an exception that propagates, \<open>Inr x\<close> a value
  returned. \<open>sbind\<close> runs the next statement when the first did not raise, \<open>all_until\<close> and
  \<open>any_until\<close> are Python's \<open>all(f(x) for x in xs)\<close> and a loop that returns \<open>True\<close> at the
  first hit: both stop at the first element that decides or raises.
\<close>

fun sbind :: "'e + 'a \<Rightarrow> ('a \<Rightarrow> 'e + 'b) \<Rightarrow> 'e + 'b" where
  "sbind (Inl e) f = Inl e"
| "sbind (Inr x) f = f x"

lemma sbind_Inr_iff: "sbind r f = Inr y \<longleftrightarrow> (\<exists>x. r = Inr x \<and> f x = Inr y)"
  by (cases r) auto

lemma sbind_Inl_iff: "sbind r f = Inl e \<longleftrightarrow> r = Inl e \<or> (\<exists>x. r = Inr x \<and> f x = Inl e)"
  by (cases r) auto

fun all_until :: "('a \<Rightarrow> 'e + bool) \<Rightarrow> 'a list \<Rightarrow> 'e + bool" where
  "all_until f [] = Inr True"
| "all_until f (x # xs) = sbind (f x) (\<lambda>b. if b then all_until f xs else Inr False)"

fun any_until :: "('a \<Rightarrow> 'e + bool) \<Rightarrow> 'a list \<Rightarrow> 'e + bool" where
  "any_until f [] = Inr False"
| "any_until f (x # xs) = sbind (f x) (\<lambda>b. if b then Inr True else any_until f xs)"

lemma all_until_True: "all_until f xs = Inr True \<longleftrightarrow> (\<forall>x\<in>set xs. f x = Inr True)"
proof (induction xs)
  case Nil
  then show ?case by simp
next
  case (Cons x xs)
  then show ?case by (cases "f x") auto
qed

lemma all_until_False: "all_until f xs = Inr False \<Longrightarrow> \<exists>x\<in>set xs. f x = Inr False"
proof (induction xs)
  case Nil
  then show ?case by simp
next
  case (Cons x xs)
  then show ?case by (cases "f x") (auto split: if_splits)
qed

lemma any_until_True: "any_until f xs = Inr True \<Longrightarrow> \<exists>x\<in>set xs. f x = Inr True"
proof (induction xs)
  case Nil
  then show ?case by simp
next
  case (Cons x xs)
  then show ?case by (cases "f x") (auto split: if_splits)
qed

lemma any_until_False: "any_until f xs = Inr False \<longleftrightarrow> (\<forall>x\<in>set xs. f x = Inr False)"
proof (induction xs)
  case Nil
  then show ?case by simp
next
  case (Cons x xs)
  then show ?case by (cases "f x") auto
qed

lemma any_until_cong [fundef_cong]:
  "xs = ys \<Longrightarrow> (\<And>x. x \<in> set ys \<Longrightarrow> f x = g x) \<Longrightarrow> any_until f xs = any_until g ys"
proof (induction xs arbitrary: ys)
  case Nil
  then show ?case by auto
next
  case (Cons x xs)
  then show ?case by (cases "f x") auto
qed

text \<open>When nothing raises, the loops are the bounded quantifiers.\<close>

lemma all_until_total: "(\<And>x. x \<in> set xs \<Longrightarrow> f x = Inr (P x)) \<Longrightarrow> all_until f xs = Inr (\<forall>x\<in>set xs. P x)"
  by (induction xs) auto

lemma any_until_total: "(\<And>x. x \<in> set xs \<Longrightarrow> f x = Inr (P x)) \<Longrightarrow> any_until f xs = Inr (\<exists>x\<in>set xs. P x)"
  by (induction xs) auto

text \<open>A loop that collects one result per element and stops at the first exception.\<close>

fun collect_until :: "('a \<Rightarrow> 'e + 'b) \<Rightarrow> 'a list \<Rightarrow> 'e + 'b list" where
  "collect_until f [] = Inr []"
| "collect_until f (x # xs) = sbind (f x) (\<lambda>y. sbind (collect_until f xs) (\<lambda>ys. Inr (y # ys)))"

lemma collect_until_Inr: "collect_until f xs = Inr ys \<longleftrightarrow> list_all2 (\<lambda>x y. f x = Inr y) xs ys"
  by (induction xs arbitrary: ys) (auto simp: sbind_Inr_iff list_all2_Cons1)

end
