(* ===== verification/WfConfig.thy ===== *)
theory WfConfig
  imports Results
begin

text \<open>
  Workflow settings, \<open>workflow/config.py\<close>. A settings object is the list of its attributes; the
  nested mapping \<open>GENERAL_MANAGER\<close> takes precedence over a top-level attribute. Python's
  \<open>bool()\<close>, \<open>int()\<close>, \<open>str()\<close>, \<open>strip()\<close> and \<open>lower()\<close> are written out for the values a
  setting can have; characters are the 256 of \<^typ>\<open>char\<close>.
\<close>

section \<open>Setting values and Python's conversions\<close>

text \<open>
  A mapping and any other object carry their \<open>str()\<close>, the latter its truth value and what
  \<open>int()\<close> makes of it too.
\<close>

datatype setting =
  SNone | SBool bool | SInt int | SStr string | SMapping "(string, setting) odict" string
  | SOther string bool "int option"

type_synonym settings = "(string, setting) odict"

fun py_bool :: "setting \<Rightarrow> bool" where
  "py_bool SNone = False"
| "py_bool (SBool b) = b"
| "py_bool (SInt i) = (i \<noteq> 0)"
| "py_bool (SStr s) = (s \<noteq> [])"
| "py_bool (SMapping m s) = (m \<noteq> [])"
| "py_bool (SOther s b i) = b"

definition py_space :: "char \<Rightarrow> bool" where
  "py_space c = (let n = of_char c :: nat in
     (9 \<le> n \<and> n \<le> 13) \<or> (28 \<le> n \<and> n \<le> 32) \<or> n = 133 \<or> n = 160)"

definition py_strip :: "string \<Rightarrow> string" where
  "py_strip s = rev (dropWhile py_space (rev (dropWhile py_space s)))"

definition py_lower_char :: "char \<Rightarrow> char" where
  "py_lower_char c = (let n = of_char c :: nat in
     if (65 \<le> n \<and> n \<le> 90) \<or> (192 \<le> n \<and> n \<le> 222 \<and> n \<noteq> 215) then char_of (n + 32) else c)"

definition py_lower :: "string \<Rightarrow> string" where
  "py_lower s = map py_lower_char s"

definition digit_of :: "char \<Rightarrow> int option" where
  "digit_of c = (let n = of_char c :: nat in if 48 \<le> n \<and> n \<le> 57 then Some (int n - 48) else None)"

text \<open>
  The digits of \<open>int(s)\<close>: at least one, with single underscores between digits; \<open>after\<close> says
  that a digit precedes.
\<close>

fun parse_digits :: "bool \<Rightarrow> int \<Rightarrow> string \<Rightarrow> int option" where
  "parse_digits after acc [] = (if after then Some acc else None)"
| "parse_digits after acc (c # cs) =
     (if c = CHR ''_'' then (if after then parse_digits False acc cs else None)
      else (case digit_of c of None \<Rightarrow> None | Some d \<Rightarrow> parse_digits True (10 * acc + d) cs))"

fun parse_signed :: "string \<Rightarrow> int option" where
  "parse_signed [] = None"
| "parse_signed (c # cs) =
     (if c = CHR ''-'' then map_option uminus (parse_digits False 0 cs)
      else if c = CHR ''+'' then parse_digits False 0 cs
      else parse_digits False 0 (c # cs))"

text \<open>\<^const>\<open>None\<close> is \<open>TypeError\<close> or \<open>ValueError\<close>.\<close>

fun py_int :: "setting \<Rightarrow> int option" where
  "py_int SNone = None"
| "py_int (SBool b) = Some (if b then 1 else 0)"
| "py_int (SInt i) = Some i"
| "py_int (SStr s) = parse_signed (py_strip s)"
| "py_int (SMapping m s) = None"
| "py_int (SOther s b i) = i"

fun py_str :: "setting \<Rightarrow> string" where
  "py_str SNone = ''None''"
| "py_str (SBool b) = (if b then ''True'' else ''False'')"
| "py_str (SInt i) = int_str i"
| "py_str (SStr s) = s"
| "py_str (SMapping m s) = s"
| "py_str (SOther s b i) = s"

section \<open>Lookups\<close>

definition setting_of :: "settings \<Rightarrow> string \<Rightarrow> setting \<Rightarrow> setting" where
  "setting_of st name dflt = (case od_get st name of None \<Rightarrow> dflt | Some v \<Rightarrow> v)"

definition config_of :: "settings \<Rightarrow> (string, setting) odict" where
  "config_of st = (case setting_of st ''GENERAL_MANAGER'' (SMapping [] ''{}'') of
     SMapping m s \<Rightarrow> m | _ \<Rightarrow> [])"

definition config_or_setting :: "settings \<Rightarrow> string \<Rightarrow> setting \<Rightarrow> setting" where
  "config_or_setting st name dflt =
     (case od_get (config_of st) name of Some v \<Rightarrow> v | None \<Rightarrow> setting_of st name dflt)"

definition bounded_int :: "settings \<Rightarrow> string \<Rightarrow> int \<Rightarrow> int \<Rightarrow> int" where
  "bounded_int st name dflt minimum =
     (case py_int (config_or_setting st name (SInt dflt)) of
        Some i \<Rightarrow> max minimum i
      | None \<Rightarrow> dflt)"

section \<open>The settings\<close>

definition workflow_mode :: "settings \<Rightarrow> string" where
  "workflow_mode st =
     (let mode = py_lower (py_strip (py_str (config_or_setting st ''WORKFLOW_MODE'' (SStr ''local''))))
      in if mode \<in> {''local'', ''production''} then mode else ''local'')"

definition workflow_async_enabled :: "settings \<Rightarrow> bool" where
  "workflow_async_enabled st =
     (case config_or_setting st ''WORKFLOW_ASYNC'' SNone of
        SNone \<Rightarrow> workflow_mode st = ''production''
      | v \<Rightarrow> py_bool v)"

definition workflow_beat_enabled :: "settings \<Rightarrow> bool" where
  "workflow_beat_enabled st =
     (case config_or_setting st ''WORKFLOW_BEAT_ENABLED'' SNone of
        SNone \<Rightarrow> workflow_mode st = ''production''
      | v \<Rightarrow> py_bool v)"

definition workflow_beat_outbox_interval_seconds :: "settings \<Rightarrow> int" where
  "workflow_beat_outbox_interval_seconds st = bounded_int st ''WORKFLOW_BEAT_OUTBOX_INTERVAL_SECONDS'' 5 1"

definition workflow_beat_max_jitter_seconds :: "settings \<Rightarrow> int" where
  "workflow_beat_max_jitter_seconds st = bounded_int st ''WORKFLOW_BEAT_MAX_JITTER_SECONDS'' 2 0"

definition workflow_outbox_batch_size :: "settings \<Rightarrow> int" where
  "workflow_outbox_batch_size st = bounded_int st ''WORKFLOW_OUTBOX_BATCH_SIZE'' 100 1"

definition workflow_outbox_process_chunk_size :: "settings \<Rightarrow> int" where
  "workflow_outbox_process_chunk_size st = bounded_int st ''WORKFLOW_OUTBOX_PROCESS_CHUNK_SIZE'' 50 1"

definition workflow_outbox_claim_ttl_seconds :: "settings \<Rightarrow> int" where
  "workflow_outbox_claim_ttl_seconds st = bounded_int st ''WORKFLOW_OUTBOX_CLAIM_TTL_SECONDS'' 300 1"

definition workflow_max_retries :: "settings \<Rightarrow> int" where
  "workflow_max_retries st = bounded_int st ''WORKFLOW_MAX_RETRIES'' 3 0"

definition workflow_retry_backoff_seconds :: "settings \<Rightarrow> int" where
  "workflow_retry_backoff_seconds st = bounded_int st ''WORKFLOW_RETRY_BACKOFF_SECONDS'' 5 1"

definition workflow_dead_letter_enabled :: "settings \<Rightarrow> bool" where
  "workflow_dead_letter_enabled st =
     py_bool (config_or_setting st ''WORKFLOW_DEAD_LETTER_ENABLED'' (SBool True))"

definition workflow_delivery_running_timeout_seconds :: "settings \<Rightarrow> int" where
  "workflow_delivery_running_timeout_seconds st =
     bounded_int st ''WORKFLOW_DELIVERY_RUNNING_TIMEOUT_SECONDS'' 300 1"

section \<open>Bounds\<close>

named_theorems limit_defs

lemmas [limit_defs] =
  workflow_beat_outbox_interval_seconds_def workflow_beat_max_jitter_seconds_def
  workflow_outbox_batch_size_def workflow_outbox_process_chunk_size_def
  workflow_outbox_claim_ttl_seconds_def workflow_max_retries_def
  workflow_retry_backoff_seconds_def workflow_delivery_running_timeout_seconds_def

lemma bounded_int_ge: "minimum \<le> dflt \<Longrightarrow> minimum \<le> bounded_int st name dflt minimum"
  by (simp add: bounded_int_def split: option.splits)

text \<open>Whatever the settings hold, every workflow limit is at least its documented minimum:
  lease times, back-off, batch sizes and the beat interval are at least one, the retry budget
  and the jitter at least zero.\<close>

theorem limits_clamped:
  "1 \<le> workflow_outbox_batch_size st \<and> 1 \<le> workflow_outbox_process_chunk_size st \<and>
   1 \<le> workflow_outbox_claim_ttl_seconds st \<and> 1 \<le> workflow_retry_backoff_seconds st \<and>
   1 \<le> workflow_delivery_running_timeout_seconds st \<and> 1 \<le> workflow_beat_outbox_interval_seconds st \<and>
   0 \<le> workflow_max_retries st \<and> 0 \<le> workflow_beat_max_jitter_seconds st"
  by (simp add: limit_defs bounded_int_ge)

section \<open>Numbers given as text\<close>

abbreviation digit_chars :: "char set" where
  "digit_chars \<equiv> {c. 48 \<le> (of_char c :: nat) \<and> (of_char c :: nat) \<le> 57}"

lemma decimal_digits_chars: "set (decimal_digits n acc) \<subseteq> digit_chars \<union> set acc"
proof (induction n acc rule: decimal_digits.induct)
  case (1 n acc)
  have "n mod 10 < 10" by simp
  then have d: "char_of (48 + n mod 10) \<in> digit_chars" by (simp add: take_bit_eq_mod)
  show ?case
  proof (cases "n < 10")
    case True
    with d show ?thesis by (subst decimal_digits.simps) simp
  next
    case False
    from "1.IH" [OF refl False] d
    have "set (decimal_digits (n div 10) (char_of (48 + n mod 10) # acc)) \<subseteq> digit_chars \<union> set acc"
      unfolding list.set by blast
    with False show ?thesis by (subst decimal_digits.simps) (simp only: Let_def if_False)
  qed
qed

lemma decimal_digits_nonempty: "decimal_digits n acc \<noteq> []"
proof (induction n acc rule: decimal_digits.induct)
  case (1 n acc)
  then show ?case by (subst decimal_digits.simps) (auto simp: Let_def)
qed

lemma parse_decimal_digits:
  "parse_digits after 0 (decimal_digits n cs) = parse_digits True (int n) cs"
proof (induction n cs arbitrary: after rule: decimal_digits.induct)
  case (1 n cs)
  have d: "(of_char (char_of (48 + n mod 10) :: char) :: nat) = 48 + n mod 10"
    using mod_less_divisor [of 10 n] by (simp add: take_bit_eq_mod)
  have u: "char_of (48 + n mod 10) \<noteq> CHR ''_''"
  proof
    assume "char_of (48 + n mod 10) = CHR ''_''"
    with d have "48 + n mod 10 = (of_char CHR ''_'' :: nat)" by simp
    with mod_less_divisor [of 10 n] show False by simp
  qed
  have g: "digit_of (char_of (48 + n mod 10)) = Some (int (n mod 10))"
    using mod_less_divisor [of 10 n] unfolding digit_of_def d by simp
  show ?case
  proof (cases "n < 10")
    case True
    with u g show ?thesis by (subst decimal_digits.simps) (simp add: Let_def)
  next
    case False
    have "10 * int (n div 10) + int (n mod 10) = int n" by presburger
    with "1.IH" [OF refl False, of after] False u g show ?thesis
      by (subst decimal_digits.simps) (simp add: Let_def)
  qed
qed

lemma strip_solid: "(\<And>c. c \<in> set s \<Longrightarrow> \<not> py_space c) \<Longrightarrow> py_strip s = s"
proof -
  assume a: "\<And>c. c \<in> set s \<Longrightarrow> \<not> py_space c"
  then have l: "dropWhile py_space s = s" by (cases s) simp_all
  have "dropWhile py_space (rev s) = rev s" using a by (cases s rule: rev_cases) simp_all
  then show ?thesis by (simp add: py_strip_def l)
qed

lemma digit_not_space: "c \<in> digit_chars \<Longrightarrow> \<not> py_space c"
  by (simp add: py_space_def Let_def)

lemma py_int_int_str: "py_int (SStr (int_str i)) = Some i"
proof -
  have ch: "set (decimal n) \<subseteq> digit_chars" for n
    using decimal_digits_chars [of n "[]"] by (simp add: decimal_def)
  have p: "parse_digits False 0 (decimal n) = Some (int n)" for n
    by (simp add: decimal_def parse_decimal_digits)
  have "c \<in> set (int_str i) \<Longrightarrow> c = CHR ''-'' \<or> c \<in> digit_chars" for c
    using ch by (auto simp: int_str_def split: if_splits)
  moreover have "\<not> py_space CHR ''-''" by (simp add: py_space_def)
  ultimately have "c \<in> set (int_str i) \<Longrightarrow> \<not> py_space c" for c
    using digit_not_space by blast
  then have s: "py_strip (int_str i) = int_str i" by (rule strip_solid)
  show ?thesis
  proof (cases "i < 0")
    case True
    then have "int_str i = CHR ''-'' # decimal (nat (- i))" by (simp add: int_str_def)
    with s p [of "nat (- i)"] True show ?thesis by simp
  next
    case False
    obtain c cs where d: "decimal (nat i) = c # cs"
      using decimal_digits_nonempty [of "nat i" "[]"] by (cases "decimal (nat i)") (auto simp: decimal_def)
    with ch [of "nat i"] have "48 \<le> (of_char c :: nat)" by auto
    then have "c \<noteq> CHR ''-''" "c \<noteq> CHR ''+''" by auto
    moreover have "int_str i = c # cs" using False d by (simp add: int_str_def)
    moreover have "parse_digits False 0 (c # cs) = Some i" using False p [of "nat i"] d by simp
    ultimately show ?thesis using s by (simp del: parse_digits.simps)
  qed
qed

text \<open>A limit may be given as text: writing the number \<open>i\<close> with \<open>str()\<close> into the nested
  mapping and reading it back with \<open>int()\<close> yields the same clamped limit as the number itself.\<close>

theorem limit_from_text_roundtrip:
  "bounded_int ((''GENERAL_MANAGER'', SMapping ((name, SStr (int_str i)) # m) t) # st) name dflt minimum =
     max minimum i \<and>
   bounded_int ((''GENERAL_MANAGER'', SMapping ((name, SInt i) # m) t) # st) name dflt minimum =
     max minimum i"
  by (simp add: bounded_int_def config_or_setting_def config_of_def setting_of_def py_int_int_str
      del: py_int.simps(4))

end
