(* ===== verification/Json.thy ===== *)
theory Json
  imports WfConfig "HOL-Library.List_Lexorder" "HOL-Library.Char_ord"
begin

text \<open>
  Python's \<open>json.dumps\<close> (with \<open>sort_keys\<close>, ASCII output and the default separators) and
  \<open>json.loads\<close>, as far as the dependency index of \<open>cache/dependency_matching.py\<close> uses them.
  A float is its text. Characters are the 256 of \<^typ>\<open>char\<close>, so an escape beyond \<open>\u00ff\<close> does
  not parse. \<open>None\<close> is the \<open>JSONDecodeError\<close>; the parser's fuel is the length of its input.
\<close>

section \<open>Values\<close>

datatype jvalue =
  JNull | JBool bool | JInt int | JFloat string | JText string | JList "jvalue list"
  | JObject "(string \<times> jvalue) list"

section \<open>Printing\<close>

definition hex_digit :: "nat \<Rightarrow> char" where
  "hex_digit n = char_of (if n < 10 then 48 + n else 87 + n)"

definition escape_char :: "char \<Rightarrow> string" where
  "escape_char c =
     (let n = of_char c :: nat in
      if n = 34 then [CHR 0x5C, CHR 0x22]
      else if n = 92 then [CHR 0x5C, CHR 0x5C]
      else if n = 10 then [CHR 0x5C, CHR ''n'']
      else if n = 13 then [CHR 0x5C, CHR ''r'']
      else if n = 9 then [CHR 0x5C, CHR ''t'']
      else if n = 12 then [CHR 0x5C, CHR ''f'']
      else if n = 8 then [CHR 0x5C, CHR ''b'']
      else if 32 \<le> n \<and> n \<le> 126 then [c]
      else [CHR 0x5C, CHR ''u'', CHR ''0'', CHR ''0'', hex_digit (n div 16), hex_digit (n mod 16)])"

text \<open>\<open>encode_basestring_ascii\<close>\<close>

definition encode_text :: "string \<Rightarrow> string" where
  "encode_text s = CHR 0x22 # concat (map escape_char s) @ [CHR 0x22]"

fun comma_list :: "string list \<Rightarrow> string" where
  "comma_list [] = []"
| "comma_list [p] = p"
| "comma_list (p # q # ps) = p @ '', '' @ comma_list (q # ps)"

fun print_json :: "jvalue \<Rightarrow> string" where
  "print_json JNull = ''null''"
| "print_json (JBool b) = (if b then ''true'' else ''false'')"
| "print_json (JInt i) = int_str i"
| "print_json (JFloat t) = t"
| "print_json (JText s) = encode_text s"
| "print_json (JList xs) = ''['' @ comma_list (map print_json xs) @ '']''"
| "print_json (JObject ms) =
     ''{'' @ comma_list (map (\<lambda>(k, v). encode_text k @ '': '' @ print_json v) ms) @ ''}''"

fun sort_members :: "jvalue \<Rightarrow> jvalue" where
  "sort_members (JList xs) = JList (map sort_members xs)"
| "sort_members (JObject ms) = JObject (sort_key fst (map (\<lambda>(k, v). (k, sort_members v)) ms))"
| "sort_members v = v"

definition json_dumps :: "jvalue \<Rightarrow> string" where
  "json_dumps v = print_json (sort_members v)"

section \<open>Parsing\<close>

definition json_space :: "char \<Rightarrow> bool" where
  "json_space c = (c \<in> {CHR '' '', CHR 0x09, CHR 0x0A, CHR 0x0D})"

definition skip_space :: "string \<Rightarrow> string" where
  "skip_space s = dropWhile json_space s"

definition is_digit :: "char \<Rightarrow> bool" where
  "is_digit c = (let n = of_char c :: nat in 48 \<le> n \<and> n \<le> 57)"

definition digits_value :: "string \<Rightarrow> int" where
  "digits_value s = foldl (\<lambda>a c. 10 * a + (int (of_char c) - 48)) 0 s"

fun hex_value :: "char \<Rightarrow> nat option" where
  "hex_value c =
     (let n = of_char c :: nat in
      if 48 \<le> n \<and> n \<le> 57 then Some (n - 48)
      else if 97 \<le> n \<and> n \<le> 102 then Some (n - 87)
      else if 65 \<le> n \<and> n \<le> 70 then Some (n - 55)
      else None)"

text \<open>The next character of a string literal, with the rest; the literal has not ended.\<close>

definition parse_char :: "string \<Rightarrow> (char \<times> string) option" where
  "parse_char s =
     (case s of
        [] \<Rightarrow> None
      | c # r \<Rightarrow>
          if c = CHR 0x5C then
            (case r of
               [] \<Rightarrow> None
             | e # r' \<Rightarrow>
                 if e \<in> {CHR 0x22, CHR 0x5C, CHR ''/''} then Some (e, r')
                 else if e = CHR ''n'' then Some (CHR 0x0A, r')
                 else if e = CHR ''r'' then Some (CHR 0x0D, r')
                 else if e = CHR ''t'' then Some (CHR 0x09, r')
                 else if e = CHR ''f'' then Some (CHR 0x0C, r')
                 else if e = CHR ''b'' then Some (CHR 0x08, r')
                 else if e = CHR ''u'' then
                   (case map hex_value (take 4 r') of
                      [Some a, Some b, Some x, Some y] \<Rightarrow>
                        if a = 0 \<and> b = 0 then Some (char_of (16 * x + y), drop 4 r') else None
                    | _ \<Rightarrow> None)
                 else None)
          else if (of_char c :: nat) < 32 then None
          else Some (c, r))"

text \<open>The body of a string literal after its opening quote.\<close>

fun parse_text :: "nat \<Rightarrow> string \<Rightarrow> (string \<times> string) option" where
  "parse_text 0 s = None"
| "parse_text (Suc n) s =
     (case s of
        [] \<Rightarrow> None
      | c # r \<Rightarrow>
          if c = CHR 0x22 then Some ([], r)
          else (case parse_char s of
              None \<Rightarrow> None
            | Some (x, r') \<Rightarrow> map_option (\<lambda>(xs, r''). (x # xs, r'')) (parse_text n r')))"

text \<open>The number at the front: \<open>-?(0|[1-9]\d*)(\.\d+)?([eE][-+]?\d+)?\<close>, greedily.\<close>

definition scan_integer :: "string \<Rightarrow> (string \<times> string) option" where
  "scan_integer s =
     (case s of
        [] \<Rightarrow> None
      | c # r \<Rightarrow>
          if c = CHR ''0'' then Some ([c], r)
          else if is_digit c then Some (takeWhile is_digit s, dropWhile is_digit s)
          else None)"

definition scan_fraction :: "string \<Rightarrow> string \<times> string" where
  "scan_fraction s =
     (case s of
        c # d # r \<Rightarrow>
          if c = CHR ''.'' \<and> is_digit d
          then (c # takeWhile is_digit (d # r), dropWhile is_digit (d # r)) else ([], s)
      | _ \<Rightarrow> ([], s))"

definition scan_sign :: "char set \<Rightarrow> string \<Rightarrow> string \<times> string" where
  "scan_sign cs s = (case s of c # r \<Rightarrow> if c \<in> cs then ([c], r) else ([], s) | [] \<Rightarrow> ([], s))"

definition digit_next :: "string \<Rightarrow> bool" where
  "digit_next s = (case s of c # r \<Rightarrow> is_digit c | [] \<Rightarrow> False)"

definition scan_exponent :: "string \<Rightarrow> string \<times> string" where
  "scan_exponent s =
     (case s of
        c # r \<Rightarrow>
          if c = CHR ''e'' \<or> c = CHR ''E'' then
            (case scan_sign {CHR ''-'', CHR ''+''} r of (sign, r') \<Rightarrow>
              if digit_next r' then (c # sign @ takeWhile is_digit r', dropWhile is_digit r')
              else ([], s))
          else ([], s)
      | [] \<Rightarrow> ([], s))"

definition number_of :: "string \<Rightarrow> string \<Rightarrow> string \<Rightarrow> string \<Rightarrow> jvalue" where
  "number_of sign digits frac expo =
     (if frac = [] \<and> expo = []
      then JInt (if sign = [] then digits_value digits else - digits_value digits)
      else JFloat (sign @ digits @ frac @ expo))"

definition parse_number :: "string \<Rightarrow> (jvalue \<times> string) option" where
  "parse_number s =
     (case scan_sign {CHR ''-''} s of (sign, r) \<Rightarrow>
        (case scan_integer r of
           None \<Rightarrow> None
         | Some (digits, r1) \<Rightarrow>
             (case scan_fraction r1 of (frac, r2) \<Rightarrow>
             (case scan_exponent r2 of (expo, r3) \<Rightarrow> Some (number_of sign digits frac expo, r3)))))"

definition starts :: "string \<Rightarrow> string \<Rightarrow> bool" where
  "starts p s = (take (length p) s = p)"

text \<open>\<open>dict(pairs)\<close>: a repeated key keeps its place and takes the last value.\<close>

definition members_dict :: "(string \<times> jvalue) list \<Rightarrow> (string \<times> jvalue) list" where
  "members_dict ms = fold (\<lambda>(k, v). od_set k v) ms []"

fun parse_value :: "nat \<Rightarrow> string \<Rightarrow> (jvalue \<times> string) option"
and parse_items :: "nat \<Rightarrow> string \<Rightarrow> (jvalue list \<times> string) option"
and parse_members :: "nat \<Rightarrow> string \<Rightarrow> ((string \<times> jvalue) list \<times> string) option" where
  "parse_value 0 s = None"
| "parse_value (Suc n) s =
     (case s of
        [] \<Rightarrow> None
      | c # r \<Rightarrow>
          if c = CHR 0x22 then map_option (\<lambda>(t, r'). (JText t, r')) (parse_text (length s) r)
          else if c = CHR ''{'' then
            (case skip_space r of
               [] \<Rightarrow> None
             | d # r' \<Rightarrow>
                 if d = CHR ''}'' then Some (JObject [], r')
                 else map_option (\<lambda>(ms, r''). (JObject (members_dict ms), r'')) (parse_members n (d # r')))
          else if c = CHR ''['' then
            (case skip_space r of
               [] \<Rightarrow> None
             | d # r' \<Rightarrow>
                 if d = CHR '']'' then Some (JList [], r')
                 else map_option (\<lambda>(xs, r''). (JList xs, r'')) (parse_items n (d # r')))
          else if starts ''null'' s then Some (JNull, drop 4 s)
          else if starts ''true'' s then Some (JBool True, drop 4 s)
          else if starts ''false'' s then Some (JBool False, drop 5 s)
          else (case parse_number s of
              Some p \<Rightarrow> Some p
            | None \<Rightarrow>
                if starts ''NaN'' s then Some (JFloat ''NaN'', drop 3 s)
                else if starts ''Infinity'' s then Some (JFloat ''Infinity'', drop 8 s)
                else if starts ''-Infinity'' s then Some (JFloat ''-Infinity'', drop 9 s)
                else None))"
| "parse_items 0 s = None"
| "parse_items (Suc n) s =
     (case parse_value n s of
        None \<Rightarrow> None
      | Some (v, r) \<Rightarrow>
          (case skip_space r of
             [] \<Rightarrow> None
           | c # r' \<Rightarrow>
               if c = CHR '']'' then Some ([v], r')
               else if c = CHR '','' then
                 map_option (\<lambda>(vs, r''). (v # vs, r'')) (parse_items n (skip_space r'))
               else None))"
| "parse_members 0 s = None"
| "parse_members (Suc n) s =
     (case s of
        [] \<Rightarrow> None
      | q # r \<Rightarrow>
          if q \<noteq> CHR 0x22 then None
          else (case parse_text (length s) r of
              None \<Rightarrow> None
            | Some (k, r1) \<Rightarrow>
                (case skip_space r1 of
                   [] \<Rightarrow> None
                 | c # r2 \<Rightarrow>
                     if c \<noteq> CHR '':'' then None
                     else (case parse_value n (skip_space r2) of
                         None \<Rightarrow> None
                       | Some (v, r3) \<Rightarrow>
                           (case skip_space r3 of
                              [] \<Rightarrow> None
                            | d # r4 \<Rightarrow>
                                if d = CHR ''}'' then Some ([(k, v)], r4)
                                else if d = CHR '','' then
                                  map_option (\<lambda>(ms, r5). ((k, v) # ms, r5)) (parse_members n (skip_space r4))
                                else None)))))"

definition json_loads :: "string \<Rightarrow> jvalue option" where
  "json_loads s =
     (case parse_value (Suc (length s)) (skip_space s) of
        None \<Rightarrow> None
      | Some (v, r) \<Rightarrow> if skip_space r = [] then Some v else None)"

section \<open>Reading back numbers\<close>

definition ends :: "string \<Rightarrow> bool" where
  "ends rest = (rest = [] \<or> hd rest \<in> {CHR '','', CHR '']'', CHR ''}''})"

lemma is_digit_iff: "is_digit c \<longleftrightarrow> c \<in> digit_chars"
  by (simp add: is_digit_def Let_def)

lemma ends_not_digit: "ends (c # r) \<Longrightarrow> \<not> is_digit c"
  by (auto simp: ends_def is_digit_def)

lemma digits_append:
  assumes "ends rest"
  shows "takeWhile is_digit (s @ rest) = takeWhile is_digit s"
    "dropWhile is_digit (s @ rest) = dropWhile is_digit s @ rest"
proof -
  have "takeWhile is_digit rest = [] \<and> dropWhile is_digit rest = rest"
    using assms ends_not_digit by (cases rest) simp_all
  then show "takeWhile is_digit (s @ rest) = takeWhile is_digit s"
    "dropWhile is_digit (s @ rest) = dropWhile is_digit s @ rest"
    by (induction s) simp_all
qed

lemma scan_integer_append:
  "scan_integer s = Some (d, r) \<Longrightarrow> ends rest \<Longrightarrow> scan_integer (s @ rest) = Some (d, r @ rest)"
  using digits_append [of rest s]
  by (cases s) (auto simp: scan_integer_def split: if_splits)

lemma scan_fraction_append:
  assumes "scan_fraction s = (f, r)" "ends rest"
  shows "scan_fraction (s @ rest) = (f, r @ rest)"
proof (cases s)
  case Nil
  with assms show ?thesis
    by (cases rest) (auto simp: scan_fraction_def ends_def split: list.splits)
next
  case (Cons c s')
  show ?thesis
  proof (cases s')
    case Nil
    with assms Cons show ?thesis
      by (cases rest) (auto simp: scan_fraction_def dest: ends_not_digit)
  next
    case (Cons d s'')
    with assms \<open>s = c # s'\<close> digits_append [OF assms(2), of s'] show ?thesis
      by (auto simp: scan_fraction_def)
  qed
qed

lemma scan_sign_append:
  assumes "scan_sign cs s = (f, r)" "s \<noteq> [] \<or> ends rest" "cs \<subseteq> {CHR ''-'', CHR ''+''}"
  shows "scan_sign cs (s @ rest) = (f, r @ rest)"
  using assms by (cases s; cases rest) (auto simp: scan_sign_def ends_def split: if_splits)

lemma digit_next_append: "ends rest \<Longrightarrow> digit_next (s @ rest) = digit_next s"
  by (cases s; cases rest) (auto simp: digit_next_def ends_not_digit)

lemma scan_exponent_append:
  assumes "scan_exponent s = (f, r)" "ends rest"
  shows "scan_exponent (s @ rest) = (f, r @ rest)"
proof (cases s)
  case Nil
  with assms show ?thesis
    by (cases rest) (auto simp: scan_exponent_def ends_def)
next
  case (Cons c s')
  obtain g q where g: "scan_sign {CHR ''-'', CHR ''+''} s' = (g, q)" by fastforce
  then have "scan_sign {CHR ''-'', CHR ''+''} (s' @ rest) = (g, q @ rest)"
    using scan_sign_append assms(2) by blast
  with g assms Cons digits_append [OF assms(2), of q] show ?thesis
    by (auto simp: scan_exponent_def digit_next_append split: if_splits)
qed

lemma parse_number_append:
  assumes "parse_number s = Some (v, r)" "ends rest"
  shows "parse_number (s @ rest) = Some (v, r @ rest)"
proof -
  obtain g q where g: "scan_sign {CHR ''-''} s = (g, q)" by fastforce
  then have g': "scan_sign {CHR ''-''} (s @ rest) = (g, q @ rest)"
    using scan_sign_append assms(2) by blast
  obtain d r1 where d: "scan_integer q = Some (d, r1)"
    using assms(1) g by (auto simp: parse_number_def split: option.splits)
  obtain f r2 where f: "scan_fraction r1 = (f, r2)" by fastforce
  obtain x r3 where x: "scan_exponent r2 = (x, r3)" by fastforce
  show ?thesis
    using assms(1) g g' d f x scan_integer_append [OF d assms(2)] scan_fraction_append [OF f assms(2)]
      scan_exponent_append [OF x assms(2)]
    by (simp add: parse_number_def)
qed

lemma digits_value_decimal:
  "digits_value (decimal_digits n cs) = foldl (\<lambda>a c. 10 * a + (int (of_char c) - 48)) (int n) cs"
proof (induction n cs rule: decimal_digits.induct)
  case (1 n cs)
  have d: "(of_char (char_of (48 + n mod 10) :: char) :: nat) = 48 + n mod 10"
    using mod_less_divisor [of 10 n] by (simp add: take_bit_eq_mod)
  show ?case
  proof (cases "n < 10")
    case True
    with d show ?thesis by (subst decimal_digits.simps) (simp add: digits_value_def Let_def)
  next
    case False
    have "10 * int (n div 10) + int (n mod 10) = int n" by presburger
    with "1.IH" [OF refl False] d False show ?thesis
      by (subst decimal_digits.simps) (simp add: Let_def)
  qed
qed

lemma decimal_digits_head: "0 < n \<Longrightarrow> hd (decimal_digits n cs) \<noteq> CHR ''0''"
proof (induction n cs rule: decimal_digits.induct)
  case (1 n cs)
  show ?case
  proof (cases "n < 10")
    case True
    have d: "(of_char (char_of (48 + n) :: char) :: nat) = 48 + n"
      using True by (simp add: take_bit_eq_mod)
    have "char_of (48 + n) \<noteq> CHR ''0''"
    proof
      assume "char_of (48 + n) = CHR ''0''"
      with d have "48 + n = (of_char CHR ''0'' :: nat)" by simp
      with "1.prems" show False by simp
    qed
    with True show ?thesis by (subst decimal_digits.simps) (simp add: Let_def)
  next
    case False
    then have "0 < n div 10" by simp
    from "1.IH" [OF refl False this] False show ?thesis
      by (subst decimal_digits.simps) (simp add: Let_def)
  qed
qed

lemma scan_decimal: "scan_integer (decimal n) = Some (decimal n, [])"
proof -
  have d: "\<And>c. c \<in> set (decimal n) \<Longrightarrow> is_digit c"
    using decimal_digits_chars [of n "[]"] by (auto simp: is_digit_iff decimal_def)
  obtain c cs where s: "decimal n = c # cs"
    using decimal_digits_nonempty [of n "[]"] by (cases "decimal n") (auto simp: decimal_def)
  show ?thesis
  proof (cases "n = 0")
    case True
    have "decimal 0 = ''0''" by code_simp
    with True show ?thesis by (simp add: scan_integer_def)
  next
    case False
    then have "c \<noteq> CHR ''0''" using decimal_digits_head [of n "[]"] s by (simp add: decimal_def)
    with d s show ?thesis by (simp add: scan_integer_def takeWhile_eq_all_conv dropWhile_eq_Nil_conv)
  qed
qed

lemma parse_number_int: "parse_number (int_str i) = Some (JInt i, [])"
proof -
  have v: "digits_value (decimal n) = int n" for n
    using digits_value_decimal [of n "[]"] by (simp add: decimal_def)
  have e: "scan_fraction [] = ([], [])" "scan_exponent [] = ([], [])"
    by (simp_all add: scan_fraction_def scan_exponent_def)
  show ?thesis
  proof (cases "i < 0")
    case True
    with v e scan_decimal [of "nat (- i)"] show ?thesis
      by (simp add: parse_number_def scan_sign_def number_of_def int_str_def Let_def)
  next
    case False
    obtain c cs where s: "decimal (nat i) = c # cs"
      using decimal_digits_nonempty [of "nat i" "[]"] by (cases "decimal (nat i)") (auto simp: decimal_def)
    then have "is_digit c"
      using decimal_digits_chars [of "nat i" "[]"] by (auto simp: is_digit_iff decimal_def)
    then have "c \<noteq> CHR ''-''" by (auto simp: is_digit_def)
    with False s v [of "nat i"] e scan_decimal [of "nat i"] show ?thesis
      by (simp add: parse_number_def scan_sign_def number_of_def int_str_def Let_def)
  qed
qed

section \<open>Reading back texts\<close>

lemma hex_value_digit: "n < 16 \<Longrightarrow> hex_value (hex_digit n) = Some n"
proof -
  assume "n < 16"
  then show ?thesis
    by (cases "n < 10") (simp_all add: hex_digit_def take_bit_eq_mod)
qed

lemma escape_char_head: "\<exists>x xs. escape_char c = x # xs \<and> x \<noteq> CHR 0x22"
proof (cases "of_char c = (34 :: nat)")
  case True
  then show ?thesis by (simp add: escape_char_def)
next
  case False
  then have "c \<noteq> CHR 0x22" by auto
  then show ?thesis by (simp add: escape_char_def Let_def)
qed

lemma char_eq_of_char: "(of_char c :: nat) = of_char d \<Longrightarrow> c = d"
  by simp

lemma parse_escape_char: "parse_char (escape_char c @ r) = Some (c, r)"
proof -
  define n where "n = (of_char c :: nat)"
  have n: "n < 256" unfolding n_def by simp
  have c: "c = char_of n" unfolding n_def by simp
  consider "n \<in> {34, 92, 10, 13, 9, 12, 8}" | "32 \<le> n \<and> n \<le> 126 \<and> n \<noteq> 34 \<and> n \<noteq> 92"
    | "n \<notin> {34, 92, 10, 13, 9, 12, 8}" "\<not> (32 \<le> n \<and> n \<le> 126)"
    by auto
  then show ?thesis
  proof cases
    case 1
    have e: "c = d" if "n = of_char d" for d using that unfolding n_def by simp
    from 1 e [of "CHR 0x22"] e [of "CHR 0x5C"] e [of "CHR 0x0A"] e [of "CHR 0x0D"] e [of "CHR 0x09"]
      e [of "CHR 0x0C"] e [of "CHR 0x08"]
    have "c \<in> {CHR 0x22, CHR 0x5C, CHR 0x0A, CHR 0x0D, CHR 0x09, CHR 0x0C, CHR 0x08}" by auto
    then show ?thesis by (elim insertE emptyE) (simp_all add: escape_char_def parse_char_def)
  next
    case 2
    then have "c \<noteq> CHR 0x5C" by (auto simp: n_def)
    with 2 show ?thesis by (simp add: escape_char_def parse_char_def flip: n_def)
  next
    case 3
    have e: "escape_char c =
        [CHR 0x5C, CHR ''u'', CHR ''0'', CHR ''0'', hex_digit (n div 16), hex_digit (n mod 16)]"
      using 3 unfolding escape_char_def Let_def n_def [symmetric] by auto
    have "hex_value CHR ''0'' = Some 0" by code_simp
    moreover have "hex_value (hex_digit (n div 16)) = Some (n div 16)"
      "hex_value (hex_digit (n mod 16)) = Some (n mod 16)"
      using n by (auto intro!: hex_value_digit simp del: hex_value.simps)
    moreover have "char_of (16 * (n div 16) + n mod 16) = c" using c by simp
    ultimately show ?thesis unfolding e by (simp add: parse_char_def del: hex_value.simps)
  qed
qed

lemma parse_text_encoded:
  "length s < n \<Longrightarrow> parse_text n (concat (map escape_char s) @ CHR 0x22 # rest) = Some (s, rest)"
proof (induction s arbitrary: n)
  case Nil
  then show ?case by (cases n) simp_all
next
  case (Cons c s)
  obtain m where m: "n = Suc m" "length s < m" using Cons.prems by (cases n) auto
  obtain x xs where x: "escape_char c = x # xs" "x \<noteq> CHR 0x22" using escape_char_head by blast
  have "parse_char (x # xs @ concat (map escape_char s) @ CHR 0x22 # rest) =
      Some (c, concat (map escape_char s) @ CHR 0x22 # rest)"
    using parse_escape_char [of c "concat (map escape_char s) @ CHR 0x22 # rest"] x by simp
  with Cons.IH [OF m(2)] m x show ?case by simp
qed

lemma encoded_length: "length s \<le> length (concat (map escape_char s))"
proof (induction s)
  case (Cons c s)
  obtain x xs where "escape_char c = x # xs" using escape_char_head by blast
  with Cons show ?case by simp
qed simp

section \<open>Reading back values\<close>

text \<open>The values whose dump reads back: no repeated object key, and a float is a text that the
  number grammar or one of the three constants accepts.\<close>

fun json_ok :: "jvalue \<Rightarrow> bool" where
  "json_ok (JFloat t) =
     (t \<in> {''NaN'', ''Infinity'', ''-Infinity''} \<or> parse_number t = Some (JFloat t, []))"
| "json_ok (JList xs) = list_all json_ok xs"
| "json_ok (JObject ms) = (distinct (map fst ms) \<and> list_all (\<lambda>(k, v). json_ok v) ms)"
| "json_ok v = True"

lemma starts_Cons [simp]:
  "starts [] s" "\<not> starts (a # p) []" "starts (a # p) (c # s) \<longleftrightarrow> a = c \<and> starts p s"
  by (auto simp: starts_def)

lemma parse_number_head:
  assumes "parse_number s = Some p"
  shows "\<exists>c r. s = c # r \<and> (c = CHR ''-'' \<or> is_digit c)"
  using assms
  by (cases s) (auto simp: parse_number_def scan_sign_def scan_integer_def is_digit_def split: if_splits)

definition value_head :: "char \<Rightarrow> bool" where
  "value_head c = (\<not> json_space c \<and> c \<noteq> CHR '']'' \<and> c \<noteq> CHR ''}'')"

lemma value_head_digit: "c = CHR ''-'' \<or> is_digit c \<Longrightarrow> value_head c"
  by (auto simp: value_head_def json_space_def is_digit_def)

lemma print_json_head: "json_ok v \<Longrightarrow> \<exists>c r. print_json v = c # r \<and> value_head c"
proof (cases v)
  case (JInt i)
  then show ?thesis using parse_number_head [OF parse_number_int [of i]] value_head_digit by auto
next
  case (JFloat t)
  moreover assume "json_ok v"
  ultimately consider "t \<in> {''NaN'', ''Infinity'', ''-Infinity''}" | "parse_number t = Some (JFloat t, [])"
    by auto
  then show ?thesis
  proof cases
    case 1
    with JFloat show ?thesis by (auto simp: value_head_def json_space_def)
  next
    case 2
    from parse_number_head [OF this] value_head_digit JFloat show ?thesis by auto
  qed
qed (auto simp: value_head_def json_space_def encode_text_def)

lemma skip_space_head: "\<not> json_space c \<Longrightarrow> skip_space (c # r) = c # r"
  by (simp add: skip_space_def)

lemma skip_space_blank: "skip_space (CHR '' '' # r) = skip_space r"
  by (simp add: skip_space_def json_space_def)

lemma skip_space_print: "json_ok v \<Longrightarrow> skip_space (print_json v @ r) = print_json v @ r"
  using print_json_head [of v] by (auto simp: skip_space_def value_head_def)

lemma parse_value_number:
  assumes "parse_number s = Some (v, [])" "ends rest" "0 < n"
  shows "parse_value n (s @ rest) = Some (v, rest)"
proof -
  obtain m where m: "n = Suc m" using assms(3) by (cases n) auto
  obtain c r where c: "s = c # r" "c = CHR ''-'' \<or> is_digit c"
    using parse_number_head [OF assms(1)] by blast
  then have "c \<noteq> CHR 0x22 \<and> c \<noteq> CHR ''{'' \<and> c \<noteq> CHR ''['' \<and> c \<noteq> CHR ''n'' \<and> c \<noteq> CHR ''t'' \<and> c \<noteq> CHR ''f''"
    by (auto simp: is_digit_def)
  with parse_number_append [OF assms(1,2)] m c show ?thesis by auto
qed

lemma parse_value_constant:
  assumes "t \<in> {''NaN'', ''Infinity'', ''-Infinity''}" "0 < n"
  shows "parse_value n (t @ rest) = Some (JFloat t, rest)"
proof -
  obtain m where n: "n = Suc m" using assms(2) by (cases n) auto
  have p: "parse_number (''NaN'' @ rest) = None" "parse_number (''Infinity'' @ rest) = None"
    "parse_number (''-Infinity'' @ rest) = None"
    by (simp_all add: parse_number_def scan_sign_def scan_integer_def is_digit_def)
  from assms(1) show ?thesis
    unfolding n by (elim insertE emptyE; hypsubst) (insert p, simp_all)
qed

lemma comma_list_Cons: "comma_list (p # ps) = (if ps = [] then p else p @ '', '' @ comma_list ps)"
  by (cases ps) auto

definition readable :: "jvalue \<Rightarrow> bool" where
  "readable v \<longleftrightarrow> (\<forall>n rest. length (print_json v) \<le> n \<longrightarrow> ends rest \<longrightarrow>
     parse_value n (print_json v @ rest) = Some (v, rest))"

lemma readableD:
  "readable v \<Longrightarrow> length (print_json v) \<le> n \<Longrightarrow> ends rest \<Longrightarrow>
     parse_value n (print_json v @ rest) = Some (v, rest)"
  by (simp add: readable_def)

lemma ends_simps [simp]: "ends (CHR '','' # r)" "ends (CHR '']'' # r)" "ends (CHR ''}'' # r)" "ends []"
  by (simp_all add: ends_def)

lemma parse_items_printed:
  assumes "xs \<noteq> []" "\<And>x. x \<in> set xs \<Longrightarrow> json_ok x \<and> readable x"
    "length (comma_list (map print_json xs)) < n"
  shows "parse_items n (comma_list (map print_json xs) @ CHR '']'' # rest) = Some (xs, rest)"
  using assms
proof (induction xs arbitrary: n)
  case (Cons x xs)
  obtain m where m: "n = Suc m" using Cons.prems(3) by (cases n) auto
  have x: "json_ok x" "readable x" using Cons.prems(2) by auto
  show ?case
  proof (cases "xs = []")
    case True
    have "parse_value m (print_json x @ CHR '']'' # rest) = Some (x, CHR '']'' # rest)"
      using Cons.prems(3) m True by (intro readableD x) auto
    with True m show ?thesis by (simp add: skip_space_head json_space_def)
  next
    case False
    let ?tail = "comma_list (map print_json xs) @ CHR '']'' # rest"
    have l: "length (print_json x) \<le> m" "length (comma_list (map print_json xs)) < m"
      using Cons.prems(3) m False by (auto simp: comma_list_Cons)
    have v: "parse_value m (print_json x @ CHR '','' # CHR '' '' # ?tail) =
        Some (x, CHR '','' # CHR '' '' # ?tail)"
      using l(1) by (intro readableD x) auto
    have i: "parse_items m ?tail = Some (xs, rest)"
      using Cons.IH False Cons.prems(2) l(2) by auto
    obtain y ys where y: "xs = y # ys" using False by (cases xs) auto
    then obtain c r where c: "print_json y = c # r" "value_head c"
      using print_json_head [of y] Cons.prems(2) by auto
    have "skip_space ?tail = ?tail"
      using y c by (auto simp: skip_space_def comma_list_Cons value_head_def)
    with v i m False show ?thesis
      by (simp add: comma_list_Cons skip_space_head json_space_def skip_space_blank)
  qed
qed simp

lemma parse_key_printed:
  "length (encode_text k) \<le> n \<Longrightarrow>
     parse_text n (concat (map escape_char k) @ CHR 0x22 # r) = Some (k, r)"
  using encoded_length [of k] by (intro parse_text_encoded) (simp add: encode_text_def)

abbreviation print_member :: "string \<times> jvalue \<Rightarrow> string" where
  "print_member \<equiv> \<lambda>(k, v). encode_text k @ '': '' @ print_json v"

lemma parse_members_Cons:
  assumes "json_ok v" "readable v" "length (print_json v) \<le> n" "ends rest"
  shows "parse_members (Suc n) (print_member (k, v) @ rest) =
    (case skip_space rest of
       [] \<Rightarrow> None
     | d # r4 \<Rightarrow>
         if d = CHR ''}'' then Some ([(k, v)], r4)
         else if d = CHR '','' then
           map_option (\<lambda>(ms, r5). ((k, v) # ms, r5)) (parse_members n (skip_space r4))
         else None)"
proof -
  let ?r1 = "CHR '':'' # CHR '' '' # print_json v @ rest"
  let ?body = "concat (map escape_char k) @ CHR 0x22 # ?r1"
  have s: "print_member (k, v) @ rest = CHR 0x22 # ?body"
    by (simp add: encode_text_def)
  have k: "parse_text (length (CHR 0x22 # ?body)) ?body = Some (k, ?r1)"
    by (rule parse_key_printed) (simp add: encode_text_def)
  have c: "skip_space ?r1 = ?r1" by (simp add: skip_space_head json_space_def)
  have v: "parse_value n (skip_space (CHR '' '' # print_json v @ rest)) = Some (v, rest)"
    using assms by (simp add: skip_space_blank skip_space_print readableD)
  show ?thesis by (subst s) (simp only: parse_members.simps list.case k option.case prod.case c v simp_thms if_True if_False)
qed

lemma parse_members_printed:
  assumes "ms \<noteq> []" "\<And>k v. (k, v) \<in> set ms \<Longrightarrow> json_ok v \<and> readable v"
    "length (comma_list (map print_member ms)) < n"
  shows "parse_members n (comma_list (map print_member ms) @ CHR ''}'' # rest) = Some (ms, rest)"
  using assms
proof (induction ms arbitrary: n)
  case (Cons p ms)
  obtain k v where p: "p = (k, v)" by (cases p) auto
  have v: "json_ok v" "readable v" using Cons.prems(2) [of k v] p by auto
  obtain m where m: "n = Suc m" using Cons.prems(3) by (cases n) auto
  show ?case
  proof (cases "ms = []")
    case True
    have "length (print_json v) \<le> m" using Cons.prems(3) m True p by auto
    from parse_members_Cons [OF v this, of "CHR ''}'' # rest" k] show ?thesis
      using True m p by (simp add: skip_space_head json_space_def)
  next
    case False
    let ?tail = "comma_list (map print_member ms) @ CHR ''}'' # rest"
    have l: "length (print_json v) \<le> m" "length (comma_list (map print_member ms)) < m"
      using Cons.prems(3) m False p by (auto simp: comma_list_Cons)
    have i: "parse_members m ?tail = Some (ms, rest)"
      using Cons.IH False Cons.prems(2) l(2) by auto
    obtain q qs where "ms = q # qs" using False by (cases ms) auto
    then have "skip_space ?tail = ?tail"
      by (cases q) (simp add: skip_space_def comma_list_Cons encode_text_def json_space_def)
    with parse_members_Cons [OF v l(1), of "CHR '','' # CHR '' '' # ?tail" k] i m False p
    show ?thesis
      by (simp add: comma_list_Cons skip_space_head json_space_def skip_space_blank)
  qed
qed simp

lemma members_dict_distinct: "distinct (map fst ms) \<Longrightarrow> members_dict ms = ms"
proof -
  have "fold (\<lambda>(k, v). od_set k v) ms acc = acc @ ms"
    if "distinct (map fst ms)" "fst ` set ms \<inter> fst ` set acc = {}" for acc :: "(string \<times> jvalue) list"
    using that
  proof (induction ms arbitrary: acc)
    case (Cons p ms)
    obtain k v where p: "p = (k, v)" by (cases p) auto
    have "od_get acc k = None" using Cons.prems(2) p by (simp add: map_of_eq_None_iff)
    then have "od_set k v acc = acc @ [(k, v)]" by (rule od_set_fresh)
    with Cons.IH [of "acc @ [(k, v)]"] Cons.prems p show ?case by auto
  qed simp
  then show "distinct (map fst ms) \<Longrightarrow> members_dict ms = ms" by (simp add: members_dict_def)
qed

lemma print_json_readable: "json_ok v \<Longrightarrow> readable v"
proof (induction v)
  case (JText s)
  have "length (print_json (JText s)) \<le> n \<Longrightarrow> parse_value n (print_json (JText s) @ rest) = Some (JText s, rest)"
    for n rest
  proof -
    assume "length (print_json (JText s)) \<le> n"
    then obtain m where m: "n = Suc m" by (cases n) (auto simp: encode_text_def)
    let ?s = "CHR 0x22 # concat (map escape_char s) @ CHR 0x22 # rest"
    have "parse_text (length ?s) (concat (map escape_char s) @ CHR 0x22 # rest) = Some (s, rest)"
      by (rule parse_key_printed) (simp add: encode_text_def)
    then show ?thesis by (simp add: m encode_text_def)
  qed
  then show ?case by (simp add: readable_def)
next
  case (JInt i)
  have "int_str i \<noteq> []" using parse_number_head [OF parse_number_int [of i]] by auto
  then have "length (int_str i) \<le> n \<Longrightarrow> 0 < n" for n by (cases "int_str i") auto
  then show ?case
    unfolding readable_def print_json.simps by (intro allI impI parse_value_number parse_number_int)
next
  case (JFloat t)
  then consider "t \<in> {''NaN'', ''Infinity'', ''-Infinity''}" | "parse_number t = Some (JFloat t, [])"
    by auto
  then show ?case
  proof cases
    case 1
    then have "t \<noteq> []" by auto
    with 1 show ?thesis unfolding readable_def print_json.simps
      by (intro allI impI parse_value_constant) auto
  next
    case 2
    then have "t \<noteq> []" using parse_number_head by fastforce
    then have "length t \<le> n \<Longrightarrow> 0 < n" for n by (cases t) auto
    with 2 show ?thesis
      unfolding readable_def print_json.simps by (intro allI impI parse_value_number)
  qed
next
  case (JList xs)
  show ?case unfolding readable_def
  proof (intro allI impI)
    fix n rest assume n: "length (print_json (JList xs)) \<le> n"
    then obtain m where m: "n = Suc m" by (cases n) auto
    show "parse_value n (print_json (JList xs) @ rest) = Some (JList xs, rest)"
    proof (cases "xs = []")
      case False
      have i: "parse_items m (comma_list (map print_json xs) @ CHR '']'' # rest) = Some (xs, rest)"
        using JList n m False by (intro parse_items_printed) (auto simp: list_all_iff)
      obtain y ys where y: "xs = y # ys" using False by (cases xs) auto
      then obtain c r where c: "print_json y = c # r" "value_head c"
        using print_json_head [of y] JList.prems by auto
      have "\<exists>r'. comma_list (map print_json xs) = c # r'" using y c by (simp add: comma_list_Cons)
      with i m c show ?thesis by (auto simp: skip_space_head value_head_def)
    qed (simp add: m skip_space_head json_space_def)
  qed
next
  case (JObject ms)
  show ?case unfolding readable_def
  proof (intro allI impI)
    fix n rest assume n: "length (print_json (JObject ms)) \<le> n"
    then obtain m where m: "n = Suc m" by (cases n) auto
    show "parse_value n (print_json (JObject ms) @ rest) = Some (JObject ms, rest)"
    proof (cases "ms = []")
      case False
      have "json_ok v \<and> readable v" if "(k, v) \<in> set ms" for k v
        using JObject that by (auto simp: list_all_iff)
      then have i: "parse_members m (comma_list (map print_member ms) @ CHR ''}'' # rest) = Some (ms, rest)"
        using n m False by (intro parse_members_printed) auto
      have "\<exists>r'. comma_list (map print_member ms) = CHR 0x22 # r'"
        using False by (cases ms) (auto simp: comma_list_Cons encode_text_def)
      with i m JObject.prems show ?thesis
        by (auto simp: skip_space_head json_space_def members_dict_distinct)
    qed (simp add: m skip_space_head json_space_def)
  qed
next
  case JNull
  have "parse_value n (''null'' @ rest) = Some (JNull, rest)" if "4 \<le> n" for n rest
    using that by (cases n) simp_all
  then show ?case by (simp add: readable_def)
next
  case (JBool b)
  have "parse_value n (print_json (JBool b) @ rest) = Some (JBool b, rest)"
    if "length (print_json (JBool b)) \<le> n" for n rest
    using that by (cases n; cases b) simp_all
  then show ?case by (simp add: readable_def)
qed

section \<open>Dumping and loading\<close>

lemma distinct_sorted_keys: "distinct (map f xs) \<Longrightarrow> distinct (map f (sort_key f xs))"
  by (simp add: distinct_map)

lemma json_ok_sorted: "json_ok v \<Longrightarrow> json_ok (sort_members v)"
proof (induction v)
  case (JObject ms)
  let ?ms = "map (\<lambda>(k, v). (k, sort_members v)) ms"
  have "distinct (map fst (sort_key fst ?ms))"
    using JObject.prems by (intro distinct_sorted_keys) (simp add: o_def case_prod_beta)
  moreover have "json_ok (sort_members v)" if "(k, v) \<in> set ms" for k v
    using JObject.IH [of "(k, v)" v] JObject.prems that by (auto simp: list_all_iff)
  ultimately show ?case by (auto simp: list_all_iff)
qed (auto simp: list_all_iff)

theorem dumps_loads: "json_ok v \<Longrightarrow> json_loads (json_dumps v) = Some (sort_members v)"
proof -
  assume v: "json_ok v"
  then have s: "json_ok (sort_members v)" by (rule json_ok_sorted)
  have "parse_value (Suc (length (json_dumps v))) (json_dumps v @ []) = Some (sort_members v, [])"
    unfolding json_dumps_def by (rule readableD [OF print_json_readable [OF s]]) simp_all
  moreover have "skip_space (json_dumps v) = json_dumps v"
    using skip_space_print [OF s, of "[]"] by (simp add: json_dumps_def)
  ultimately show ?thesis by (simp add: json_loads_def skip_space_def)
qed

end
