(* ===== verification/DepMatch.thy ===== *)
theory DepMatch
  imports Json
begin

text \<open>
  Dependency values and lookups (\<open>src/general_manager/cache/dependency_matching.py\<close>): the
  normal form of a dependency payload and its canonical text, with the fast paths that bypass
  the JSON encoder; the split of a lookup into attribute path and operator; and the test whether
  a runtime value matches a stored value.

  A \<open>dep_value\<close> is a Python payload as the normalisation sees it: a mapping carries the
  \<open>str(key)\<close> of its keys, a set the \<open>str\<close> of its members, dates their ISO text, an object with a
  mapping \<open>__getstate__\<close> that mapping, any other object its \<open>repr\<close>. A runtime value is of any
  type \<open>'v\<close>: the record \<open>runtime\<close> holds what its class does (comparison, text, construction,
  attribute access, date parsing, regular expressions), assumed not to raise anything but the
  \<open>TypeError\<close> or \<open>ValueError\<close> that the code catches.
\<close>

section \<open>Mapping over the values of items\<close>

definition on_values :: "('a \<Rightarrow> 'b) \<Rightarrow> (string \<times> 'a) list \<Rightarrow> (string \<times> 'b) list" where
  "on_values f items = map (\<lambda>(k, v). (k, f v)) items"

lemma on_values_simps [simp]:
  "on_values f [] = []" "on_values f ((k, v) # items) = (k, f v) # on_values f items"
  by (simp_all add: on_values_def)

lemma on_values_cong [fundef_cong]:
  "xs = ys \<Longrightarrow> (\<And>k v. (k, v) \<in> set ys \<Longrightarrow> f v = g v) \<Longrightarrow> on_values f xs = on_values g ys"
  by (auto simp: on_values_def)

lemma on_values_fst [simp]: "map fst (on_values f xs) = map fst xs"
  by (induction xs) auto

lemma on_values_on_values [simp]: "on_values f (on_values g xs) = on_values (\<lambda>v. f (g v)) xs"
  by (induction xs) auto

lemma on_values_Nil_iff [simp]: "on_values f xs = [] \<longleftrightarrow> xs = []"
  by (simp add: on_values_def)

lemma on_values_set: "(k, v) \<in> set (on_values f xs) \<longleftrightarrow> (\<exists>u. (k, u) \<in> set xs \<and> v = f u)"
  by (induction xs) auto

lemma on_values_length [simp]: "length (on_values f xs) = length xs"
  by (simp add: on_values_def)

section \<open>Normal form and canonical text\<close>

datatype dep_value =
  DNone | DBool bool | DInt int | DFloat string | DStr string
  | DDate string | DDatetime string
  | DMap "(string \<times> dep_value) list"
  | DSeq "dep_value list"
  | DSet "(string \<times> dep_value) list"
  | DState "(string \<times> dep_value) list"
  | DRepr string

text \<open>\<open>None\<close> is \<open>_SCALAR_NORMALIZATION_MISS\<close>, and below \<open>_SCALAR_SERIALIZATION_MISS\<close> and
  \<open>_MAPPING_SERIALIZATION_MISS\<close>.\<close>

fun normalize_scalar :: "dep_value \<Rightarrow> jvalue option" where
  "normalize_scalar (DDatetime t) = Some (JText t)"
| "normalize_scalar (DDate t) = Some (JText t)"
| "normalize_scalar (DStr s) = Some (JText s)"
| "normalize_scalar (DInt i) = Some (JInt i)"
| "normalize_scalar (DFloat t) = Some (JFloat t)"
| "normalize_scalar (DBool b) = Some (JBool b)"
| "normalize_scalar DNone = Some JNull"
| "normalize_scalar _ = None"

text \<open>\<open>{str(key): \<dots> for key, val in sorted(items, key=str)}\<close>\<close>

definition dict_by_text :: "(string \<times> jvalue) list \<Rightarrow> (string \<times> jvalue) list" where
  "dict_by_text items = members_dict (sort_key fst items)"

definition mapping_json :: "(string \<times> dep_value) list \<Rightarrow> (string \<times> jvalue) list \<Rightarrow> jvalue" where
  "mapping_json items normalized =
     (case items of
        [(k, v)] \<Rightarrow> (case normalize_scalar v of Some j \<Rightarrow> JObject [(k, j)] | None \<Rightarrow> JObject (dict_by_text normalized))
      | _ \<Rightarrow> JObject (dict_by_text normalized))"

fun normalize :: "dep_value \<Rightarrow> jvalue" where
  "normalize (DMap items) = mapping_json items (on_values normalize items)"
| "normalize (DSeq xs) = JList (map normalize xs)"
| "normalize (DSet xs) = JList (map snd (sort_key fst (on_values normalize xs)))"
| "normalize (DDatetime t) = JText t"
| "normalize (DDate t) = JText t"
| "normalize (DStr s) = JText s"
| "normalize (DInt i) = JInt i"
| "normalize (DFloat t) = JFloat t"
| "normalize (DBool b) = JBool b"
| "normalize DNone = JNull"
| "normalize (DState items) = JObject [(''__state__'', mapping_json items (on_values normalize items))]"
| "normalize (DRepr t) = JObject [(''__repr__'', JText t)]"

fun scalar_text :: "dep_value \<Rightarrow> string option" where
  "scalar_text (DStr s) = Some (encode_text s)"
| "scalar_text DNone = Some ''null''"
| "scalar_text (DBool b) = Some (if b then ''true'' else ''false'')"
| "scalar_text (DInt i) = Some (int_str i)"
| "scalar_text (DDate t) = Some (encode_text t)"
| "scalar_text (DDatetime t) = Some (encode_text t)"
| "scalar_text _ = None"

definition member_text :: "string \<Rightarrow> string \<Rightarrow> string" where
  "member_text k t = encode_text k @ '': '' @ t"

text \<open>The loop over the sorted items, stopping at a repeated key or a value it cannot encode.\<close>

fun member_parts :: "string set \<Rightarrow> (string \<times> string option) list \<Rightarrow> string list option" where
  "member_parts seen [] = Some []"
| "member_parts seen ((k, t) # items) =
     (if k \<in> seen then None
      else (case t of
          None \<Rightarrow> None
        | Some t' \<Rightarrow> map_option (Cons (member_text k t')) (member_parts (insert k seen) items)))"

definition sorted_text :: "(string \<times> string option) list \<Rightarrow> string option" where
  "sorted_text items =
     map_option (\<lambda>parts. ''{'' @ comma_list parts @ ''}'') (member_parts {} (sort_key fst items))"

text \<open>\<open>_serialize_simple_dependency_mapping\<close> on the items with the texts of their values.\<close>

definition mapping_text :: "(string \<times> string option) list \<Rightarrow> string option" where
  "mapping_text items =
     (case items of
        [] \<Rightarrow> Some ''{}''
      | [(k, t)] \<Rightarrow> map_option (\<lambda>t'. ''{'' @ member_text k t' @ ''}'') t
      | [(k1, t1), (k2, t2)] \<Rightarrow>
          if k1 = k2 then None
          else if k1 < k2 then
            (case (t1, t2) of
               (Some a, Some b) \<Rightarrow> Some (''{'' @ member_text k1 a @ '', '' @ member_text k2 b @ ''}'')
             | _ \<Rightarrow> None)
          else sorted_text items
      | _ \<Rightarrow> sorted_text items)"

fun simple_text :: "dep_value \<Rightarrow> string option" where
  "simple_text (DMap items) = mapping_text (on_values simple_text items)"
| "simple_text (DFloat t) = Some t"
| "simple_text v = scalar_text v"

definition serialize_normalized_value :: "dep_value \<Rightarrow> string" where
  "serialize_normalized_value v =
     (case scalar_text v of
        Some t \<Rightarrow> t
      | None \<Rightarrow>
          (case v of
             DFloat t \<Rightarrow> t
           | DMap items \<Rightarrow>
               (case mapping_text (on_values simple_text items) of
                  Some t \<Rightarrow> t
                | None \<Rightarrow> json_dumps (normalize v))
           | _ \<Rightarrow> json_dumps (normalize v)))"

section \<open>The fast paths agree with the encoder\<close>

lemma insort_on_values:
  "insort_key fst (k, f v) (on_values f ys) = on_values f (insort_key fst (k, v) ys)"
  by (induction ys) auto

lemma sort_key_on_values: "sort_key fst (on_values f xs) = on_values f (sort_key fst xs)"
  by (induction xs) (auto simp: insort_on_values)

lemma sort_key_sort_key: "sort_key f (sort_key f xs) = sort_key f xs"
  by (rule sort_key_id_if_sorted) simp

definition members_text :: "(string \<times> string) list \<Rightarrow> string" where
  "members_text items = ''{'' @ comma_list (map (\<lambda>(k, t). member_text k t) (sort_key fst items)) @ ''}''"

lemma print_members:
  "print_json (JObject ms) = ''{'' @ comma_list (map (\<lambda>(k, t). member_text k t) (on_values print_json ms)) @ ''}''"
proof -
  have "map (\<lambda>(k, t). member_text k t) (on_values print_json ms) =
      map (\<lambda>(k, v). encode_text k @ '': '' @ print_json v) ms"
    by (induction ms) (auto simp: member_text_def)
  then show ?thesis by (simp only: print_json.simps)
qed

lemma dumps_dict:
  assumes "distinct (map fst items)"
  shows "json_dumps (JObject (dict_by_text items)) = members_text (on_values json_dumps items)"
proof -
  have "dict_by_text items = sort_key fst items"
    unfolding dict_by_text_def using assms by (intro members_dict_distinct distinct_sorted_keys)
  then have "sort_members (JObject (dict_by_text items)) = JObject (sort_key fst (on_values sort_members items))"
    by (simp flip: on_values_def add: sort_key_on_values sort_key_sort_key)
  moreover have "on_values print_json (on_values sort_members items) = on_values json_dumps items"
    unfolding json_dumps_def [abs_def] by simp
  ultimately show ?thesis
    unfolding json_dumps_def [of "JObject (dict_by_text items)"] members_text_def
    by (metis print_members sort_key_on_values)
qed

lemma member_parts_some:
  "member_parts seen items = Some parts \<Longrightarrow>
     \<exists>texts. items = on_values Some texts \<and> parts = map (\<lambda>(k, t). member_text k t) texts
       \<and> distinct (map fst items) \<and> fst ` set items \<inter> seen = {}"
proof (induction seen items arbitrary: parts rule: member_parts.induct)
  case (2 seen k t items)
  from "2.prems" obtain t' rest where t: "k \<notin> seen" "t = Some t'"
    "member_parts (insert k seen) items = Some rest" "parts = member_text k t' # rest"
    by (auto split: if_splits option.splits)
  from "2.IH" [OF t(1) t(2) t(3)] obtain texts where
    i: "items = on_values Some texts" "rest = map (\<lambda>(k, t). member_text k t) texts"
      "distinct (map fst items)" "fst ` set items \<inter> insert k seen = {}" by blast
  have "(k, t) # items = on_values Some ((k, t') # texts)"
    "parts = map (\<lambda>(k, t). member_text k t) ((k, t') # texts)" using t i by simp_all
  moreover have "k \<notin> set (map fst items)" using i(4) by (simp only: set_map) blast
  then have "distinct (map fst ((k, t) # items))" using i(3) by (simp only: list.map fst_conv distinct.simps simp_thms)
  moreover have "fst ` set ((k, t) # items) \<inter> seen = {}" using t(1) i(4) by (simp only: list.set image_insert fst_conv) blast
  ultimately show ?case by blast
qed simp

lemma distinct_sorted_keys_iff: "distinct (map fst (sort_key fst xs)) = distinct (map fst xs)"
  by (simp add: distinct_map)

lemma sorted_text_some:
  assumes "sorted_text items = Some t"
  shows "\<exists>texts. items = on_values Some texts \<and> distinct (map fst items) \<and> t = members_text texts"
proof -
  from assms obtain parts where p: "member_parts {} (sort_key fst items) = Some parts"
    "t = ''{'' @ comma_list parts @ ''}''"
    by (auto simp: sorted_text_def)
  from member_parts_some [OF p(1)] obtain texts where
    s: "sort_key fst items = on_values Some texts" "parts = map (\<lambda>(k, t). member_text k t) texts"
      "distinct (map fst (sort_key fst items))" by blast
  from s(3) have d: "distinct (map fst items)" by (simp only: distinct_sorted_keys_iff)
  have "set items = set (on_values Some texts)" using s(1) by (metis set_sort)
  then have "v \<noteq> None" if "(k, v) \<in> set items" for k v
    using that by (auto simp: on_values_set)
  then have i: "items = on_values Some (on_values the items)"
  proof (induction items)
    case (Cons x xs)
    obtain k v where x: "x = (k, v)" by (cases x) auto
    have "v \<noteq> None" using Cons.prems [of k v] x by simp
    moreover have "xs = on_values Some (on_values the xs)" by (rule Cons.IH) (use Cons.prems in auto)
    ultimately show ?case using x by auto
  qed simp
  have "sort_key fst (on_values the items) = on_values the (on_values Some texts)"
    by (simp only: sort_key_on_values s(1))
  moreover have "on_values the (on_values Some texts) = texts" by (induction texts) auto
  ultimately have "t = members_text (on_values the items)"
    by (simp only: members_text_def p(2) s(2))
  with i d show ?thesis by blast
qed

lemma mapping_text_some:
  assumes "mapping_text items = Some t"
  shows "\<exists>texts. items = on_values Some texts \<and> distinct (map fst items) \<and> t = members_text texts"
proof -
  consider "items = []" | k u where "items = [(k, Some u)]" "t = ''{'' @ member_text k u @ ''}''"
    | k1 k2 a b where "items = [(k1, Some a), (k2, Some b)]" "k1 < k2"
        "t = ''{'' @ member_text k1 a @ '', '' @ member_text k2 b @ ''}''"
    | "sorted_text items = Some t"
    using assms unfolding mapping_text_def
    by (auto split: list.splits prod.splits option.splits if_splits)
  then show ?thesis
  proof cases
    case 1
    with assms have "items = on_values Some []" "t = members_text []"
      by (simp_all add: mapping_text_def members_text_def)
    moreover have "distinct (map fst items)" using 1 by simp
    ultimately show ?thesis by blast
  next
    case 2
    then have "items = on_values Some [(k, u)]" "t = members_text [(k, u)]"
      by (simp_all add: members_text_def)
    moreover have "distinct (map fst items)" using 2 by simp
    ultimately show ?thesis by blast
  next
    case 3
    then have "k1 \<le> k2" by simp
    with 3 have "items = on_values Some [(k1, a), (k2, b)]" "t = members_text [(k1, a), (k2, b)]"
      by (simp_all add: members_text_def)
    moreover have "distinct (map fst items)" using 3 by auto
    ultimately show ?thesis by blast
  qed (rule sorted_text_some)
qed

lemma normalize_map:
  "distinct (map fst items) \<Longrightarrow>
     normalize (DMap items) = JObject (dict_by_text (on_values normalize items))"
proof -
  have s: "normalize_scalar v = Some j \<Longrightarrow> normalize v = j" for v j
    by (cases v) auto
  have "dict_by_text [(k, j)] = [(k, j)]" for k j
    by (simp add: dict_by_text_def members_dict_def)
  then show ?thesis
    by (auto simp: mapping_json_def split: list.splits option.splits dest!: s)
qed

lemma scalar_text_dumps: "scalar_text v = Some t \<Longrightarrow> json_dumps (normalize v) = t"
  by (cases v) (auto simp: json_dumps_def)

lemma on_values_Some_eq:
  "on_values Some xs = on_values f ys \<Longrightarrow> (\<And>k v t. (k, v) \<in> set ys \<Longrightarrow> f v = Some t \<Longrightarrow> g v = t) \<Longrightarrow>
     xs = on_values g ys"
proof (induction ys arbitrary: xs)
  case (Cons y ys)
  obtain k v where y: "y = (k, v)" by (cases y) auto
  with Cons.prems(1) obtain t zs where x: "xs = (k, t) # zs" "f v = Some t" "on_values Some zs = on_values f ys"
    by (cases xs) auto
  have "zs = on_values g ys" using Cons.IH [OF x(3)] Cons.prems(2) by auto
  moreover have "g v = t" using Cons.prems(2) [of k v t] x(2) y by simp
  ultimately show ?case using x(1) y by simp
qed simp

lemma simple_text_dumps: "simple_text v = Some t \<Longrightarrow> json_dumps (normalize v) = t"
proof (induction v arbitrary: t)
  case (DMap items)
  from DMap.prems have "mapping_text (on_values simple_text items) = Some t" by simp
  from mapping_text_some [OF this] obtain texts where
    m: "on_values Some texts = on_values simple_text items"
      "distinct (map fst items)" "t = members_text texts"
    by (metis on_values_fst)
  have "texts = on_values (\<lambda>v. json_dumps (normalize v)) items"
    by (rule on_values_Some_eq [OF m(1)]) (use DMap.IH in auto)
  with m(3) dumps_dict [of "on_values normalize items"] m(2) show ?case
    by (simp only: normalize_map on_values_fst on_values_on_values)
qed (auto simp: json_dumps_def)

text \<open>C9: every fast path of the canonical serialisation writes exactly the text that full
  normalisation followed by \<open>json.dumps(\<dots>, sort_keys=True)\<close> writes, repeated keys included.\<close>

theorem serialize_canonical: "serialize_normalized_value v = json_dumps (normalize v)"
proof (cases v)
  case (DMap items)
  then show ?thesis
    using simple_text_dumps [of v] by (simp add: serialize_normalized_value_def split: option.splits)
qed (simp_all add: serialize_normalized_value_def json_dumps_def)

section \<open>The canonical text reads back\<close>

text \<open>Every float is spelled as \<open>json.dumps\<close> spells it.\<close>

fun floats_ok :: "dep_value \<Rightarrow> bool" where
  "floats_ok (DFloat t) = json_ok (JFloat t)"
| "floats_ok (DMap items) = list_all (\<lambda>(k, v). floats_ok v) items"
| "floats_ok (DSeq xs) = list_all floats_ok xs"
| "floats_ok (DSet xs) = list_all (\<lambda>(k, v). floats_ok v) xs"
| "floats_ok (DState items) = list_all (\<lambda>(k, v). floats_ok v) items"
| "floats_ok v = True"

lemma members_dict_ok:
  "list_all (\<lambda>(k, v). json_ok v) ms \<Longrightarrow> json_ok (JObject (members_dict ms))"
proof -
  have "distinct (map fst (fold (\<lambda>(k, v). od_set k v) ms acc))
      \<and> list_all (\<lambda>(k, v). json_ok v) (fold (\<lambda>(k, v). od_set k v) ms acc)"
    if "list_all (\<lambda>(k, v). json_ok v) ms" "distinct (map fst acc)" "list_all (\<lambda>(k, v). json_ok v) acc"
    for acc :: "(string \<times> jvalue) list"
    using that
  proof (induction ms arbitrary: acc)
    case (Cons m ms)
    obtain k v where m: "m = (k, v)" by (cases m) auto
    have "list_all (\<lambda>(k, v). json_ok v) (od_set k v xs)" if "json_ok v" "list_all (\<lambda>(k, v). json_ok v) xs"
      for xs
      using that by (induction xs) auto
    with Cons.IH [of "od_set k v acc"] Cons.prems m show ?case by (simp add: od_wf_set)
  qed simp
  from this [of "[]"] show "list_all (\<lambda>(k, v). json_ok v) ms \<Longrightarrow> json_ok (JObject (members_dict ms))"
    by (simp add: members_dict_def)
qed

lemma mapping_json_ok:
  assumes "\<And>k v. (k, v) \<in> set items \<Longrightarrow> json_ok (normalize v)"
  shows "json_ok (mapping_json items (on_values normalize items))"
proof -
  have "list_all (\<lambda>(k, v). json_ok v) (sort_key fst (on_values normalize items))"
    using assms by (auto simp: list_all_iff on_values_set)
  then have g: "json_ok (JObject (dict_by_text (on_values normalize items)))"
    unfolding dict_by_text_def by (rule members_dict_ok)
  have "normalize_scalar v = Some j \<Longrightarrow> j = normalize v" for v j by (cases v) auto
  with g assms show ?thesis
    by (auto simp: mapping_json_def split: list.splits option.splits)
qed

lemma normalize_ok: "floats_ok v \<Longrightarrow> json_ok (normalize v)"
proof (induction v)
  case (DMap items)
  then show ?case by (auto simp: list_all_iff intro!: mapping_json_ok)
next
  case (DSeq xs)
  then show ?case by (auto simp: list_all_iff)
next
  case (DSet xs)
  have "json_ok j" if "(k, j) \<in> set (on_values normalize xs)" for k j
    using DSet that by (auto simp: list_all_iff on_values_set)
  then show ?case by (auto simp: list_all_iff)
next
  case (DState items)
  then show ?case by (auto simp: list_all_iff intro!: mapping_json_ok)
qed auto

text \<open>C27: the canonical text of a dependency payload parses back to its normal form (with the
  members of every object in key order), so equal texts mean equal normal forms.\<close>

theorem serialized_reads_back:
  "floats_ok v \<Longrightarrow> json_loads (serialize_normalized_value v) = Some (sort_members (normalize v))"
  unfolding serialize_canonical by (intro dumps_loads normalize_ok)

theorem serialized_reads_back_witness:
  "json_loads (serialize_normalized_value
     (DMap [(''b'', DFloat ''1.5''), (''a'', DSeq [DInt (- 3), DStr ''x'', DNone])]))
   = Some (JObject [(''a'', JList [JInt (- 3), JText ''x'', JNull]), (''b'', JFloat ''1.5'')])"
proof -
  let ?v = "DMap [(''b'', DFloat ''1.5''), (''a'', DSeq [DInt (- 3), DStr ''x'', DNone])]"
  have "floats_ok ?v" by code_simp
  moreover have "sort_members (normalize ?v) =
      JObject [(''a'', JList [JInt (- 3), JText ''x'', JNull]), (''b'', JFloat ''1.5'')]" by code_simp
  ultimately show ?thesis using serialized_reads_back [of ?v] by simp
qed

section \<open>Lookups\<close>

text \<open>\<open>str.split("__")\<close> and \<open>"__".join\<close>\<close>

fun split_lookup :: "string \<Rightarrow> string list" where
  "split_lookup [] = [[]]"
| "split_lookup [c] = [[c]]"
| "split_lookup (c # d # r) =
     (if c = CHR ''_'' \<and> d = CHR ''_'' then [] # split_lookup r
      else (case split_lookup (d # r) of [] \<Rightarrow> [] | p # ps \<Rightarrow> (c # p) # ps))"

fun join_lookup :: "string list \<Rightarrow> string" where
  "join_lookup [] = []"
| "join_lookup [p] = p"
| "join_lookup (p # q # ps) = p @ ''__'' @ join_lookup (q # ps)"

definition scan_operators :: "string list" where
  "scan_operators = [''in'', ''gt'', ''gte'', ''lt'', ''lte'', ''contains'', ''startswith'', ''endswith'', ''regex'']"

record lookup_spec =
  lookup :: string
  attr_path :: "string list"
  operator :: string

definition lookup_spec_from_key :: "string \<Rightarrow> lookup_spec" where
  "lookup_spec_from_key l =
     (let parts = split_lookup l; tail = last parts in
      if tail \<in> set scan_operators
      then \<lparr>lookup = l, attr_path = butlast parts, operator = tail\<rparr>
      else \<lparr>lookup = l, attr_path = parts, operator = ''eq''\<rparr>)"

lemma split_lookup_nonempty [simp]: "split_lookup l \<noteq> []"
  by (induction l rule: split_lookup.induct) (auto split: list.splits)

lemma join_lookup_Cons: "ps \<noteq> [] \<Longrightarrow> join_lookup (p # ps) = p @ ''__'' @ join_lookup ps"
  by (cases ps) auto

lemma join_lookup_head: "join_lookup ((c # p) # ps) = c # join_lookup (p # ps)"
  by (cases ps) auto

lemma join_split_lookup: "join_lookup (split_lookup l) = l"
proof (induction l rule: split_lookup.induct)
  case (3 c d r)
  show ?case
  proof (cases "c = CHR ''_'' \<and> d = CHR ''_''")
    case True
    with 3 show ?thesis by (simp add: join_lookup_Cons)
  next
    case False
    obtain p ps where s: "split_lookup (d # r) = p # ps" by (cases "split_lookup (d # r)") auto
    have "split_lookup (c # d # r) = (c # p) # ps" using False s by simp
    with "3.IH" (2) [OF False] s show ?thesis by (simp only: join_lookup_head)
  qed
qed simp_all

lemma join_snoc: "ps \<noteq> [] \<Longrightarrow> join_lookup (ps @ [t]) = join_lookup ps @ ''__'' @ t"
proof (induction ps)
  case (Cons p ps)
  then show ?case by (cases "ps = []") (simp_all add: join_lookup_Cons)
qed simp

lemma spec_rejoins:
  assumes "lookup_spec_from_key l = sp" "attr_path sp \<noteq> []"
  shows "l = (if operator sp = ''eq'' then join_lookup (attr_path sp)
              else join_lookup (attr_path sp) @ ''__'' @ operator sp)"
    "operator sp = ''eq'' \<or> operator sp \<in> set scan_operators"
proof -
  let ?ps = "split_lookup l"
  have l: "l = join_lookup ?ps" by (simp add: join_split_lookup)
  have "butlast ?ps @ [last ?ps] = ?ps" by simp
  then have "butlast ?ps \<noteq> [] \<Longrightarrow> l = join_lookup (butlast ?ps) @ ''__'' @ last ?ps"
    using join_snoc [of "butlast ?ps" "last ?ps"] l by simp
  moreover have "''eq'' \<notin> set scan_operators" by (simp add: scan_operators_def)
  ultimately show "l = (if operator sp = ''eq'' then join_lookup (attr_path sp)
              else join_lookup (attr_path sp) @ ''__'' @ operator sp)"
    "operator sp = ''eq'' \<or> operator sp \<in> set scan_operators"
    using assms l by (auto simp: lookup_spec_from_key_def Let_def split: if_splits)
qed

section \<open>Matching a runtime value\<close>

datatype value_kind = KNone | KDatetime bool | KDate | KBool | KOther

record 'v runtime =
  kind :: "'v \<Rightarrow> value_kind"
  repr :: "'v \<Rightarrow> string"
  str :: "'v \<Rightarrow> string"
  equals :: "'v \<Rightarrow> 'v \<Rightarrow> bool"
  greater :: "'v \<Rightarrow> 'v \<Rightarrow> bool"
  greater_eq :: "'v \<Rightarrow> 'v \<Rightarrow> bool"
  less_than :: "'v \<Rightarrow> 'v \<Rightarrow> bool"
  less_than_eq :: "'v \<Rightarrow> 'v \<Rightarrow> bool"
  datetime_fromisoformat :: "string \<Rightarrow> 'v option"
  with_tzinfo_of :: "'v \<Rightarrow> 'v \<Rightarrow> 'v"
  without_tzinfo :: "'v \<Rightarrow> 'v"
  date_fromisoformat :: "string \<Rightarrow> 'v option"
  of_bool :: "bool \<Rightarrow> 'v"
  construct :: "'v \<Rightarrow> jvalue \<Rightarrow> 'v option"
  as_instance :: "'v \<Rightarrow> jvalue \<Rightarrow> 'v option"
  construct_state :: "'v \<Rightarrow> (string \<times> jvalue) list \<Rightarrow> 'v option"
  construct_pair :: "'v \<Rightarrow> jvalue \<Rightarrow> jvalue \<Rightarrow> 'v option"
  json_repr :: "jvalue \<Rightarrow> string"
  json_str :: "jvalue \<Rightarrow> string"
  regex_search :: "string \<Rightarrow> string \<Rightarrow> bool option"
  attribute :: "'v \<Rightarrow> string \<Rightarrow> 'v option"
  none_value :: 'v

definition parse_dependency_identifier :: "string \<Rightarrow> jvalue option" where
  "parse_dependency_identifier identifier = json_loads identifier"

text \<open>A missing attribute gives \<open>None\<close>.\<close>

fun current_value_for_path :: "'v runtime \<Rightarrow> 'v \<Rightarrow> string list \<Rightarrow> 'v" where
  "current_value_for_path rt inst [] = inst"
| "current_value_for_path rt inst (a # path) =
     (case attribute rt inst a of
        None \<Rightarrow> none_value rt
      | Some v \<Rightarrow> current_value_for_path rt v path)"

definition json_loads_val_key :: "string \<Rightarrow> jvalue" where
  "json_loads_val_key stored = (case json_loads stored of Some j \<Rightarrow> j | None \<Rightarrow> JText stored)"

definition repr_marker :: "jvalue \<Rightarrow> string option" where
  "repr_marker raw =
     (case raw of
        JObject [(k, JText m)] \<Rightarrow> if k = ''__repr__'' then Some m else None
      | _ \<Rightarrow> None)"

fun replace_z :: "string \<Rightarrow> string" where
  "replace_z [] = []"
| "replace_z (c # s) = (if c = CHR ''Z'' then ''+00:00'' @ replace_z s else c # replace_z s)"

fun replace_first_space :: "string \<Rightarrow> string" where
  "replace_first_space [] = []"
| "replace_first_space (c # s) = (if c = CHR '' '' then CHR ''T'' # s else c # replace_first_space s)"

definition parsed_datetime :: "'v runtime \<Rightarrow> bool \<Rightarrow> 'v \<Rightarrow> 'v \<Rightarrow> 'v" where
  "parsed_datetime rt aware sample parsed =
     (let parsed_aware = (kind rt parsed = KDatetime True) in
      if aware \<and> \<not> parsed_aware then with_tzinfo_of rt sample parsed
      else if \<not> aware \<and> parsed_aware then without_tzinfo rt parsed
      else parsed)"

definition truth_text :: "string \<Rightarrow> bool option" where
  "truth_text s =
     (let n = py_lower (py_strip s) in
      if n \<in> {''true'', ''1'', ''yes'', ''y'', ''t''} then Some True
      else if n \<in> {''false'', ''0'', ''no'', ''n'', ''f''} then Some False
      else None)"

definition coerce_state :: "'v runtime \<Rightarrow> 'v \<Rightarrow> (string \<times> jvalue) list \<Rightarrow> 'v option" where
  "coerce_state rt sample state =
     (case construct_state rt sample state of
        Some v \<Rightarrow> Some v
      | None \<Rightarrow>
          (case (od_get state ''magnitude'', od_get state ''unit'') of
             (Some m, Some u) \<Rightarrow> construct_pair rt sample m u
           | _ \<Rightarrow> None))"

text \<open>\<open>_coerce_to_type\<close>: the stored value is always parsed JSON, never a date or of the class of
  the sample, unless \<open>as_instance\<close> says so.\<close>

definition coerce_to_type :: "'v runtime \<Rightarrow> 'v \<Rightarrow> jvalue \<Rightarrow> 'v option" where
  "coerce_to_type rt sample raw =
     (case kind rt sample of
        KNone \<Rightarrow> None
      | KDatetime aware \<Rightarrow>
          (case raw of
             JText s \<Rightarrow>
               map_option (parsed_datetime rt aware sample)
                 (datetime_fromisoformat rt (replace_first_space (replace_z s)))
           | _ \<Rightarrow> None)
      | KDate \<Rightarrow> (case raw of JText s \<Rightarrow> date_fromisoformat rt s | _ \<Rightarrow> None)
      | KBool \<Rightarrow>
          (case raw of
             JBool b \<Rightarrow> Some (of_bool rt b)
           | JInt i \<Rightarrow> Some (of_bool rt (i \<noteq> 0))
           | JText s \<Rightarrow> map_option (of_bool rt) (truth_text s)
           | _ \<Rightarrow> None)
      | KOther \<Rightarrow>
          (case raw of
             JObject [(k, state)] \<Rightarrow>
               if k = ''__state__''
               then (case state of JObject ms \<Rightarrow> coerce_state rt sample ms | _ \<Rightarrow> None)
               else (case construct rt sample raw of Some v \<Rightarrow> Some v | None \<Rightarrow> as_instance rt sample raw)
           | _ \<Rightarrow>
               (case construct rt sample raw of Some v \<Rightarrow> Some v | None \<Rightarrow> as_instance rt sample raw)))"

definition is_none :: "'v runtime \<Rightarrow> 'v \<Rightarrow> bool" where
  "is_none rt v = (kind rt v = KNone)"

definition eq_match :: "'v runtime \<Rightarrow> 'v \<Rightarrow> string \<Rightarrow> bool" where
  "eq_match rt v stored =
     (let literal = json_loads_val_key stored in
      if literal = JNull then is_none rt v
      else case repr_marker literal of
        Some m \<Rightarrow> repr rt v = m
      | None \<Rightarrow>
          (case coerce_to_type rt v literal of
             None \<Rightarrow> repr rt v = stored
           | Some c \<Rightarrow> equals rt v c))"

definition item_match :: "'v runtime \<Rightarrow> 'v \<Rightarrow> jvalue \<Rightarrow> bool" where
  "item_match rt v item =
     (if item = JNull \<and> is_none rt v then True
      else if repr_marker item = Some (repr rt v) then True
      else case coerce_to_type rt v item of
        Some c \<Rightarrow> equals rt v c
      | None \<Rightarrow> repr rt v = json_repr rt item)"

fun any_item :: "'v runtime \<Rightarrow> 'v \<Rightarrow> jvalue list \<Rightarrow> bool" where
  "any_item rt v [] = False"
| "any_item rt v (item # items) = (if item_match rt v item then True else any_item rt v items)"

definition in_match :: "'v runtime \<Rightarrow> 'v \<Rightarrow> string \<Rightarrow> bool" where
  "in_match rt v stored =
     (case json_loads stored of Some (JList items) \<Rightarrow> any_item rt v items | _ \<Rightarrow> False)"

definition range_match :: "'v runtime \<Rightarrow> string \<Rightarrow> 'v \<Rightarrow> string \<Rightarrow> bool" where
  "range_match rt op v stored =
     (if is_none rt v then False
      else case coerce_to_type rt v (json_loads_val_key stored) of
        None \<Rightarrow> False
      | Some threshold \<Rightarrow>
          if op = ''gt'' then greater rt v threshold
          else if op = ''gte'' then greater_eq rt v threshold
          else if op = ''lt'' then less_than rt v threshold
          else less_than_eq rt v threshold)"

fun contains_text :: "string \<Rightarrow> string \<Rightarrow> bool" where
  "contains_text p [] = (p = [])"
| "contains_text p (c # s) = (take (length p) (c # s) = p \<or> contains_text p s)"

definition ends_with :: "string \<Rightarrow> string \<Rightarrow> bool" where
  "ends_with p s = (length p \<le> length s \<and> drop (length s - length p) s = p)"

definition text_match :: "'v runtime \<Rightarrow> string \<Rightarrow> 'v \<Rightarrow> string \<Rightarrow> bool" where
  "text_match rt op v stored =
     (if is_none rt v then False
      else
        let literal = json_loads_val_key stored;
            text = str rt v;
            pattern = (case literal of JText t \<Rightarrow> t | _ \<Rightarrow> json_str rt literal)
        in if op = ''contains'' then contains_text pattern text
           else if op = ''startswith'' then starts pattern text
           else if op = ''endswith'' then ends_with pattern text
           else regex_search rt pattern text = Some True)"

definition matches_lookup_value :: "'v runtime \<Rightarrow> string \<Rightarrow> 'v \<Rightarrow> string \<Rightarrow> bool" where
  "matches_lookup_value rt op v stored =
     (if op = ''eq'' then eq_match rt v stored
      else if op = ''in'' then in_match rt v stored
      else if op \<in> {''gt'', ''gte'', ''lt'', ''lte''} then range_match rt op v stored
      else if op \<in> {''contains'', ''startswith'', ''endswith'', ''regex''} then text_match rt op v stored
      else False)"

text \<open>Membership in a stored list of values matches exactly when one of the list's items
  does, and never anything a list of values is not.\<close>

theorem in_matches_any_item:
  "matches_lookup_value rt ''in'' v stored =
     (\<exists>items item. json_loads stored = Some (JList items) \<and> item \<in> set items \<and> item_match rt v item)"
proof -
  have "any_item rt v items \<longleftrightarrow> (\<exists>item. item \<in> set items \<and> item_match rt v item)" for items
    by (induction items) auto
  then show ?thesis
    by (auto simp: matches_lookup_value_def in_match_def split: option.splits jvalue.splits)
qed

end
