(* ===== verification/DepShards.thy ===== *)
theory DepShards
  imports DepMatch DepTracker
begin

text \<open>
  Sharded dependency metadata (\<open>src/general_manager/cache/dependency_shards.py\<close>): which cache
  keys must be looked at when an object of a manager changes.

  The Django cache is a map from keys to payloads: a set of strings, the reverse membership of a
  cache key, the legacy index, or a cached value of any type \<open>'p\<close>. A Python set is a HOL set; a
  \<open>dict\<close> of non-empty sets is the set of its (key, member) pairs. \<open>sha\<close> is the hexadecimal
  SHA-256 digest of a text. The \<open>lru_cache\<close> and the per-batch plan cache around the pure
  function \<open>_shard_keys_for_dependency\<close> do not change its results and are not modelled; nor are
  failing cache backends.
\<close>

section \<open>Keys\<close>

definition shard_prefix :: string where
  "shard_prefix = ''general_manager:dependency:v1:''"

definition reverse_registry_key :: string where
  "reverse_registry_key = shard_prefix @ ''reverse_keys''"

definition legacy_key :: string where
  "legacy_key = ''dependency_index''"

definition reverse_membership_key :: "(string \<Rightarrow> string) \<Rightarrow> string \<Rightarrow> string" where
  "reverse_membership_key sha cache_key = shard_prefix @ ''reverse:'' @ sha cache_key"

definition stable_value_hash :: "(string \<Rightarrow> string) \<Rightarrow> dep_value \<Rightarrow> string" where
  "stable_value_hash sha v = sha (serialize_normalized_value v)"

definition exact_lookup_shard_key ::
  "(string \<Rightarrow> string) \<Rightarrow> string \<Rightarrow> string \<Rightarrow> string \<Rightarrow> string \<Rightarrow> dep_value \<Rightarrow> string" where
  "exact_lookup_shard_key sha manager action l op v =
     shard_prefix @ ''lookup:'' @ manager @ '':'' @ action @ '':'' @ l @ '':'' @ op @ '':'' @ stable_value_hash sha v"

definition scan_lookup_shard_key :: "string \<Rightarrow> string \<Rightarrow> string \<Rightarrow> string \<Rightarrow> string" where
  "scan_lookup_shard_key manager action l op =
     shard_prefix @ ''scan:'' @ manager @ '':'' @ action @ '':'' @ l @ '':'' @ op"

definition composite_lookup_shard_key :: "string \<Rightarrow> string \<Rightarrow> string \<Rightarrow> string" where
  "composite_lookup_shard_key manager action l =
     shard_prefix @ ''composite_lookup:'' @ manager @ '':'' @ action @ '':'' @ l"

definition all_records_shard_key :: "string \<Rightarrow> string" where
  "all_records_shard_key manager = shard_prefix @ ''all:'' @ manager"

definition request_query_shard_key :: "string \<Rightarrow> string" where
  "request_query_shard_key manager = shard_prefix @ ''request_query:'' @ manager"

definition lookup_registry_key :: "string \<Rightarrow> string \<Rightarrow> string" where
  "lookup_registry_key manager action = shard_prefix @ ''lookups:'' @ manager @ '':'' @ action"

section \<open>The store\<close>

record reverse_membership =
  cache_key :: string
  shard_keys :: "string set"
  composite_dependencies :: "dependency set"
  simple_dependencies :: "dependency set"

text \<open>The legacy index as the clean-up reads it: nested dictionaries with string keys, collections
  with their string members, anything else.\<close>

datatype legacy_value =
  LDict "(string \<times> legacy_value) list" | LMembers "string list" | LOther

datatype 'p payload =
  Members "string set" | Reverse reverse_membership | LegacyIndex legacy_value | Stored 'p

type_synonym 'p cache_store = "string \<rightharpoonup> 'p payload"

fun cache_member_set :: "'p payload option \<Rightarrow> string set" where
  "cache_member_set (Some (Members ms)) = ms"
| "cache_member_set _ = {}"

definition cache_set_members :: "'p cache_store \<Rightarrow> string \<Rightarrow> string set" where
  "cache_set_members st key = cache_member_set (st key)"

definition cache_delete :: "string \<Rightarrow> 'p cache_store \<Rightarrow> 'p cache_store" where
  "cache_delete key st = st(key := None)"

definition cache_set_add_many :: "(string \<times> string) set \<Rightarrow> 'p cache_store \<Rightarrow> 'p cache_store" where
  "cache_set_add_many additions st =
     (\<lambda>key. if key \<in> fst ` additions
        then Some (Members (cache_member_set (st key) \<union> additions `` {key})) else st key)"

definition cache_set_discard_many :: "(string \<times> string) set \<Rightarrow> 'p cache_store \<Rightarrow> 'p cache_store" where
  "cache_set_discard_many removals st =
     (\<lambda>key. if key \<in> fst ` removals
        then (let current = cache_member_set (st key) - removals `` {key}
              in if current = {} then None else Some (Members current))
        else st key)"

definition cache_set_add :: "string \<Rightarrow> string \<Rightarrow> 'p cache_store \<Rightarrow> 'p cache_store" where
  "cache_set_add key m = cache_set_add_many {(key, m)}"

definition cache_set_discard :: "string \<Rightarrow> string \<Rightarrow> 'p cache_store \<Rightarrow> 'p cache_store" where
  "cache_set_discard key m = cache_set_discard_many {(key, m)}"

section \<open>The legacy index\<close>

fun collection_keys :: "legacy_value \<Rightarrow> string set" where
  "collection_keys (LMembers ms) = set ms"
| "collection_keys _ = {}"

fun dict_values :: "legacy_value \<Rightarrow> legacy_value list" where
  "dict_values (LDict ms) = map snd ms"
| "dict_values _ = []"

fun dict_get :: "string \<Rightarrow> legacy_value \<Rightarrow> legacy_value" where
  "dict_get k (LDict ms) = (case od_get ms k of Some v \<Rightarrow> v | None \<Rightarrow> LDict [])"
| "dict_get k _ = LDict []"

fun dict_keys :: "legacy_value \<Rightarrow> string set" where
  "dict_keys (LDict ms) = fst ` set ms"
| "dict_keys _ = {}"

definition model_section_keys :: "legacy_value \<Rightarrow> string set" where
  "model_section_keys section =
     (case section of
        LDict ms \<Rightarrow>
          dict_keys (dict_get ''__cache_dependencies__'' section)
          \<union> (\<Union>(l, lookup_map)\<in>set ms. if l = ''__cache_dependencies__'' then {}
              else \<Union>(collection_keys ` set (dict_values lookup_map)))
      | _ \<Rightarrow> {})"

definition legacy_dependency_cache_keys :: "legacy_value \<Rightarrow> string set" where
  "legacy_dependency_cache_keys index =
     \<Union>(collection_keys ` set (dict_values (dict_get ''all'' index)))
     \<union> (\<Union>section\<in>set (dict_values (dict_get ''request_query'' index)).
          \<Union>(collection_keys ` set (dict_values section)))
     \<union> (\<Union>action\<in>{''filter'', ''exclude''}.
          \<Union>(model_section_keys ` set (dict_values (dict_get action index))))"

definition legacy_dependency_index_exists :: "'p cache_store \<Rightarrow> bool" where
  "legacy_dependency_index_exists st = (st legacy_key \<noteq> None)"

definition clear_legacy_dependency_index :: "'p cache_store \<Rightarrow> 'p cache_store \<times> string set" where
  "clear_legacy_dependency_index st =
     (case st legacy_key of
        None \<Rightarrow> (st, {})
      | Some p \<Rightarrow>
          let keys = (case p of LegacyIndex index \<Rightarrow> legacy_dependency_cache_keys index | _ \<Rightarrow> {})
          in ((\<lambda>k. if k \<in> keys \<or> k = legacy_key then None else st k), keys))"

section \<open>Where a dependency is recorded\<close>

record shard_plan =
  plan_shards :: "string set"
  plan_composites :: "dependency set"
  plan_simple :: "dependency set"
  plan_lookups :: "(string \<times> string \<times> string) set"

definition empty_plan :: shard_plan where
  "empty_plan = \<lparr>plan_shards = {}, plan_composites = {}, plan_simple = {}, plan_lookups = {}\<rparr>"

definition sort_prefix :: string where
  "sort_prefix = ''__sort__''"

definition lookup_name_for_candidate :: "string \<Rightarrow> string" where
  "lookup_name_for_candidate l = join_lookup (attr_path (lookup_spec_from_key l))"

definition sort_lookups :: "(string \<times> jvalue) list \<Rightarrow> string list" where
  "sort_lookups params =
     map (\<lambda>(l, v). drop (length sort_prefix) l) (filter (\<lambda>(l, v). starts sort_prefix l) params)"

definition composite_plan :: "dependency \<Rightarrow> string list \<Rightarrow> shard_plan" where
  "composite_plan d lookups =
     (case d of (manager, action, identifier) \<Rightarrow>
       \<lparr>plan_shards = composite_lookup_shard_key manager action ` set lookups,
        plan_composites = {d}, plan_simple = {},
        plan_lookups = (\<lambda>l. (manager, action, l)) ` set lookups\<rparr>)"

definition simple_plan :: "dependency \<Rightarrow> string \<Rightarrow> shard_plan" where
  "simple_plan d shard = empty_plan\<lparr>plan_shards := {shard}, plan_simple := {d}\<rparr>"

definition single_lookup_plan :: "dependency \<Rightarrow> string \<Rightarrow> shard_plan" where
  "single_lookup_plan d l =
     (case d of (manager, action, identifier) \<Rightarrow>
       let spec = lookup_spec_from_key l; candidate = join_lookup (attr_path spec) in
       (simple_plan d
         (if operator spec = ''eq'' then composite_lookup_shard_key manager action candidate
          else scan_lookup_shard_key manager action (lookup spec) (operator spec)))
       \<lparr>plan_lookups := {(manager, action, candidate)}\<rparr>)"

text \<open>\<open>parse_dependency_identifier\<close> with the \<open>isinstance(params, dict)\<close> check after it.\<close>

definition parsed_params :: "string \<Rightarrow> (string \<times> jvalue) list option" where
  "parsed_params identifier =
     (case parse_dependency_identifier identifier of Some (JObject params) \<Rightarrow> Some params | _ \<Rightarrow> None)"

definition params_plan :: "dependency \<Rightarrow> (string \<times> jvalue) list \<Rightarrow> shard_plan" where
  "params_plan d params =
     (if params = [] then simple_plan d (all_records_shard_key (fst d))
      else if sort_lookups params \<noteq> [] then composite_plan d (sort_lookups params)
      else if 1 < length params
        then composite_plan d (map (\<lambda>(l, v). lookup_name_for_candidate l) params)
      else single_lookup_plan d (fst (hd params)))"

definition shard_keys_for_dependency :: "dependency \<Rightarrow> shard_plan" where
  "shard_keys_for_dependency d =
     (case d of (manager, action, identifier) \<Rightarrow>
       if action = ''all'' then simple_plan d (all_records_shard_key manager)
       else if action = ''request_query'' then simple_plan d (request_query_shard_key manager)
       else if action = ''identification''
         then simple_plan d (composite_lookup_shard_key manager ''filter'' ''identification'')
       else if action \<notin> {''filter'', ''exclude''} then empty_plan
       else (case parsed_params identifier of None \<Rightarrow> empty_plan | Some params \<Rightarrow> params_plan d params))"

definition reverse_membership_for ::
  "string \<Rightarrow> dependency set \<Rightarrow> reverse_membership \<times> (string \<times> string \<times> string) set" where
  "reverse_membership_for ck ds =
     (\<lparr>cache_key = ck, shard_keys = (\<Union>d\<in>ds. plan_shards (shard_keys_for_dependency d)),
       composite_dependencies = (\<Union>d\<in>ds. plan_composites (shard_keys_for_dependency d)),
       simple_dependencies = (\<Union>d\<in>ds. plan_simple (shard_keys_for_dependency d))\<rparr>,
      \<Union>d\<in>ds. plan_lookups (shard_keys_for_dependency d))"

section \<open>Recording\<close>

text \<open>The payload at a key, if it is an actual \<open>ReverseDependencyMembership\<close>.\<close>

definition stored_reverse :: "'p cache_store \<Rightarrow> string \<Rightarrow> reverse_membership option" where
  "stored_reverse st key = (case st key of Some (Reverse r) \<Rightarrow> Some r | _ \<Rightarrow> None)"

definition normalized_entries :: "(string \<times> dependency set) list \<Rightarrow> (string, dependency set) odict" where
  "normalized_entries entries =
     fold (\<lambda>(ck, ds) acc.
         if ds = {} then acc
         else od_set ck (case od_get acc ck of None \<Rightarrow> ds | Some old \<Rightarrow> old \<union> ds) acc) entries []"

definition previous_memberships ::
  "(string \<Rightarrow> string) \<Rightarrow> 'p cache_store \<Rightarrow> string list \<Rightarrow> (string \<times> string) set" where
  "previous_memberships sha st cks =
     (\<Union>ck\<in>set cks. case stored_reverse st (reverse_membership_key sha ck) of
        Some r \<Rightarrow> (\<lambda>shard. (shard, ck)) ` shard_keys r
      | None \<Rightarrow> {})"

definition new_memberships ::
  "(string \<Rightarrow> string) \<Rightarrow> (string \<times> dependency set) list \<Rightarrow> (string \<times> string) set" where
  "new_memberships sha normalized =
     (\<Union>(ck, ds)\<in>set normalized. case reverse_membership_for ck ds of (r, lookups) \<Rightarrow>
        (\<lambda>shard. (shard, ck)) ` shard_keys r
        \<union> (\<lambda>(manager, action, l). (lookup_registry_key manager action, l)) ` lookups
        \<union> {(reverse_registry_key, reverse_membership_key sha ck)})"

definition set_reverses ::
  "(string \<Rightarrow> string) \<Rightarrow> (string \<times> dependency set) list \<Rightarrow> 'p cache_store \<Rightarrow> 'p cache_store" where
  "set_reverses sha normalized st =
     fold (\<lambda>(ck, ds) s. s(reverse_membership_key sha ck \<mapsto> Reverse (fst (reverse_membership_for ck ds))))
       normalized st"

definition record_many_cache_dependencies ::
  "(string \<Rightarrow> string) \<Rightarrow> (string \<times> dependency set) list \<Rightarrow> 'p cache_store \<Rightarrow> 'p cache_store" where
  "record_many_cache_dependencies sha entries st =
     (let normalized = normalized_entries entries in
      if normalized = [] then st
      else
        let st1 = fst (clear_legacy_dependency_index st);
            st2 = cache_set_discard_many (previous_memberships sha st1 (map fst normalized)) st1;
            st3 = cache_set_add_many (new_memberships sha normalized) st2
        in set_reverses sha normalized st3)"

definition record_cache_dependencies ::
  "(string \<Rightarrow> string) \<Rightarrow> string \<Rightarrow> dependency set \<Rightarrow> 'p cache_store \<Rightarrow> 'p cache_store" where
  "record_cache_dependencies sha ck ds = record_many_cache_dependencies sha [(ck, ds)]"

section \<open>Removing and reading\<close>

definition remove_cache_key_from_shards ::
  "(string \<Rightarrow> string) \<Rightarrow> string \<Rightarrow> 'p cache_store \<Rightarrow> 'p cache_store" where
  "remove_cache_key_from_shards sha ck st =
     (let key = reverse_membership_key sha ck in
      cache_set_discard reverse_registry_key key
        (cache_delete key
          (case stored_reverse st key of
             Some r \<Rightarrow> cache_set_discard_many ((\<lambda>shard. (shard, ck)) ` shard_keys r) st
           | None \<Rightarrow> st)))"

definition candidate_cache_keys_for_lookup ::
  "'p cache_store \<Rightarrow> string \<Rightarrow> string \<Rightarrow> string \<Rightarrow> string set" where
  "candidate_cache_keys_for_lookup st manager action l =
     (let candidate = lookup_name_for_candidate l in
      (\<Union>op\<in>set scan_operators.
         cache_set_members st (scan_lookup_shard_key manager action (candidate @ ''__'' @ op) op)
         \<union> cache_set_members st (scan_lookup_shard_key manager action candidate op))
      \<union> cache_set_members st (composite_lookup_shard_key manager action candidate)
      \<union> cache_set_members st (all_records_shard_key manager))"

definition request_query_cache_keys :: "'p cache_store \<Rightarrow> string \<Rightarrow> string set" where
  "request_query_cache_keys st manager = cache_set_members st (request_query_shard_key manager)"

definition all_records_cache_keys :: "'p cache_store \<Rightarrow> string \<Rightarrow> string set" where
  "all_records_cache_keys st manager = cache_set_members st (all_records_shard_key manager)"

definition tracked_lookup_names :: "'p cache_store \<Rightarrow> string \<Rightarrow> string set" where
  "tracked_lookup_names st manager =
     cache_set_members st (lookup_registry_key manager ''filter'')
     \<union> cache_set_members st (lookup_registry_key manager ''exclude'')"

definition reverse_memberships :: "'p cache_store \<Rightarrow> reverse_membership set" where
  "reverse_memberships st =
     (\<Union>key\<in>cache_set_members st reverse_registry_key.
        case stored_reverse st key of Some r \<Rightarrow> {r} | None \<Rightarrow> {})"

section \<open>Kinds of keys\<close>

definition shard_key :: "string \<Rightarrow> bool" where
  "shard_key k = (\<exists>x. k = shard_prefix @ ''scan:'' @ x \<or> k = shard_prefix @ ''composite_lookup:'' @ x
     \<or> k = shard_prefix @ ''all:'' @ x \<or> k = shard_prefix @ ''request_query:'' @ x)"

lemmas key_defs = reverse_registry_key_def reverse_membership_key_def scan_lookup_shard_key_def
  composite_lookup_shard_key_def all_records_shard_key_def request_query_shard_key_def
  lookup_registry_key_def

lemma shard_key_intros [simp]:
  "shard_key (scan_lookup_shard_key m a l op)" "shard_key (composite_lookup_shard_key m a l)"
  "shard_key (all_records_shard_key m)" "shard_key (request_query_shard_key m)"
  by (auto simp: shard_key_def key_defs)

lemma not_shard_key [simp]:
  "\<not> shard_key (reverse_membership_key sha ck)" "\<not> shard_key reverse_registry_key"
  "\<not> shard_key (lookup_registry_key m a)"
  by (auto simp: shard_key_def key_defs)

lemma legacy_key_other [simp]:
  "\<not> shard_key legacy_key" "legacy_key \<noteq> reverse_membership_key sha ck" "legacy_key \<noteq> reverse_registry_key"
  "legacy_key \<noteq> lookup_registry_key m a"
  by (auto simp: shard_key_def key_defs shard_prefix_def legacy_key_def)

lemma key_kinds_distinct [simp]:
  "reverse_membership_key sha ck \<noteq> reverse_registry_key" "reverse_membership_key sha ck \<noteq> lookup_registry_key m a"
  "lookup_registry_key m a \<noteq> reverse_registry_key"
  "reverse_membership_key sha ck = reverse_membership_key sha ck' \<longleftrightarrow> sha ck = sha ck'"
  by (auto simp: key_defs)

lemma plan_shards_simple: "plan_shards (simple_plan d k) = {k}"
  by (simp add: simple_plan_def)

lemma plan_shards_composite: "plan_shards (composite_plan (m, a, i) ls) = composite_lookup_shard_key m a ` set ls"
  by (simp add: composite_plan_def)

lemma plan_shards_single: "k \<in> plan_shards (single_lookup_plan (m, a, i) l) \<Longrightarrow> shard_key k"
  by (simp add: single_lookup_plan_def plan_shards_simple Let_def split: if_splits)

lemma params_plan_shards: "k \<in> plan_shards (params_plan (m, a, i) params) \<Longrightarrow> shard_key k"
  unfolding params_plan_def
  by (auto simp: plan_shards_simple plan_shards_composite split: if_splits dest: plan_shards_single)

lemma plan_shards_shard_key: "k \<in> plan_shards (shard_keys_for_dependency d) \<Longrightarrow> shard_key k"
proof -
  assume k: "k \<in> plan_shards (shard_keys_for_dependency d)"
  obtain m a i where d: "d = (m, a, i)" by (cases d) auto
  have e: "k \<notin> plan_shards empty_plan" by (simp add: empty_plan_def)
  consider "a = ''all''" | "a = ''request_query''" | "a = ''identification''"
    | "a \<notin> {''all'', ''request_query'', ''identification''}" by blast
  then show "shard_key k"
  proof cases
    case 4
    with k e have "a \<in> {''filter'', ''exclude''}"
      by (auto simp only: d shard_keys_for_dependency_def prod.case split: if_split_asm)
    with k e 4 show ?thesis
      by (cases "parsed_params i") (simp_all add: d shard_keys_for_dependency_def params_plan_shards)
  qed (use k in \<open>simp_all add: d shard_keys_for_dependency_def plan_shards_simple\<close>)
qed

section \<open>The store as a map from cache keys to dependencies\<close>

definition shards_of :: "dependency set \<Rightarrow> string set" where
  "shards_of ds = (\<Union>d\<in>ds. plan_shards (shard_keys_for_dependency d))"

definition lookups_of :: "dependency set \<Rightarrow> (string \<times> string \<times> string) set" where
  "lookups_of ds = (\<Union>d\<in>ds. plan_lookups (shard_keys_for_dependency d))"

definition membership_of :: "string \<Rightarrow> dependency set \<Rightarrow> reverse_membership" where
  "membership_of ck ds = fst (reverse_membership_for ck ds)"

text \<open>Over a set \<open>U\<close> of cache keys without digest collisions, the store holds exactly the
  dependencies of \<open>m\<close>: one reverse membership for each of its keys and none for another key of
  \<open>U\<close>, in every shard the keys whose dependencies need it, and every lookup registered.\<close>

definition represents ::
  "(string \<Rightarrow> string) \<Rightarrow> string set \<Rightarrow> 'p cache_store \<Rightarrow> (string \<rightharpoonup> dependency set) \<Rightarrow> bool" where
  "represents sha U st m \<longleftrightarrow> dom m \<subseteq> U \<and> inj_on sha U \<and> st legacy_key = None
     \<and> (\<forall>ck\<in>U. stored_reverse st (reverse_membership_key sha ck) = map_option (membership_of ck) (m ck))
     \<and> (\<forall>k. shard_key k \<longrightarrow> cache_set_members st k = {ck. \<exists>ds. m ck = Some ds \<and> k \<in> shards_of ds})
     \<and> cache_set_members st reverse_registry_key = reverse_membership_key sha ` dom m
     \<and> (\<forall>ck ds manager action l. m ck = Some ds \<longrightarrow> (manager, action, l) \<in> lookups_of ds \<longrightarrow>
          l \<in> cache_set_members st (lookup_registry_key manager action))"

lemma represents_empty: "inj_on sha U \<Longrightarrow> represents sha U (\<lambda>k. None) (\<lambda>ck. None)"
  by (simp add: represents_def cache_set_members_def stored_reverse_def)

lemma members_discard:
  "cache_set_members (cache_set_discard_many R st) k = cache_set_members st k - R `` {k}"
  by (auto simp: cache_set_members_def cache_set_discard_many_def Let_def image_iff)

lemma members_add:
  "cache_set_members (cache_set_add_many A st) k = cache_set_members st k \<union> A `` {k}"
  by (auto simp: cache_set_members_def cache_set_add_many_def image_iff)

lemma discard_elsewhere: "k \<notin> fst ` R \<Longrightarrow> cache_set_discard_many R st k = st k"
  by (simp add: cache_set_discard_many_def)

lemma add_elsewhere: "k \<notin> fst ` A \<Longrightarrow> cache_set_add_many A st k = st k"
  by (simp add: cache_set_add_many_def)

lemma membership_of_simps [simp]:
  "shard_keys (membership_of ck ds) = shards_of ds" "cache_key (membership_of ck ds) = ck"
  by (simp_all add: membership_of_def reverse_membership_for_def shards_of_def)

lemma reverse_membership_for_eq: "reverse_membership_for ck ds = (membership_of ck ds, lookups_of ds)"
  by (simp add: membership_of_def reverse_membership_for_def lookups_of_def)

lemma shards_of_shard_key: "k \<in> shards_of ds \<Longrightarrow> shard_key k"
  by (auto simp: shards_of_def intro: plan_shards_shard_key)

abbreviation add_entry ::
  "string \<times> dependency set \<Rightarrow> (string, dependency set) odict \<Rightarrow> (string, dependency set) odict" where
  "add_entry \<equiv> \<lambda>(ck, ds) acc.
     if ds = {} then acc
     else od_set ck (case od_get acc ck of None \<Rightarrow> ds | Some old \<Rightarrow> old \<union> ds) acc"

lemma normalized_wf: "od_wf (normalized_entries entries)"
proof -
  have step: "od_wf (add_entry e acc)" if "od_wf acc" for e acc
    using that by (cases e) (simp only: prod.case od_wf_set split: if_split, blast)
  have "od_wf acc \<Longrightarrow> od_wf (fold add_entry entries acc)" for acc
  proof (induction entries arbitrary: acc)
    case (Cons e es)
    from Cons.IH [OF step [OF Cons.prems, of e]] show ?case by (simp only: fold_simps)
  qed simp
  then show ?thesis by (simp add: normalized_entries_def)
qed

lemma set_reverses_elsewhere:
  "(\<And>ck. ck \<in> fst ` set normalized \<Longrightarrow> k \<noteq> reverse_membership_key sha ck) \<Longrightarrow>
     set_reverses sha normalized st k = st k"
proof (induction normalized arbitrary: st)
  case (Cons p ps)
  then show ?case by (cases p) (simp add: set_reverses_def)
qed (simp add: set_reverses_def)

lemma set_reverses_at:
  "od_wf normalized \<Longrightarrow> inj_on sha (fst ` set normalized) \<Longrightarrow> (ck, ds) \<in> set normalized \<Longrightarrow>
     set_reverses sha normalized st (reverse_membership_key sha ck) = Some (Reverse (membership_of ck ds))"
proof (induction normalized arbitrary: st)
  case (Cons p ps)
  obtain ck' ds' where p: "p = (ck', ds')" by (cases p) auto
  let ?st = "st(reverse_membership_key sha ck' \<mapsto> Reverse (membership_of ck' ds'))"
  have s: "set_reverses sha (p # ps) st = set_reverses sha ps ?st"
    by (simp add: set_reverses_def p reverse_membership_for_eq)
  show ?case
  proof (cases "(ck, ds) \<in> set ps")
    case True
    with Cons s show ?thesis by (auto intro: inj_on_subset)
  next
    case False
    then have e: "ck = ck'" "ds = ds'" using Cons.prems(3) p by auto
    have "sha ck \<noteq> sha x" if "x \<in> fst ` set ps" for x
    proof
      assume "sha ck = sha x"
      then have "ck = x" using Cons.prems(2) that e p by (auto dest: inj_onD)
      with that Cons.prems(1) p e show False by auto
    qed
    then have "set_reverses sha ps ?st (reverse_membership_key sha ck) = ?st (reverse_membership_key sha ck)"
      by (intro set_reverses_elsewhere) auto
    then show ?thesis unfolding s by (simp add: e)
  qed
qed simp

lemma representsD:
  assumes "represents sha U st m"
  shows "dom m \<subseteq> U" "inj_on sha U" "st legacy_key = None"
    "ck \<in> U \<Longrightarrow> stored_reverse st (reverse_membership_key sha ck) = map_option (membership_of ck) (m ck)"
    "shard_key k \<Longrightarrow> cache_set_members st k = {ck. \<exists>ds. m ck = Some ds \<and> k \<in> shards_of ds}"
    "cache_set_members st reverse_registry_key = reverse_membership_key sha ` dom m"
    "m ck = Some ds \<Longrightarrow> (manager, action, l) \<in> lookups_of ds \<Longrightarrow>
       l \<in> cache_set_members st (lookup_registry_key manager action)"
  using assms unfolding represents_def by (elim conjE, simp)+

lemma representsI:
  assumes "dom m \<subseteq> U" "inj_on sha U" "st legacy_key = None"
    "\<And>ck. ck \<in> U \<Longrightarrow> stored_reverse st (reverse_membership_key sha ck) = map_option (membership_of ck) (m ck)"
    "\<And>k. shard_key k \<Longrightarrow> cache_set_members st k = {ck. \<exists>ds. m ck = Some ds \<and> k \<in> shards_of ds}"
    "cache_set_members st reverse_registry_key = reverse_membership_key sha ` dom m"
    "\<And>ck ds manager action l. m ck = Some ds \<Longrightarrow> (manager, action, l) \<in> lookups_of ds \<Longrightarrow>
       l \<in> cache_set_members st (lookup_registry_key manager action)"
  shows "represents sha U st m"
  unfolding represents_def using assms by (intro conjI allI impI ballI)

lemma previous_memberships_iff:
  assumes r: "represents sha U st m" and cks: "set cks \<subseteq> U"
  shows "(k, x) \<in> previous_memberships sha st cks \<longleftrightarrow> (\<exists>ds. x \<in> set cks \<and> m x = Some ds \<and> k \<in> shards_of ds)"
proof -
  have "(k, x) \<in> previous_memberships sha st cks \<longleftrightarrow>
      (\<exists>rv. x \<in> set cks \<and> stored_reverse st (reverse_membership_key sha x) = Some rv \<and> k \<in> shard_keys rv)"
    unfolding previous_memberships_def by (auto split: option.splits)
  also have "\<dots> \<longleftrightarrow> (\<exists>ds. x \<in> set cks \<and> m x = Some ds \<and> k \<in> shards_of ds)"
    using representsD(4) [OF r, of x] cks by (cases "x \<in> set cks"; cases "m x") auto
  finally show ?thesis .
qed

lemma previous_memberships_keys:
  assumes "represents sha U st m" "set cks \<subseteq> U" "\<not> shard_key k"
  shows "k \<notin> fst ` previous_memberships sha st cks"
proof
  assume "k \<in> fst ` previous_memberships sha st cks"
  then obtain x where "(k, x) \<in> previous_memberships sha st cks" by auto
  then show False using previous_memberships_iff [OF assms(1,2)] assms(3) shards_of_shard_key by blast
qed

lemma new_memberships_iff:
  "(k, x) \<in> new_memberships sha N \<longleftrightarrow>
     (\<exists>ck ds. (ck, ds) \<in> set N \<and>
        (x = ck \<and> k \<in> shards_of ds
         \<or> (\<exists>manager action. k = lookup_registry_key manager action \<and> (manager, action, x) \<in> lookups_of ds)
         \<or> k = reverse_registry_key \<and> x = reverse_membership_key sha ck))"
proof -
  have u: "y \<in> (\<Union>(a, b)\<in>S. F a b) \<longleftrightarrow> (\<exists>a b. (a, b) \<in> S \<and> y \<in> F a b)"
    for y :: "string \<times> string" and S :: "(string \<times> dependency set) set" and F by auto
  have i: "(k, x) \<in> (\<lambda>(m, a, l). (lookup_registry_key m a, l)) ` L \<longleftrightarrow>
      (\<exists>m a. k = lookup_registry_key m a \<and> (m, a, x) \<in> L)" for L by force
  have j: "(k, x) \<in> (\<lambda>shard. (shard, ck)) ` S \<longleftrightarrow> x = ck \<and> k \<in> S" for ck S by auto
  show ?thesis
    unfolding new_memberships_def reverse_membership_for_eq prod.case membership_of_simps(1)
    by (simp only: u Un_iff i j insert_iff empty_iff prod.inject simp_thms disj_assoc)
qed

lemma new_memberships_keys:
  assumes "k \<in> fst ` new_memberships sha N"
  shows "shard_key k \<or> (\<exists>m a. k = lookup_registry_key m a) \<or> k = reverse_registry_key"
proof -
  from assms obtain x where "(k, x) \<in> new_memberships sha N" by auto
  then show ?thesis unfolding new_memberships_iff using shards_of_shard_key by blast
qed

lemma new_memberships_shard:
  "shard_key k \<Longrightarrow> (k, x) \<in> new_memberships sha N \<longleftrightarrow> (\<exists>ds. (x, ds) \<in> set N \<and> k \<in> shards_of ds)"
  unfolding new_memberships_iff using not_shard_key by blast

lemma new_memberships_registry:
  "(reverse_registry_key, x) \<in> new_memberships sha N \<longleftrightarrow> x \<in> reverse_membership_key sha ` fst ` set N"
proof -
  have "reverse_registry_key \<notin> shards_of ds" for ds using not_shard_key(2) shards_of_shard_key by blast
  moreover have "reverse_registry_key \<noteq> lookup_registry_key m a" for m a
    using key_kinds_distinct(3) by metis
  ultimately have "(reverse_registry_key, x) \<in> new_memberships sha N \<longleftrightarrow>
      (\<exists>ck ds. (ck, ds) \<in> set N \<and> x = reverse_membership_key sha ck)"
    unfolding new_memberships_iff by blast
  then show ?thesis by (simp only: image_image image_iff Bex_def split_paired_Ex fst_conv)
qed

lemma record_many_represents:
  assumes r: "represents sha U st m" and keys: "fst ` set N \<subseteq> U" and wfN: "od_wf N"
  shows "represents sha U
    (set_reverses sha N (cache_set_add_many (new_memberships sha N)
       (cache_set_discard_many (previous_memberships sha st (map fst N)) st))) (m ++ map_of N)"
    (is "represents sha U (set_reverses sha N (cache_set_add_many ?A (cache_set_discard_many ?R st))) ?m")
proof (rule representsI)
  let ?st2 = "cache_set_discard_many ?R st"
  let ?st3 = "cache_set_add_many ?A ?st2"
  let ?st4 = "set_reverses sha N ?st3"
  have inN: "map_of N ck = Some ds \<longleftrightarrow> (ck, ds) \<in> set N" for ck ds
    using wfN by simp
  have notin: "map_of N ck = None \<longleftrightarrow> ck \<notin> fst ` set N" for ck
    by (simp add: map_of_eq_None_iff)
  have R: "(k, x) \<in> ?R \<longleftrightarrow> (\<exists>ds. x \<in> fst ` set N \<and> m x = Some ds \<and> k \<in> shards_of ds)" for k x
    using previous_memberships_iff [OF r, of "map fst N"] keys by simp
  have R': "\<not> shard_key k \<Longrightarrow> k \<notin> fst ` ?R" for k
    using previous_memberships_keys [OF r, of "map fst N"] keys by simp
  have mem4: "cache_set_members ?st4 k = (cache_set_members st k - ?R `` {k}) \<union> ?A `` {k}"
    if "\<And>ck. k \<noteq> reverse_membership_key sha ck" for k
  proof -
    have "?st4 k = ?st3 k" using that by (rule set_reverses_elsewhere)
    then have "cache_set_members ?st4 k = cache_set_members ?st3 k" by (simp only: cache_set_members_def)
    then show ?thesis by (simp only: members_add members_discard)
  qed
  show "dom ?m \<subseteq> U" using representsD(1) [OF r] keys by (auto simp: dom_map_of_conv_image_fst)
  show "inj_on sha U" by (rule representsD(2) [OF r])
  have rk: "?st4 (reverse_membership_key sha ck) = st (reverse_membership_key sha ck)"
    if "ck \<in> U" "ck \<notin> fst ` set N" for ck
  proof -
    have "reverse_membership_key sha ck \<noteq> reverse_membership_key sha x" if "x \<in> fst ` set N" for x
      using that \<open>ck \<in> U\<close> \<open>ck \<notin> fst ` set N\<close> keys representsD(2) [OF r] by (auto dest: inj_onD)
    then have "?st4 (reverse_membership_key sha ck) = ?st3 (reverse_membership_key sha ck)"
      by (rule set_reverses_elsewhere)
    also have "\<dots> = ?st2 (reverse_membership_key sha ck)"
      using new_memberships_keys not_shard_key(1) key_kinds_distinct(1,2) by (intro add_elsewhere) metis
    also have "\<dots> = st (reverse_membership_key sha ck)"
      by (intro discard_elsewhere R') simp
    finally show ?thesis .
  qed
  show "?st4 legacy_key = None"
  proof -
    have "?st4 legacy_key = ?st3 legacy_key" by (rule set_reverses_elsewhere) simp
    also have "\<dots> = ?st2 legacy_key"
      using new_memberships_keys legacy_key_other by (intro add_elsewhere) metis
    also have "\<dots> = st legacy_key" by (intro discard_elsewhere R') simp
    finally show ?thesis using representsD(3) [OF r] by simp
  qed
  show "stored_reverse ?st4 (reverse_membership_key sha ck) = map_option (membership_of ck) (?m ck)"
    if "ck \<in> U" for ck
  proof (cases "map_of N ck")
    case None
    then have "stored_reverse ?st4 (reverse_membership_key sha ck) = stored_reverse st (reverse_membership_key sha ck)"
      using rk [OF that] notin by (simp add: stored_reverse_def)
    with None representsD(4) [OF r that] show ?thesis by (simp add: map_add_def)
  next
    case (Some ds)
    have "inj_on sha (fst ` set N)" using representsD(2) [OF r] keys by (rule inj_on_subset)
    moreover have "(ck, ds) \<in> set N" using Some inN by simp
    ultimately have "?st4 (reverse_membership_key sha ck) = Some (Reverse (membership_of ck ds))"
      by (rule set_reverses_at [OF wfN])
    moreover have "?m ck = Some ds" using Some by (rule map_add_find_right)
    ultimately show ?thesis by (simp add: stored_reverse_def)
  qed
  show "cache_set_members ?st4 k = {ck. \<exists>ds. ?m ck = Some ds \<and> k \<in> shards_of ds}"
    if "shard_key k" for k
  proof -
    have "cache_set_members ?st4 k = (cache_set_members st k - ?R `` {k}) \<union> ?A `` {k}"
      using mem4 that not_shard_key(1) by metis
    then have A: "x \<in> cache_set_members ?st4 k \<longleftrightarrow>
        (\<exists>ds. m x = Some ds \<and> k \<in> shards_of ds) \<and> x \<notin> fst ` set N
        \<or> (\<exists>ds. (x, ds) \<in> set N \<and> k \<in> shards_of ds)" for x
      using representsD(5) [OF r that] R [of k x] new_memberships_shard [OF that, of x sha N]
      by (auto simp: Image_singleton_iff)
    have B: "(\<exists>ds. ?m x = Some ds \<and> k \<in> shards_of ds) \<longleftrightarrow>
        (\<exists>ds. m x = Some ds \<and> k \<in> shards_of ds) \<and> x \<notin> fst ` set N
        \<or> (\<exists>ds. (x, ds) \<in> set N \<and> k \<in> shards_of ds)" for x
    proof (cases "map_of N x")
      case None
      then have "?m x = m x" by (simp add: map_add_def)
      moreover have "x \<notin> fst ` set N" using None notin by blast
      ultimately show ?thesis by force
    next
      case (Some e)
      then have "?m x = Some e" by (rule map_add_find_right)
      moreover have i: "(x, ds) \<in> set N \<longleftrightarrow> e = ds" for ds
        unfolding inN [symmetric] Some by simp
      moreover have "x \<in> fst ` set N" using i [of e] by (metis fst_conv imageI)
      ultimately show ?thesis by simp
    qed
    show ?thesis by (rule set_eqI) (simp only: A B mem_Collect_eq)
  qed
  show "cache_set_members ?st4 reverse_registry_key = reverse_membership_key sha ` dom ?m"
  proof -
    have "cache_set_members ?st4 reverse_registry_key =
        (cache_set_members st reverse_registry_key - ?R `` {reverse_registry_key}) \<union> ?A `` {reverse_registry_key}"
      using mem4 key_kinds_distinct(1) by metis
    moreover have "?R `` {reverse_registry_key} = {}"
      using R' [of reverse_registry_key] by (force simp: image_iff)
    moreover have "?A `` {reverse_registry_key} = reverse_membership_key sha ` fst ` set N"
      using new_memberships_registry [of _ sha N] by blast
    ultimately show ?thesis
      using representsD(6) [OF r] by (simp add: dom_map_of_conv_image_fst image_Un Un_commute)
  qed
  show "l \<in> cache_set_members ?st4 (lookup_registry_key manager action)"
    if "?m ck = Some ds" "(manager, action, l) \<in> lookups_of ds" for ck ds manager action l
  proof -
    let ?k = "lookup_registry_key manager action"
    have "cache_set_members ?st4 ?k = (cache_set_members st ?k - ?R `` {?k}) \<union> ?A `` {?k}"
      using mem4 key_kinds_distinct(2) by metis
    moreover have "?R `` {?k} = {}"
      using R' [of ?k] by (force simp: image_iff)
    moreover have "m ck = Some ds \<or> (ck, ds) \<in> set N"
      using that(1) inN by (auto simp: map_add_def split: option.splits)
    moreover have "(ck, ds) \<in> set N \<Longrightarrow> (?k, l) \<in> ?A"
      unfolding new_memberships_iff using that(2) by blast
    ultimately show ?thesis using representsD(7) [OF r _ that(2), of ck] by blast
  qed
qed

definition spec_record ::
  "(string \<times> dependency set) list \<Rightarrow> (string \<rightharpoonup> dependency set) \<Rightarrow> (string \<rightharpoonup> dependency set)" where
  "spec_record entries m = m ++ map_of (normalized_entries entries)"

lemma normalized_keys: "fst ` set (normalized_entries entries) \<subseteq> fst ` set entries"
proof -
  have "fst ` set (fold add_entry entries acc) \<subseteq> fst ` set entries \<union> fst ` set acc" for acc
  proof (induction entries arbitrary: acc)
    case (Cons e es)
    obtain ck ds where e: "e = (ck, ds)" by (cases e) auto
    have "fst ` set (od_set ck v acc) \<subseteq> insert ck (fst ` set acc)" for v
      by (induction acc) auto
    then have "fst ` set (add_entry e acc) \<subseteq> insert ck (fst ` set acc)"
      by (cases "ds = {}") (simp_all only: e prod.case if_True if_False simp_thms, blast)
    then have "fst ` set es \<union> fst ` set (add_entry e acc) \<subseteq> fst ` set (e # es) \<union> fst ` set acc"
      by (simp only: e list.set image_insert fst_conv) blast
    with Cons.IH [of "add_entry e acc"] have
      "fst ` set (fold add_entry es (add_entry e acc)) \<subseteq> fst ` set (e # es) \<union> fst ` set acc"
      by (rule order_trans)
    then show ?case by (simp only: fold_simps)
  qed simp
  from this [of "[]"] show ?thesis by (simp add: normalized_entries_def)
qed

lemma record_represents:
  assumes r: "represents sha U st m" and keys: "fst ` set entries \<subseteq> U"
  shows "represents sha U (record_many_cache_dependencies sha entries st) (spec_record entries m)"
proof -
  let ?N = "normalized_entries entries"
  have c: "fst (clear_legacy_dependency_index st) = st"
    using representsD(3) [OF r] by (simp add: clear_legacy_dependency_index_def)
  show ?thesis
  proof (cases "?N = []")
    case True
    with r show ?thesis by (simp add: record_many_cache_dependencies_def spec_record_def)
  next
    case False
    have "fst ` set ?N \<subseteq> U" using normalized_keys keys by blast
    from record_many_represents [OF r this normalized_wf] False show ?thesis
      by (simp add: record_many_cache_dependencies_def spec_record_def c Let_def)
  qed
qed

text \<open>Writes at keys that hold no metadata change nothing.\<close>

definition metadata_key :: "string \<Rightarrow> bool" where
  "metadata_key k \<longleftrightarrow> k = legacy_key \<or> starts shard_prefix k"

lemma starts_append: "starts p (p @ x)"
  by (simp add: starts_def)

lemma represents_other:
  assumes r: "represents sha U st m" and eq: "\<And>k. k = legacy_key \<or> starts shard_prefix k \<Longrightarrow> st' k = st k"
  shows "represents sha U st' m"
proof -
  have s: "st' (shard_prefix @ x) = st (shard_prefix @ x)" for x
    using eq starts_append by blast
  have k: "cache_set_members st' k = cache_set_members st k" if "shard_key k" for k
    using that s by (auto simp: shard_key_def cache_set_members_def)
  show ?thesis
    using r k s eq [of legacy_key]
    by (simp add: represents_def stored_reverse_def cache_set_members_def key_defs)
qed

lemma remove_refines:
  assumes r: "represents sha U st m" and ck: "ck \<in> U"
  shows "represents sha U (remove_cache_key_from_shards sha ck st) (m(ck := None))"
proof (rule representsI)
  let ?key = "reverse_membership_key sha ck"
  define R where "R = (case m ck of Some ds \<Rightarrow> (\<lambda>shard. (shard, ck)) ` shards_of ds | None \<Rightarrow> {})"
  let ?st1 = "cache_set_discard_many R st"
  let ?st' = "remove_cache_key_from_shards sha ck st"
  let ?m = "m(ck := None)"
  have d0: "cache_set_discard_many {} st = st" by (simp add: cache_set_discard_many_def)
  have st': "?st' = cache_set_discard reverse_registry_key ?key (cache_delete ?key ?st1)"
    using representsD(4) [OF r ck]
    by (cases "m ck") (simp_all add: remove_cache_key_from_shards_def R_def d0 Let_def)
  have Rk: "(k, x) \<in> R \<longleftrightarrow> x = ck \<and> (\<exists>ds. m ck = Some ds \<and> k \<in> shards_of ds)" for k x
    by (auto simp: R_def split: option.splits)
  have R': "k \<notin> fst ` R" if "\<not> shard_key k" for k
  proof
    assume "k \<in> fst ` R"
    then obtain x where "(k, x) \<in> R" by auto
    with Rk that show False using shards_of_shard_key by blast
  qed
  have at: "?st' k = ?st1 k" if "k \<noteq> reverse_registry_key" "k \<noteq> ?key" for k
    using that by (simp add: st' cache_set_discard_def cache_delete_def discard_elsewhere)
  have keep: "?st' k = st k" if "k \<noteq> reverse_registry_key" "k \<noteq> ?key" "\<not> shard_key k" for k
    by (rule trans [OF at [OF that(1,2)] discard_elsewhere [OF R' [OF that(3)]]])
  show "dom ?m \<subseteq> U" using representsD(1) [OF r] by auto
  show "inj_on sha U" by (rule representsD(2) [OF r])
  show "?st' legacy_key = None"
    using keep [of legacy_key] representsD(3) [OF r] legacy_key_other by metis
  show "stored_reverse ?st' (reverse_membership_key sha x) = map_option (membership_of x) (?m x)"
    if "x \<in> U" for x
  proof (cases "x = ck")
    case True
    have "?st' ?key = None"
      by (simp add: st' cache_set_discard_def cache_delete_def discard_elsewhere)
    with True show ?thesis by (simp add: stored_reverse_def)
  next
    case False
    have "?st' (reverse_membership_key sha x) = st (reverse_membership_key sha x)"
    proof (rule keep)
      show "reverse_membership_key sha x \<noteq> ?key"
        using False that ck representsD(2) [OF r] by (auto dest: inj_onD)
    qed simp_all
    with False representsD(4) [OF r that] show ?thesis by (simp add: stored_reverse_def)
  qed
  show "cache_set_members ?st' k = {x. \<exists>ds. ?m x = Some ds \<and> k \<in> shards_of ds}" if "shard_key k" for k
  proof -
    have "cache_set_members ?st' k = cache_set_members ?st1 k"
      using at [of k] that not_shard_key by (metis cache_set_members_def)
    also have "\<dots> = cache_set_members st k - R `` {k}" by (rule members_discard)
    finally show ?thesis
      using representsD(5) [OF r that] Rk [of k] by (auto simp: Image_singleton_iff)
  qed
  show "cache_set_members ?st' reverse_registry_key = reverse_membership_key sha ` dom ?m"
  proof -
    have "?st1 reverse_registry_key = st reverse_registry_key"
      by (intro discard_elsewhere R') simp
    then have "cache_set_members ?st' reverse_registry_key = cache_set_members st reverse_registry_key - {?key}"
      unfolding st' cache_set_discard_def members_discard
      using key_kinds_distinct(1) [of sha ck, THEN not_sym] by (simp add: cache_delete_def cache_set_members_def Image_singleton)
    moreover have "sha x \<noteq> sha ck" if "x \<in> dom m" "x \<noteq> ck" for x
      using that representsD(1,2) [OF r] ck by (meson inj_onD subsetD)
    then have "reverse_membership_key sha ` dom m - {?key} = reverse_membership_key sha ` (dom m - {ck})"
      by (auto simp: domI)
    ultimately show ?thesis using representsD(6) [OF r] by simp
  qed
  show "l \<in> cache_set_members ?st' (lookup_registry_key manager action)"
    if "?m x = Some ds" "(manager, action, l) \<in> lookups_of ds" for x ds manager action l
  proof -
    have "?st' (lookup_registry_key manager action) = st (lookup_registry_key manager action)"
      using key_kinds_distinct by (intro keep) (simp, metis, simp)
    moreover have "m x = Some ds" using that(1) by (simp split: if_splits)
    ultimately show ?thesis using representsD(7) [OF r _ that(2)] by (simp add: cache_set_members_def)
  qed
qed

section \<open>The contract of a metadata store\<close>

text \<open>What the rest of the program relies on: a state that stands for a map from cache keys to
  dependency sets, which recording updates and forgetting shrinks.\<close>

datatype store_op = Record "(string \<times> dependency set) list" | Forget string

fun op_keys :: "store_op \<Rightarrow> string set" where
  "op_keys (Record entries) = fst ` set entries"
| "op_keys (Forget ck) = {ck}"

fun spec_op :: "store_op \<Rightarrow> (string \<rightharpoonup> dependency set) \<Rightarrow> (string \<rightharpoonup> dependency set)" where
  "spec_op (Record entries) m = spec_record entries m"
| "spec_op (Forget ck) m = m(ck := None)"

locale dependency_metadata =
  fixes keys :: "string set" and stands :: "'s \<Rightarrow> (string \<rightharpoonup> dependency set) \<Rightarrow> bool"
    and record_deps :: "(string \<times> dependency set) list \<Rightarrow> 's \<Rightarrow> 's" and forget :: "string \<Rightarrow> 's \<Rightarrow> 's"
  assumes record_shows: "stands s m \<Longrightarrow> fst ` set entries \<subseteq> keys \<Longrightarrow> stands (record_deps entries s) (spec_record entries m)"
    and forget_shows: "stands s m \<Longrightarrow> ck \<in> keys \<Longrightarrow> stands (forget ck s) (m(ck := None))"
begin

definition do_op :: "store_op \<Rightarrow> 's \<Rightarrow> 's" where
  "do_op op s = (case op of Record entries \<Rightarrow> record_deps entries s | Forget ck \<Rightarrow> forget ck s)"

lemma do_op_shows: "stands s m \<Longrightarrow> op_keys op \<subseteq> keys \<Longrightarrow> stands (do_op op s) (spec_op op m)"
  by (cases op) (simp_all add: do_op_def record_shows forget_shows)

lemma run_shows: "stands s m \<Longrightarrow> (\<Union>op\<in>set ops. op_keys op) \<subseteq> keys \<Longrightarrow> stands (fold do_op ops s) (fold spec_op ops m)"
  by (induction ops arbitrary: s m) (simp_all add: do_op_shows)

end

interpretation shards: dependency_metadata U "represents sha U" "record_many_cache_dependencies sha"
    "remove_cache_key_from_shards sha" for sha U
  by unfold_locales (rule record_represents, assumption+, rule remove_refines, assumption+)

fun apply_op :: "(string \<Rightarrow> string) \<Rightarrow> store_op \<Rightarrow> 'p cache_store \<Rightarrow> 'p cache_store" where
  "apply_op sha (Record entries) st = record_many_cache_dependencies sha entries st"
| "apply_op sha (Forget ck) st = remove_cache_key_from_shards sha ck st"

lemma apply_op_do_op: "apply_op sha op = shards.do_op sha op"
  by (cases op) (simp_all add: shards.do_op_def fun_eq_iff)

text \<open>C5: after any sequence of recordings and removals the sharded metadata stands for the plain
  map those operations describe: the reverse membership of every key has its dependencies, every
  shard holds exactly the keys whose dependencies belong there.\<close>

theorem shards_refine_map:
  assumes "inj_on sha U" "(\<Union>op\<in>set ops. op_keys op) \<subseteq> U"
  shows "represents sha U (fold (apply_op sha) ops (\<lambda>k. None)) (fold spec_op ops (\<lambda>ck. None))"
  using shards.run_shows [OF represents_empty [OF assms(1)] assms(2)]
  by (simp add: apply_op_do_op [abs_def])

definition demo_filter :: dependency where
  "demo_filter = (''Task'', ''filter'', ''{\"status\": \"open\"}'')"

theorem shards_refine_map_witness:
  "represents id {''k''} (fold (apply_op id) [Record [(''k'', {demo_filter})], Forget ''k'', Record [(''k'', {demo_filter})]] (\<lambda>k. None))
     (fold spec_op [Record [(''k'', {demo_filter})], Forget ''k'', Record [(''k'', {demo_filter})]] (\<lambda>ck. None))"
  by (rule shards_refine_map) simp_all

end
