(* ===== verification/DepIndex.thy ===== *)
theory DepIndex
  imports DepShards
begin

text \<open>
  Invalidation of dependency-cached values
  (\<open>src/general_manager/cache/dependency_index.py\<close>, sharded storage): before a manager object
  changes, \<open>capture_old_values\<close> keeps the values of the tracked lookups; after the change,
  \<open>_generic_cache_invalidation_from_shards\<close> collects the cache keys that may depend on the
  object, evaluates their dependencies on the old and new values and deletes what is affected.

  The changed object is a runtime value of type \<open>'v\<close>; \<open>ident\<close> is its identification, \<open>None\<close> when
  it has none or an empty one. The keys are deleted in ascending order (Python's set order is
  arbitrary; the result does not depend on it). Logging and timing are left out.
\<close>

section \<open>Values before and after\<close>

text \<open>A lookup whose attribute is missing is kept under the part of the path that exists.\<close>

fun captured_entry :: "'v runtime \<Rightarrow> 'v \<Rightarrow> string list \<Rightarrow> string list \<Rightarrow> string \<Rightarrow> string \<times> 'v" where
  "captured_entry rt current passed [] l = (l, current)"
| "captured_entry rt current passed (a # path) l =
     (case attribute rt current a of
        None \<Rightarrow> (join_lookup passed, current)
      | Some v \<Rightarrow> captured_entry rt v (passed @ [a]) path l)"

definition capture_old_values :: "'v runtime \<Rightarrow> 'v \<Rightarrow> string list \<Rightarrow> (string \<rightharpoonup> 'v)" where
  "capture_old_values rt inst lookups =
     fold (\<lambda>l vals. case captured_entry rt inst [] (split_lookup l) l of (k, v) \<Rightarrow> vals(k \<mapsto> v)) lookups
       (\<lambda>k. None)"

definition value_for_lookup :: "'v runtime \<Rightarrow> 'v \<Rightarrow> (string \<rightharpoonup> 'v) \<Rightarrow> string \<Rightarrow> bool \<Rightarrow> 'v" where
  "value_for_lookup rt inst old l use_old =
     (let path = attr_path (lookup_spec_from_key l) in
      if use_old then (case old (join_lookup path) of Some v \<Rightarrow> v | None \<Rightarrow> none_value rt)
      else current_value_for_path rt inst path)"

text \<open>A parsed JSON value as a dependency payload.\<close>

fun of_json :: "jvalue \<Rightarrow> dep_value" where
  "of_json JNull = DNone"
| "of_json (JBool b) = DBool b"
| "of_json (JInt i) = DInt i"
| "of_json (JFloat t) = DFloat t"
| "of_json (JText s) = DStr s"
| "of_json (JList xs) = DSeq (map of_json xs)"
| "of_json (JObject ms) = DMap (on_values of_json ms)"

fun params_match :: "'v runtime \<Rightarrow> 'v \<Rightarrow> (string \<rightharpoonup> 'v) \<Rightarrow> (string \<times> jvalue) list \<Rightarrow> bool \<Rightarrow> bool" where
  "params_match rt inst old [] use_old = True"
| "params_match rt inst old ((l, expected) # params) use_old =
     (let spec = lookup_spec_from_key l in
      if matches_lookup_value rt (operator spec) (value_for_lookup rt inst old (lookup spec) use_old)
           (serialize_normalized_value (of_json expected))
      then params_match rt inst old params use_old else False)"

section \<open>Does a dependency match the change?\<close>

definition sort_payloads :: "(string \<times> jvalue) list \<Rightarrow> string option \<Rightarrow> jvalue list" where
  "sort_payloads params changed =
     map snd (filter (\<lambda>(l, payload). starts sort_prefix l
       \<and> (case changed of None \<Rightarrow> True | Some c \<Rightarrow> drop (length sort_prefix) l = c)) params)"

definition object_member :: "string \<Rightarrow> (string \<times> jvalue) list \<Rightarrow> jvalue" where
  "object_member k ms = (case od_get ms k of Some v \<Rightarrow> v | None \<Rightarrow> JObject [])"

definition in_bucket ::
  "'v runtime \<Rightarrow> 'v \<Rightarrow> (string \<rightharpoonup> 'v) \<Rightarrow> (string \<times> jvalue) list \<Rightarrow> (string \<times> jvalue) list \<Rightarrow> bool \<Rightarrow> bool" where
  "in_bucket rt inst old filters excludes use_old =
     (params_match rt inst old filters use_old
      \<and> \<not> (if excludes = [] then False else params_match rt inst old excludes use_old))"

definition payload_affected :: "'v runtime \<Rightarrow> 'v \<Rightarrow> (string \<rightharpoonup> 'v) \<Rightarrow> jvalue \<Rightarrow> bool" where
  "payload_affected rt inst old payload =
     (case payload of
        JObject ms \<Rightarrow>
          (case (object_member ''filters'' ms, object_member ''excludes'' ms) of
             (JObject filters, JObject excludes) \<Rightarrow>
               in_bucket rt inst old filters excludes True \<or> in_bucket rt inst old filters excludes False
           | _ \<Rightarrow> False)
      | _ \<Rightarrow> False)"

definition dependency_matches ::
  "'v runtime \<Rightarrow> 'v \<Rightarrow> dep_value option \<Rightarrow> (string \<rightharpoonup> 'v) \<Rightarrow> string \<Rightarrow> string \<Rightarrow> string option \<Rightarrow> bool" where
  "dependency_matches rt inst ident old action identifier changed =
     (if action \<in> {''all'', ''request_query''} then True
      else if action = ''identification'' then
        (case ident of None \<Rightarrow> False | Some i \<Rightarrow> serialize_normalized_value i = identifier)
      else if action \<notin> {''filter'', ''exclude''} then False
      else (case parsed_params identifier of
          None \<Rightarrow> False
        | Some params \<Rightarrow>
            if params = [] then True
            else if sort_payloads params changed \<noteq> []
              then list_ex (payload_affected rt inst old) (sort_payloads params changed)
            else
              (let old_match = params_match rt inst old params True;
                   new_match = params_match rt inst old params False
               in if action = ''filter'' then old_match \<or> new_match else old_match \<noteq> new_match)))"

definition candidate_should_invalidate ::
  "(string \<Rightarrow> string) \<Rightarrow> 'p cache_store \<Rightarrow> 'v runtime \<Rightarrow> string \<Rightarrow> 'v \<Rightarrow> dep_value option \<Rightarrow> (string \<rightharpoonup> 'v)
     \<Rightarrow> string \<Rightarrow> string \<Rightarrow> string option \<Rightarrow> bool" where
  "candidate_should_invalidate sha st rt manager inst ident old ck action changed =
     (case stored_reverse st (reverse_membership_key sha ck) of
        None \<Rightarrow> True
      | Some r \<Rightarrow>
          (\<exists>(m, a, i)\<in>simple_dependencies r. m = manager \<and> dependency_matches rt inst ident old a i changed)
          \<or> (\<exists>(m, a, i)\<in>composite_dependencies r. m = manager \<and> a = action
               \<and> dependency_matches rt inst ident old a i changed))"

definition identification_candidates ::
  "(string \<Rightarrow> string) \<Rightarrow> 'p cache_store \<Rightarrow> 'v runtime \<Rightarrow> string \<Rightarrow> 'v \<Rightarrow> dep_value option \<Rightarrow> (string \<rightharpoonup> 'v)
     \<Rightarrow> string set" where
  "identification_candidates sha st rt manager inst ident old =
     (case ident of
        None \<Rightarrow> {}
      | Some i \<Rightarrow>
          {ck \<in> candidate_cache_keys_for_lookup st manager ''filter'' ''identification''.
             candidate_should_invalidate sha st rt manager inst ident old ck ''identification'' None})"

definition lookup_candidates ::
  "(string \<Rightarrow> string) \<Rightarrow> 'p cache_store \<Rightarrow> 'v runtime \<Rightarrow> string \<Rightarrow> 'v \<Rightarrow> dep_value option \<Rightarrow> (string \<rightharpoonup> 'v)
     \<Rightarrow> string set" where
  "lookup_candidates sha st rt manager inst ident old =
     (\<Union>l\<in>tracked_lookup_names st manager. \<Union>action\<in>{''filter'', ''exclude''}.
        {ck \<in> candidate_cache_keys_for_lookup st manager action l.
           candidate_should_invalidate sha st rt manager inst ident old ck action (Some l)})"

definition invalidation_candidates ::
  "(string \<Rightarrow> string) \<Rightarrow> 'p cache_store \<Rightarrow> 'v runtime \<Rightarrow> string \<Rightarrow> 'v \<Rightarrow> dep_value option \<Rightarrow> (string \<rightharpoonup> 'v)
     \<Rightarrow> string set" where
  "invalidation_candidates sha st rt manager inst ident old =
     request_query_cache_keys st manager \<union> all_records_cache_keys st manager
     \<union> identification_candidates sha st rt manager inst ident old
     \<union> lookup_candidates sha st rt manager inst ident old"

section \<open>Deleting keys\<close>

definition drop_key :: "(string \<Rightarrow> string) \<Rightarrow> string \<Rightarrow> 'p cache_store \<Rightarrow> 'p cache_store" where
  "drop_key sha ck st = remove_cache_key_from_shards sha ck (cache_delete ck st)"

definition drop_keys :: "(string \<Rightarrow> string) \<Rightarrow> string set \<Rightarrow> 'p cache_store \<Rightarrow> 'p cache_store" where
  "drop_keys sha cks st = fold (drop_key sha) (sorted_list_of_set cks) st"

definition generic_cache_invalidation_from_shards ::
  "(string \<Rightarrow> string) \<Rightarrow> 'v runtime \<Rightarrow> string \<Rightarrow> 'v \<Rightarrow> dep_value option \<Rightarrow> (string \<rightharpoonup> 'v) \<Rightarrow> 'p cache_store
     \<Rightarrow> 'p cache_store \<times> string set" where
  "generic_cache_invalidation_from_shards sha rt manager inst ident old st =
     (let cks = invalidation_candidates sha st rt manager inst ident old in (drop_keys sha cks st, cks))"

text \<open>\<open>invalidate_and_remove_cache_keys\<close> and \<open>invalidate_request_query_dependencies\<close> on sharded
  storage, inside their lock.\<close>

definition invalidate_and_remove_cache_keys ::
  "(string \<Rightarrow> string) \<Rightarrow> string list \<Rightarrow> 'p cache_store \<Rightarrow> 'p cache_store" where
  "invalidate_and_remove_cache_keys sha cks st = fold (drop_key sha) (rev (remdups (rev cks))) st"

definition invalidate_request_query_dependencies ::
  "(string \<Rightarrow> string) \<Rightarrow> string \<Rightarrow> 'p cache_store \<Rightarrow> 'p cache_store \<times> string set" where
  "invalidate_request_query_dependencies sha manager st =
     (let cks = request_query_cache_keys st manager in (drop_keys sha cks st, cks))"

section \<open>Which keys have to go\<close>

text \<open>A dependency is affected by a change of an object of its manager: always for \<open>all\<close> and
  \<open>request_query\<close> and for an empty \<open>filter\<close> or \<open>exclude\<close>; for \<open>identification\<close> when the
  identifications agree; for a \<open>filter\<close> when the old or the new object passes it; for an
  \<open>exclude\<close> when only one of them does; for a sorted bucket when the old or the new object is in
  it.\<close>

definition affected ::
  "'v runtime \<Rightarrow> string \<Rightarrow> 'v \<Rightarrow> dep_value option \<Rightarrow> (string \<rightharpoonup> 'v) \<Rightarrow> dependency \<Rightarrow> bool" where
  "affected rt manager inst ident old d =
     (case d of (m, action, identifier) \<Rightarrow>
        m = manager \<and> dependency_matches rt inst ident old action identifier None)"

text \<open>A lookup whose path is not empty and does not itself end in an operator name.\<close>

definition plain_lookup :: "string \<Rightarrow> bool" where
  "plain_lookup l =
     (lookup_name_for_candidate l \<noteq> []
      \<and> lookup_name_for_candidate (lookup_name_for_candidate l) = lookup_name_for_candidate l)"

definition plain_dependency :: "dependency \<Rightarrow> bool" where
  "plain_dependency d =
     (case d of (m, action, identifier) \<Rightarrow>
        case parsed_params identifier of
          None \<Rightarrow> True
        | Some params \<Rightarrow>
            (if sort_lookups params \<noteq> []
             then list_all (\<lambda>l. lookup_name_for_candidate l = l) (sort_lookups params)
             else list_all (\<lambda>(l, v). plain_lookup l) params))"

lemma lookup_spec_lookup [simp]: "lookup (lookup_spec_from_key l) = l"
  by (simp add: lookup_spec_from_key_def Let_def)

lemma eq_not_scan [simp]: "''eq'' \<notin> set scan_operators"
  by (simp add: scan_operators_def)

lemma lookup_spec_eq:
  "operator (lookup_spec_from_key l) = ''eq'' \<Longrightarrow> lookup_name_for_candidate l = l"
  by (auto simp: lookup_name_for_candidate_def lookup_spec_from_key_def Let_def join_split_lookup
      split: if_splits)

lemma lookup_spec_scan:
  assumes "operator (lookup_spec_from_key l) \<noteq> ''eq''" "attr_path (lookup_spec_from_key l) \<noteq> []"
  shows "operator (lookup_spec_from_key l) \<in> set scan_operators"
    "l = lookup_name_for_candidate l @ ''__'' @ operator (lookup_spec_from_key l)"
  using spec_rejoins [OF refl assms(2)] assms(1) by (simp_all add: lookup_name_for_candidate_def)

lemma plan_members [simp]:
  "plan_simple (simple_plan d k) = {d}" "plan_composites (simple_plan d k) = {}" "plan_lookups (simple_plan d k) = {}"
  by (simp_all add: simple_plan_def empty_plan_def)

text \<open>The plan of a single-lookup dependency, and where a search for its lookup looks.\<close>

lemma single_plan_found:
  assumes k: "k \<in> plan_shards (single_lookup_plan (m, a, i) l)" and l: "plain_lookup l"
    and ck: "ck \<in> cache_set_members st k"
  shows "ck \<in> candidate_cache_keys_for_lookup st m a (lookup_name_for_candidate l)"
proof (cases "operator (lookup_spec_from_key l) = ''eq''")
  case True
  with k have "k = composite_lookup_shard_key m a (lookup_name_for_candidate l)"
    by (simp add: single_lookup_plan_def plan_shards_simple Let_def lookup_name_for_candidate_def)
  moreover have "lookup_name_for_candidate (lookup_name_for_candidate l) = lookup_name_for_candidate l"
    using l by (simp add: plain_lookup_def)
  ultimately show ?thesis using ck by (simp add: candidate_cache_keys_for_lookup_def Let_def)
next
  case False
  let ?op = "operator (lookup_spec_from_key l)" let ?c = "lookup_name_for_candidate l"
  have p: "attr_path (lookup_spec_from_key l) \<noteq> []" "lookup_name_for_candidate ?c = ?c"
    using l by (auto simp: plain_lookup_def lookup_name_for_candidate_def)
  from k False have "k = scan_lookup_shard_key m a l ?op"
    by (simp add: single_lookup_plan_def plan_shards_simple Let_def)
  then have "ck \<in> cache_set_members st (scan_lookup_shard_key m a (?c @ ''__'' @ ?op) ?op)"
    using ck lookup_spec_scan(2) [OF False p(1)] by simp
  then show ?thesis
    unfolding candidate_cache_keys_for_lookup_def p(2) Let_def
    using lookup_spec_scan(1) [OF False p(1)] by blast
qed

lemma composite_found:
  assumes "ck \<in> cache_set_members st (composite_lookup_shard_key m a l)" "lookup_name_for_candidate l = l"
  shows "ck \<in> candidate_cache_keys_for_lookup st m a l"
  using assms by (simp add: candidate_cache_keys_for_lookup_def Let_def)

lemma single_lookup_plan_simps [simp]:
  "plan_simple (single_lookup_plan (m, a, i) l) = {(m, a, i)}"
  "plan_lookups (single_lookup_plan (m, a, i) l) = {(m, a, lookup_name_for_candidate l)}"
  by (simp_all add: single_lookup_plan_def Let_def lookup_name_for_candidate_def)

lemma composite_plan_simps [simp]:
  "plan_composites (composite_plan (m, a, i) ls) = {(m, a, i)}"
  "plan_lookups (composite_plan (m, a, i) ls) = (\<lambda>l. (m, a, l)) ` set ls"
  by (simp_all add: composite_plan_def)

lemma filter_plan:
  "a \<in> {''filter'', ''exclude''} \<Longrightarrow> parsed_params i = Some params \<Longrightarrow>
     shard_keys_for_dependency (m, a, i) = params_plan (m, a, i) params"
  by (auto simp: shard_keys_for_dependency_def)

section \<open>Reading the represented store\<close>

lemma represents_members:
  "represents sha U st m \<Longrightarrow> m ck = Some ds \<Longrightarrow> d \<in> ds \<Longrightarrow> k \<in> plan_shards (shard_keys_for_dependency d) \<Longrightarrow>
     ck \<in> cache_set_members st k"
  using representsD(5) [of sha U st m k] plan_shards_shard_key by (fastforce simp: shards_of_def)

lemma represents_tracked:
  assumes "represents sha U st m" "m ck = Some ds" "d \<in> ds"
    "(manager, action, l) \<in> plan_lookups (shard_keys_for_dependency d)" "action \<in> {''filter'', ''exclude''}"
  shows "l \<in> tracked_lookup_names st manager"
proof -
  have "(manager, action, l) \<in> lookups_of ds" using assms(3,4) by (auto simp: lookups_of_def)
  from representsD(7) [OF assms(1,2) this] assms(5) show ?thesis
    by (auto simp: tracked_lookup_names_def)
qed

lemma represents_reverse:
  assumes "represents sha U st m" "m ck = Some ds"
  shows "stored_reverse st (reverse_membership_key sha ck) = Some (membership_of ck ds)"
proof -
  have "ck \<in> U" using representsD(1) [OF assms(1)] assms(2) by blast
  with representsD(4) [OF assms(1)] assms(2) show ?thesis by simp
qed

lemma membership_dependencies:
  "simple_dependencies (membership_of ck ds) = (\<Union>d\<in>ds. plan_simple (shard_keys_for_dependency d))"
  "composite_dependencies (membership_of ck ds) = (\<Union>d\<in>ds. plan_composites (shard_keys_for_dependency d))"
  by (simp_all add: membership_of_def reverse_membership_for_def)

lemma should_simple:
  assumes "represents sha U st m" "m ck = Some ds" "(manager, a, i) \<in> ds"
    "(manager, a, i) \<in> plan_simple (shard_keys_for_dependency (manager, a, i))"
    "dependency_matches rt inst ident old a i changed"
  shows "candidate_should_invalidate sha st rt manager inst ident old ck action changed"
proof -
  have "(manager, a, i) \<in> simple_dependencies (membership_of ck ds)"
    unfolding membership_dependencies using assms(3,4) by blast
  then show ?thesis
    unfolding candidate_should_invalidate_def represents_reverse [OF assms(1,2)] option.case
    using assms(5) by blast
qed

lemma should_composite:
  assumes "represents sha U st m" "m ck = Some ds" "(manager, a, i) \<in> ds"
    "(manager, a, i) \<in> plan_composites (shard_keys_for_dependency (manager, a, i))"
    "dependency_matches rt inst ident old a i changed"
  shows "candidate_should_invalidate sha st rt manager inst ident old ck a changed"
proof -
  have "(manager, a, i) \<in> composite_dependencies (membership_of ck ds)"
    unfolding membership_dependencies using assms(3,4) by blast
  then show ?thesis
    unfolding candidate_should_invalidate_def represents_reverse [OF assms(1,2)] option.case
    using assms(5) by blast
qed

section \<open>Every affected key is found\<close>

lemma in_lookup_candidates:
  assumes "l \<in> tracked_lookup_names st manager" "action \<in> {''filter'', ''exclude''}"
    "ck \<in> candidate_cache_keys_for_lookup st manager action l"
    "candidate_should_invalidate sha st rt manager inst ident old ck action (Some l)"
  shows "ck \<in> lookup_candidates sha st rt manager inst ident old"
  unfolding lookup_candidates_def using assms by blast

lemma sort_payloads_None:
  "sort_payloads params None = [] \<longleftrightarrow> sort_lookups params = []"
  "sort_lookups params = [] \<Longrightarrow> sort_payloads params changed = []"
  by (auto simp: sort_payloads_def sort_lookups_def filter_empty_conv)

lemma matches_without_sort:
  assumes "parsed_params i = Some params" "sort_lookups params = []"
  shows "dependency_matches rt inst ident old a i changed = dependency_matches rt inst ident old a i None"
  using assms sort_payloads_None(2) [OF assms(2)] by (simp add: dependency_matches_def)

lemma sort_lookups_set: "l \<in> set (sort_lookups params) \<longleftrightarrow> (\<exists>k v. (k, v) \<in> set params \<and> starts sort_prefix k
    \<and> l = drop (length sort_prefix) k)"
  by (force simp: sort_lookups_def)

lemma sort_payloads_set:
  "v \<in> set (sort_payloads params changed) \<longleftrightarrow> (\<exists>k. (k, v) \<in> set params \<and> starts sort_prefix k
    \<and> (case changed of None \<Rightarrow> True | Some c \<Rightarrow> drop (length sort_prefix) k = c))"
  by (force simp: sort_payloads_def)

lemma all_shard_found:
  "ck \<in> cache_set_members st (all_records_shard_key manager) \<Longrightarrow>
     ck \<in> invalidation_candidates sha st rt manager inst ident old"
  "ck \<in> cache_set_members st (request_query_shard_key manager) \<Longrightarrow>
     ck \<in> invalidation_candidates sha st rt manager inst ident old"
  by (simp_all add: invalidation_candidates_def all_records_cache_keys_def request_query_cache_keys_def)

lemma lookup_found:
  "ck \<in> lookup_candidates sha st rt manager inst ident old \<Longrightarrow>
     ck \<in> invalidation_candidates sha st rt manager inst ident old"
  by (simp add: invalidation_candidates_def)

lemma affected_sorted_found:
  assumes r: "represents sha U st m" and ck: "m ck = Some ds" and d: "(manager, a, i) \<in> ds"
    and a: "a \<in> {''filter'', ''exclude''}" and p: "parsed_params i = Some params" "params \<noteq> []"
    and s: "sort_lookups params \<noteq> []" and plain: "plain_dependency (manager, a, i)"
    and match: "dependency_matches rt inst ident old a i None"
  shows "ck \<in> lookup_candidates sha st rt manager inst ident old"
proof -
  have plan: "shard_keys_for_dependency (manager, a, i) = composite_plan (manager, a, i) (sort_lookups params)"
    using filter_plan [OF a p(1)] p(2) s by (simp add: params_plan_def)
  have "sort_payloads params None \<noteq> []" using s sort_payloads_None by simp
  then have "list_ex (payload_affected rt inst old) (sort_payloads params None)"
    using match a p by (auto simp: dependency_matches_def split: if_splits)
  then obtain k v where v: "(k, v) \<in> set params" "starts sort_prefix k" "payload_affected rt inst old v"
    unfolding list_ex_iff Bex_def sort_payloads_set by auto
  let ?l = "drop (length sort_prefix) k"
  have l: "?l \<in> set (sort_lookups params)" using v sort_lookups_set by blast
  have "v \<in> set (sort_payloads params (Some ?l))" unfolding sort_payloads_set using v by auto
  then have "list_ex (payload_affected rt inst old) (sort_payloads params (Some ?l))"
    "sort_payloads params (Some ?l) \<noteq> []"
    using v(3) by (auto simp: list_ex_iff)
  then have "dependency_matches rt inst ident old a i (Some ?l)"
    using a p by (auto simp: dependency_matches_def)
  then have "candidate_should_invalidate sha st rt manager inst ident old ck a (Some ?l)"
    by (intro should_composite [OF r ck d]) (simp_all add: plan)
  moreover have "?l \<in> tracked_lookup_names st manager"
    by (rule represents_tracked [OF r ck d _ a]) (use l in \<open>simp add: plan\<close>)
  moreover have "ck \<in> cache_set_members st (composite_lookup_shard_key manager a ?l)"
    by (rule represents_members [OF r ck d]) (use l in \<open>simp add: plan plan_shards_composite\<close>)
  moreover have "lookup_name_for_candidate ?l = ?l"
    using plain p s l by (simp add: plain_dependency_def list_all_iff)
  ultimately show ?thesis using a by (intro in_lookup_candidates composite_found)
qed

lemma affected_filter_found:
  assumes r: "represents sha U st m" and ck: "m ck = Some ds" and d: "(manager, a, i) \<in> ds"
    and a: "a \<in> {''filter'', ''exclude''}" and p: "parsed_params i = Some params" "params \<noteq> []"
    and s: "sort_lookups params = []" and plain: "plain_dependency (manager, a, i)"
    and match: "dependency_matches rt inst ident old a i None"
  shows "ck \<in> lookup_candidates sha st rt manager inst ident old"
proof -
  let ?l = "fst (hd params)" let ?c = "lookup_name_for_candidate ?l"
  have pl: "plain_lookup ?l"
    using plain p s by (cases params) (auto simp: plain_dependency_def)
  have match': "dependency_matches rt inst ident old a i (Some ?c)"
    using match matches_without_sort [OF p(1) s] by metis
  show ?thesis
  proof (cases "1 < length params")
    case True
    let ?ls = "map (\<lambda>(l, v). lookup_name_for_candidate l) params"
    have plan: "shard_keys_for_dependency (manager, a, i) = composite_plan (manager, a, i) ?ls"
      using filter_plan [OF a p(1)] p(2) s True by (simp add: params_plan_def)
    have l: "?c \<in> set ?ls" using p(2) by (cases params) auto
    have "candidate_should_invalidate sha st rt manager inst ident old ck a (Some ?c)"
      by (intro should_composite [OF r ck d _ match']) (simp add: plan)
    moreover have "?c \<in> tracked_lookup_names st manager"
      by (rule represents_tracked [OF r ck d _ a]) (use l in \<open>auto simp: plan\<close>)
    moreover have "ck \<in> cache_set_members st (composite_lookup_shard_key manager a ?c)"
      by (rule represents_members [OF r ck d]) (use l in \<open>auto simp: plan plan_shards_composite\<close>)
    ultimately show ?thesis
      using a pl by (intro in_lookup_candidates composite_found) (simp_all add: plain_lookup_def)
  next
    case False
    have plan: "shard_keys_for_dependency (manager, a, i) = single_lookup_plan (manager, a, i) ?l"
      using filter_plan [OF a p(1)] p(2) s False by (simp add: params_plan_def)
    have "candidate_should_invalidate sha st rt manager inst ident old ck a (Some ?c)"
      by (intro should_simple [OF r ck d _ match']) (simp add: plan)
    moreover have "?c \<in> tracked_lookup_names st manager"
      by (rule represents_tracked [OF r ck d _ a]) (simp add: plan)
    moreover obtain k where k: "k \<in> plan_shards (single_lookup_plan (manager, a, i) ?l)"
      by (cases "operator (lookup_spec_from_key ?l) = ''eq''")
        (auto simp: single_lookup_plan_def plan_shards_simple Let_def)
    then have "ck \<in> cache_set_members st k"
      by (intro represents_members [OF r ck d]) (simp add: plan)
    then have "ck \<in> candidate_cache_keys_for_lookup st manager a ?c"
      by (rule single_plan_found [OF k pl])
    ultimately show ?thesis using a by (intro in_lookup_candidates)
  qed
qed

lemma affected_found:
  assumes r: "represents sha U st m" and ck: "m ck = Some ds" and d: "d \<in> ds"
    and aff: "affected rt manager inst ident old d" and plain: "plain_dependency d"
  shows "ck \<in> invalidation_candidates sha st rt manager inst ident old"
proof -
  obtain a i where d_eq: "d = (manager, a, i)" and match: "dependency_matches rt inst ident old a i None"
    using aff by (auto simp: affected_def)
  have d': "(manager, a, i) \<in> ds" using d d_eq by simp
  have in_shard: "ck \<in> cache_set_members st k" if "shard_keys_for_dependency d = simple_plan d k" for k
    by (rule represents_members [OF r ck d]) (simp add: that plan_shards_simple)
  consider "a = ''all''" | "a = ''request_query''" | "a = ''identification''"
    | params where "a \<in> {''filter'', ''exclude''}" "parsed_params i = Some params"
    using match by (auto simp: dependency_matches_def split: if_splits option.splits)
  then show ?thesis
  proof cases
    case 1
    then show ?thesis using in_shard by (intro all_shard_found(1)) (simp add: d_eq shard_keys_for_dependency_def)
  next
    case 2
    then show ?thesis using in_shard by (intro all_shard_found(2)) (simp add: d_eq shard_keys_for_dependency_def)
  next
    case 3
    then have plan: "shard_keys_for_dependency d =
        simple_plan d (composite_lookup_shard_key manager ''filter'' ''identification'')"
      by (simp add: d_eq shard_keys_for_dependency_def)
    obtain v where v: "ident = Some v"
      using match 3 by (cases ident) (simp_all add: dependency_matches_def)
    have "lookup_name_for_candidate ''identification'' = ''identification''" by code_simp
    with in_shard [OF plan] have "ck \<in> candidate_cache_keys_for_lookup st manager ''filter'' ''identification''"
      by (rule composite_found)
    moreover have "candidate_should_invalidate sha st rt manager inst ident old ck ''identification'' None"
      by (rule should_simple [OF r ck d' _ match]) (simp add: plan [unfolded d_eq])
    ultimately show ?thesis by (simp add: invalidation_candidates_def identification_candidates_def v)
  next
    case 4
    show ?thesis
    proof (cases "params = []")
      case True
      then show ?thesis
        using in_shard 4 by (intro all_shard_found(1)) (simp add: d_eq filter_plan params_plan_def)
    next
      case False
      with affected_sorted_found [OF r ck d' 4 False _ plain [unfolded d_eq] match]
        affected_filter_found [OF r ck d' 4 False _ plain [unfolded d_eq] match]
      show ?thesis by (intro lookup_found) blast
    qed
  qed
qed

section \<open>What is deleted\<close>

definition app_keys :: "string set \<Rightarrow> bool" where
  "app_keys U = (\<forall>k\<in>U. \<not> metadata_key k)"

lemma shard_key_metadata: "shard_key k \<Longrightarrow> starts shard_prefix k"
  unfolding shard_key_def using starts_append by blast

lemma remove_elsewhere:
  assumes "represents sha U st m" "ck \<in> U" "\<not> starts shard_prefix k"
  shows "remove_cache_key_from_shards sha ck st k = st k"
proof -
  have k: "k \<noteq> reverse_registry_key" "k \<noteq> reverse_membership_key sha ck"
    using assms(3) starts_append by (auto simp: key_defs)
  have "k \<notin> fst ` (\<lambda>shard. (shard, ck)) ` shards_of ds" for ds
    using shards_of_shard_key shard_key_metadata assms(3) by fastforce
  with k representsD(4) [OF assms(1,2)] show ?thesis
    by (cases "m ck") (simp_all add: remove_cache_key_from_shards_def Let_def cache_set_discard_def
        cache_delete_def discard_elsewhere)
qed

lemma cache_delete_represents:
  assumes r: "represents sha U st m" and "ck \<in> U" "app_keys U"
  shows "represents sha U (cache_delete ck st) m"
  using r by (rule represents_other) (use assms in \<open>auto simp: cache_delete_def app_keys_def metadata_key_def\<close>)

lemma drop_key_represents:
  assumes "represents sha U st m" "ck \<in> U" "app_keys U"
  shows "represents sha U (drop_key sha ck st) (m(ck := None))"
  unfolding drop_key_def by (intro remove_refines cache_delete_represents assms)

lemma drop_key_at:
  assumes "represents sha U st m" "ck \<in> U" "app_keys U" "k \<in> U"
  shows "drop_key sha ck st k = (if k = ck then None else st k)"
proof -
  have "\<not> starts shard_prefix k" using assms(3,4) by (auto simp: app_keys_def metadata_key_def)
  from remove_elsewhere [OF cache_delete_represents [OF assms(1-3)] assms(2) this] show ?thesis
    by (simp add: drop_key_def cache_delete_def)
qed

lemma drop_list:
  assumes "represents sha U st m" "set cks \<subseteq> U" "app_keys U"
  shows "represents sha U (fold (drop_key sha) cks st) (m |` (- set cks))
    \<and> (\<forall>k\<in>U. fold (drop_key sha) cks st k = (if k \<in> set cks then None else st k))"
  using assms
proof (induction cks arbitrary: st m)
  case (Cons ck cks)
  have ck: "ck \<in> U" using Cons.prems(2) by simp
  have e: "m(ck := None) |` (- set cks) = m |` (- set (ck # cks))"
    by (auto simp: restrict_map_def fun_eq_iff)
  have "set cks \<subseteq> U" using Cons.prems(2) by simp
  from Cons.IH [OF drop_key_represents [OF Cons.prems(1) ck Cons.prems(3)] this Cons.prems(3)]
  have "represents sha U (fold (drop_key sha) (ck # cks) st) (m |` (- set (ck # cks)))"
    "\<forall>k\<in>U. fold (drop_key sha) (ck # cks) st k =
       (if k \<in> set cks then None else drop_key sha ck st k)"
    unfolding e fold_simps by blast+
  then show ?case
    using drop_key_at [OF Cons.prems(1) ck Cons.prems(3)] by (intro conjI) auto
qed (simp add: restrict_map_def)

lemma shard_members_dom:
  "represents sha U st m \<Longrightarrow> shard_key k \<Longrightarrow> cache_set_members st k \<subseteq> dom m"
  using representsD(5) by fastforce

lemma candidates_dom:
  assumes "represents sha U st m"
  shows "invalidation_candidates sha st rt manager inst ident old \<subseteq> dom m"
proof -
  have c: "candidate_cache_keys_for_lookup st manager a l \<subseteq> dom m" for a l
    unfolding candidate_cache_keys_for_lookup_def Let_def
    using shard_members_dom [OF assms] shard_key_intros by (intro Un_least UN_least) blast+
  have i: "identification_candidates sha st rt manager inst ident old \<subseteq> dom m"
    unfolding identification_candidates_def using c by (cases ident) auto
  have l: "lookup_candidates sha st rt manager inst ident old \<subseteq> dom m"
    unfolding lookup_candidates_def using c by (intro UN_least) blast
  show ?thesis
    unfolding invalidation_candidates_def request_query_cache_keys_def all_records_cache_keys_def
    using i l shard_members_dom [OF assms] shard_key_intros by (intro Un_least) blast+
qed

lemma invalidation_result:
  assumes r: "represents sha U st m" and U: "app_keys U" and fin: "finite (dom m)"
    and res: "generic_cache_invalidation_from_shards sha rt manager inst ident old st = (st', cks)"
  shows "represents sha U st' (m |` (- cks))"
    "k \<in> U \<Longrightarrow> st' k = (if k \<in> cks then None else st k)"
    "cks = invalidation_candidates sha st rt manager inst ident old"
proof -
  show cks: "cks = invalidation_candidates sha st rt manager inst ident old"
    using res by (simp add: generic_cache_invalidation_from_shards_def Let_def)
  then have sub: "cks \<subseteq> dom m" using candidates_dom [OF r] by simp
  then have f: "finite cks" using fin by (rule finite_subset)
  have st': "st' = fold (drop_key sha) (sorted_list_of_set cks) st"
    using res cks by (simp add: generic_cache_invalidation_from_shards_def drop_keys_def Let_def)
  have "set (sorted_list_of_set cks) \<subseteq> U"
    using sub representsD(1) [OF r] f by simp
  from drop_list [OF r this U] show "represents sha U st' (m |` (- cks))"
    "k \<in> U \<Longrightarrow> st' k = (if k \<in> cks then None else st k)"
    using f by (simp_all add: st')
qed


section \<open>Nothing else is deleted\<close>

lemma shard_keys_distinct:
  "all_records_shard_key x \<noteq> scan_lookup_shard_key m a l op" "all_records_shard_key x \<noteq> composite_lookup_shard_key m a l"
  "all_records_shard_key x \<noteq> request_query_shard_key m" "request_query_shard_key x \<noteq> scan_lookup_shard_key m a l op"
  "request_query_shard_key x \<noteq> composite_lookup_shard_key m a l" "request_query_shard_key x \<noteq> all_records_shard_key m"
  "all_records_shard_key x = all_records_shard_key m \<longleftrightarrow> x = m"
  "request_query_shard_key x = request_query_shard_key m \<longleftrightarrow> x = m"
  by (simp_all add: key_defs)

lemma params_plan_special:
  "all_records_shard_key x \<in> plan_shards (params_plan (m, a, i) params) \<Longrightarrow> x = m \<and> params = []"
  "request_query_shard_key x \<notin> plan_shards (params_plan (m, a, i) params)"
proof -
  have c: "all_records_shard_key x \<notin> plan_shards (composite_plan (m, a, i) ls)"
    "request_query_shard_key x \<notin> plan_shards (composite_plan (m, a, i) ls)" for ls
    by (auto simp: plan_shards_composite shard_keys_distinct)
  have s: "all_records_shard_key x \<notin> plan_shards (single_lookup_plan (m, a, i) l)"
    "request_query_shard_key x \<notin> plan_shards (single_lookup_plan (m, a, i) l)" for l
    by (simp_all add: single_lookup_plan_def Let_def plan_shards_simple shard_keys_distinct)
  show "all_records_shard_key x \<in> plan_shards (params_plan (m, a, i) params) \<Longrightarrow> x = m \<and> params = []"
    unfolding params_plan_def using c(1) s(1)
    by (simp add: plan_shards_simple shard_keys_distinct split: if_split_asm)
  show "request_query_shard_key x \<notin> plan_shards (params_plan (m, a, i) params)"
    unfolding params_plan_def using c(2) s(2) by (simp add: plan_shards_simple shard_keys_distinct)
qed

lemma action_cases:
  obtains "a = ''all''" | "a = ''request_query''" | "a = ''identification''"
  | "a \<notin> {''all'', ''request_query'', ''identification'', ''filter'', ''exclude''}"
  | "a \<in> {''filter'', ''exclude''}"
proof (cases "a \<in> {''filter'', ''exclude''}")
  case False
  note n = this
  show ?thesis
  proof (cases "a \<in> {''all'', ''request_query'', ''identification''}")
    case True
    then show ?thesis by (elim insertE emptyE) (fact that(1) that(2) that(3))+
  next
    case False
    with n have "a \<notin> {''all'', ''request_query'', ''identification'', ''filter'', ''exclude''}" by simp
    then show ?thesis by (rule that(4))
  qed
qed (rule that(5))

lemma special_plan:
  assumes "k \<in> plan_shards (shard_keys_for_dependency (mg, a, i))"
    "k = all_records_shard_key manager \<or> k = request_query_shard_key manager"
  shows "mg = manager \<and> dependency_matches rt inst ident old a i None"
proof -
  have e: "k \<notin> plan_shards empty_plan" by (simp add: empty_plan_def)
  show ?thesis
  proof (cases a rule: action_cases)
    case 5
    show ?thesis
    proof (cases "parsed_params i")
      case None
      with 5 assms(1) e show ?thesis by (auto simp: shard_keys_for_dependency_def)
    next
      case (Some params)
      from filter_plan [OF 5 Some] assms params_plan_special have "manager = mg \<and> params = []" by metis
      with 5 Some show ?thesis by (auto simp: dependency_matches_def)
    qed
  next
    case 1
    with assms(1) have "k = all_records_shard_key mg"
      by (simp add: shard_keys_for_dependency_def plan_shards_simple)
    with 1 assms(2) show ?thesis by (simp add: shard_keys_distinct dependency_matches_def)
  next
    case 2
    with assms(1) have "k = request_query_shard_key mg"
      by (simp add: shard_keys_for_dependency_def plan_shards_simple)
    with 2 assms(2) shard_keys_distinct(6) show ?thesis
      by (simp add: shard_keys_distinct dependency_matches_def)
  next
    case 3
    with assms(1) have "k = composite_lookup_shard_key mg ''filter'' ''identification''"
      by (simp add: shard_keys_for_dependency_def plan_shards_simple)
    with assms(2) shard_keys_distinct(2,5) show ?thesis by metis
  next
    case 4
    with assms(1) e show ?thesis by (simp add: shard_keys_for_dependency_def)
  qed
qed

definition concerns ::
  "'v runtime \<Rightarrow> string \<Rightarrow> 'v \<Rightarrow> dep_value option \<Rightarrow> (string \<rightharpoonup> 'v) \<Rightarrow> dependency \<Rightarrow> bool" where
  "concerns rt manager inst ident old d =
     (case d of (m, action, identifier) \<Rightarrow>
        m = manager \<and> (\<exists>changed. dependency_matches rt inst ident old action identifier changed))"

lemma plan_only_self:
  "x \<in> plan_simple (shard_keys_for_dependency d) \<union> plan_composites (shard_keys_for_dependency d) \<Longrightarrow> x = d"
proof -
  assume x: "x \<in> plan_simple (shard_keys_for_dependency d) \<union> plan_composites (shard_keys_for_dependency d)"
  obtain m a i where d: "d = (m, a, i)" by (cases d) auto
  have e: "plan_simple empty_plan = {}" "plan_composites empty_plan = {}" by (simp_all add: empty_plan_def)
  have p: "plan_simple (params_plan (m, a, i) ps) \<union> plan_composites (params_plan (m, a, i) ps) \<subseteq> {(m, a, i)}"
    for ps
  proof -
    have "plan_simple (composite_plan (m, a, i) ls) = {}" "plan_composites (single_lookup_plan (m, a, i) l) = {}" for ls l
      by (simp_all add: composite_plan_def single_lookup_plan_def Let_def)
    then show ?thesis unfolding params_plan_def by simp
  qed
  have s: "x = d" if "shard_keys_for_dependency d = simple_plan d k" for k
    using x that by simp
  show "x = d"
  proof (cases a rule: action_cases)
    case 5
    show ?thesis
    proof (cases "parsed_params i")
      case None
      with 5 x e show ?thesis by (auto simp: d shard_keys_for_dependency_def)
    next
      case (Some ps)
      from x p [of ps] show ?thesis unfolding d filter_plan [OF 5 Some] by blast
    qed
  next
    case 1
    show ?thesis by (rule s) (simp add: 1 d shard_keys_for_dependency_def)
  next
    case 2
    show ?thesis by (rule s) (simp add: 2 d shard_keys_for_dependency_def)
  next
    case 3
    show ?thesis by (rule s) (simp add: 3 d shard_keys_for_dependency_def)
  next
    case 4
    with x e show ?thesis by (simp add: d shard_keys_for_dependency_def)
  qed
qed

lemma should_concerns:
  assumes r: "represents sha U st m" and ck: "m ck = Some ds"
    and s: "candidate_should_invalidate sha st rt manager inst ident old ck action changed"
  shows "\<exists>d\<in>ds. concerns rt manager inst ident old d"
proof -
  from s obtain mg a i where x: "(mg, a, i) \<in> simple_dependencies (membership_of ck ds)
      \<union> composite_dependencies (membership_of ck ds)" "mg = manager"
    "dependency_matches rt inst ident old a i changed"
    unfolding candidate_should_invalidate_def represents_reverse [OF r ck] option.case by blast
  then have "(mg, a, i) \<in> ds" unfolding membership_dependencies using plan_only_self by blast
  with x(2,3) show ?thesis by (auto simp: concerns_def)
qed

lemma special_concerns:
  assumes r: "represents sha U st m" and ck: "ck \<in> cache_set_members st k"
    and k: "k = all_records_shard_key manager \<or> k = request_query_shard_key manager"
  shows "\<exists>ds d. m ck = Some ds \<and> d \<in> ds \<and> concerns rt manager inst ident old d"
proof -
  have "shard_key k" using k by auto
  from representsD(5) [OF r this] ck obtain ds where ds: "m ck = Some ds" "k \<in> shards_of ds" by auto
  then obtain mg a i where d: "(mg, a, i) \<in> ds" "k \<in> plan_shards (shard_keys_for_dependency (mg, a, i))"
    by (auto simp: shards_of_def)
  from special_plan [OF d(2) k, of rt inst ident old]
  have "mg = manager" "concerns rt manager inst ident old (mg, a, i)" by (auto simp: concerns_def)
  with d(1) ds(1) show ?thesis by blast
qed

text \<open>C21: a cached value is deleted only if one of its recorded dependencies is on the changed
  manager and matches the change, or always matches; everything else stays as it was.\<close>

theorem invalidation_precise:
  assumes "represents sha U st m" "app_keys U" "finite (dom m)"
    "generic_cache_invalidation_from_shards sha rt manager inst ident old st = (st', cks)"
    "ck \<in> U" "st' ck \<noteq> st ck \<or> ck \<in> cks"
  shows "\<exists>ds d. m ck = Some ds \<and> d \<in> ds \<and> concerns rt manager inst ident old d"
proof -
  note r = assms(1)
  have "ck \<in> invalidation_candidates sha st rt manager inst ident old"
    using invalidation_result [OF assms(1-4)] assms(5,6) by (metis (full_types))
  note found = this
  from found have cand: "ck \<in> request_query_cache_keys st manager \<or> ck \<in> all_records_cache_keys st manager
      \<or> ck \<in> identification_candidates sha st rt manager inst ident old
      \<or> ck \<in> lookup_candidates sha st rt manager inst ident old"
    unfolding invalidation_candidates_def by blast
  from found have "ck \<in> dom m" by (rule set_mp [OF candidates_dom [OF r]])
  then obtain ds where ds: "m ck = Some ds" by blast
  from cand consider "ck \<in> request_query_cache_keys st manager" | "ck \<in> all_records_cache_keys st manager"
    | "ck \<in> identification_candidates sha st rt manager inst ident old"
    | "ck \<in> lookup_candidates sha st rt manager inst ident old" by blast
  then show ?thesis
  proof cases
    case 1
    then show ?thesis unfolding request_query_cache_keys_def by (rule special_concerns [OF r]) simp
  next
    case 2
    then show ?thesis unfolding all_records_cache_keys_def by (rule special_concerns [OF r]) simp
  next
    case 3
    then have "candidate_should_invalidate sha st rt manager inst ident old ck ''identification'' None"
      by (cases ident) (simp_all add: identification_candidates_def)
    from should_concerns [OF r ds this] ds show ?thesis by blast
  next
    case 4
    then obtain action l where
      "candidate_should_invalidate sha st rt manager inst ident old ck action (Some l)"
      unfolding lookup_candidates_def by blast
    from should_concerns [OF r ds this] ds show ?thesis by blast
  qed
qed

section \<open>The captured old values\<close>

fun path_value :: "'v runtime \<Rightarrow> 'v \<Rightarrow> string list \<Rightarrow> 'v option" where
  "path_value rt v [] = Some v"
| "path_value rt v (a # path) =
     (case attribute rt v a of None \<Rightarrow> None | Some w \<Rightarrow> path_value rt w path)"

lemma current_value_path:
  "current_value_for_path rt v path = (case path_value rt v path of Some w \<Rightarrow> w | None \<Rightarrow> none_value rt)"
  by (induction path arbitrary: v) (auto split: option.splits)

lemma path_value_append:
  "path_value rt v (p @ q) = (case path_value rt v p of None \<Rightarrow> None | Some w \<Rightarrow> path_value rt w q)"
  by (induction p arbitrary: v) (auto split: option.splits)

lemma captured_entry_cases:
  "path_value rt inst passed = Some current \<Longrightarrow>
     (case captured_entry rt current passed path l of (k, v) \<Rightarrow>
        (case path_value rt inst (passed @ path) of
           Some w \<Rightarrow> k = l \<and> v = w
         | None \<Rightarrow> \<exists>p q. passed @ path = p @ q \<and> q \<noteq> [] \<and> k = join_lookup p \<and> path_value rt inst p = Some v))"
proof (induction path arbitrary: passed current)
  case (Cons a path)
  show ?case
  proof (cases "attribute rt current a")
    case None
    with Cons.prems have "path_value rt inst (passed @ a # path) = None"
      by (simp add: path_value_append)
    moreover have "passed @ a # path = passed @ (a # path) \<and> a # path \<noteq> []" by simp
    ultimately show ?thesis
      using None Cons.prems by (simp only: captured_entry.simps option.case prod.case) blast
  next
    case (Some w)
    with Cons.prems have "path_value rt inst (passed @ [a]) = Some w"
      by (simp add: path_value_append)
    have e: "(passed @ [a]) @ path = passed @ a # path" by simp
    from Cons.IH [OF \<open>path_value rt inst (passed @ [a]) = Some w\<close>] show ?thesis
      unfolding captured_entry.simps Some option.case e .
  qed
qed (simp add: path_value_append)

text \<open>Splitting a path that is a proper prefix of a split lookup gives the prefix back.\<close>

lemma split_lookup_head:
  "split_lookup s = p # q # ps \<Longrightarrow>
     split_lookup p = [p] \<and> s = p @ ''__'' @ join_lookup (q # ps) \<and> split_lookup (join_lookup (q # ps)) = q # ps
       \<and> (p = [] \<or> last p \<noteq> CHR ''_'')"
proof (induction s arbitrary: p rule: split_lookup.induct)
  case (3 c d r)
  show ?case
  proof (cases "c = CHR ''_'' \<and> d = CHR ''_''")
    case True
    with "3.prems" have "p = []" "split_lookup r = q # ps" by auto
    with True show ?thesis using join_split_lookup [of r] by simp
  next
    case False
    obtain p' ps' where s: "split_lookup (d # r) = p' # ps'" by (cases "split_lookup (d # r)") auto
    with False "3.prems" have p: "p = c # p'" "ps' = q # ps" by auto
    from "3.IH"(2) [OF False] s p have ih: "split_lookup p' = [p']"
      "d # r = p' @ ''__'' @ join_lookup (q # ps)" "split_lookup (join_lookup (q # ps)) = q # ps"
      "p' = [] \<or> last p' \<noteq> CHR ''_''" by auto
    have "c \<noteq> CHR ''_'' \<or> p' \<noteq> []"
      using False ih(2) by (cases p') auto
    moreover have "split_lookup (c # p') = [c # p']"
    proof (cases p')
      case (Cons x xs)
      with ih(2) have "x = d" by simp
      with False Cons ih(1) show ?thesis by simp
    qed simp
    ultimately show ?thesis using p ih by auto
  qed
qed simp_all

lemma split_append:
  assumes "split_lookup p = [p]" "p = [] \<or> last p \<noteq> CHR ''_''"
  shows "split_lookup (p @ ''__'' @ s) = p # split_lookup s"
  using assms
proof (induction p rule: split_lookup.induct)
  case (2 c)
  then have "c \<noteq> CHR ''_''" by simp
  then show ?case by simp
next
  case (3 c d r)
  obtain x xs where s: "split_lookup (d # r) = x # xs" by (cases "split_lookup (d # r)") auto
  have nd: "\<not> (c = CHR ''_'' \<and> d = CHR ''_'')"
  proof
    assume "c = CHR ''_'' \<and> d = CHR ''_''"
    with "3.prems"(1) show False by simp
  qed
  with "3.prems"(1) s have "split_lookup (d # r) = [d # r]" by auto
  moreover have "d # r = [] \<or> last (d # r) \<noteq> CHR ''_''" using "3.prems"(2) by simp
  ultimately have "split_lookup ((d # r) @ ''__'' @ s) = (d # r) # split_lookup s"
    by (rule "3.IH"(2) [OF nd])
  with nd show ?case by simp
qed simp

lemma split_lookup_prefix:
  "split_lookup s = p @ q \<Longrightarrow> p \<noteq> [] \<Longrightarrow> q \<noteq> [] \<Longrightarrow> split_lookup (join_lookup p) = p"
proof (induction p arbitrary: s)
  case (Cons x p)
  obtain y ys where y: "p @ q = y # ys" using Cons.prems(3) by (cases "p @ q") auto
  with Cons.prems(1) have "split_lookup s = x # y # ys" by simp
  note h = split_lookup_head [OF this]
  show ?case
  proof (cases "p = []")
    case False
    have "split_lookup (join_lookup (y # ys)) = p @ q" using h y by simp
    from Cons.IH [OF this False Cons.prems(3)] h
    have "split_lookup (x @ ''__'' @ join_lookup p) = x # p"
      using split_append [of x "join_lookup p"] by metis
    then show ?thesis unfolding join_lookup_Cons [OF False] .
  qed (use h in simp)
qed simp

lemma captured_sound:
  assumes "captured_entry rt inst [] (split_lookup l) l = (k, v)" "k \<noteq> []"
  shows "path_value rt inst (split_lookup k) = Some v"
proof -
  note c = captured_entry_cases [of rt inst "[]" inst "split_lookup l" l, unfolded assms(1), simplified]
  show ?thesis
  proof (cases "path_value rt inst (split_lookup l)")
    case (Some w)
    with c show ?thesis by simp
  next
    case None
    with c obtain p q where p: "split_lookup l = p @ q" "q \<noteq> []" "k = join_lookup p"
      "path_value rt inst p = Some v" by auto
    then have "p \<noteq> []" using assms(2) by auto
    from split_lookup_prefix [OF p(1) this p(2)] p show ?thesis by simp
  qed
qed

lemma captured_present:
  "path_value rt inst (split_lookup l) = Some w \<Longrightarrow> captured_entry rt inst [] (split_lookup l) l = (l, w)"
  using captured_entry_cases [of rt inst "[]" inst "split_lookup l" l] by (simp split: prod.splits)

text \<open>Every captured lookup has the value its path has on the object, \<open>None\<close> where the path
  breaks off, whatever the other captured lookups are.\<close>

lemma capture_correct:
  assumes "l \<in> set lookups" "l \<noteq> []"
  shows "(case capture_old_values rt inst lookups l of Some v \<Rightarrow> v | None \<Rightarrow> none_value rt)
    = current_value_for_path rt inst (split_lookup l)"
proof -
  let ?step = "\<lambda>l vals. case captured_entry rt inst [] (split_lookup l) l of (k, v) \<Rightarrow> vals(k \<mapsto> v)"
  have sound: "fold ?step ls vals k = Some v \<Longrightarrow> k \<noteq> [] \<Longrightarrow>
      (\<And>k v. vals k = Some v \<Longrightarrow> k \<noteq> [] \<Longrightarrow> path_value rt inst (split_lookup k) = Some v) \<Longrightarrow>
      path_value rt inst (split_lookup k) = Some v" for ls vals k v
  proof (induction ls arbitrary: vals)
    case (Cons x ls)
    obtain k' v' where e: "captured_entry rt inst [] (split_lookup x) x = (k', v')" by fastforce
    have step: "?step x vals = vals(k' \<mapsto> v')" by (simp add: e)
    show ?case
    proof (rule Cons.IH)
      show "fold ?step ls (vals(k' \<mapsto> v')) k = Some v"
        using Cons.prems(1) unfolding fold_simps step .
      show "path_value rt inst (split_lookup k2) = Some v2"
        if "(vals(k' \<mapsto> v')) k2 = Some v2" "k2 \<noteq> []" for k2 v2
        using that captured_sound [OF e] Cons.prems(3) by (simp split: if_splits)
    qed (rule Cons.prems(2))
  qed simp
  have keep: "vals k \<noteq> None \<Longrightarrow> fold ?step ls vals k \<noteq> None" for ls vals k
    by (induction ls arbitrary: vals) (auto split: prod.splits)
  have present: "x \<in> set ls \<Longrightarrow> path_value rt inst (split_lookup x) = Some w \<Longrightarrow> fold ?step ls vals x \<noteq> None"
    for ls vals x w
  proof (induction ls arbitrary: vals)
    case (Cons y ls)
    show ?case
    proof (cases "x = y")
      case True
      then have "fold ?step (y # ls) vals = fold ?step ls (vals(x \<mapsto> w))"
        using captured_present [OF Cons.prems(2)] by simp
      with keep [of "vals(x \<mapsto> w)" x ls] show ?thesis by (simp only: fun_upd_same) blast
    next
      case False
      with Cons show ?thesis by simp
    qed
  qed simp
  show ?thesis
  proof (cases "path_value rt inst (split_lookup l)")
    case None
    then have "capture_old_values rt inst lookups l = None"
      using sound [of lookups "\<lambda>k. None" l] assms(2) by (cases "capture_old_values rt inst lookups l")
        (auto simp: capture_old_values_def)
    with None show ?thesis by (simp add: current_value_path)
  next
    case (Some w)
    obtain v where v: "capture_old_values rt inst lookups l = Some v"
      using present [OF assms(1) Some] by (auto simp: capture_old_values_def)
    then have "path_value rt inst (split_lookup l) = Some v"
      using sound [of lookups "\<lambda>k. None" l v] assms(2) by (simp add: capture_old_values_def)
    with v show ?thesis by (simp add: current_value_path)
  qed
qed

section \<open>From the change to the cache\<close>

text \<open>A row matches the parameters of a filter when every lookup, read from the row, matches.\<close>

definition row_matches :: "'v runtime \<Rightarrow> 'v \<Rightarrow> (string \<times> jvalue) list \<Rightarrow> bool" where
  "row_matches rt row params =
     list_all (\<lambda>(l, expected).
       matches_lookup_value rt (operator (lookup_spec_from_key l))
         (current_value_for_path rt row (attr_path (lookup_spec_from_key l)))
         (serialize_normalized_value (of_json expected))) params"

lemma params_match_new: "params_match rt inst old params False = row_matches rt inst params"
proof (induction params)
  case (Cons p params)
  obtain l e where p: "p = (l, e)" by (cases p) auto
  have "value_for_lookup rt inst old l False = current_value_for_path rt inst (attr_path (lookup_spec_from_key l))"
    by (simp add: value_for_lookup_def Let_def)
  with Cons p show ?case by (simp add: row_matches_def Let_def)
qed (simp add: row_matches_def)

lemma spec_path_split:
  assumes "lookup_name_for_candidate l \<noteq> []"
  shows "split_lookup (lookup_name_for_candidate l) = attr_path (lookup_spec_from_key l)"
proof (cases "operator (lookup_spec_from_key l) = ''eq''")
  case True
  then have "attr_path (lookup_spec_from_key l) = split_lookup l"
    by (auto simp: lookup_spec_from_key_def Let_def split: if_splits)
  then show ?thesis by (simp add: lookup_name_for_candidate_def join_split_lookup)
next
  case False
  then have a: "attr_path (lookup_spec_from_key l) = butlast (split_lookup l)"
    by (auto simp: lookup_spec_from_key_def Let_def split: if_splits)
  have "butlast (split_lookup l) \<noteq> []"
    using assms a by (auto simp: lookup_name_for_candidate_def)
  moreover have "split_lookup l = butlast (split_lookup l) @ [last (split_lookup l)]" by simp
  ultimately show ?thesis
    using split_lookup_prefix [of l "butlast (split_lookup l)" "[last (split_lookup l)]"]
    by (simp add: a lookup_name_for_candidate_def)
qed

lemma params_match_old:
  assumes "list_all (\<lambda>(l, v). plain_lookup l \<and> lookup_name_for_candidate l \<in> set lookups) params"
  shows "params_match rt after (capture_old_values rt before lookups) params True = row_matches rt before params"
  using assms
proof (induction params)
  case (Cons p params)
  obtain l e where p: "p = (l, e)" by (cases p) auto
  let ?n = "lookup_name_for_candidate l"
  have n: "?n \<noteq> []" "?n \<in> set lookups" using Cons.prems p by (auto simp: plain_lookup_def)
  have "value_for_lookup rt after (capture_old_values rt before lookups) l True
      = current_value_for_path rt before (attr_path (lookup_spec_from_key l))"
    using capture_correct [OF n(2,1), of rt before] spec_path_split [OF n(1)]
    by (simp add: value_for_lookup_def Let_def lookup_name_for_candidate_def)
  with Cons p show ?case by (simp add: row_matches_def Let_def)
qed (simp add: row_matches_def)

lemma filter_lookups_tracked:
  assumes r: "represents sha U st m" and ck: "m ck = Some ds" and d: "(manager, a, i) \<in> ds"
    and a: "a \<in> {''filter'', ''exclude''}" and p: "parsed_params i = Some params" "sort_lookups params = []"
    and l: "(l, v) \<in> set params"
  shows "lookup_name_for_candidate l \<in> tracked_lookup_names st manager"
proof (rule represents_tracked [OF r ck d _ a])
  have ne: "params \<noteq> []" using l by auto
  show "(manager, a, lookup_name_for_candidate l) \<in> plan_lookups (shard_keys_for_dependency (manager, a, i))"
  proof (cases "1 < length params")
    case True
    have "lookup_name_for_candidate l \<in> set (map (\<lambda>(l, v). lookup_name_for_candidate l) params)"
      using l by force
    then show ?thesis
      using filter_plan [OF a p(1)] ne p(2) True by (simp add: params_plan_def)
  next
    case False
    with l ne have "params = [(l, v)]" by (cases params) auto
    then show ?thesis using filter_plan [OF a p(1)] ne p(2) by (simp add: params_plan_def)
  qed
qed


section \<open>A task that is closed\<close>

definition demo_runtime :: "jvalue runtime" where
  "demo_runtime = \<lparr>kind = (\<lambda>v. if v = JNull then KNone else KOther), repr = json_dumps, str = json_dumps,
     equals = (=), greater = (\<lambda>v w. False), greater_eq = (=), less_than = (\<lambda>v w. False), less_than_eq = (=),
     datetime_fromisoformat = (\<lambda>t. None), with_tzinfo_of = (\<lambda>s v. v), without_tzinfo = (\<lambda>v. v),
     date_fromisoformat = (\<lambda>t. None), of_bool = JBool, construct = (\<lambda>s raw. Some raw),
     as_instance = (\<lambda>s raw. None), construct_state = (\<lambda>s ms. None), construct_pair = (\<lambda>s m u. None),
     json_repr = json_dumps, json_str = json_dumps, regex_search = (\<lambda>p t. None),
     attribute = (\<lambda>v a. case v of JObject ms \<Rightarrow> od_get ms a | _ \<Rightarrow> None), none_value = JNull\<rparr>"

definition demo_store :: "nat cache_store" where
  "demo_store = (record_cache_dependencies id ''k'' {demo_filter} (\<lambda>k. None))(''k'' \<mapsto> Stored 7)"

definition demo_task :: "string \<Rightarrow> jvalue" where
  "demo_task status = JObject [(''status'', JText status)]"

lemma demo_represents: "represents id {''k''} demo_store [''k'' \<mapsto> {demo_filter}]"
proof -
  have "represents id {''k''} (record_many_cache_dependencies id [(''k'', {demo_filter})] (\<lambda>k. None))
      (spec_record [(''k'', {demo_filter})] (\<lambda>ck. None))"
    by (intro record_represents represents_empty) simp_all
  moreover have "spec_record [(''k'', {demo_filter})] (\<lambda>ck. None) = [''k'' \<mapsto> {demo_filter}]"
    by (simp add: spec_record_def normalized_entries_def)
  ultimately have r: "represents id {''k''} (record_cache_dependencies id ''k'' {demo_filter} (\<lambda>k. None))
      [''k'' \<mapsto> {demo_filter}]"
    by (simp add: record_cache_dependencies_def)
  show ?thesis unfolding demo_store_def
    by (rule represents_other [OF r]) (auto simp: legacy_key_def shard_prefix_def starts_def)
qed

lemma demo_app_keys: "app_keys {''k''}"
  by (simp add: app_keys_def metadata_key_def legacy_key_def shard_prefix_def starts_def)

lemma demo_params: "parsed_params ''{\"status\": \"open\"}'' = Some [(''status'', JText ''open'')]"
  by code_simp

lemma demo_tracked: "tracked_lookup_names demo_store ''Task'' = {''status''}"
  by code_simp

lemma demo_facts:
  "sort_lookups [(''status'', JText ''open'')] = []" "plain_lookup ''status''"
  "row_matches demo_runtime (demo_task ''open'') [(''status'', JText ''open'')]"
  "\<not> row_matches demo_runtime (demo_task ''done'') [(''status'', JText ''open'')]"
  by code_simp+

definition demo_old :: "string \<rightharpoonup> jvalue" where
  "demo_old = capture_old_values demo_runtime (demo_task ''open'') [''status'']"

definition demo_result :: "nat cache_store \<times> string set" where
  "demo_result = generic_cache_invalidation_from_shards id demo_runtime ''Task'' (demo_task ''done'') None
     demo_old demo_store"

lemma demo_affected: "affected demo_runtime ''Task'' (demo_task ''done'') None demo_old demo_filter"
  by code_simp

lemma demo_plain: "plain_dependency demo_filter"
  by code_simp


theorem invalidation_precise_witness:
  "\<exists>ds d. [''k'' \<mapsto> {demo_filter}] ''k'' = Some ds \<and> d \<in> ds
     \<and> concerns demo_runtime ''Task'' (demo_task ''done'') None demo_old d"
proof (rule invalidation_precise [OF demo_represents demo_app_keys, where ck = "''k''"])
  show "generic_cache_invalidation_from_shards id demo_runtime ''Task'' (demo_task ''done'') None demo_old
      demo_store = (fst demo_result, snd demo_result)" by (simp add: demo_result_def)
  have "''k'' \<in> invalidation_candidates id demo_store demo_runtime ''Task'' (demo_task ''done'') None demo_old"
    by (rule affected_found [OF demo_represents _ _ demo_affected demo_plain, of "''k''" "{demo_filter}"])
      simp_all
  then show "fst demo_result ''k'' \<noteq> demo_store ''k'' \<or> ''k'' \<in> snd demo_result"
    by (simp add: demo_result_def generic_cache_invalidation_from_shards_def Let_def)
qed simp_all


section \<open>Paths that end in an operator name\<close>

text \<open>A filter on an attribute that is itself named like an operator, with an explicit operator:
  \<open>contains__in\<close> is registered under \<open>contains\<close>, but the search normalises that name once more.\<close>

definition operator_named_filter :: dependency where
  "operator_named_filter = (''Task'', ''filter'', ''{\"contains__in\": [\"open\"]}'')"


end
