(* ===== verification/DepCache.thy ===== *)
theory DepCache
  imports DepShards
begin

text \<open>
  Dependency-cache entries and how they are read
  (\<open>src/general_manager/cache/dependency_cache.py\<close>): versioned entries, entries in the older
  split layout, and the prefetch bundles.

  A cached Python object is an \<open>obj\<close>: an entry, a bundle (whose mapping is missing when the
  field is no mapping), a collection of dependency tuples or of strings, or any other value. A backend is a map
  from keys to objects; \<open>get_many\<close> reads it at several keys.
\<close>

section \<open>Entries and bundles\<close>

datatype 'v obj =
  Entry int "'v obj" "dependency set option"
  | Bundle int "(string \<times> 'v obj) list option"
  | ValueBundle int "(string \<times> 'v obj) list option"
  | DepTuples "dependency list"
  | Keys "string list"
  | Plain 'v

type_synonym 'v backend = "string \<rightharpoonup> 'v obj"

record 'v hit =
  hit_value :: "'v obj"
  hit_dependencies :: "dependency set"
  trusted :: bool

definition entry_version :: int where "entry_version = 2"
definition trusted_entry_version :: int where "trusted_entry_version = 3"
definition bundle_version :: int where "bundle_version = 1"
definition value_bundle_version :: int where "value_bundle_version = 1"

definition make_dependency_cache_entry :: "'v obj \<Rightarrow> dependency set \<Rightarrow> bool \<Rightarrow> 'v obj" where
  "make_dependency_cache_entry v ds is_trusted =
     Entry (if is_trusted then trusted_entry_version else entry_version) v (Some ds)"

definition make_prefetch_bundle :: "(string \<times> 'v obj) list \<Rightarrow> 'v obj" where
  "make_prefetch_bundle entries = Bundle bundle_version (Some entries)"

fun entry_value :: "'v obj \<Rightarrow> 'v obj" where
  "entry_value (Entry ver v ds) = v"
| "entry_value p = p"

definition make_prefetch_value_bundle :: "(string \<times> 'v obj) list \<Rightarrow> 'v obj" where
  "make_prefetch_value_bundle entries = ValueBundle value_bundle_version (Some (on_values entry_value entries))"

text \<open>Not an entry, an entry to be treated as missing, or a hit.\<close>

datatype 'v combined = NotCombined | Missing | Hit "'v hit"

fun combined_payload_to_hit :: "'v obj \<Rightarrow> 'v combined" where
  "combined_payload_to_hit (Entry version v ds) =
     (if version = entry_version then
        (case ds of None \<Rightarrow> Missing
         | Some d \<Rightarrow> Hit \<lparr>hit_value = v, hit_dependencies = d, trusted = False\<rparr>)
      else if version = trusted_entry_version then
        (case ds of None \<Rightarrow> Missing
         | Some d \<Rightarrow> Hit \<lparr>hit_value = v, hit_dependencies = d, trusted = True\<rparr>)
      else Missing)"
| "combined_payload_to_hit _ = NotCombined"

definition valid_dependency_actions :: "string set" where
  "valid_dependency_actions = {''filter'', ''exclude'', ''identification'', ''request_query'', ''all''}"

definition legacy_deps_key :: "string \<Rightarrow> string" where
  "legacy_deps_key ck = ck @ '':deps''"

text \<open>The default of an absent dependency key is the empty tuple.\<close>

fun legacy_dependency_set :: "'v obj option \<Rightarrow> dependency set option" where
  "legacy_dependency_set None = Some {}"
| "legacy_dependency_set (Some (DepTuples ds)) =
     (if list_all (\<lambda>(m, a, i). a \<in> valid_dependency_actions) ds then Some (set ds) else None)"
| "legacy_dependency_set (Some _) = None"

section \<open>Reading one key and many\<close>

definition legacy_hit :: "'v obj \<Rightarrow> dependency set \<Rightarrow> 'v hit" where
  "legacy_hit v ds = \<lparr>hit_value = v, hit_dependencies = ds, trusted = False\<rparr>"

definition read_dependency_cache_hit :: "'v backend \<Rightarrow> string \<Rightarrow> 'v hit option" where
  "read_dependency_cache_hit b ck =
     (case b ck of
        None \<Rightarrow> None
      | Some payload \<Rightarrow>
          (case combined_payload_to_hit payload of
             Missing \<Rightarrow> None
           | Hit h \<Rightarrow> Some h
           | NotCombined \<Rightarrow>
               map_option (legacy_hit payload) (legacy_dependency_set (b (legacy_deps_key ck)))))"

text \<open>\<open>tuple(dict.fromkeys(keys))\<close> and \<open>get_many\<close>: the present keys.\<close>

definition first_occurrences :: "string list \<Rightarrow> string list" where
  "first_occurrences ks = rev (remdups (rev ks))"

definition get_many :: "'v backend \<Rightarrow> string list \<Rightarrow> 'v backend" where
  "get_many b ks = (\<lambda>k. if k \<in> set ks then b k else None)"

text \<open>The first pass over the bulk-read payloads: hits so far and the keys of older values.\<close>

fun first_pass ::
  "'v backend \<Rightarrow> string list \<Rightarrow> (string, 'v hit) odict \<Rightarrow> string list \<Rightarrow> (string, 'v hit) odict \<times> string list" where
  "first_pass payloads [] hits legacy = (hits, legacy)"
| "first_pass payloads (k # ks) hits legacy =
     (case payloads k of
        None \<Rightarrow> first_pass payloads ks hits legacy
      | Some payload \<Rightarrow>
          (case combined_payload_to_hit payload of
             Missing \<Rightarrow> first_pass payloads ks hits legacy
           | Hit h \<Rightarrow> first_pass payloads ks (od_set k h hits) legacy
           | NotCombined \<Rightarrow> first_pass payloads ks hits (legacy @ [k])))"

fun second_pass ::
  "'v backend \<Rightarrow> 'v backend \<Rightarrow> string list \<Rightarrow> (string, 'v hit) odict \<Rightarrow> (string, 'v hit) odict" where
  "second_pass payloads dps [] hits = hits"
| "second_pass payloads dps (k # ks) hits =
     (case legacy_dependency_set (dps (legacy_deps_key k)) of
        None \<Rightarrow> second_pass payloads dps ks hits
      | Some ds \<Rightarrow> second_pass payloads dps ks (od_set k (legacy_hit (the (payloads k)) ds) hits))"

fun read_many_without_get_many :: "'v backend \<Rightarrow> string list \<Rightarrow> (string, 'v hit) odict \<Rightarrow> (string, 'v hit) odict" where
  "read_many_without_get_many b [] hits = hits"
| "read_many_without_get_many b (k # ks) hits =
     (case read_dependency_cache_hit b k of
        None \<Rightarrow> read_many_without_get_many b ks hits
      | Some h \<Rightarrow> read_many_without_get_many b ks (od_set k h hits))"

definition read_many_dependency_cache_hits :: "bool \<Rightarrow> 'v backend \<Rightarrow> string list \<Rightarrow> (string, 'v hit) odict" where
  "read_many_dependency_cache_hits supports_get_many b cks =
     (let ks = first_occurrences cks in
      if ks = [] then []
      else if \<not> supports_get_many then read_many_without_get_many b ks []
      else
        let payloads = get_many b ks; (hits, legacy) = first_pass payloads ks [] [] in
        if legacy = [] then hits
        else second_pass payloads (get_many b (map legacy_deps_key legacy)) legacy hits)"

section \<open>Prefetch bundles\<close>

fun is_entry :: "'v obj \<Rightarrow> bool" where
  "is_entry (Entry ver v ds) = True"
| "is_entry _ = False"

definition read_bundle_entries :: "'v backend \<Rightarrow> string \<Rightarrow> (string, 'v obj) odict" where
  "read_bundle_entries b key =
     (case b key of
        Some (Bundle version (Some entries)) \<Rightarrow>
          if version = bundle_version then filter (\<lambda>(k, e). is_entry e) entries else []
      | _ \<Rightarrow> [])"

fun bundle_hits :: "(string \<times> 'v obj) list \<Rightarrow> (string, 'v hit) odict \<Rightarrow> (string, 'v hit) odict" where
  "bundle_hits [] hits = hits"
| "bundle_hits ((k, e) # entries) hits =
     (case combined_payload_to_hit e of
        Hit h \<Rightarrow> bundle_hits entries (od_set k h hits)
      | _ \<Rightarrow> bundle_hits entries hits)"

definition read_bundle_hits :: "'v backend \<Rightarrow> string \<Rightarrow> (string, 'v hit) odict" where
  "read_bundle_hits b key = bundle_hits (read_bundle_entries b key) []"

definition read_bundle_values :: "'v backend \<Rightarrow> string \<Rightarrow> (string, 'v obj) odict" where
  "read_bundle_values b key =
     (case b key of
        Some (ValueBundle version (Some vals)) \<Rightarrow> if version = value_bundle_version then vals else []
      | _ \<Rightarrow> [])"

fun many_bundle_hits :: "'v backend \<Rightarrow> string list \<Rightarrow> (string, 'v hit) odict \<Rightarrow> (string, 'v hit) odict" where
  "many_bundle_hits b [] hits = hits"
| "many_bundle_hits b (k # ks) hits =
     (case b k of
        Some (Bundle version (Some entries)) \<Rightarrow>
          many_bundle_hits b ks (if version = bundle_version then bundle_hits entries hits else hits)
      | _ \<Rightarrow> many_bundle_hits b ks hits)"

definition read_many_bundle_hits :: "'v backend \<Rightarrow> string list \<Rightarrow> (string, 'v hit) odict" where
  "read_many_bundle_hits b keys = many_bundle_hits b (first_occurrences keys) []"

fun many_bundle_values :: "'v backend \<Rightarrow> string list \<Rightarrow> (string, 'v obj) odict \<Rightarrow> (string, 'v obj) odict" where
  "many_bundle_values b [] vals = vals"
| "many_bundle_values b (k # ks) vals =
     (case b k of
        Some (ValueBundle version (Some entries)) \<Rightarrow>
          many_bundle_values b ks
            (if version = value_bundle_version then fold (\<lambda>(k, v). od_set k v) entries vals else vals)
      | _ \<Rightarrow> many_bundle_values b ks vals)"

definition read_many_bundle_values :: "'v backend \<Rightarrow> string list \<Rightarrow> (string, 'v obj) odict" where
  "read_many_bundle_values b keys = many_bundle_values b (first_occurrences keys) []"

section \<open>Bulk reads agree with single reads\<close>

lemma first_occurrences [simp]:
  "set (first_occurrences ks) = set ks" "distinct (first_occurrences ks)" "first_occurrences ks = [] \<longleftrightarrow> ks = []"
  by (simp_all add: first_occurrences_def)

lemma without_get_many:
  "od_get (read_many_without_get_many b ks hits) k =
     (if k \<in> set ks \<and> read_dependency_cache_hit b k \<noteq> None then read_dependency_cache_hit b k else od_get hits k)"
  by (induction ks arbitrary: hits) (auto simp: od_get_set split: option.splits)

lemma first_pass_legacy:
  "snd (first_pass p ks hits legacy)
     = legacy @ filter (\<lambda>k. \<exists>x. p k = Some x \<and> combined_payload_to_hit x = NotCombined) ks"
  by (induction ks arbitrary: hits legacy) (auto split: option.splits combined.splits)

lemma first_pass_hits:
  "distinct ks \<Longrightarrow> od_get (fst (first_pass p ks hits legacy)) k =
     (if k \<in> set ks then
        (case p k of None \<Rightarrow> od_get hits k
         | Some x \<Rightarrow> (case combined_payload_to_hit x of Hit h \<Rightarrow> Some h | _ \<Rightarrow> od_get hits k)) else od_get hits k)"
  by (induction ks arbitrary: hits legacy) (auto simp: od_get_set split: option.splits combined.splits)

lemma second_pass_result:
  "od_get (second_pass p d ks hits) k =
     (if k \<in> set ks then
        (case legacy_dependency_set (d (legacy_deps_key k)) of None \<Rightarrow> od_get hits k
         | Some ds \<Rightarrow> Some (legacy_hit (the (p k)) ds)) else od_get hits k)"
  by (induction ks arbitrary: hits) (auto simp: od_get_set split: option.splits)


text \<open>What the cache stores for a result reads back as a hit with that result, its dependencies
  and whether they were captured by the tracker.\<close>

theorem stored_entry_reads_back:
  "read_dependency_cache_hit (b(ck \<mapsto> make_dependency_cache_entry v ds t)) ck
     = Some \<lparr>hit_value = v, hit_dependencies = ds, trusted = t\<rparr>"
  by (simp add: read_dependency_cache_hit_def make_dependency_cache_entry_def entry_version_def
      trusted_entry_version_def)

end
