(* ===== verification/DepPublish.thy ===== *)
theory DepPublish
  imports DepIndex DepCache
begin

text \<open>
  The data-change barrier of \<open>cache/dependency_index.py\<close> and the guarded publication of computed
  values of \<open>cache/dependency_publish.py\<close> (with the pending publications of
  \<open>cache/run_context.py\<close>).

  \<open>world\<close> is the shared Django cache: metadata and values in \<open>cache\<close>, and the fixed coordination
  keys as fields: the index lock with the token of its owner, the generation, the number of
  active data changes, the flag \<open>DATA_CHANGE_LOCK_KEY\<close>, and the compute leases. A section under
  the index lock is one step: it ends before the lock's time to live. Acquiring a lock that stays
  held for \<open>LOCK_TIMEOUT\<close> seconds is the error \<open>LockTimeout\<close>.
\<close>

section \<open>Locks, generation and barrier\<close>

record 'v world =
  cache :: "'v obj cache_store"
  index_lock :: "string option"
  generation :: int
  change_count :: int
  change_flag :: bool
  compute_locks :: "string \<rightharpoonup> string"

datatype publish_error = LockTimeout string | CachePublishAborted | CleanupFailed

definition acquire_lock :: "string \<Rightarrow> 'v world \<Rightarrow> ('v world) option" where
  "acquire_lock token w = (if index_lock w = None then Some (w\<lparr>index_lock := Some token\<rparr>) else None)"

definition release_lock :: "string \<Rightarrow> 'v world \<Rightarrow> 'v world" where
  "release_lock token w = (if index_lock w = Some token then w\<lparr>index_lock := None\<rparr> else w)"

text \<open>\<open>try: \<dots> finally: release_lock(token)\<close>. The retries wait for another owner to leave; here
  the lock is free or stays held.\<close>

definition with_index_lock ::
  "string \<Rightarrow> string \<Rightarrow> ('v world \<Rightarrow> (publish_error + unit) \<times> 'v world) \<Rightarrow> 'v world
     \<Rightarrow> (publish_error + unit) \<times> 'v world" where
  "with_index_lock operation token body w =
     (case acquire_lock token w of
        None \<Rightarrow> (Inl (LockTimeout operation), w)
      | Some w' \<Rightarrow> (case body w' of (r, w'') \<Rightarrow> (r, release_lock token w'')))"

definition end_dependency_data_change :: "string \<Rightarrow> 'v world \<Rightarrow> (publish_error + unit) \<times> 'v world" where
  "end_dependency_data_change token =
     with_index_lock ''end_dependency_data_change'' token (\<lambda>w.
       let count = max (max (change_count w) 0 - 1) 0
       in (Inr (), w\<lparr>change_count := count, change_flag := count \<noteq> 0\<rparr>))"

text \<open>\<open>discarded\<close> says whether dropping the run context's buffered state succeeded; if not, the
  barrier is taken down again and the exception propagates.\<close>

definition begin_dependency_data_change ::
  "string \<Rightarrow> string \<Rightarrow> bool \<Rightarrow> 'v world \<Rightarrow> (publish_error + unit) \<times> 'v world" where
  "begin_dependency_data_change token token' discarded w =
     (case with_index_lock ''begin_dependency_data_change'' token (\<lambda>w.
         (Inr (), w\<lparr>generation := generation w + 1, change_count := max (change_count w) 0 + 1,
                   change_flag := True\<rparr>)) w of
        (Inl e, w') \<Rightarrow> (Inl e, w')
      | (Inr _, w') \<Rightarrow>
          if discarded then (Inr (), w')
          else (Inl CleanupFailed, snd (end_dependency_data_change token' w')))"

definition is_dependency_data_change_active :: "'v world \<Rightarrow> bool" where
  "is_dependency_data_change_active w = change_flag w"

definition publish_current :: "int \<Rightarrow> 'v world \<Rightarrow> bool" where
  "publish_current started w = (\<not> is_dependency_data_change_active w \<and> generation w = started)"

section \<open>Compute leases\<close>

definition compute_lock_key :: "string \<Rightarrow> string" where
  "compute_lock_key ck = ''dependency_cache_compute_lock:'' @ ck"

definition acquire_compute_lease :: "string \<Rightarrow> string \<Rightarrow> 'v world \<Rightarrow> (string \<times> string) option \<times> 'v world" where
  "acquire_compute_lease ck token w =
     (let key = compute_lock_key ck in
      if compute_locks w key = None
      then (Some (key, token), w\<lparr>compute_locks := (compute_locks w)(key \<mapsto> token)\<rparr>) else (None, w))"

definition release_compute_lease :: "string \<times> string \<Rightarrow> 'v world \<Rightarrow> 'v world" where
  "release_compute_lease lease w =
     (case lease of (key, token) \<Rightarrow>
        if compute_locks w key \<noteq> Some token then w
        else w\<lparr>compute_locks := (compute_locks w)(key := None)\<rparr>)"

section \<open>Writing values and prefetch bundles\<close>

definition backend_of :: "'v obj cache_store \<Rightarrow> 'v backend" where
  "backend_of st = (\<lambda>k. case st k of Some (Stored v) \<Rightarrow> Some v | _ \<Rightarrow> None)"

definition backend_set :: "string \<Rightarrow> 'v obj \<Rightarrow> 'v obj cache_store \<Rightarrow> 'v obj cache_store" where
  "backend_set k v st = st(k \<mapsto> Stored v)"

definition segment_index_key :: "string \<Rightarrow> string" where "segment_index_key mk = mk @ '':segments''"

definition segment_bundle_key :: "string \<Rightarrow> string \<Rightarrow> string" where
  "segment_bundle_key mk token = mk @ '':segment:'' @ token @ '':bundle''"

definition segment_value_bundle_key :: "string \<Rightarrow> string \<Rightarrow> string" where
  "segment_value_bundle_key mk token = mk @ '':segment:'' @ token @ '':values''"

text \<open>The digest of the keys, each with its length in eight bytes in front.\<close>

fun big_endian :: "nat \<Rightarrow> nat \<Rightarrow> string" where
  "big_endian 0 n = []"
| "big_endian (Suc w) n = big_endian w (n div 256) @ [char_of (n mod 256)]"

definition segment_token :: "(string \<Rightarrow> string) \<Rightarrow> string list \<Rightarrow> string" where
  "segment_token sha cks = sha (concat (map (\<lambda>ck. big_endian 8 (length ck) @ ck) cks))"

fun segment_tokens :: "'v obj option \<Rightarrow> string list" where
  "segment_tokens (Some (Keys ts)) = ts"
| "segment_tokens _ = []"

definition set_prefetch_segment_entries ::
  "(string \<Rightarrow> string) \<Rightarrow> string \<Rightarrow> (string \<times> 'v obj) list \<Rightarrow> 'v obj cache_store \<Rightarrow> 'v obj cache_store" where
  "set_prefetch_segment_entries sha mk entries st =
     (if entries = [] then st
      else
        let token = segment_token sha (map fst entries);
            tokens = segment_tokens (backend_of st (segment_index_key mk));
            st1 = (if token \<in> set tokens then st
                   else backend_set (segment_index_key mk) (Keys (tokens @ [token])) st)
        in backend_set (segment_value_bundle_key mk token) (make_prefetch_value_bundle entries)
             (backend_set (segment_bundle_key mk token) (make_prefetch_bundle entries) st1))"

record 'v publication =
  pub_key :: string
  pub_result :: "'v obj"
  pub_dependencies :: "dependency set"
  pub_timeout :: "int option"
  pub_generation :: int
  pub_lease :: "string \<times> string"
  pub_trusted :: bool
  pub_manifest :: "string option"

definition entry_of :: "'v publication \<Rightarrow> 'v obj" where
  "entry_of e = make_dependency_cache_entry (pub_result e) (pub_dependencies e) (pub_trusted e)"

definition publish_manifest ::
  "(string \<Rightarrow> string) \<Rightarrow> (string, 'v obj) odict \<Rightarrow> 'v publication list \<Rightarrow> string
     \<Rightarrow> 'v obj cache_store \<Rightarrow> 'v obj cache_store" where
  "publish_manifest sha payloads grp mk st =
     (let cks = first_occurrences (map pub_key (filter (\<lambda>e. pub_manifest e = Some mk) grp));
          bundle = map (\<lambda>ck. (ck, the (od_get payloads ck))) (filter (\<lambda>ck. od_get payloads ck \<noteq> None) cks)
      in set_prefetch_segment_entries sha mk bundle (backend_set mk (Keys (map fst bundle)) st))"

text \<open>One group of \<open>_set_dependency_cache_entries\<close>: the entries for one backend and timeout. A key
  that \<open>set_many\<close> reports as failed is written again alone.\<close>

definition set_group ::
  "(string \<Rightarrow> string) \<Rightarrow> 'v publication list \<Rightarrow> 'v obj cache_store \<Rightarrow> 'v obj cache_store" where
  "set_group sha grp st =
     (let payloads = fold (\<lambda>e. od_set (pub_key e) (entry_of e)) grp [];
          manifests = first_occurrences (concat (map (\<lambda>e. case pub_manifest e of None \<Rightarrow> [] | Some mk \<Rightarrow> [mk]) grp))
      in fold (publish_manifest sha payloads grp) manifests
           (fold (\<lambda>(k, v). backend_set k v) payloads st))"

definition distinct_timeouts :: "'v publication list \<Rightarrow> int option list" where
  "distinct_timeouts entries = rev (remdups (rev (map pub_timeout entries)))"

definition set_dependency_cache_entries ::
  "(string \<Rightarrow> string) \<Rightarrow> 'v publication list \<Rightarrow> 'v obj cache_store \<Rightarrow> 'v obj cache_store" where
  "set_dependency_cache_entries sha entries st =
     fold (\<lambda>t. set_group sha (filter (\<lambda>e. pub_timeout e = t) entries)) (distinct_timeouts entries) st"

section \<open>Publishing\<close>

definition metadata_dependency_set :: "string set \<Rightarrow> dependency set \<Rightarrow> dependency set" where
  "metadata_dependency_set calculation_managers ds =
     {d \<in> ds. \<not> (fst (snd d) = ''identification'' \<and> fst d \<in> calculation_managers)}"

definition bundle_dependency_entries ::
  "(string \<Rightarrow> string) \<Rightarrow> string \<Rightarrow> string list \<Rightarrow> dependency set \<Rightarrow> (string \<times> dependency set) list" where
  "bundle_dependency_entries sha mk cks ds =
     (let token = segment_token sha cks
      in [(segment_bundle_key mk token, ds), (segment_value_bundle_key mk token, ds)])"

definition publish_dependency_cache_entry ::
  "(string \<Rightarrow> string) \<Rightarrow> string set \<Rightarrow> string \<Rightarrow> string \<Rightarrow> 'v obj \<Rightarrow> dependency set \<Rightarrow> bool \<Rightarrow> int \<Rightarrow> string option
     \<Rightarrow> 'v world \<Rightarrow> (publish_error + unit) \<times> 'v world" where
  "publish_dependency_cache_entry sha calcs token ck result ds is_trusted started manifest =
     with_index_lock ''publish_dependency_cache_entry'' token (\<lambda>w.
       if \<not> publish_current started w then (Inl CachePublishAborted, w)
       else
         let meta = metadata_dependency_set calcs ds;
             entries = (if meta = {} then [] else [(ck, meta)])
               @ (case manifest of None \<Rightarrow> [] | Some mk \<Rightarrow>
                    if meta = {} then [] else bundle_dependency_entries sha mk [ck] meta);
             w1 = w\<lparr>cache := record_many_cache_dependencies sha entries (cache w)\<rparr>
         in if \<not> publish_current started w1 then (Inl CachePublishAborted, w1)
            else
              let payload = make_dependency_cache_entry result ds is_trusted;
                  st = backend_set ck payload (cache w1);
                  st' = (case manifest of
                           None \<Rightarrow> st
                         | Some mk \<Rightarrow> set_prefetch_segment_entries sha mk [(ck, payload)] (backend_set mk (Keys [ck]) st))
              in (Inr (), w1\<lparr>cache := st'\<rparr>))"

text \<open>The metadata of a batch: each entry's own, then those of the bundles of each manifest.\<close>

definition batch_dependency_entries ::
  "(string \<Rightarrow> string) \<Rightarrow> string set \<Rightarrow> 'v publication list \<Rightarrow> (string \<times> dependency set) list" where
  "batch_dependency_entries sha calcs entries =
     (let meta = (\<lambda>e. metadata_dependency_set calcs (pub_dependencies e));
          with_meta = filter (\<lambda>e. meta e \<noteq> {}) entries;
          manifests = first_occurrences (concat (map (\<lambda>e. case pub_manifest e of None \<Rightarrow> [] | Some mk \<Rightarrow> [mk]) with_meta))
      in map (\<lambda>e. (pub_key e, meta e)) with_meta
         @ concat (map (\<lambda>mk.
             let grp = filter (\<lambda>e. pub_manifest e = Some mk) with_meta
             in bundle_dependency_entries sha mk (first_occurrences (map pub_key grp)) (\<Union>(meta ` set grp)))
             manifests))"

definition publish_dependency_cache_entries ::
  "(string \<Rightarrow> string) \<Rightarrow> string set \<Rightarrow> string \<Rightarrow> 'v publication list \<Rightarrow> 'v world
     \<Rightarrow> (publish_error + unit) \<times> 'v world" where
  "publish_dependency_cache_entries sha calcs token pending w =
     (if pending = [] then (Inr (), w)
      else with_index_lock ''publish_dependency_cache_entries'' token (\<lambda>w.
        if is_dependency_data_change_active w then (Inl CachePublishAborted, w)
        else
          let current = generation w;
              publishable = filter (\<lambda>e. pub_generation e = current) pending
          in if publishable = [] then (Inr (), w)
             else
               let w1 = w\<lparr>cache := record_many_cache_dependencies sha
                              (batch_dependency_entries sha calcs publishable) (cache w)\<rparr>
               in if \<not> publish_current current w1 then (Inl CachePublishAborted, w1)
                  else (Inr (), w1\<lparr>cache := set_dependency_cache_entries sha publishable (cache w1)\<rparr>)) w)"

text \<open>\<open>flush_dependency_cache_publications\<close>: an abort is swallowed, the leases are released in any
  case; the buffered entries are gone. \<open>discard_dependency_cache_publications\<close> only releases.\<close>

definition release_leases :: "'v publication list \<Rightarrow> 'v world \<Rightarrow> 'v world" where
  "release_leases entries w = fold (\<lambda>e. release_compute_lease (pub_lease e)) entries w"

definition flush_dependency_cache_publications ::
  "(string \<Rightarrow> string) \<Rightarrow> string set \<Rightarrow> string \<Rightarrow> 'v publication list \<Rightarrow> 'v world
     \<Rightarrow> (publish_error + unit) \<times> 'v world" where
  "flush_dependency_cache_publications sha calcs token pending w =
     (if pending = [] then (Inr (), w)
      else case publish_dependency_cache_entries sha calcs token pending w of
        (r, w') \<Rightarrow> (if r = Inl CachePublishAborted then Inr () else r, release_leases pending w'))"

section \<open>Outcomes\<close>

lemma with_index_lock_free:
  "index_lock w = None \<Longrightarrow> body (w\<lparr>index_lock := Some token\<rparr>) = (r, w') \<Longrightarrow>
     with_index_lock operation token body w = (r, release_lock token w')"
  by (simp add: with_index_lock_def acquire_lock_def)

lemma begin_free:
  "index_lock w = None \<Longrightarrow> begin_dependency_data_change t t' True w =
     (Inr (), w\<lparr>generation := generation w + 1, change_count := max (change_count w) 0 + 1, change_flag := True\<rparr>)"
  by (cases w) (simp add: begin_dependency_data_change_def with_index_lock_def acquire_lock_def release_lock_def)

lemma end_free:
  "index_lock w = None \<Longrightarrow> end_dependency_data_change t w =
     (Inr (), w\<lparr>change_count := max (max (change_count w) 0 - 1) 0,
        change_flag := max (max (change_count w) 0 - 1) 0 \<noteq> 0\<rparr>)"
  by (cases w) (simp add: end_dependency_data_change_def with_index_lock_def acquire_lock_def release_lock_def Let_def)

lemma begin_cleanup_fails:
  "index_lock w = None \<Longrightarrow> 0 \<le> change_count w \<Longrightarrow> begin_dependency_data_change t t' False w =
     (Inl CleanupFailed, w\<lparr>generation := generation w + 1, change_flag := change_count w \<noteq> 0\<rparr>)"
  by (cases w) (simp add: begin_dependency_data_change_def end_dependency_data_change_def with_index_lock_def
      acquire_lock_def release_lock_def Let_def)

text \<open>Recording writes metadata keys only.\<close>

lemma record_frame:
  assumes r: "represents sha U st m" and keys: "fst ` set entries \<subseteq> U" and k: "\<not> metadata_key k"
  shows "record_many_cache_dependencies sha entries st k = st k"
proof -
  let ?N = "normalized_entries entries"
  have c: "fst (clear_legacy_dependency_index st) = st"
    using representsD(3) [OF r] by (simp add: clear_legacy_dependency_index_def)
  have n: "\<not> starts shard_prefix k" using k by (simp add: metadata_key_def)
  then have rk: "k \<noteq> reverse_membership_key sha ck" for ck
    using starts_append by (auto simp: reverse_membership_key_def)
  have sub: "set (map fst ?N) \<subseteq> U" using normalized_keys [of entries] keys by auto
  have sk: "\<not> shard_key k" using n shard_key_metadata by blast
  have "k \<notin> fst ` new_memberships sha ?N"
  proof
    assume "k \<in> fst ` new_memberships sha ?N"
    from new_memberships_keys [OF this] sk have "starts shard_prefix k"
      using starts_append by (auto simp: key_defs)
    with n show False by simp
  qed
  moreover have "k \<notin> fst ` previous_memberships sha st (map fst ?N)"
    by (rule previous_memberships_keys [OF r sub sk])
  ultimately show ?thesis
    using rk by (simp add: record_many_cache_dependencies_def c Let_def set_reverses_elsewhere
        add_elsewhere discard_elsewhere)
qed

text \<open>The publication of one value without a prefetch manifest: it goes through exactly when no
  data change is active and the generation is the one the computation started with.\<close>

definition published_entries :: "string set \<Rightarrow> string \<Rightarrow> dependency set \<Rightarrow> (string \<times> dependency set) list" where
  "published_entries calcs ck ds =
     (let meta = metadata_dependency_set calcs ds in if meta = {} then [] else [(ck, meta)])"

lemma publish_entry_free:
  assumes "index_lock w = None"
  shows "publish_dependency_cache_entry sha calcs t ck v ds tr started None w =
    (if publish_current started w
     then (Inr (), w\<lparr>cache := backend_set ck (make_dependency_cache_entry v ds tr)
             (record_many_cache_dependencies sha (published_entries calcs ck ds) (cache w))\<rparr>)
     else (Inl CachePublishAborted, w))"
  using assms
  by (cases w) (simp add: publish_dependency_cache_entry_def with_index_lock_def acquire_lock_def release_lock_def
      publish_current_def is_dependency_data_change_active_def Let_def published_entries_def)

lemma set_group_plain:
  assumes "\<And>e. e \<in> set grp \<Longrightarrow> pub_manifest e = None"
  shows "set_group sha grp st k = st k
    \<or> (\<exists>e\<in>set grp. pub_key e = k \<and> set_group sha grp st k = Some (Stored (entry_of e)))"
proof -
  let ?P = "fold (\<lambda>e. od_set (pub_key e) (entry_of e)) grp []"
  have m: "concat (map (\<lambda>e. case pub_manifest e of None \<Rightarrow> [] | Some mk \<Rightarrow> [mk]) grp) = []"
    using assms by (induction grp) auto
  have P: "\<forall>(k, v)\<in>set (fold (\<lambda>e. od_set (pub_key e) (entry_of e)) es acc). (k, v) \<in> set acc
      \<or> (\<exists>e\<in>set es. pub_key e = k \<and> v = entry_of e)" for es acc
  proof (induction es arbitrary: acc)
    case (Cons e es)
    have "set (od_set k v acc) \<subseteq> insert (k, v) (set acc)" for k v
      by (induction acc) auto
    with Cons.IH [of "od_set (pub_key e) (entry_of e) acc"] show ?case by fastforce
  qed simp
  have F: "fold (\<lambda>(k, v). backend_set k v) P st k = st k
      \<or> (\<exists>v. (k, v) \<in> set P \<and> fold (\<lambda>(k, v). backend_set k v) P st k = Some (Stored v))" for P st
  proof (induction P arbitrary: st)
    case (Cons p P)
    obtain k' v' where p: "p = (k', v')" by (cases p) auto
    have "backend_set k' v' st k = st k \<or> k' = k \<and> backend_set k' v' st k = Some (Stored v')"
      by (simp add: backend_set_def)
    moreover have "fold (\<lambda>(k, v). backend_set k v) (p # P) st k
        = fold (\<lambda>(k, v). backend_set k v) P (backend_set k' v' st) k" by (simp add: p)
    ultimately show ?case using Cons.IH [of "backend_set k' v' st"] by (metis p list.set_intros)
  qed simp
  have "set_group sha grp st = fold (\<lambda>(k, v). backend_set k v) ?P st"
    by (simp add: set_group_def m first_occurrences_def)
  with F [of ?P st] P [of grp "[]"] show ?thesis by fastforce
qed

lemma set_entries_plain:
  assumes "\<And>e. e \<in> set entries \<Longrightarrow> pub_manifest e = None"
  shows "set_dependency_cache_entries sha entries st k = st k
    \<or> (\<exists>e\<in>set entries. pub_key e = k \<and> set_dependency_cache_entries sha entries st k = Some (Stored (entry_of e)))"
proof -
  let ?g = "\<lambda>t. filter (\<lambda>e. pub_timeout e = t) entries"
  have "fold (\<lambda>t. set_group sha (?g t)) ts st k = st k
      \<or> (\<exists>e\<in>set entries. pub_key e = k \<and> fold (\<lambda>t. set_group sha (?g t)) ts st k = Some (Stored (entry_of e)))" for ts
  proof (induction ts arbitrary: st)
    case (Cons t ts)
    have "set_group sha (?g t) st k = st k
        \<or> (\<exists>e\<in>set (?g t). pub_key e = k \<and> set_group sha (?g t) st k = Some (Stored (entry_of e)))"
      by (rule set_group_plain) (use assms in auto)
    with Cons.IH [of "set_group sha (?g t) st"] show ?case by auto
  qed simp
  then show ?thesis by (simp add: set_dependency_cache_entries_def)
qed

lemma publish_batch_free:
  assumes "index_lock w = None" "pending \<noteq> []"
  shows "publish_dependency_cache_entries sha calcs t pending w =
    (let publishable = filter (\<lambda>e. pub_generation e = generation w) pending in
     if change_flag w then (Inl CachePublishAborted, w)
     else if publishable = [] then (Inr (), w)
     else (Inr (), w\<lparr>cache := set_dependency_cache_entries sha publishable
             (record_many_cache_dependencies sha (batch_dependency_entries sha calcs publishable) (cache w))\<rparr>))"
  using assms
  by (cases w) (simp add: publish_dependency_cache_entries_def with_index_lock_def acquire_lock_def release_lock_def
      publish_current_def is_dependency_data_change_active_def Let_def)

lemma batch_entries_plain:
  assumes "\<And>e. e \<in> set entries \<Longrightarrow> pub_manifest e = None"
  shows "fst ` set (batch_dependency_entries sha calcs entries) \<subseteq> pub_key ` set entries"
proof -
  have m: "concat (map (\<lambda>e. case pub_manifest e of None \<Rightarrow> [] | Some mk \<Rightarrow> [mk]) es) = []"
    if "set es \<subseteq> set entries" for es
    using that assms by (induction es) auto
  have "set (filter P entries) \<subseteq> set entries" for P by auto
  from m [OF this] show ?thesis
    by (auto simp: batch_dependency_entries_def Let_def first_occurrences_def)
qed

end
