(* ===== verification/DepBarrier.thy ===== *)
theory DepBarrier
  imports DepPublish
begin

text \<open>
  Data changes and cached computations side by side: the protocol of \<open>cache/signals.py\<close>
  (\<open>data_change\<close>: barrier, mutation and invalidation in one transaction, barrier down) and of
  \<open>cache/cache_decorator.py\<close> (a miss: read the generation, compute, publish), over the functions
  of \<open>DepPublish\<close> and \<open>DepIndex\<close>.

  What a cached function returns for a cache key and which dependencies it collects is a function
  of the committed database (\<open>result\<close>, \<open>deps_of\<close>): a computation reads one committed state. A data
  change has an effect on the database; \<open>K\<close> are the keys its invalidation deletes, which contain
  every stored key whose result the effect can change (\<open>DepIndex\<close> proves this of the real
  invalidation, for what the dependencies say).

  Each section under the index lock is one step, as are reading the generation and reading the
  database. \<open>guarded\<close> restricts where a computation may start: the program does not check the
  barrier there (\<open>False\<close>); \<open>True\<close> is the program with such a check.
\<close>

section \<open>The system\<close>

datatype ('d, 'v) phase =
  Started string int bool
  | Computed string int bool "'v obj" "dependency set"

datatype 'd change = Open | Announced "'d \<Rightarrow> 'd"

record ('d, 'v) system =
  world :: "'v world"
  database :: 'd
  changes :: "nat \<rightharpoonup> 'd change"
  workers :: "nat \<rightharpoonup> ('d, 'v) phase"

definition affects :: "('d \<Rightarrow> string \<Rightarrow> 'v obj) \<Rightarrow> ('d \<Rightarrow> 'd) \<Rightarrow> string set" where
  "affects result e = {ck. \<exists>d. result (e d) ck \<noteq> result d ck}"

text \<open>The pending publication a finished computation leaves in the run context.\<close>

definition pending_of :: "('d, 'v) phase \<Rightarrow> 'v publication list" where
  "pending_of p =
     (case p of
        Started ck g clean \<Rightarrow> []
      | Computed ck g clean v ds \<Rightarrow>
          [\<lparr>pub_key = ck, pub_result = v, pub_dependencies = ds, pub_timeout = None, pub_generation = g,
            pub_lease = (compute_lock_key ck, []), pub_trusted = True, pub_manifest = None\<rparr>])"

definition buffered :: "('d, 'v) system \<Rightarrow> nat list \<Rightarrow> 'v publication list" where
  "buffered s is = concat (map (\<lambda>i. case workers s i of None \<Rightarrow> [] | Some p \<Rightarrow> pending_of p) is)"

inductive sys_step ::
  "(string \<Rightarrow> string) \<Rightarrow> string set \<Rightarrow> string set \<Rightarrow> ('d \<Rightarrow> string \<Rightarrow> 'v obj) \<Rightarrow> ('d \<Rightarrow> string \<Rightarrow> dependency set)
     \<Rightarrow> bool \<Rightarrow> ('d, 'v) system \<Rightarrow> ('d, 'v) system \<Rightarrow> bool"
  for sha U calcs result deps_of guarded where
  begin_change: "changes s c = None \<Longrightarrow> begin_dependency_data_change t t' True (world s) = (Inr (), w) \<Longrightarrow>
     sys_step sha U calcs result deps_of guarded s
       (s\<lparr>world := w, changes := (changes s)(c \<mapsto> Open)\<rparr>)"
| begin_fails: "begin_dependency_data_change t t' False (world s) = (Inl e, w) \<Longrightarrow>
     sys_step sha U calcs result deps_of guarded s (s\<lparr>world := w\<rparr>)"
| invalidate: "changes s c = Some Open \<Longrightarrow> K \<subseteq> U \<Longrightarrow> finite K \<Longrightarrow>
     {ck \<in> affects result e. cache (world s) ck \<noteq> None} \<subseteq> K \<Longrightarrow>
     sys_step sha U calcs result deps_of guarded s
       (s\<lparr>world := (world s)\<lparr>cache := drop_keys sha K (cache (world s))\<rparr>,
          changes := (changes s)(c \<mapsto> Announced e)\<rparr>)"
| commit: "changes s c = Some (Announced e) \<Longrightarrow>
     sys_step sha U calcs result deps_of guarded s
       (s\<lparr>database := e (database s), changes := (changes s)(c \<mapsto> Announced id)\<rparr>)"
| end_change: "changes s c \<noteq> None \<Longrightarrow> end_dependency_data_change t (world s) = (Inr (), w) \<Longrightarrow>
     sys_step sha U calcs result deps_of guarded s
       (s\<lparr>world := w, changes := (changes s)(c := None)\<rparr>)"
| start: "workers s i = None \<Longrightarrow> ck \<in> U \<Longrightarrow> \<not> guarded \<or> \<not> is_dependency_data_change_active (world s) \<Longrightarrow>
     sys_step sha U calcs result deps_of guarded s
       (s\<lparr>workers := (workers s)(i \<mapsto> Started ck (generation (world s))
            (\<not> is_dependency_data_change_active (world s)))\<rparr>)"
| compute: "workers s i = Some (Started ck g clean) \<Longrightarrow>
     sys_step sha U calcs result deps_of guarded s
       (s\<lparr>workers := (workers s)(i \<mapsto> Computed ck g clean (result (database s) ck) (deps_of (database s) ck))\<rparr>)"
| publish: "workers s i = Some (Computed ck g clean v ds) \<Longrightarrow>
     publish_dependency_cache_entry sha calcs t ck v ds True g None (world s) = (r, w) \<Longrightarrow>
     sys_step sha U calcs result deps_of guarded s
       (s\<lparr>world := w, workers := (workers s)(i := None)\<rparr>)"
| flush: "flush_dependency_cache_publications sha calcs t (buffered s is) (world s) = (r, w) \<Longrightarrow>
     sys_step sha U calcs result deps_of guarded s
       (s\<lparr>world := w, workers := (\<lambda>i. if i \<in> set is then None else workers s i)\<rparr>)"
| give_up: "sys_step sha U calcs result deps_of guarded s (s\<lparr>workers := (workers s)(i := None)\<rparr>)"

definition reachable ::
  "(string \<Rightarrow> string) \<Rightarrow> string set \<Rightarrow> string set \<Rightarrow> ('d \<Rightarrow> string \<Rightarrow> 'v obj) \<Rightarrow> ('d \<Rightarrow> string \<Rightarrow> dependency set)
     \<Rightarrow> bool \<Rightarrow> ('d, 'v) system \<Rightarrow> ('d, 'v) system \<Rightarrow> bool" where
  "reachable sha U calcs result deps_of guarded = (sys_step sha U calcs result deps_of guarded)\<^sup>*\<^sup>*"

definition empty_world :: "'v world" where
  "empty_world = \<lparr>cache = (\<lambda>k. None), index_lock = None, generation = 0, change_count = 0,
     change_flag = False, compute_locks = (\<lambda>k. None)\<rparr>"

definition init_system :: "'d \<Rightarrow> ('d, 'v) system" where
  "init_system d = \<lparr>world = empty_world, database = d, changes = (\<lambda>c. None), workers = (\<lambda>i. None)\<rparr>"

section \<open>The barrier invariant\<close>

text \<open>The barrier counts the open changes; a computation that started outside every change and
  whose generation is still current has seen no change since, so its value is current.\<close>

definition count_ok :: "('d, 'v) system \<Rightarrow> bool" where
  "count_ok s \<longleftrightarrow> finite (dom (changes s)) \<and> index_lock (world s) = None
     \<and> change_count (world s) = int (card (dom (changes s)))
     \<and> (change_flag (world s) \<longleftrightarrow> dom (changes s) \<noteq> {})"

definition phase_ok ::
  "('d \<Rightarrow> string \<Rightarrow> 'v obj) \<Rightarrow> string set \<Rightarrow> ('d, 'v) system \<Rightarrow> ('d, 'v) phase \<Rightarrow> bool" where
  "phase_ok result U s p =
     (case p of
        Started ck g clean \<Rightarrow>
          ck \<in> U \<and> g \<le> generation (world s) \<and> (clean \<and> g = generation (world s) \<longrightarrow> dom (changes s) = {})
      | Computed ck g clean v ds \<Rightarrow>
          ck \<in> U \<and> g \<le> generation (world s)
          \<and> (clean \<and> g = generation (world s) \<longrightarrow> dom (changes s) = {} \<and> v = result (database s) ck))"

definition workers_ok :: "('d \<Rightarrow> string \<Rightarrow> 'v obj) \<Rightarrow> string set \<Rightarrow> ('d, 'v) system \<Rightarrow> bool" where
  "workers_ok result U s \<longleftrightarrow> (\<forall>i p. workers s i = Some p \<longrightarrow> phase_ok result U s p)"

definition store_ok :: "(string \<Rightarrow> string) \<Rightarrow> string set \<Rightarrow> ('d, 'v) system \<Rightarrow> bool" where
  "store_ok sha U s \<longleftrightarrow> (\<exists>m. represents sha U (cache (world s)) m)"

definition barrier_inv ::
  "(string \<Rightarrow> string) \<Rightarrow> ('d \<Rightarrow> string \<Rightarrow> 'v obj) \<Rightarrow> string set \<Rightarrow> ('d, 'v) system \<Rightarrow> bool" where
  "barrier_inv sha result U s \<longleftrightarrow> count_ok s \<and> workers_ok result U s \<and> store_ok sha U s"

lemma dom_update_present: "f c \<noteq> None \<Longrightarrow> dom (f(c \<mapsto> x)) = dom f"
  by auto

text \<open>What the publishing operations change of the shared state: the cached values at most.\<close>

definition same_coordination :: "'v world \<Rightarrow> 'v world \<Rightarrow> bool" where
  "same_coordination w w' \<longleftrightarrow> index_lock w' = index_lock w \<and> generation w' = generation w
     \<and> change_count w' = change_count w \<and> change_flag w' = change_flag w"

lemma release_leases_world:
  "same_coordination w (release_leases es w) \<and> cache (release_leases es w) = cache w"
proof (induction es arbitrary: w)
  case (Cons e es)
  have "same_coordination w (release_compute_lease l w) \<and> cache (release_compute_lease l w) = cache w" for l
    by (simp add: release_compute_lease_def same_coordination_def split: prod.split)
  with Cons [of "release_compute_lease (pub_lease e) w"] show ?case
    by (simp add: release_leases_def same_coordination_def)
qed (simp add: release_leases_def same_coordination_def)

abbreviation current_entries :: "'v world \<Rightarrow> 'v publication list \<Rightarrow> 'v publication list" where
  "current_entries w pending \<equiv> filter (\<lambda>e. pub_generation e = generation w) pending"

lemma flush_world:
  assumes "index_lock w = None" "flush_dependency_cache_publications sha calcs t pending w = (r, w')"
  shows "same_coordination w w' \<and> (cache w' = cache w
    \<or> \<not> change_flag w \<and> cache w' = set_dependency_cache_entries sha (current_entries w pending)
         (record_many_cache_dependencies sha (batch_dependency_entries sha calcs (current_entries w pending)) (cache w)))"
proof (cases "pending = []")
  case True
  with assms show ?thesis by (simp add: flush_dependency_cache_publications_def same_coordination_def)
next
  case False
  obtain r1 w1 where p: "publish_dependency_cache_entries sha calcs t pending w = (r1, w1)" by fastforce
  then have w': "w' = release_leases pending w1"
    using assms(2) False by (simp add: flush_dependency_cache_publications_def)
  have "same_coordination w w1 \<and> (cache w1 = cache w
    \<or> \<not> change_flag w \<and> cache w1 = set_dependency_cache_entries sha (current_entries w pending)
         (record_many_cache_dependencies sha (batch_dependency_entries sha calcs (current_entries w pending)) (cache w)))"
    using p publish_batch_free [OF assms(1) False, of sha calcs t]
    by (auto simp: same_coordination_def Let_def split: if_splits)
  then show ?thesis
    using release_leases_world [of w1 pending] unfolding w' same_coordination_def by simp
qed

lemma publish_world:
  assumes "index_lock w = None" "publish_dependency_cache_entry sha calcs t ck v ds tr g None w = (r, w')"
  shows "same_coordination w w' \<and> (r = Inl CachePublishAborted \<and> cache w' = cache w
    \<or> r = Inr () \<and> publish_current g w \<and> cache w' = backend_set ck (make_dependency_cache_entry v ds tr)
         (record_many_cache_dependencies sha (published_entries calcs ck ds) (cache w)))"
  using assms by (auto simp: publish_entry_free same_coordination_def split: if_splits)

lemma count_ok_step: "sys_step sha U calcs result deps_of guarded s s' \<Longrightarrow> count_ok s \<Longrightarrow> count_ok s'"
proof (induction rule: sys_step.induct)
  case (begin_change s c t t' w)
  then have lock: "index_lock (world s) = None" by (simp add: count_ok_def)
  with begin_change show ?case
    by (auto simp: count_ok_def begin_free domIff)
next
  case (begin_fails t t' s e w)
  then have lock: "index_lock (world s) = None" "0 \<le> change_count (world s)" by (simp_all add: count_ok_def)
  with begin_fails show ?case by (auto simp: count_ok_def begin_cleanup_fails)
next
  case (invalidate s c K e)
  then show ?case by (simp add: count_ok_def dom_update_present insert_absorb domI)
next
  case (commit s c e)
  then show ?case by (simp add: count_ok_def insert_absorb domI)
next
  case (end_change s c t w)
  then have lock: "index_lock (world s) = None" and c: "c \<in> dom (changes s)"
    and fin: "finite (dom (changes s))" and n: "change_count (world s) = int (card (dom (changes s)))"
    by (auto simp: count_ok_def)
  have pos: "0 < card (dom (changes s))" using c fin by (auto simp: card_gt_0_iff)
  have "card (dom (changes s) - {c}) = card (dom (changes s)) - 1" using c by (rule card_Diff_singleton)
  moreover have "dom (changes s) - {c} = {} \<longleftrightarrow> card (dom (changes s) - {c}) = 0" using fin by simp
  ultimately show ?case
    using end_change lock n pos fin by (auto simp: count_ok_def end_free of_nat_diff)
next
  case (publish s i ck g clean v ds t r w)
  then have "index_lock (world s) = None" by (simp add: count_ok_def)
  with publish show ?case by (auto simp: count_ok_def publish_entry_free split: if_splits)
next
  case (flush t s "is" r w)
  then have lock: "index_lock (world s) = None" by (simp add: count_ok_def)
  from flush_world [OF lock flush(1)] flush(2) show ?case
    by (simp add: count_ok_def same_coordination_def)
qed (auto simp: count_ok_def)

lemma phase_ok_same:
  assumes "phase_ok result U s p" "generation (world s') = generation (world s)"
    "dom (changes s') = dom (changes s)" "database s' = database s"
  shows "phase_ok result U s' p"
  using assms by (cases p) (simp_all add: phase_ok_def)

lemma phase_ok_workers [simp]: "phase_ok result U (s\<lparr>workers := x\<rparr>) p = phase_ok result U s p"
  by (cases p) (simp_all add: phase_ok_def)

lemma workers_ok_same:
  assumes "workers_ok result U s" "generation (world s') = generation (world s)"
    "dom (changes s') = dom (changes s)" "database s' = database s"
    "\<And>i p. workers s' i = Some p \<Longrightarrow> workers s i = Some p"
  shows "workers_ok result U s'"
  unfolding workers_ok_def
proof (intro allI impI)
  fix i p assume "workers s' i = Some p"
  then have "phase_ok result U s p" using assms(1,5) unfolding workers_ok_def by blast
  then show "phase_ok result U s' p" using assms(2-4) by (rule phase_ok_same)
qed

text \<open>A new generation, or a change that is still open, makes the claim on the value void.\<close>

lemma workers_ok_new_generation:
  assumes "workers_ok result U s" "generation (world s') = generation (world s) + 1" "workers s' = workers s"
  shows "workers_ok result U s'"
  unfolding workers_ok_def
proof (intro allI impI)
  fix i p assume "workers s' i = Some p"
  then have "phase_ok result U s p" using assms(1,3) unfolding workers_ok_def by simp
  then show "phase_ok result U s' p" using assms(2) by (cases p) (auto simp: phase_ok_def)
qed

lemma workers_ok_open:
  assumes "workers_ok result U s" "dom (changes s) \<noteq> {}" "generation (world s') = generation (world s)"
    "workers s' = workers s"
  shows "workers_ok result U s'"
  unfolding workers_ok_def
proof (intro allI impI)
  fix i p assume "workers s' i = Some p"
  then have "phase_ok result U s p" using assms(1,4) unfolding workers_ok_def by simp
  then show "phase_ok result U s' p" using assms(2,3) by (cases p) (auto simp: phase_ok_def)
qed

lemma workers_ok_step:
  "sys_step sha U calcs result deps_of guarded s s' \<Longrightarrow> count_ok s \<Longrightarrow> workers_ok result U s \<Longrightarrow> workers_ok result U s'"
proof (induction rule: sys_step.induct)
  case (begin_change s c t t' w)
  have "index_lock (world s) = None" using begin_change(3) by (simp add: count_ok_def)
  with begin_change show ?case by (intro workers_ok_new_generation [OF begin_change(4)]) (auto simp: begin_free)
next
  case (begin_fails t t' s e w)
  have "index_lock (world s) = None" "0 \<le> change_count (world s)" using begin_fails(2) by (simp_all add: count_ok_def)
  with begin_fails show ?case
    by (intro workers_ok_new_generation [OF begin_fails(3)]) (auto simp: begin_cleanup_fails)
next
  case (invalidate s c K e)
  then have "dom (changes s) \<noteq> {}" by auto
  then show ?case by (rule workers_ok_open [OF invalidate(6)]) simp_all
next
  case (commit s c e)
  then have "dom (changes s) \<noteq> {}" by auto
  then show ?case by (rule workers_ok_open [OF commit(3)]) simp_all
next
  case (end_change s c t w)
  have "index_lock (world s) = None" using end_change(3) by (simp add: count_ok_def)
  moreover from end_change have "dom (changes s) \<noteq> {}" by auto
  ultimately show ?case
    using end_change by (intro workers_ok_open [OF end_change(4)]) (auto simp: end_free)
next
  case (start s i ck)
  have "phase_ok result U s (Started ck (generation (world s)) (\<not> is_dependency_data_change_active (world s)))"
    using start by (auto simp: phase_ok_def is_dependency_data_change_active_def count_ok_def)
  with start show ?case
    by (auto simp: workers_ok_def)
next
  case (compute s i ck g clean)
  then have "phase_ok result U s (Started ck g clean)" by (auto simp: workers_ok_def)
  then have "phase_ok result U s (Computed ck g clean (result (database s) ck) (deps_of (database s) ck))"
    by (simp add: phase_ok_def)
  with compute show ?case by (auto simp: workers_ok_def)
next
  case (publish s i ck g clean v ds t r w)
  have "index_lock (world s) = None" using publish(3) by (simp add: count_ok_def)
  from publish_world [OF this publish(2)] show ?case
    by (intro workers_ok_same [OF publish(4)]) (auto simp: same_coordination_def split: if_splits)
next
  case (flush t s "is" r w)
  have "index_lock (world s) = None" using flush(2) by (simp add: count_ok_def)
  from flush_world [OF this flush(1)] show ?case
    by (intro workers_ok_same [OF flush(3)]) (auto simp: same_coordination_def split: if_splits)
next
  case (give_up s i)
  then show ?case by (intro workers_ok_same [OF give_up(2)]) (auto split: if_splits)
qed

lemma backend_set_represents:
  assumes r: "represents sha U st m" and U: "app_keys U" "ck \<in> U"
  shows "represents sha U (backend_set ck v st) m"
  using r by (rule represents_other) (use U in \<open>auto simp: backend_set_def app_keys_def metadata_key_def\<close>)

lemma published_keys: "ck \<in> U \<Longrightarrow> fst ` set (published_entries calcs ck ds) \<subseteq> U"
  by (simp add: published_entries_def Let_def)

lemma set_entries_represents:
  assumes r: "represents sha U st m" and U: "app_keys U"
    and keys: "\<And>e. e \<in> set es \<Longrightarrow> pub_key e \<in> U \<and> pub_manifest e = None"
  shows "represents sha U (set_dependency_cache_entries sha es st) m"
  using r
proof (rule represents_other)
  fix k assume k: "k = legacy_key \<or> starts shard_prefix k"
  then have "k \<notin> U" using U by (auto simp: app_keys_def metadata_key_def)
  then show "set_dependency_cache_entries sha es st k = st k"
    using set_entries_plain [of es sha st k] keys by blast
qed

lemma batch_keys:
  assumes "\<And>e. e \<in> set es \<Longrightarrow> pub_key e \<in> U \<and> pub_manifest e = None"
  shows "fst ` set (batch_dependency_entries sha calcs es) \<subseteq> U"
proof -
  have "fst ` set (batch_dependency_entries sha calcs es) \<subseteq> pub_key ` set es"
    by (rule batch_entries_plain) (simp add: assms)
  moreover have "pub_key ` set es \<subseteq> U" using assms by (simp add: image_subset_iff)
  ultimately show ?thesis by (rule subset_trans)
qed

lemma buffered_ok:
  assumes "workers_ok result U s" "e \<in> set (buffered s is)"
  shows "\<exists>i ck g clean v ds. workers s i = Some (Computed ck g clean v ds)
    \<and> pub_key e = ck \<and> pub_generation e = g \<and> pub_manifest e = None
    \<and> entry_of e = make_dependency_cache_entry v ds True \<and> ck \<in> U"
proof -
  from assms(2) obtain i where e: "e \<in> set (case workers s i of None \<Rightarrow> [] | Some p \<Rightarrow> pending_of p)"
    by (auto simp: buffered_def)
  then obtain p where i: "workers s i = Some p" "e \<in> set (pending_of p)"
    by (cases "workers s i") auto
  then have "phase_ok result U s p" using assms(1) by (auto simp: workers_ok_def)
  with i show ?thesis
    by (cases p) (auto simp: pending_of_def entry_of_def phase_ok_def)
qed

lemma store_ok_step:
  assumes "sys_step sha U calcs result deps_of guarded s s'" "barrier_inv sha result U s" "app_keys U"
  shows "store_ok sha U s'"
  using assms
proof (induction rule: sys_step.induct)
  case (begin_change s c t t' w)
  then show ?case by (auto simp: barrier_inv_def count_ok_def store_ok_def begin_free)
next
  case (begin_fails t t' s e w)
  then show ?case by (auto simp: barrier_inv_def count_ok_def store_ok_def begin_cleanup_fails)
next
  case (invalidate s c K e)
  then obtain m where r: "represents sha U (cache (world s)) m" by (auto simp: barrier_inv_def store_ok_def)
  have "set (sorted_list_of_set K) \<subseteq> U" using invalidate(2,3) by simp
  from drop_list [OF r this invalidate(6)] show ?case
    by (auto simp: store_ok_def drop_keys_def)
next
  case (end_change s c t w)
  then show ?case by (auto simp: barrier_inv_def count_ok_def store_ok_def end_free)
next
  case (publish s i ck g clean v ds t r w)
  then have inv: "store_ok sha U s" "count_ok s" "workers_ok result U s" by (simp_all add: barrier_inv_def)
  from inv(1) obtain m where r: "represents sha U (cache (world s)) m" by (auto simp: store_ok_def)
  have lock: "index_lock (world s) = None" using inv(2) by (simp add: count_ok_def)
  have "phase_ok result U s (Computed ck g clean v ds)" using inv(3) publish(1) by (simp add: workers_ok_def)
  then have ck: "ck \<in> U" by (simp add: phase_ok_def)
  have "represents sha U (backend_set ck (make_dependency_cache_entry v ds True)
      (record_many_cache_dependencies sha (published_entries calcs ck ds) (cache (world s))))
      (spec_record (published_entries calcs ck ds) m)"
    by (rule backend_set_represents [OF record_represents [OF r published_keys [OF ck]] publish(4) ck])
  then have "\<exists>m. represents sha U (cache w) m"
    using publish_world [OF lock publish(2)] r by metis
  then show ?case by (simp add: store_ok_def)
next
  case (flush t s "is" r w)
  then have inv: "store_ok sha U s" "count_ok s" "workers_ok result U s" by (simp_all add: barrier_inv_def)
  from inv(1) obtain m where r: "represents sha U (cache (world s)) m" by (auto simp: store_ok_def)
  have lock: "index_lock (world s) = None" using inv(2) by (simp add: count_ok_def)
  let ?es = "current_entries (world s) (buffered s is)"
  have es: "pub_key e \<in> U \<and> pub_manifest e = None" if "e \<in> set ?es" for e
    using buffered_ok [OF inv(3), of e "is"] that by auto
  have "fst ` set (batch_dependency_entries sha calcs ?es) \<subseteq> U"
    by (rule batch_keys) (rule es)
  from set_entries_represents [OF record_represents [OF r this] flush(3) es]
  have "\<exists>m. represents sha U (cache w) m"
    using flush_world [OF lock flush(1)] r by metis
  then show ?case by (simp add: store_ok_def)
qed (auto simp: barrier_inv_def store_ok_def)

lemma barrier_inv_step:
  "sys_step sha U calcs result deps_of guarded s s' \<Longrightarrow> barrier_inv sha result U s \<Longrightarrow> app_keys U \<Longrightarrow>
     barrier_inv sha result U s'"
  using count_ok_step workers_ok_step store_ok_step unfolding barrier_inv_def by metis

lemma barrier_inv_init: "inj_on sha U \<Longrightarrow> barrier_inv sha result U (init_system d)"
  using represents_empty
  by (auto simp: barrier_inv_def count_ok_def workers_ok_def store_ok_def init_system_def empty_world_def)

lemma barrier_inv_reachable:
  assumes "reachable sha U calcs result deps_of guarded (init_system d) s" "inj_on sha U" "app_keys U"
  shows "barrier_inv sha result U s"
  using assms(1) unfolding reachable_def
proof (induction rule: rtranclp_induct)
  case base
  show ?case using assms(2) by (rule barrier_inv_init)
next
  case (step s s')
  from barrier_inv_step [OF step(2) step(3) assms(3)] show ?case .
qed

text \<open>C8: a computation that started while no data change was active publishes only a value that
  is still current: whatever changes, computations and publications happen in between, in any
  order.\<close>

theorem clean_publication_current:
  assumes "reachable sha U calcs result deps_of guarded (init_system d) s" "inj_on sha U" "app_keys U"
    "workers s i = Some (Computed ck g True v ds)"
    "publish_dependency_cache_entry sha calcs t ck v ds True g None (world s) = (Inr (), w)"
  shows "v = result (database s) ck \<and> changes s = (\<lambda>c. None)
    \<and> cache w ck = Some (Stored (make_dependency_cache_entry v ds True))"
proof -
  have inv: "barrier_inv sha result U s" by (rule barrier_inv_reachable [OF assms(1-3)])
  then have lock: "index_lock (world s) = None" and p: "phase_ok result U s (Computed ck g True v ds)"
    using assms(4) by (auto simp: barrier_inv_def count_ok_def workers_ok_def)
  from publish_world [OF lock assms(5)] p show ?thesis
    by (auto simp: publish_current_def phase_ok_def backend_set_def)
qed

text \<open>While any data change is active, nothing is published, alone or in a batch.\<close>

theorem active_change_blocks_publication:
  assumes "reachable sha U calcs result deps_of guarded (init_system d) s" "inj_on sha U" "app_keys U"
    "changes s c \<noteq> None"
    "publish_dependency_cache_entry sha calcs t ck v ds True g None (world s) = (r, w)"
    "flush_dependency_cache_publications sha calcs t (buffered s is) (world s) = (r', w')"
  shows "r = Inl CachePublishAborted \<and> cache w = cache (world s) \<and> cache w' = cache (world s)"
proof -
  have "barrier_inv sha result U s" by (rule barrier_inv_reachable [OF assms(1-3)])
  then have lock: "index_lock (world s) = None" and f: "change_flag (world s)"
    using assms(4) by (auto simp: barrier_inv_def count_ok_def)
  from publish_world [OF lock assms(5)] flush_world [OF lock assms(6)] f show ?thesis
    by (auto simp: publish_current_def is_dependency_data_change_active_def)
qed

section \<open>Cached values are current, if computations start outside data changes\<close>

definition entries_current :: "('d \<Rightarrow> string \<Rightarrow> 'v obj) \<Rightarrow> string set \<Rightarrow> ('d, 'v) system \<Rightarrow> bool" where
  "entries_current result U s \<longleftrightarrow>
     (\<forall>ck\<in>U. \<forall>ver v ds. cache (world s) ck = Some (Stored (Entry ver v ds)) \<longrightarrow> v = result (database s) ck)"

definition announced_gone :: "('d \<Rightarrow> string \<Rightarrow> 'v obj) \<Rightarrow> string set \<Rightarrow> ('d, 'v) system \<Rightarrow> bool" where
  "announced_gone result U s \<longleftrightarrow>
     (\<forall>c e. changes s c = Some (Announced e) \<longrightarrow> (\<forall>ck\<in>U \<inter> affects result e. cache (world s) ck = None))"

fun clean_phase :: "('d, 'v) phase \<Rightarrow> bool" where
  "clean_phase (Started ck g clean) = clean"
| "clean_phase (Computed ck g clean v ds) = clean"

definition all_clean :: "('d, 'v) system \<Rightarrow> bool" where
  "all_clean s \<longleftrightarrow> (\<forall>i p. workers s i = Some p \<longrightarrow> clean_phase p)"

definition current_inv :: "('d \<Rightarrow> string \<Rightarrow> 'v obj) \<Rightarrow> string set \<Rightarrow> ('d, 'v) system \<Rightarrow> bool" where
  "current_inv result U s \<longleftrightarrow> entries_current result U s \<and> announced_gone result U s \<and> all_clean s"

lemma current_inv_same_cache:
  assumes "current_inv result U s" "cache (world s') = cache (world s)" "database s' = database s"
    "\<And>c e. changes s' c = Some (Announced e) \<Longrightarrow> changes s c = Some (Announced e)"
    "\<And>i p. workers s' i = Some p \<Longrightarrow> workers s i = Some p \<or> clean_phase p"
  shows "current_inv result U s'"
  using assms unfolding current_inv_def entries_current_def announced_gone_def all_clean_def by (metis)

text \<open>A store step outside every change that keeps every entry of \<open>U\<close> or writes a current one.\<close>

lemma current_inv_publish:
  assumes inv: "current_inv result U s" and none: "changes s = (\<lambda>c. None)"
    and same: "database s' = database s" "changes s' = changes s"
      "\<And>i p. workers s' i = Some p \<Longrightarrow> workers s i = Some p"
    and writes: "\<And>k. k \<in> U \<Longrightarrow> cache (world s') k = cache (world s) k
        \<or> (\<exists>v ds tr. cache (world s') k = Some (Stored (make_dependency_cache_entry v ds tr))
             \<and> v = result (database s) k)"
  shows "current_inv result U s'"
  unfolding current_inv_def
proof (intro conjI)
  show "all_clean s'" using inv same(3) unfolding current_inv_def all_clean_def by blast
  show "announced_gone result U s'" by (simp add: announced_gone_def same(2) none)
  show "entries_current result U s'"
    unfolding entries_current_def same(1)
  proof (intro ballI allI impI)
    fix k ver v ds
    assume k: "k \<in> U" and c: "cache (world s') k = Some (Stored (Entry ver v ds))"
    from writes [OF k] show "v = result (database s) k"
    proof
      assume "cache (world s') k = cache (world s) k"
      with inv k c show ?thesis by (simp add: current_inv_def entries_current_def)
    next
      assume "\<exists>v ds tr. cache (world s') k = Some (Stored (make_dependency_cache_entry v ds tr))
          \<and> v = result (database s) k"
      with c show ?thesis by (auto simp: make_dependency_cache_entry_def)
    qed
  qed
qed

lemma current_inv_step:
  assumes "sys_step sha U calcs result deps_of guarded s s'" "barrier_inv sha result U s" "current_inv result U s"
    "app_keys U" "guarded"
  shows "current_inv result U s'"
  using assms
proof (induction rule: sys_step.induct)
  case (begin_change s c t t' w)
  then have "w = (world s)\<lparr>generation := generation (world s) + 1, change_count := max (change_count (world s)) 0 + 1,
      change_flag := True\<rparr>"
    by (simp add: barrier_inv_def count_ok_def begin_free)
  then show ?case by (intro current_inv_same_cache [OF begin_change(4)]) (auto split: if_splits)
next
  case (begin_fails t t' s e w)
  then have "cache w = cache (world s)"
    by (auto simp: barrier_inv_def count_ok_def begin_cleanup_fails)
  then show ?case by (intro current_inv_same_cache [OF begin_fails(3)]) auto
next
  case (invalidate s c K e)
  then obtain m where r: "represents sha U (cache (world s)) m" by (auto simp: barrier_inv_def store_ok_def)
  have "set (sorted_list_of_set K) \<subseteq> U" using invalidate(2,3) by simp
  from drop_list [OF r this invalidate(7)] have
    d: "drop_keys sha K (cache (world s)) k = (if k \<in> K then None else cache (world s) k)" if "k \<in> U" for k
    using that invalidate(3) by (simp add: drop_keys_def)
  from invalidate(4,6) show ?case
    unfolding current_inv_def entries_current_def announced_gone_def all_clean_def by (auto simp: d split: if_splits)
next
  case (commit s c e)
  have a: "cache (world s) ck = None" if "ck \<in> U" "ck \<in> affects result e" for ck
    using commit(1,3) that unfolding current_inv_def announced_gone_def by blast
  have "entries_current result U (s\<lparr>database := e (database s), changes := (changes s)(c \<mapsto> Announced id)\<rparr>)"
    unfolding entries_current_def
  proof (intro ballI allI impI)
    fix ck ver v ds
    assume k: "ck \<in> U"
      "cache (world (s\<lparr>database := e (database s), changes := (changes s)(c \<mapsto> Announced id)\<rparr>)) ck
        = Some (Stored (Entry ver v ds))"
    then have "ck \<notin> affects result e" using a by auto
    then have "result (e (database s)) ck = result (database s) ck" by (auto simp: affects_def)
    moreover have "v = result (database s) ck"
      using commit(3) k by (simp add: current_inv_def entries_current_def)
    ultimately show "v = result (database (s\<lparr>database := e (database s), changes := (changes s)(c \<mapsto> Announced id)\<rparr>)) ck"
      by simp
  qed
  moreover have "affects result id = {}" by (simp add: affects_def)
  ultimately show ?case using commit(3)
    unfolding current_inv_def announced_gone_def all_clean_def by auto
next
  case (end_change s c t w)
  then have "cache w = cache (world s)" by (auto simp: barrier_inv_def count_ok_def end_free)
  then show ?case by (intro current_inv_same_cache [OF end_change(4)]) (auto split: if_splits)
next
  case (start s i ck)
  then show ?case by (intro current_inv_same_cache [OF start(5)]) (auto split: if_splits)
next
  case (compute s i ck g clean)
  have "\<And>i p. workers s i = Some p \<Longrightarrow> clean_phase p"
    using compute(3) by (simp add: current_inv_def all_clean_def)
  from this [OF compute(1)] have "clean" by simp
  then show ?case by (intro current_inv_same_cache [OF compute(3)]) (auto split: if_splits)
next
  case (publish s i ck g clean v ds t r w)
  have "\<And>i p. workers s i = Some p \<Longrightarrow> clean_phase p"
    using publish(4) by (simp add: current_inv_def all_clean_def)
  from this [OF publish(1)] have clean: "clean" by simp
  have inv: "count_ok s" "workers_ok result U s" "store_ok sha U s" using publish(3) by (simp_all add: barrier_inv_def)
  then have lock: "index_lock (world s) = None" and p: "phase_ok result U s (Computed ck g clean v ds)"
    using publish(1) by (auto simp: count_ok_def workers_ok_def)
  obtain m where r: "represents sha U (cache (world s)) m" using inv(3) by (auto simp: store_ok_def)
  have ck: "ck \<in> U" using p by (simp add: phase_ok_def)
  consider "cache w = cache (world s)"
    | "publish_current g (world s)" "cache w = backend_set ck (make_dependency_cache_entry v ds True)
         (record_many_cache_dependencies sha (published_entries calcs ck ds) (cache (world s)))"
    using publish_world [OF lock publish(2)] by blast
  then show ?case
  proof cases
    case 1
    then show ?thesis by (intro current_inv_same_cache [OF publish(4)]) (auto split: if_splits)
  next
    case 2
    have g: "g = generation (world s)" using 2(1) by (simp add: publish_current_def)
    have "changes s = (\<lambda>c. None)" "v = result (database s) ck"
      using p clean g by (auto simp: phase_ok_def)
    moreover have "record_many_cache_dependencies sha (published_entries calcs ck ds) (cache (world s)) k
        = cache (world s) k" if "k \<in> U" for k
      using that publish(5) by (intro record_frame [OF r published_keys [OF ck]]) (simp add: app_keys_def)
    ultimately show ?thesis
      using 2(2) by (intro current_inv_publish [OF publish(4)]) (auto simp: backend_set_def split: if_splits)
  qed
next
  case (flush t s "is" r w)
  have inv: "count_ok s" "workers_ok result U s" "store_ok sha U s" using flush(2) by (simp_all add: barrier_inv_def)
  then have lock: "index_lock (world s) = None" by (simp add: count_ok_def)
  obtain m where r: "represents sha U (cache (world s)) m" using inv(3) by (auto simp: store_ok_def)
  let ?es = "current_entries (world s) (buffered s is)"
  let ?st = "record_many_cache_dependencies sha (batch_dependency_entries sha calcs ?es) (cache (world s))"
  consider "cache w = cache (world s)"
    | "\<not> change_flag (world s)" "cache w = set_dependency_cache_entries sha ?es ?st"
    using flush_world [OF lock flush(1)] by blast
  then show ?case
  proof cases
    case 1
    then show ?thesis by (intro current_inv_same_cache [OF flush(3)]) (auto split: if_splits)
  next
    case 2
    have none: "changes s = (\<lambda>c. None)" using 2(1) inv(1) by (simp add: count_ok_def)
    have es: "pub_key e \<in> U \<and> pub_manifest e = None
        \<and> (\<exists>v ds. entry_of e = make_dependency_cache_entry v ds True \<and> v = result (database s) (pub_key e))"
      if e: "e \<in> set ?es" for e
    proof -
      from buffered_ok [OF inv(2), of e "is"] e obtain i ck g clean v ds where
        b: "workers s i = Some (Computed ck g clean v ds)" "pub_key e = ck" "pub_generation e = g"
          "pub_manifest e = None" "entry_of e = make_dependency_cache_entry v ds True" "ck \<in> U" by auto
      have "\<And>i p. workers s i = Some p \<Longrightarrow> clean_phase p"
        using flush(3) by (simp add: current_inv_def all_clean_def)
      from this [OF b(1)] have "clean" by simp
      moreover have "phase_ok result U s (Computed ck g clean v ds)" using inv(2) b(1) by (simp add: workers_ok_def)
      moreover have "g = generation (world s)" using e b(3) by simp
      ultimately have "v = result (database s) ck" by (simp add: phase_ok_def)
      with b show ?thesis by auto
    qed
    have "fst ` set (batch_dependency_entries sha calcs ?es) \<subseteq> U"
      by (rule batch_keys) (use es in simp)
    then have "?st k = cache (world s) k" if "k \<in> U" for k
      using that flush(4) by (intro record_frame [OF r]) (auto simp: app_keys_def)
    moreover have "cache w k = ?st k \<or> (\<exists>e\<in>set ?es. pub_key e = k \<and> cache w k = Some (Stored (entry_of e)))" for k
      unfolding 2(2) by (rule set_entries_plain) (use es in blast)
    ultimately have writes: "cache w k = cache (world s) k
        \<or> (\<exists>v ds tr. cache w k = Some (Stored (make_dependency_cache_entry v ds tr)) \<and> v = result (database s) k)"
      if "k \<in> U" for k
      using es that by metis
    show ?thesis
      by (rule current_inv_publish [OF flush(3) none]) (use writes in \<open>auto split: if_splits\<close>)
  qed
next
  case (give_up s i)
  then show ?case by (intro current_inv_same_cache [OF give_up(2)]) (auto split: if_splits)
qed

lemma current_inv_init: "current_inv result U (init_system d)"
  by (simp add: current_inv_def entries_current_def announced_gone_def all_clean_def init_system_def empty_world_def)

lemma current_inv_reachable:
  assumes "reachable sha U calcs result deps_of True (init_system d) s" "inj_on sha U" "app_keys U"
  shows "current_inv result U s"
  using assms(1) unfolding reachable_def
proof (induction rule: rtranclp_induct)
  case base
  show ?case by (rule current_inv_init)
next
  case (step s s')
  have "barrier_inv sha result U s"
    by (rule barrier_inv_reachable [OF _ assms(2,3)]) (use step(1) in \<open>unfold reachable_def\<close>)
  from current_inv_step [OF step(2) this step(3) assms(3)] show ?case by simp
qed


section \<open>A run of the program\<close>

text \<open>The database is one number, the cached function under \<open>''k''\<close> returns it, and the data
  change sets it to 1.\<close>

abbreviation number_step :: "bool \<Rightarrow> (nat, nat) system \<Rightarrow> (nat, nat) system \<Rightarrow> bool" where
  "number_step \<equiv> sys_step id {''k''} {} (\<lambda>d ck. Plain d) (\<lambda>d ck. {})"

abbreviation number_reachable :: "bool \<Rightarrow> (nat, nat) system \<Rightarrow> bool" where
  "number_reachable guarded s \<equiv> reachable id {''k''} {} (\<lambda>d ck. Plain d) (\<lambda>d ck. {}) guarded (init_system 0) s"

definition number_state ::
  "bool \<Rightarrow> bool \<Rightarrow> nat \<Rightarrow> nat change option \<Rightarrow> (nat, nat) phase option \<Rightarrow> nat obj option \<Rightarrow> (nat, nat) system" where
  "number_state bumped active d c p v =
     \<lparr>world = \<lparr>cache = (\<lambda>k. None)(''k'' := map_option Stored v), index_lock = None,
        generation = (if bumped then 1 else 0), change_count = (if active then 1 else 0),
        change_flag = active, compute_locks = (\<lambda>k. None)\<rparr>,
      database = d, changes = (\<lambda>x. None)(0 := c), workers = (\<lambda>x. None)(0 := p)\<rparr>"

lemma number_init: "init_system 0 = number_state False False 0 None None None"
  by (simp add: init_system_def empty_world_def number_state_def)

lemma app_keys_number: "app_keys {''k''}"
  by (simp add: app_keys_def metadata_key_def legacy_key_def shard_prefix_def starts_def)

lemma number_fields [simp]:
  "workers (number_state b a d c p v) = (\<lambda>x. None)(0 := p)"
  "changes (number_state b a d c p v) = (\<lambda>x. None)(0 := c)"
  "database (number_state b a d c p v) = d"
  "change_flag (world (number_state b a d c p v)) = a"
  "generation (world (number_state b a d c p v)) = (if b then 1 else 0)"
  "cache (world (number_state b a d c p v)) = (\<lambda>k. None)(''k'' := map_option Stored v)"
  by (simp_all add: number_state_def)

lemma number_updates:
  "(number_state b a d c p v)\<lparr>workers := (\<lambda>x. None)(0 := p')\<rparr> = number_state b a d c p' v"
  "(number_state b a d c p v)\<lparr>changes := (\<lambda>x. None)(0 := c')\<rparr> = number_state b a d c' p v"
  "(number_state b a d c p v)\<lparr>database := d'\<rparr> = number_state b a d' c p v"
  "(number_state b a d c p v)\<lparr>world := world (number_state b' a' d' c' p' v')\<rparr> = number_state b' a' d c p v'"
  by (simp_all add: number_state_def)

lemma number_begin:
  "number_step g (number_state False False d None p v) (number_state True True d (Some Open) p v)"
proof -
  have w: "begin_dependency_data_change [] [] True (world (number_state False False d None p v))
      = (Inr (), world (number_state True True d (Some Open) p v))"
    by (subst begin_free) (simp_all add: number_state_def)
  have c: "changes (number_state False False d None p v) 0 = None" by simp
  from begin_change [OF c w] show ?thesis by (simp only: number_fields number_updates fun_upd_upd)
qed

lemma number_invalidate:
  "number_step g (number_state True True d (Some Open) p None) (number_state True True d (Some (Announced e)) p None)"
proof -
  let ?s = "number_state True True d (Some Open) p None"
  have c: "changes ?s 0 = Some Open" by simp
  have K: "{ck \<in> affects (\<lambda>d ck. Plain d) e. cache (world ?s) ck \<noteq> None} \<subseteq> {}" by simp
  have w: "(world ?s)\<lparr>cache := drop_keys id {} (cache (world ?s))\<rparr> = world ?s"
    by (simp add: drop_keys_def number_state_def)
  from invalidate [where U = "{''k''}" and sha = id and calcs = "{}" and deps_of = "\<lambda>d ck. {}" and guarded = g,
      OF c empty_subsetI finite.emptyI K] show ?thesis
    unfolding w by (simp only: number_fields number_updates fun_upd_upd)
qed

lemma number_commit:
  "number_step g (number_state b a d (Some (Announced e)) p v) (number_state b a (e d) (Some (Announced id)) p v)"
proof -
  have c: "changes (number_state b a d (Some (Announced e)) p v) 0 = Some (Announced e)" by simp
  from commit [OF c] show ?thesis by (simp only: number_fields number_updates fun_upd_upd)
qed

lemma number_end:
  "number_step g (number_state b True d (Some c) p v) (number_state b False d None p v)"
proof -
  let ?s = "number_state b True d (Some c) p v"
  have w: "end_dependency_data_change [] (world ?s) = (Inr (), world (number_state b False d None p v))"
    by (subst end_free) (simp_all add: number_state_def)
  have c: "changes ?s 0 \<noteq> None" by simp
  from end_change [OF c w] show ?thesis by (simp only: number_fields number_updates fun_upd_upd)
qed

lemma number_start:
  assumes "\<not> g \<or> \<not> a"
  shows "number_step g (number_state b a d c None v)
    (number_state b a d c (Some (Started ''k'' (if b then 1 else 0) (\<not> a))) v)"
proof -
  let ?s = "number_state b a d c None v"
  have g: "\<not> g \<or> \<not> is_dependency_data_change_active (world ?s)"
    using assms by (simp add: is_dependency_data_change_active_def)
  have p: "workers ?s 0 = None" and k: "''k'' \<in> {''k''}" by simp_all
  from start [OF p k g] show ?thesis
    by (simp only: number_fields number_updates fun_upd_upd is_dependency_data_change_active_def)
qed

lemma number_compute:
  "number_step g (number_state b a d c (Some (Started ck gen clean)) v)
    (number_state b a d c (Some (Computed ck gen clean (Plain d) {})) v)"
proof -
  have "workers (number_state b a d c (Some (Started ck gen clean)) v) 0 = Some (Started ck gen clean)" by simp
  from compute [OF this] show ?thesis by (simp only: number_fields number_updates fun_upd_upd)
qed

lemma number_published:
  "publish_dependency_cache_entry id {} [] ''k'' (Plain x) {} True (if b then 1 else 0) None
     (world (number_state b False d c p v))
   = (Inr (), world (number_state b False d c p (Some (make_dependency_cache_entry (Plain x) {} True))))"
  by (subst publish_entry_free)
    (auto simp: number_state_def publish_current_def is_dependency_data_change_active_def backend_set_def
      published_entries_def metadata_dependency_set_def record_many_cache_dependencies_def normalized_entries_def)

lemma numeric_one: "(if True then 1 else 0) = (1 :: int)" by simp

lemma number_publish:
  "number_step g (number_state b False d c (Some (Computed ''k'' (if b then 1 else 0) clean (Plain x) {})) v)
     (number_state b False d c None (Some (make_dependency_cache_entry (Plain x) {} True)))"
proof -
  let ?p = "Computed ''k'' (if b then 1 else 0) clean (Plain x) {}"
  have "workers (number_state b False d c (Some ?p) v) 0 = Some ?p" by simp
  from publish [OF this number_published] show ?thesis
    by (simp only: number_fields number_updates fun_upd_upd)
qed

lemma reachable_step:
  "reachable sha U calcs result deps_of g s0 s \<Longrightarrow> sys_step sha U calcs result deps_of g s s' \<Longrightarrow>
     reachable sha U calcs result deps_of g s0 s'"
  unfolding reachable_def by (rule rtranclp.rtrancl_into_rtrancl)

lemma reachable_init: "reachable sha U calcs result deps_of g s s"
  unfolding reachable_def by (rule rtranclp.rtrancl_refl)

lemma number_computed:
  "number_reachable g (number_state False False 0 None (Some (Computed ''k'' 0 True (Plain 0) {})) None)"
proof -
  have "number_reachable g (number_state False False 0 None (Some (Started ''k'' 0 True)) None)"
    using reachable_step [OF reachable_init number_start [of g False False 0 None None]] by (simp add: number_init)
  from reachable_step [OF this number_compute] show ?thesis .
qed

lemma number_stored:
  "number_reachable g (number_state False False 0 None None (Some (make_dependency_cache_entry (Plain 0) {} True)))"
  using reachable_step [OF number_computed number_publish [of g False 0 None True 0 None, simplified]] .

lemma number_open:
  "number_reachable g (number_state True True 0 (Some Open) None None)"
  using reachable_step [OF reachable_init number_begin] by (simp add: number_init)

theorem clean_publication_current_witness:
  "publish_dependency_cache_entry id {} [] ''k'' (Plain 0) {} True 0 None
     (world (number_state False False 0 None (Some (Computed ''k'' 0 True (Plain 0) {})) None))
   = (Inr (), world (number_state False False 0 None (Some (Computed ''k'' 0 True (Plain 0) {}))
       (Some (make_dependency_cache_entry (Plain 0) {} True))))
   \<and> Plain (0 :: nat) = Plain (database (number_state False False 0 None (Some (Computed ''k'' 0 True (Plain 0) {})) None))"
proof -
  let ?s = "number_state False False 0 None (Some (Computed ''k'' 0 True (Plain 0) {})) None"
  have p: "publish_dependency_cache_entry id {} [] ''k'' (Plain 0) {} True 0 None (world ?s)
      = (Inr (), world (number_state False False 0 None (Some (Computed ''k'' 0 True (Plain 0) {}))
          (Some (make_dependency_cache_entry (Plain 0) {} True))))"
    using number_published [of 0 False] by simp
  have w: "workers ?s 0 = Some (Computed ''k'' 0 True (Plain 0) {})" by simp
  from clean_publication_current [OF number_computed [of False] inj_on_id app_keys_number w p] p show ?thesis by simp
qed

theorem active_change_blocks_publication_witness:
  "fst (publish_dependency_cache_entry id {} [] ''k'' (Plain 0) {} True 0 None
     (world (number_state True True 0 (Some Open) None None))) = Inl CachePublishAborted"
proof -
  let ?s = "number_state True True 0 (Some Open) None None"
  obtain r w where p: "publish_dependency_cache_entry id {} [] ''k'' (Plain 0) {} True 0 None (world ?s) = (r, w)"
    by fastforce
  obtain r' w' where f: "flush_dependency_cache_publications id {} [] (buffered ?s [0]) (world ?s) = (r', w')"
    by fastforce
  have c: "changes ?s 0 \<noteq> None" by simp
  from active_change_blocks_publication [OF number_open [of False] inj_on_id app_keys_number c p f] p
  show ?thesis by simp
qed


text \<open>C22: a computation that starts while a data change is active reads the generation that change
  has already set. It can compute on the state before the commit, and once the change has ended its
  publication passes every check: the stored value stays stale with no change active. (The barrier's
  contract, that computations begun before the mutation cannot publish, holds only for those begun
  before \<open>begin_dependency_data_change\<close>.)\<close>

theorem late_start_publishes_stale:
  "\<exists>s. number_reachable False s \<and> changes s = (\<lambda>c. None) \<and> workers s = (\<lambda>i. None)
     \<and> \<not> is_dependency_data_change_active (world s)
     \<and> cache (world s) ''k'' = Some (Stored (make_dependency_cache_entry (Plain 0) {} True))
     \<and> database s = 1"
proof -
  have "number_reachable False (number_state True True 0 (Some Open) (Some (Started ''k'' 1 False)) None)"
    using reachable_step [OF number_open number_start [of False True True 0 "Some Open" None]] by simp
  from reachable_step [OF reachable_step [OF this number_compute] number_invalidate [where e = "\<lambda>d. 1"]]
  have "number_reachable False (number_state True True 0 (Some (Announced (\<lambda>d. 1))) (Some (Computed ''k'' 1 False (Plain 0) {})) None)" .
  from reachable_step [OF reachable_step [OF this number_commit] number_end]
  have "number_reachable False (number_state True False 1 None (Some (Computed ''k'' 1 False (Plain 0) {})) None)" .
  from reachable_step [OF this number_publish [of False True 1 None False 0 None, unfolded numeric_one]]
  have "number_reachable False (number_state True False 1 None None (Some (make_dependency_cache_entry (Plain 0) {} True)))" .
  then show ?thesis
    by (intro exI [of _ "number_state True False 1 None None (Some (make_dependency_cache_entry (Plain 0) {} True))"])
      (simp add: is_dependency_data_change_active_def)
qed

end
