(* ===== verification/PathMap.thy ===== *)
theory PathMap
  imports Prelude
begin

text \<open>
  Paths between manager classes (\<open>src/general_manager/utils/path_mapping.py\<close>).

  A manager class is its identity and its name (\<open>cls\<close>): two classes may share a name. The
  registry is the list of registered classes. The edges of a class, which the code reads from
  the interface's attribute types and the GraphQL properties of the class and its bases, are
  computed by \<open>iter_manager_connections\<close> from a description of the class; the type of an
  attribute is a manager class, or something else.

  \<open>find_path\<close> is the breadth-first search of \<open>_find_path\<close>, \<open>get_all_connected\<close> its
  exhaustive variant, \<open>create_path\<close> the depth-first search of \<open>PathTracer\<close>, \<open>traverse_path\<close> the
  walk along a path through instances and buckets.
\<close>

section \<open>Classes and their connections\<close>

datatype cls = Cls (cls_id: nat) (cls_name: string)

datatype attr_type = ManagerType cls | OtherType

text \<open>An entry of \<open>get_attribute_types()\<close>: a mapping with an optional \<open>type\<close>, or not a mapping.\<close>

datatype attr_info = InfoMapping "attr_type option" | InfoOther

text \<open>A class attribute: a GraphQL property with its type hint and the arguments of the hint, or another value.\<close>

datatype class_attr = GraphQLProp attr_type "attr_type list" | PlainAttr

record class_desc =
  cd_attribute_types :: "(string \<times> attr_info) list"
  cd_mro :: "(string \<times> class_attr) list list"

fun as_manager_class :: "attr_type \<Rightarrow> cls option" where
  "as_manager_class (ManagerType c) = Some c"
| "as_manager_class OtherType = None"

fun interface_connections :: "(string \<times> attr_info) list \<Rightarrow> (string, attr_type) odict \<Rightarrow> (string, attr_type) odict" where
  "interface_connections [] d = d"
| "interface_connections ((a, InfoMapping (Some t)) # xs) d = interface_connections xs (od_set a t d)"
| "interface_connections ((a, InfoMapping None) # xs) d = interface_connections xs (od_set a OtherType d)"
| "interface_connections ((a, InfoOther) # xs) d = interface_connections xs d"

fun mro_connections ::
    "(string \<times> class_attr) list \<Rightarrow> string list \<times> (string, attr_type) odict
      \<Rightarrow> string list \<times> (string, attr_type) odict" where
  "mro_connections [] r = r"
| "mro_connections ((a, v) # xs) (seen, d) =
     (if a \<in> set seen then mro_connections xs (seen, d)
      else (case v of
              PlainAttr \<Rightarrow> mro_connections xs (a # seen, d)
            | GraphQLProp hint args \<Rightarrow>
                mro_connections xs (a # seen, od_set a (case args of [] \<Rightarrow> hint | t # _ \<Rightarrow> t) d)))"

definition iter_manager_connections :: "class_desc \<Rightarrow> (string \<times> cls) list" where
  "iter_manager_connections cd =
     (let (seen, d) = mro_connections (concat (cd_mro cd))
                        ([], interface_connections (cd_attribute_types cd) [])
      in List.map_filter (\<lambda>(a, t). map_option (Pair a) (as_manager_class t)) d)"

type_synonym class_edge = "string \<times> cls"
type_synonym world = "(cls, class_desc) odict"

definition edges_for_class :: "world \<Rightarrow> cls \<Rightarrow> class_edge list" where
  "edges_for_class w c = (case od_get w c of None \<Rightarrow> [] | Some cd \<Rightarrow> iter_manager_connections cd)"

definition classes_by_name :: "cls list \<Rightarrow> (string, cls) odict" where
  "classes_by_name registry = foldl (\<lambda>d c. od_set (cls_name c) c d) [] registry"

section \<open>Breadth-first search\<close>

type_synonym bfs_queue = "(cls \<times> string list) list"

text \<open>The inner \<open>for\<close> loop: the path found, or the visited classes and the queue after the loop.\<close>

fun visit_edges ::
    "cls \<Rightarrow> string list \<Rightarrow> class_edge list \<Rightarrow> cls list \<Rightarrow> bfs_queue \<Rightarrow> string list + cls list \<times> bfs_queue" where
  "visit_edges dest path [] visited queue = Inr (visited, queue)"
| "visit_edges dest path ((attr, c) # es) visited queue =
     (if c \<in> set visited then visit_edges dest path es visited queue
      else if c = dest then Inl (path @ [attr])
      else visit_edges dest path es (c # visited) (queue @ [(c, path @ [attr])]))"

definition targets :: "world \<Rightarrow> cls list" where
  "targets w = map snd (concat (map (iter_manager_connections \<circ> snd) w))"

lemma edges_in_targets: "(a, c) \<in> set (edges_for_class w d) \<Longrightarrow> c \<in> set (targets w)"
proof -
  assume "(a, c) \<in> set (edges_for_class w d)"
  then obtain cd where "od_get w d = Some cd" and e: "(a, c) \<in> set (iter_manager_connections cd)"
    by (cases "od_get w d") (simp_all add: edges_for_class_def)
  then have "(d, cd) \<in> set w" by (simp add: map_of_SomeD)
  with e show "c \<in> set (targets w)" unfolding targets_def by force
qed

text \<open>The edges the loop follows: to classes not visited before, each class once.\<close>

fun new_edges :: "class_edge list \<Rightarrow> cls list \<Rightarrow> class_edge list" where
  "new_edges [] visited = []"
| "new_edges ((attr, c) # es) visited =
     (if c \<in> set visited then new_edges es visited else (attr, c) # new_edges es (c # visited))"

lemma new_edges_targets: "snd ` set (new_edges es visited) = snd ` set es - set visited"
  by (induction es visited rule: new_edges.induct) auto

lemma new_edges_subset: "set (new_edges es visited) \<subseteq> set es"
  by (induction es visited rule: new_edges.induct) auto

lemma new_edges_distinct: "distinct (map snd (new_edges es visited))"
proof (induction es visited rule: new_edges.induct)
  case (2 attr c es visited)
  then show ?case using new_edges_targets [of es "c # visited"] by auto
qed simp

lemma visit_edges_Inr':
  "visit_edges dest path es visited queue = Inr (visited', queue') \<Longrightarrow>
     set visited' = set visited \<union> snd ` set (new_edges es visited)
     \<and> queue' = queue @ map (\<lambda>(a, c). (c, path @ [a])) (new_edges es visited)
     \<and> dest \<notin> snd ` set (new_edges es visited)"
proof (induction es visited arbitrary: queue rule: new_edges.induct)
  case (2 attr c es visited)
  show ?case
  proof (cases "c \<in> set visited")
    case True
    with 2(1) [OF True, of queue] 2(3) show ?thesis by simp
  next
    case False
    with 2(3) have "c \<noteq> dest" by auto
    with False 2(2) [OF False, of "queue @ [(c, path @ [attr])]"] 2(3) show ?thesis by auto
  qed
qed simp

lemma visit_edges_Inr:
  assumes "visit_edges dest path es visited queue = Inr (visited', queue')"
  shows "set visited' = set visited \<union> snd ` set (new_edges es visited)"
    "queue' = queue @ map (\<lambda>(a, c). (c, path @ [a])) (new_edges es visited)"
    "dest \<notin> snd ` set (new_edges es visited)"
  using visit_edges_Inr' [OF assms] by blast+

lemma visit_edges_Inl:
  assumes "visit_edges dest path es visited queue = Inl p"
  shows "\<exists>a. (a, dest) \<in> set es \<and> dest \<notin> set visited \<and> p = path @ [a]"
  using assms
  by (induction es visited arbitrary: queue rule: new_edges.induct) (auto split: if_splits)

function bfs :: "world \<Rightarrow> cls \<Rightarrow> cls list \<Rightarrow> bfs_queue \<Rightarrow> string list option" where
  "bfs w dest visited queue =
     (case queue of
        [] \<Rightarrow> None
      | (c, path) # rest \<Rightarrow>
          (case visit_edges dest path (edges_for_class w c) visited rest of
             Inl p \<Rightarrow> Some p
           | Inr (visited', queue') \<Rightarrow> bfs w dest visited' queue'))"
  by auto
termination
proof (relation "measures [\<lambda>(w, dest, visited, queue). card (set (targets w) - set visited),
    \<lambda>(w, dest, visited, queue). length queue]", goal_cases)
  case (2 w dest visited queue p rest c path r visited' queue')
  then have v: "visit_edges dest path (edges_for_class w c) visited rest = Inr (visited', queue')" by simp
  note n = visit_edges_Inr(1,2) [OF v]
  let ?new = "new_edges (edges_for_class w c) visited"
  show ?case
  proof (cases ?new)
    case Nil
    with n 2(1,2) show ?thesis by simp
  next
    case (Cons e es)
    then obtain d where d: "d \<in> snd ` set ?new" by (cases e) auto
    then have "d \<in> set (targets w)" "d \<notin> set visited"
      using new_edges_targets [of "edges_for_class w c" visited] edges_in_targets [of _ d w c] by auto
    with d n(1) have "card (set (targets w) - set visited') < card (set (targets w) - set visited)"
      by (intro psubset_card_mono) auto
    then show ?thesis by simp
  qed
qed simp

declare bfs.simps [simp del]

definition find_path :: "world \<Rightarrow> cls list \<Rightarrow> string \<Rightarrow> string \<Rightarrow> string list option" where
  "find_path w registry start dest =
     (if start = dest then Some []
      else (case (od_get (classes_by_name registry) start, od_get (classes_by_name registry) dest) of
              (Some s, Some d) \<Rightarrow> bfs w d [s] [(s, [])]
            | _ \<Rightarrow> None))"

section \<open>The search finds a shortest path\<close>

fun follows :: "world \<Rightarrow> cls \<Rightarrow> string list \<Rightarrow> cls \<Rightarrow> bool" where
  "follows w c [] d = (c = d)"
| "follows w c (a # p) d = (\<exists>e. (a, e) \<in> set (edges_for_class w c) \<and> follows w e p d)"

lemma follows_snoc:
  "follows w c (p @ [a]) d \<longleftrightarrow> (\<exists>e. follows w c p e \<and> (a, d) \<in> set (edges_for_class w e))"
  by (induction p arbitrary: c) auto

text \<open>
  The queue is a sequence of classes with a shortest path to each, in order of length and
  spread over at most two lengths; every class nearer than its head is visited; a visited
  class is still queued or has been expanded.
\<close>

definition bfs_inv :: "world \<Rightarrow> cls \<Rightarrow> cls \<Rightarrow> cls list \<Rightarrow> bfs_queue \<Rightarrow> bool" where
  "bfs_inv w s dest visited queue \<longleftrightarrow>
     dest \<notin> set visited \<and> s \<in> set visited
     \<and> (\<forall>c p. (c, p) \<in> set queue \<longrightarrow> follows w s p c
          \<and> (\<forall>p'. follows w s p' c \<longrightarrow> length p \<le> length p'))
     \<and> (\<forall>c\<in>set visited. c \<in> fst ` set queue \<or> (\<forall>a d. (a, d) \<in> set (edges_for_class w c) \<longrightarrow> d \<in> set visited))
     \<and> sorted (map (length \<circ> snd) queue)
     \<and> (\<forall>c p rest. queue = (c, p) # rest \<longrightarrow>
          (\<forall>d q. (d, q) \<in> set rest \<longrightarrow> length q \<le> Suc (length p))
          \<and> (\<forall>d q. follows w s q d \<longrightarrow> length q \<le> length p \<longrightarrow> d \<in> set visited))"

lemma closed_reachable:
  assumes "s \<in> V" "\<forall>c\<in>V. \<forall>a d. (a, d) \<in> set (edges_for_class w c) \<longrightarrow> d \<in> V" "follows w s p d"
  shows "d \<in> V"
  using assms(1,3)
proof (induction p arbitrary: s)
  case (Cons a p)
  then obtain e where "(a, e) \<in> set (edges_for_class w s)" "follows w e p d" by auto
  with Cons.IH [of e] Cons.prems(1) assms(2) show ?case by blast
qed simp

lemma bfs_inv_step:
  assumes inv: "bfs_inv w s dest visited ((c, path) # rest)"
    and step: "visit_edges dest path (edges_for_class w c) visited rest = Inr (visited', queue')"
  shows "bfs_inv w s dest visited' queue'"
proof -
  let ?es = "edges_for_class w c"
  define new where "new = map (\<lambda>(a, c). (c, path @ [a])) (new_edges ?es visited)"
  note st = visit_edges_Inr [OF step]
  have q': "queue' = rest @ new" using st(2) by (simp add: new_def)
  have fn: "fst ` set new = snd ` set (new_edges ?es visited)" by (force simp: new_def)
  have v': "set visited' = set visited \<union> fst ` set new" using st(1) fn by simp
  have fst_new: "fst ` set new = snd ` set ?es - set visited" by (simp only: fn new_edges_targets)
  have new_len: "length p = Suc (length path)" if "(d, p) \<in> set new" for d p
    using that by (auto simp: new_def)
  have new_path: "\<exists>a. (a, d) \<in> set ?es \<and> p = path @ [a]" if "(d, p) \<in> set new" for d p
    using that new_edges_subset [of ?es visited] by (auto simp: new_def)
  note i = inv [unfolded bfs_inv_def]
  note i1 = i [THEN conjunct1] and i2 = i [THEN conjunct2]
  note i3 = i2 [THEN conjunct1] and i4 = i2 [THEN conjunct2]
  note i5 = i4 [THEN conjunct1, rule_format] and i6 = i4 [THEN conjunct2]
  note i7 = i6 [THEN conjunct1] and i8 = i6 [THEN conjunct2]
  note i9 = i8 [THEN conjunct1] and i10 = i8 [THEN conjunct2, rule_format, OF refl]
  have old: "dest \<notin> set visited" "s \<in> set visited"
    "\<And>c' p. (c', p) \<in> set ((c, path) # rest) \<Longrightarrow> follows w s p c'"
    "\<And>c' p p'. (c', p) \<in> set ((c, path) # rest) \<Longrightarrow> follows w s p' c' \<Longrightarrow> length p \<le> length p'"
    "\<And>e a d. e \<in> set visited \<Longrightarrow> e \<notin> fst ` set ((c, path) # rest) \<Longrightarrow> (a, d) \<in> set (edges_for_class w e)
       \<Longrightarrow> d \<in> set visited"
    "sorted (map (length \<circ> snd) ((c, path) # rest))"
    "\<And>d q. (d, q) \<in> set rest \<Longrightarrow> length q \<le> Suc (length path)"
    "\<And>d q. follows w s q d \<Longrightarrow> length q \<le> length path \<Longrightarrow> d \<in> set visited"
    by (rule i1, rule i3, use i5 in blast, use i5 in blast, use i7 in blast, rule i9, use i10 in blast,
        use i10 in blast)
  have rest_len: "length path \<le> length q" if "(d, q) \<in> set rest" for d q
    using old(6) that by fastforce
  have expanded: "d \<in> set visited'" if "(a, d) \<in> set ?es" for a d
    using that v' fst_new by force
  show ?thesis
    unfolding bfs_inv_def
  proof (intro conjI)
    show "dest \<notin> set visited'" using old(1) st(1,3) by blast
    show "s \<in> set visited'" using old(2) v' by simp
    show "\<forall>c' p. (c', p) \<in> set queue' \<longrightarrow> follows w s p c' \<and> (\<forall>p'. follows w s p' c' \<longrightarrow> length p \<le> length p')"
    proof (intro allI impI)
      fix c' p assume "(c', p) \<in> set queue'"
      then consider "(c', p) \<in> set rest" | "(c', p) \<in> set new" by (auto simp: q')
      then show "follows w s p c' \<and> (\<forall>p'. follows w s p' c' \<longrightarrow> length p \<le> length p')"
      proof cases
        case 1
        then show ?thesis using old(3,4) [of c' p] by simp
      next
        case 2
        then have "c' \<notin> set visited" using fst_new by force
        then have "Suc (length path) \<le> length p'" if "follows w s p' c'" for p'
          using old(8) [OF that] by fastforce
        moreover have "follows w s p c'"
          using new_path [OF 2] old(3) [of c path] by (auto simp: follows_snoc)
        ultimately show ?thesis using new_len [OF 2] by simp
      qed
    qed
    show "\<forall>c'\<in>set visited'. c' \<in> fst ` set queue'
        \<or> (\<forall>a d. (a, d) \<in> set (edges_for_class w c') \<longrightarrow> d \<in> set visited')"
    proof
      fix c' assume "c' \<in> set visited'"
      then consider "c' \<in> fst ` set new" | "c' = c" | "c' \<in> set visited" "c' \<noteq> c" using v' by auto
      then show "c' \<in> fst ` set queue' \<or> (\<forall>a d. (a, d) \<in> set (edges_for_class w c') \<longrightarrow> d \<in> set visited')"
      proof cases
        case 3
        with old(5) [of c'] v' show ?thesis by (auto simp: q')
      qed (use expanded in \<open>auto simp: q'\<close>)
    qed
    have "map (length \<circ> snd) new = replicate (length new) (Suc (length path))"
      using new_len by (intro replicate_eqI) auto
    moreover have "sorted (map (length \<circ> snd) rest)" using old(6) by simp
    moreover have "\<forall>x\<in>set (map (length \<circ> snd) rest). x \<le> Suc (length path)" using old(7) by fastforce
    ultimately show "sorted (map (length \<circ> snd) queue')" by (auto simp: q' sorted_append)
    show "\<forall>c' p r. queue' = (c', p) # r \<longrightarrow>
        (\<forall>d q. (d, q) \<in> set r \<longrightarrow> length q \<le> Suc (length p))
        \<and> (\<forall>d q. follows w s q d \<longrightarrow> length q \<le> length p \<longrightarrow> d \<in> set visited')"
    proof (intro allI impI)
      fix c' p r assume q: "queue' = (c', p) # r"
      then have "(c', p) \<in> set rest \<or> (c', p) \<in> set new" by (cases rest) (auto simp: q')
      then have p: "length path \<le> length p" "length p \<le> Suc (length path)"
        using rest_len [of c' p] old(7) [of c' p] new_len [of c' p] by auto
      have "length u \<le> Suc (length path)" if "(d, u) \<in> set queue'" for d u
        using that old(7) [of d u] new_len [of d u] by (auto simp: q')
      then have 1: "\<forall>d u. (d, u) \<in> set r \<longrightarrow> length u \<le> Suc (length p)"
        using p(1) q by (metis Suc_le_mono le_trans list.set_intros(2))
      have "d \<in> set visited'" if f: "follows w s u d" and len: "length u \<le> length p" for d u
      proof (cases "length u \<le> length path")
        case True
        with old(8) [OF f] v' show ?thesis by simp
      next
        case False
        with len p have lu: "length u = Suc (length path)" "length p = Suc (length path)" by simp_all
        then obtain u' a where u: "u = u' @ [a]" by (cases u rule: rev_cases) auto
        from f obtain e where e: "follows w s u' e" "(a, d) \<in> set (edges_for_class w e)"
          by (auto simp: u follows_snoc)
        have len': "length u' = length path" using lu(1) u by simp
        with old(8) [OF e(1)] have ev: "e \<in> set visited" by simp
        have "e \<notin> fst ` set rest"
        proof
          assume "e \<in> fst ` set rest"
          then obtain pe where pe: "(e, pe) \<in> set rest" by auto
          with old(4) [of e pe u'] e(1) len' have "length pe \<le> length path" by simp
          moreover have "length p \<le> length pe"
          proof (cases rest)
            case Nil
            with pe show ?thesis by simp
          next
            case (Cons x xs)
            with q q' have "x = (c', p)" by simp
            with old(6) Cons pe show ?thesis by fastforce
          qed
          ultimately show False using lu(2) by simp
        qed
        then show ?thesis
          using old(5) [OF ev _ e(2)] expanded [of a d] e(2) v' by (cases "e = c") auto
      qed
      with 1 show "(\<forall>d u. (d, u) \<in> set r \<longrightarrow> length u \<le> Suc (length p))
          \<and> (\<forall>d u. follows w s u d \<longrightarrow> length u \<le> length p \<longrightarrow> d \<in> set visited')" by blast
    qed
  qed
qed

lemma bfs_correct:
  assumes "bfs_inv w s dest visited queue"
  shows "case bfs w dest visited queue of
      None \<Rightarrow> \<forall>p. \<not> follows w s p dest
    | Some p \<Rightarrow> follows w s p dest \<and> (\<forall>p'. follows w s p' dest \<longrightarrow> length p \<le> length p')"
  using assms
proof (induction w dest visited queue rule: bfs.induct)
  case (1 w dest visited queue)
  show ?case
  proof (cases queue)
    case Nil
    with 1(2) have "dest \<notin> set visited" "s \<in> set visited"
      "\<forall>c\<in>set visited. \<forall>a d. (a, d) \<in> set (edges_for_class w c) \<longrightarrow> d \<in> set visited"
      unfolding bfs_inv_def by auto
    then have "\<not> follows w s p dest" for p using closed_reachable by blast
    with Nil show ?thesis by (simp add: bfs.simps)
  next
    case (Cons h rest)
    obtain c path where h: "h = (c, path)" by (cases h)
    note inv = 1(2) [unfolded Cons h]
    show ?thesis
    proof (cases "visit_edges dest path (edges_for_class w c) visited rest")
      case (Inl p)
      from visit_edges_Inl [OF Inl] obtain a where
        a: "(a, dest) \<in> set (edges_for_class w c)" "dest \<notin> set visited" "p = path @ [a]" by blast
      have "follows w s path c" using inv unfolding bfs_inv_def by simp
      then have "follows w s p dest" using a by (auto simp: follows_snoc)
      moreover have "length p \<le> length p'" if "follows w s p' dest" for p'
      proof (rule ccontr)
        assume "\<not> length p \<le> length p'"
        then have "length p' \<le> length path" using a(3) by simp
        with inv that a(2) show False unfolding bfs_inv_def by blast
      qed
      moreover have "bfs w dest visited queue = Some p" using Inl Cons h by (simp add: bfs.simps)
      ultimately show ?thesis by simp
    next
      case (Inr r)
      obtain visited' queue' where r: "r = (visited', queue')" by (cases r)
      from bfs_inv_step [OF inv Inr [unfolded r]] have "bfs_inv w s dest visited' queue'" .
      from 1(1) [OF Cons h [symmetric] Inr r [symmetric] this] show ?thesis
        using Inr unfolding Cons h r by (subst bfs.simps) simp
    qed
  qed
qed

lemma classes_by_name_get:
  "od_get (foldl (\<lambda>d c. od_set (cls_name c) c d) d0 registry) n = Some c \<Longrightarrow>
     (c \<in> set registry \<and> cls_name c = n) \<or> od_get d0 n = Some c"
  by (induction registry arbitrary: d0) (fastforce simp: odict_simps split: if_splits)+

lemma classes_by_nameD: "od_get (classes_by_name registry) n = Some c \<Longrightarrow> c \<in> set registry \<and> cls_name c = n"
  using classes_by_name_get [of "[]" registry n c] by (simp add: classes_by_name_def)

lemma bfs_inv_start: "d \<noteq> s \<Longrightarrow> bfs_inv w s d [s] [(s, [])]"
  by (auto simp: bfs_inv_def)

text \<open>C32: the path lookup between two registered classes returns a shortest sequence of attributes
that leads from the one to the other, and returns no path exactly when there is none.\<close>

theorem find_path_shortest:
  assumes "start \<noteq> dest" "od_get (classes_by_name registry) start = Some s"
    "od_get (classes_by_name registry) dest = Some d"
  shows "case find_path w registry start dest of
      None \<Rightarrow> \<forall>p. \<not> follows w s p d
    | Some p \<Rightarrow> follows w s p d \<and> (\<forall>p'. follows w s p' d \<longrightarrow> length p \<le> length p')"
proof -
  from classes_by_nameD [OF assms(2)] classes_by_nameD [OF assms(3)] assms(1) have "d \<noteq> s" by auto
  from bfs_correct [OF bfs_inv_start [OF this], of w] show ?thesis
    using assms by (simp add: find_path_def)
qed

definition demo_world :: world where
  "demo_world = [
     (Cls 1 ''Project'', \<lparr>cd_attribute_types = [(''owner'', InfoMapping (Some (ManagerType (Cls 2 ''Human'')))),
        (''name'', InfoMapping (Some OtherType))], cd_mro = [[(''parts'', GraphQLProp OtherType [ManagerType (Cls 3 ''Part'')])]]\<rparr>),
     (Cls 2 ''Human'', \<lparr>cd_attribute_types = [(''firm'', InfoMapping (Some (ManagerType (Cls 4 ''Firm''))))], cd_mro = []\<rparr>),
     (Cls 3 ''Part'', \<lparr>cd_attribute_types = [], cd_mro = [[(''project'', GraphQLProp (ManagerType (Cls 1 ''Project'')) [])]]\<rparr>)]"

definition demo_registry :: "cls list" where
  "demo_registry = [Cls 1 ''Project'', Cls 2 ''Human'', Cls 3 ''Part'', Cls 4 ''Firm'']"

theorem find_path_shortest_witness:
  "find_path demo_world demo_registry ''Part'' ''Firm'' = Some [''project'', ''owner'', ''firm'']
   \<and> \<not> follows demo_world (Cls 3 ''Part'') [''project'', ''owner''] (Cls 4 ''Firm'')"
proof -
  have f: "find_path demo_world demo_registry ''Part'' ''Firm'' = Some [''project'', ''owner'', ''firm'']"
    by code_simp
  have "od_get (classes_by_name demo_registry) ''Part'' = Some (Cls 3 ''Part'')"
    "od_get (classes_by_name demo_registry) ''Firm'' = Some (Cls 4 ''Firm'')" by code_simp+
  from find_path_shortest [OF _ this, of demo_world] f
  have "\<forall>p'. follows demo_world (Cls 3 ''Part'') p' (Cls 4 ''Firm'') \<longrightarrow> 3 \<le> length p'"
    by (simp add: numeral_3_eq_3)
  from spec [OF this, of "[''project'', ''owner'']"] f show ?thesis by auto
qed

section \<open>Reachable classes\<close>

text \<open>\<open>get_all_connected\<close>: the same loop without a destination.\<close>

fun collect_edges :: "(string, cls) odict \<Rightarrow> class_edge list \<Rightarrow> cls list \<times> cls list \<times> string list
    \<Rightarrow> cls list \<times> cls list \<times> string list" where
  "collect_edges names [] r = r"
| "collect_edges names ((attr, c) # es) (visited, queue, found) =
     (if c \<in> set visited then collect_edges names es (visited, queue, found)
      else collect_edges names es (c # visited, queue @ [c],
             if od_get names (cls_name c) = Some c then cls_name c # found else found))"

lemma collect_edges_spec:
  "collect_edges names es (visited, queue, found) =
     (rev (map snd (new_edges es visited)) @ visited, queue @ map snd (new_edges es visited),
      rev (map cls_name (filter (\<lambda>c. od_get names (cls_name c) = Some c) (map snd (new_edges es visited)))) @ found)"
  by (induction es visited arbitrary: queue found rule: new_edges.induct) auto

function connected_loop :: "world \<Rightarrow> (string, cls) odict \<Rightarrow> cls list \<Rightarrow> cls list \<Rightarrow> string list \<Rightarrow> string list" where
  "connected_loop w names visited queue found =
     (case queue of
        [] \<Rightarrow> found
      | c # rest \<Rightarrow>
          (case collect_edges names (edges_for_class w c) (visited, rest, found) of
             (visited', queue', found') \<Rightarrow> connected_loop w names visited' queue' found'))"
  by auto
termination
proof (relation "measures [\<lambda>(w, names, visited, queue, found). card (set (targets w) - set visited),
    \<lambda>(w, names, visited, queue, found). length queue]", goal_cases)
  case (2 w names visited queue found c rest visited' r queue' found')
  let ?new = "new_edges (edges_for_class w c) visited"
  from 2 have v: "visited' = rev (map snd ?new) @ visited" "queue' = rest @ map snd ?new"
    by (auto simp: collect_edges_spec)
  show ?case
  proof (cases ?new)
    case Nil
    with v 2(1) show ?thesis by simp
  next
    case (Cons e es)
    then obtain d where d: "d \<in> snd ` set ?new" by (cases e) auto
    then have "d \<in> set (targets w)" "d \<notin> set visited"
      using new_edges_targets [of "edges_for_class w c" visited] edges_in_targets [of _ d w c] by auto
    with d v(1) have "card (set (targets w) - set visited') < card (set (targets w) - set visited)"
      by (intro psubset_card_mono) auto
    then show ?thesis by simp
  qed
qed simp

declare connected_loop.simps [simp del]

definition get_all_connected :: "world \<Rightarrow> cls list \<Rightarrow> string \<Rightarrow> string set" where
  "get_all_connected w registry start =
     (case od_get (classes_by_name registry) start of
        None \<Rightarrow> {}
      | Some s \<Rightarrow> set (connected_loop w (classes_by_name registry) [s] [s] []))"

definition conn_inv :: "world \<Rightarrow> (string, cls) odict \<Rightarrow> cls \<Rightarrow> cls list \<Rightarrow> cls list \<Rightarrow> string list \<Rightarrow> bool" where
  "conn_inv w names s visited queue found \<longleftrightarrow> s \<in> set visited \<and> set queue \<subseteq> set visited
     \<and> (\<forall>c\<in>set visited. \<exists>p. follows w s p c)
     \<and> (\<forall>c\<in>set visited. c \<in> set queue \<or> snd ` set (edges_for_class w c) \<subseteq> set visited)
     \<and> set found = cls_name ` {c \<in> set visited - {s}. od_get names (cls_name c) = Some c}"

lemma image_Collect_remove:
  "s \<notin> N \<Longrightarrow> f ` {c \<in> N \<union> V - {s}. Q c} = f ` {c \<in> N. Q c} \<union> f ` {c \<in> V - {s}. Q c}"
  by blast

lemma connected_loop_correct:
  assumes "conn_inv w names s visited queue found"
  shows "set (connected_loop w names visited queue found)
    = cls_name ` {c. c \<noteq> s \<and> (\<exists>p. follows w s p c) \<and> od_get names (cls_name c) = Some c}"
  using assms
proof (induction w names visited queue found rule: connected_loop.induct)
  case (1 w names visited queue found)
  show ?case
  proof (cases queue)
    case Nil
    note i = 1(2) [unfolded conn_inv_def Nil]
    have c: "s \<in> set visited"
      "\<forall>c\<in>set visited. \<forall>a d. (a, d) \<in> set (edges_for_class w c) \<longrightarrow> d \<in> set visited"
      "\<forall>c\<in>set visited. \<exists>p. follows w s p c"
      "set found = cls_name ` {c \<in> set visited - {s}. od_get names (cls_name c) = Some c}"
      by (rule i [THEN conjunct1], use i [THEN conjunct2, THEN conjunct2, THEN conjunct2, THEN conjunct1] in force,
          rule i [THEN conjunct2, THEN conjunct2, THEN conjunct1],
          rule i [THEN conjunct2, THEN conjunct2, THEN conjunct2, THEN conjunct2])
    have "c \<in> set visited \<longleftrightarrow> (\<exists>p. follows w s p c)" for c
      using closed_reachable [OF c(1,2)] c(3) by blast
    then have "{c \<in> set visited - {s}. od_get names (cls_name c) = Some c}
        = {c. c \<noteq> s \<and> (\<exists>p. follows w s p c) \<and> od_get names (cls_name c) = Some c}" by auto
    with Nil c(4) show ?thesis by (simp add: connected_loop.simps)
  next
    case (Cons c rest)
    let ?new = "new_edges (edges_for_class w c) visited"
    define v' q' f' where "v' = rev (map snd ?new) @ visited" and "q' = rest @ map snd ?new"
      and "f' = rev (map cls_name (filter (\<lambda>c. od_get names (cls_name c) = Some c) (map snd ?new))) @ found"
    have step: "collect_edges names (edges_for_class w c) (visited, rest, found) = (v', q', f')"
      by (simp add: collect_edges_spec v'_def q'_def f'_def)
    note inv = 1(2) [unfolded conn_inv_def Cons]
    have new: "snd ` set ?new = snd ` set (edges_for_class w c) - set visited" by (rule new_edges_targets)
    have reach: "\<exists>p. follows w s p d" if "d \<in> snd ` set ?new" for d
    proof -
      from that new obtain a where a: "(a, d) \<in> set (edges_for_class w c)" by auto
      from inv obtain p where "follows w s p c" by auto
      with a have "follows w s (p @ [a]) d" by (auto simp: follows_snoc)
      then show ?thesis by blast
    qed
    have "conn_inv w names s v' q' f'"
      unfolding conn_inv_def
    proof (intro conjI)
      show "\<forall>c'\<in>set v'. \<exists>p. follows w s p c'" using inv reach by (auto simp: v'_def)
      show "\<forall>c'\<in>set v'. c' \<in> set q' \<or> snd ` set (edges_for_class w c') \<subseteq> set v'"
      proof
        fix c' assume "c' \<in> set v'"
        then consider "c' \<in> snd ` set ?new" | "c' = c" | "c' \<in> set visited" "c' \<noteq> c" by (auto simp: v'_def)
        then show "c' \<in> set q' \<or> snd ` set (edges_for_class w c') \<subseteq> set v'"
        proof cases
          case 2
          have "snd ` set (edges_for_class w c) \<subseteq> snd ` set ?new \<union> set visited" using new by blast
          with 2 show ?thesis by (auto simp: v'_def)
        next
          case 3
          with inv [THEN conjunct2, THEN conjunct2, THEN conjunct2, THEN conjunct1]
          have "c' \<in> set rest \<or> snd ` set (edges_for_class w c') \<subseteq> set visited" by fastforce
          then show ?thesis by (auto simp: v'_def q'_def)
        qed (auto simp: q'_def)
      qed
      have sN: "s \<notin> snd ` set ?new" using inv [THEN conjunct1] new by simp
      define P where "P c \<longleftrightarrow> od_get names (cls_name c) = Some c" for c
      have "set f' = cls_name ` {c \<in> snd ` set ?new. P c} \<union> set found"
        unfolding f'_def P_def by (simp add: image_Un)
      moreover have "set v' = snd ` set ?new \<union> set visited" by (simp add: v'_def)
      moreover have "set found = cls_name ` {c \<in> set visited - {s}. P c}"
        unfolding P_def using inv [THEN conjunct2, THEN conjunct2, THEN conjunct2, THEN conjunct2] .
      ultimately have "set f' = cls_name ` {c \<in> set v' - {s}. P c}"
        by (simp only: image_Collect_remove [OF sN])
      then show "set f' = cls_name ` {c \<in> set v' - {s}. od_get names (cls_name c) = Some c}"
        unfolding P_def .
    qed (use inv [THEN conjunct1] inv [THEN conjunct2, THEN conjunct1] in \<open>auto simp: v'_def q'_def\<close>)
    from 1(1) [OF Cons step [symmetric] refl this] show ?thesis
      unfolding Cons by (subst connected_loop.simps) (simp add: step)
  qed
qed

text \<open>The connected classes of a registered start class are exactly the names of the registered
classes, other than the start, that some path of attributes leads to; the traversal goes
through unregistered classes too, and a class shadowed in the registry by another of the same
name is not reported.\<close>

theorem get_all_connected_reachable:
  assumes "od_get (classes_by_name registry) start = Some s"
  shows "get_all_connected w registry start
    = cls_name ` {c. c \<noteq> s \<and> (\<exists>p. follows w s p c) \<and> od_get (classes_by_name registry) (cls_name c) = Some c}"
proof -
  have "\<exists>p. follows w s p s" by (rule exI [of _ "[]"]) simp
  then have "conn_inv w (classes_by_name registry) s [s] [s] []"
    by (auto simp: conn_inv_def)
  from connected_loop_correct [OF this] assms show ?thesis by (simp add: get_all_connected_def)
qed

theorem get_all_connected_reachable_witness:
  "''Firm'' \<in> get_all_connected demo_world demo_registry ''Part''"
proof -
  have a: "od_get (classes_by_name demo_registry) ''Part'' = Some (Cls 3 ''Part'')"
    "od_get (classes_by_name demo_registry) ''Firm'' = Some (Cls 4 ''Firm'')" by code_simp+
  have "edges_for_class demo_world (Cls 3 ''Part'') = [(''project'', Cls 1 ''Project'')]"
    "(''owner'', Cls 2 ''Human'') \<in> set (edges_for_class demo_world (Cls 1 ''Project''))"
    "edges_for_class demo_world (Cls 2 ''Human'') = [(''firm'', Cls 4 ''Firm'')]" by code_simp+
  then have "follows demo_world (Cls 3 ''Part'') [''project'', ''owner'', ''firm''] (Cls 4 ''Firm'')"
    by auto
  then have "\<exists>p. follows demo_world (Cls 3 ''Part'') p (Cls 4 ''Firm'')" by blast
  then show ?thesis
    unfolding get_all_connected_reachable [OF a(1)]
    using a(2) by (intro image_eqI [of _ _ "Cls 4 ''Firm''"]) simp_all
qed

section \<open>Cached tracers\<close>

record tracer =
  tr_start :: cls
  tr_dest :: cls
  tr_path :: "string list option"

record path_state =
  ps_signature :: "cls list"
  ps_mapping :: "(string \<times> string, tracer) odict"

definition ensure_graph_current :: "cls list \<Rightarrow> bool \<Rightarrow> path_state \<Rightarrow> path_state" where
  "ensure_graph_current all_classes force st =
     (if \<not> force \<and> ps_signature st = all_classes then st
      else \<lparr>ps_signature = all_classes, ps_mapping = []\<rparr>)"

definition get_or_create_tracer :: "world \<Rightarrow> string \<Rightarrow> string \<Rightarrow> path_state \<Rightarrow> tracer option \<times> path_state" where
  "get_or_create_tracer w start dest st =
     (if start = dest then (None, st)
      else (case od_get (ps_mapping st) (start, dest) of
              Some t \<Rightarrow> (Some t, st)
            | None \<Rightarrow>
                (case (od_get (classes_by_name (ps_signature st)) start,
                       od_get (classes_by_name (ps_signature st)) dest) of
                   (Some s, Some d) \<Rightarrow>
                     let t = \<lparr>tr_start = s, tr_dest = d, tr_path = find_path w (ps_signature st) start dest\<rparr>
                     in (Some t, st\<lparr>ps_mapping := od_set (start, dest) t (ps_mapping st)\<rparr>)
                 | _ \<Rightarrow> (None, st))))"

definition mapping_ok :: "world \<Rightarrow> path_state \<Rightarrow> bool" where
  "mapping_ok w st \<longleftrightarrow> (\<forall>start dest t. od_get (ps_mapping st) (start, dest) = Some t \<longrightarrow>
     tr_path t = find_path w (ps_signature st) start dest
     \<and> od_get (classes_by_name (ps_signature st)) start = Some (tr_start t)
     \<and> od_get (classes_by_name (ps_signature st)) dest = Some (tr_dest t))"

text \<open>Lookups and registry refreshes, in any order.\<close>

datatype path_op = Lookup string string | Refresh "cls list" bool

fun run_path_op :: "world \<Rightarrow> path_op \<Rightarrow> path_state \<Rightarrow> path_state" where
  "run_path_op w (Lookup start dest) st = snd (get_or_create_tracer w start dest st)"
| "run_path_op w (Refresh classes force) st = ensure_graph_current classes force st"

definition init_paths :: path_state where "init_paths = \<lparr>ps_signature = [], ps_mapping = []\<rparr>"

lemma mapping_ok_step: "mapping_ok w st \<Longrightarrow> mapping_ok w (run_path_op w a st)"
proof (cases a)
  case (Lookup start dest)
  assume ok: "mapping_ok w st"
  show ?thesis
  proof (cases "start = dest \<or> od_get (ps_mapping st) (start, dest) \<noteq> None")
    case True
    with ok Lookup show ?thesis by (auto simp: get_or_create_tracer_def)
  next
    case False
    then show ?thesis
      using ok Lookup by (auto simp: get_or_create_tracer_def mapping_ok_def Let_def odict_simps split: option.splits)
  qed
next
  case (Refresh classes force)
  assume "mapping_ok w st"
  moreover have "mapping_ok w \<lparr>ps_signature = classes, ps_mapping = []\<rparr>" by (simp add: mapping_ok_def)
  ultimately show ?thesis using Refresh by (simp add: ensure_graph_current_def)
qed

lemma mapping_ok_run: "mapping_ok w st \<Longrightarrow> mapping_ok w (fold (run_path_op w) ops st)"
  by (induction ops arbitrary: st) (simp_all add: mapping_ok_step)

text \<open>The lazy tracer cache is transparent. After any sequence of lookups and registry
refreshes, a lookup between two different names returns no tracer exactly when one of them
is not registered, and otherwise a tracer for the two registered classes whose path is the
one a fresh search in the current registry finds.\<close>

theorem tracer_cache_transparent:
  assumes "st = fold (run_path_op w) ops init_paths" "start \<noteq> dest"
  shows "case fst (get_or_create_tracer w start dest st) of
      None \<Rightarrow> od_get (classes_by_name (ps_signature st)) start = None
        \<or> od_get (classes_by_name (ps_signature st)) dest = None
    | Some t \<Rightarrow> tr_path t = find_path w (ps_signature st) start dest
        \<and> od_get (classes_by_name (ps_signature st)) start = Some (tr_start t)
        \<and> od_get (classes_by_name (ps_signature st)) dest = Some (tr_dest t)"
proof -
  have "mapping_ok w st"
    using mapping_ok_run [of w init_paths ops] assms(1) by (simp add: mapping_ok_def init_paths_def)
  then show ?thesis
    using assms(2) by (cases "od_get (ps_mapping st) (start, dest)")
      (auto simp: get_or_create_tracer_def mapping_ok_def Let_def split: option.splits)
qed

theorem tracer_cache_transparent_witness:
  "map_option tr_path (fst (get_or_create_tracer demo_world ''Part'' ''Human''
      (fold (run_path_op demo_world) [Refresh demo_registry True, Lookup ''Part'' ''Human''] init_paths)))
    = Some (find_path demo_world demo_registry ''Part'' ''Human'')"
proof -
  let ?st = "fold (run_path_op demo_world) [Refresh demo_registry True, Lookup ''Part'' ''Human''] init_paths"
  have "fst (get_or_create_tracer demo_world ''Part'' ''Human'' ?st) \<noteq> None" "ps_signature ?st = demo_registry"
    by code_simp+
  with tracer_cache_transparent [OF refl, of "''Part''" "''Human''" demo_world
      "[Refresh demo_registry True, Lookup ''Part'' ''Human'']"]
  show ?thesis by (auto split: option.splits)
qed

section \<open>Walking a path\<close>

text \<open>
  A traversal value is one manager instance or a bucket of them. Reading an attribute may
  give anything (\<open>None\<close> when it is neither), and merging two values is the union operator of
  managers and buckets: both are parameters.
\<close>

datatype 'o trav = Mgr 'o | Bkt "'o list"

datatype path_error = MissingStartInstance | InvalidPathTraversalValue

fun merge_bucket ::
    "('o \<Rightarrow> string \<Rightarrow> 'o trav option) \<Rightarrow> ('o trav \<Rightarrow> 'o trav \<Rightarrow> 'o trav) \<Rightarrow> string \<Rightarrow> 'o list
      \<Rightarrow> 'o trav option \<Rightarrow> path_error + 'o trav option" where
  "merge_bucket read union_op a [] acc = Inr acc"
| "merge_bucket read union_op a (x # xs) acc =
     (case read x a of
        None \<Rightarrow> Inl InvalidPathTraversalValue
      | Some v \<Rightarrow> merge_bucket read union_op a xs (Some (case acc of None \<Rightarrow> v | Some u \<Rightarrow> union_op u v)))"

fun walk ::
    "('o \<Rightarrow> string \<Rightarrow> 'o trav option) \<Rightarrow> ('o trav \<Rightarrow> 'o trav \<Rightarrow> 'o trav) \<Rightarrow> string list \<Rightarrow> 'o trav
      \<Rightarrow> path_error + 'o trav option" where
  "walk read union_op [] cur = Inr (Some cur)"
| "walk read union_op (a # p) (Mgr x) =
     (case read x a of None \<Rightarrow> Inl InvalidPathTraversalValue | Some v \<Rightarrow> walk read union_op p v)"
| "walk read union_op (a # p) (Bkt xs) =
     (case merge_bucket read union_op a xs None of
        Inl e \<Rightarrow> Inl e
      | Inr None \<Rightarrow> Inr None
      | Inr (Some v) \<Rightarrow> walk read union_op p v)"

definition traverse_path where
  "traverse_path read union_op path start =
     (case path of None \<Rightarrow> Inr None | Some [] \<Rightarrow> Inr None | Some (a # p) \<Rightarrow> walk read union_op (a # p) start)"

definition go_to where
  "go_to read union_op w start_name start_instance dest st =
     (case get_or_create_tracer w start_name dest st of
        (None, st') \<Rightarrow> (Inr None, st')
      | (Some t, st') \<Rightarrow>
          ((if tr_path t = None \<or> tr_path t = Some [] then Inr None
            else (case start_instance of
                    None \<Rightarrow> Inl MissingStartInstance
                  | Some x \<Rightarrow> traverse_path read union_op (tr_path t) (Mgr x))), st'))"

fun members_of :: "'o trav \<Rightarrow> 'o set" where
  "members_of (Mgr x) = {x}"
| "members_of (Bkt xs) = set xs"

text \<open>The objects at the end of a path, object by object.\<close>

fun ends :: "('o \<Rightarrow> string \<Rightarrow> 'o trav option) \<Rightarrow> string list \<Rightarrow> 'o set \<Rightarrow> 'o set" where
  "ends read [] X = X"
| "ends read (a # p) X = ends read p (\<Union>x\<in>X. case read x a of None \<Rightarrow> {} | Some v \<Rightarrow> members_of v)"

lemma merge_bucket_members:
  assumes law: "\<And>u v. members_of (union_op u v) = members_of u \<union> members_of v"
    and m: "merge_bucket read union_op a xs acc = Inr r"
  shows "(case r of None \<Rightarrow> {} | Some v \<Rightarrow> members_of v)
    = (case acc of None \<Rightarrow> {} | Some v \<Rightarrow> members_of v)
      \<union> (\<Union>x\<in>set xs. case read x a of None \<Rightarrow> {} | Some v \<Rightarrow> members_of v)"
  using m
proof (induction xs arbitrary: acc)
  case (Cons x xs)
  then obtain v where v: "read x a = Some v" by (cases "read x a") auto
  with Cons.prems have "merge_bucket read union_op a xs (Some (case acc of None \<Rightarrow> v | Some u \<Rightarrow> union_op u v)) = Inr r"
    by simp
  from Cons.IH [OF this] v law show ?case by (cases acc) auto
qed simp

lemma merge_bucket_error: "merge_bucket read union_op a xs acc = Inl e \<Longrightarrow> e = InvalidPathTraversalValue"
  by (induction xs arbitrary: acc) (auto split: option.splits)

lemma ends_empty: "ends read p {} = {}"
  by (induction p) simp_all

text \<open>Walking a path collects exactly the objects at its end. When the union operator merges
members, a walk that returns a value has as members the objects reached from the start by
reading the attributes one after the other, a walk that returns nothing reaches none, and the
only error is an attribute that is neither a manager nor a bucket.\<close>

theorem walk_collects_ends:
  assumes "\<And>u v. members_of (union_op u v) = members_of u \<union> members_of v"
  shows "case walk read union_op p cur of
      Inl e \<Rightarrow> e = InvalidPathTraversalValue
    | Inr None \<Rightarrow> ends read p (members_of cur) = {}
    | Inr (Some v) \<Rightarrow> members_of v = ends read p (members_of cur)"
proof (induction p arbitrary: cur)
  case Nil
  then show ?case by simp
next
  case (Cons a p)
  show ?case
  proof (cases cur)
    case (Mgr x)
    show ?thesis
    proof (cases "read x a")
      case (Some v)
      then have "ends read (a # p) (members_of cur) = ends read p (members_of v)"
        "walk read union_op (a # p) cur = walk read union_op p v" by (simp_all add: Mgr)
      with Cons.IH [of v] show ?thesis by (simp only:)
    qed (simp add: Mgr)
  next
    case (Bkt xs)
    show ?thesis
    proof (cases "merge_bucket read union_op a xs None")
      case (Inl e)
      with Bkt merge_bucket_error [OF Inl] show ?thesis by simp
    next
      case (Inr r)
      from merge_bucket_members [OF assms Inr] have
        m: "(case r of None \<Rightarrow> {} | Some v \<Rightarrow> members_of v)
          = (\<Union>x\<in>set xs. case read x a of None \<Rightarrow> {} | Some v \<Rightarrow> members_of v)" by simp
      show ?thesis
      proof (cases r)
        case None
        with Bkt Inr m [symmetric] show ?thesis by (simp add: ends_empty)
      next
        case (Some v)
        then have "ends read (a # p) (members_of cur) = ends read p (members_of v)"
          "walk read union_op (a # p) cur = walk read union_op p v" using Inr m by (simp_all add: Bkt)
        with Cons.IH [of v] show ?thesis by (simp only:)
      qed
    qed
  qed
qed

fun demo_read :: "nat \<Rightarrow> string \<Rightarrow> nat trav option" where
  "demo_read n a = (if a = ''parts'' then Some (Bkt [n + 1, n + 2]) else if a = ''owner'' then Some (Mgr (2 * n)) else None)"

fun demo_union :: "nat trav \<Rightarrow> nat trav \<Rightarrow> nat trav" where
  "demo_union u v = Bkt ((case u of Mgr x \<Rightarrow> [x] | Bkt xs \<Rightarrow> xs) @ (case v of Mgr x \<Rightarrow> [x] | Bkt xs \<Rightarrow> xs))"

lemma demo_union_members: "members_of (demo_union u v) = members_of u \<union> members_of v"
  by (cases u; cases v) auto

theorem walk_collects_ends_witness:
  "case walk demo_read demo_union [''parts'', ''owner''] (Mgr 5) of
      Inr (Some v) \<Rightarrow> members_of v = {12, 14} | _ \<Rightarrow> False"
  using walk_collects_ends [OF demo_union_members, of demo_read "[''parts'', ''owner'']" "Mgr 5"]
  by (simp split: sum.splits option.splits)

end
