(* ===== verification/StartupOrder.thy ===== *)
theory StartupOrder
  imports Prelude
begin

text \<open>
  Startup hooks (\<open>src/general_manager/interface/infrastructure/startup_hooks.py\<close>): the registry
  of hooks per interface, and the ordering of interfaces so that dependencies run first
  (Kahn's algorithm with counters, stable in the input order).

  Interfaces, hooks and resolvers are compared by identity: type variables and natural
  numbers. A resolver returns a collection of interfaces (a list whose order is irrelevant).
\<close>

section \<open>The registry\<close>

record startup_entry =
  se_hook :: nat
  se_resolver :: "nat option"

type_synonym 'i hook_registry = "('i, startup_entry list) odict"

definition register_startup_hook :: "'i \<Rightarrow> nat \<Rightarrow> nat option \<Rightarrow> 'i hook_registry \<Rightarrow> 'i hook_registry" where
  "register_startup_hook i hook resolver reg =
     (let entries = (case od_get reg i of Some es \<Rightarrow> es | None \<Rightarrow> []);
          known = (\<exists>e\<in>set entries. se_hook e = hook \<and> se_resolver e = resolver)
      in od_set i (if known then entries else entries @ [\<lparr>se_hook = hook, se_resolver = resolver\<rparr>]) reg)"

definition iter_interface_startup_hooks :: "'i hook_registry \<Rightarrow> ('i \<times> nat) list" where
  "iter_interface_startup_hooks reg = concat (map (\<lambda>(i, es). map (\<lambda>e. (i, se_hook e)) es) reg)"

definition registered_startup_hooks :: "'i hook_registry \<Rightarrow> ('i, nat list) odict" where
  "registered_startup_hooks reg = map (\<lambda>(i, es). (i, map se_hook es)) reg"

definition registered_startup_hook_entries :: "'i hook_registry \<Rightarrow> 'i hook_registry" where
  "registered_startup_hook_entries reg = reg"

definition clear_startup_hooks :: "'i hook_registry \<Rightarrow> 'i hook_registry" where
  "clear_startup_hooks reg = []"

section \<open>Ordering by dependency\<close>

text \<open>The keys of a dict comprehension over a list: first occurrences.\<close>

definition first_occurrences :: "'a list \<Rightarrow> 'a list" where
  "first_occurrences xs = rev (remdups (rev xs))"

definition dependency_table :: "'i list \<Rightarrow> ('i \<Rightarrow> 'i list) \<Rightarrow> ('i, 'i list) odict" where
  "dependency_table ifs resolver =
     map (\<lambda>i. (i, remdups (filter (\<lambda>d. d \<in> set ifs) (resolver i)))) (first_occurrences ifs)"

definition queue_items :: "'i list \<Rightarrow> ('i, int) odict \<Rightarrow> 'i list \<Rightarrow> 'i list" where
  "queue_items ifs counts ordered =
     filter (\<lambda>i. (case od_get counts i of Some n \<Rightarrow> n | None \<Rightarrow> 0) = 0 \<and> i \<notin> set ordered) ifs"

fun decrement_dependents :: "'i \<Rightarrow> ('i, 'i list) odict \<Rightarrow> ('i, int) odict \<Rightarrow> ('i, int) odict" where
  "decrement_dependents i [] counts = counts"
| "decrement_dependents i ((d, deps) # table) counts =
     decrement_dependents i table
       (if i \<in> set deps
        then od_set d ((case od_get counts d of Some n \<Rightarrow> n | None \<Rightarrow> 0) - 1) counts
        else counts)"

function order_loop :: "'i list \<Rightarrow> ('i, 'i list) odict \<Rightarrow> ('i, int) odict \<Rightarrow> 'i list \<Rightarrow> 'i list" where
  "order_loop ifs table counts ordered =
     (case queue_items ifs counts ordered of
        [] \<Rightarrow> ordered
      | i # _ \<Rightarrow> order_loop ifs table (decrement_dependents i table counts) (ordered @ [i]))"
  by auto
termination
proof (relation "measure (\<lambda>(ifs, table, counts, ordered). card (set ifs - set ordered))", simp, goal_cases)
  case (1 ifs table counts ordered i rest)
  then have "i \<in> set (queue_items ifs counts ordered)" by simp
  then have "i \<in> set ifs" "i \<notin> set ordered" by (simp_all add: queue_items_def)
  then have "set ifs - set (ordered @ [i]) \<subset> set ifs - set ordered" by auto
  then show ?case by (simp only: in_measure split) (rule psubset_card_mono, simp)
qed

declare order_loop.simps [simp del]

definition order_interfaces_by_dependency :: "'i list \<Rightarrow> ('i \<Rightarrow> 'i list) option \<Rightarrow> 'i list" where
  "order_interfaces_by_dependency ifs resolver =
     (case resolver of
        None \<Rightarrow> ifs
      | Some res \<Rightarrow>
          let table = dependency_table ifs res;
              counts = map (\<lambda>(i, deps). (i, int (length deps))) table;
              ordered = order_loop ifs table counts []
          in ordered @ filter (\<lambda>i. i \<notin> set ordered) (first_occurrences ifs))"

section \<open>Facts\<close>

lemma set_first_occurrences [simp]: "set (first_occurrences xs) = set xs"
  by (simp add: first_occurrences_def)

lemma distinct_first_occurrences [simp]: "distinct (first_occurrences xs)"
  by (simp add: first_occurrences_def)

definition deps_in :: "'i list \<Rightarrow> ('i \<Rightarrow> 'i list) \<Rightarrow> 'i \<Rightarrow> 'i set" where
  "deps_in ifs res i = set (res i) \<inter> set ifs"

lemma od_get_map_keys: "od_get (map (\<lambda>i. (i, f i)) xs) k = (if k \<in> set xs then Some (f k) else None)"
  by (induction xs) auto

lemma table_wf: "od_wf (dependency_table ifs res)"
  by (simp add: dependency_table_def comp_def)

lemma table_get: "od_get (dependency_table ifs res) i =
    (if i \<in> set ifs then Some (remdups (filter (\<lambda>d. d \<in> set ifs) (res i))) else None)"
  by (simp add: dependency_table_def od_get_map_keys)

lemma decrement_get:
  assumes "od_wf table"
  shows "od_get (decrement_dependents i table counts) d =
    (case od_get table d of
       Some deps \<Rightarrow> if i \<in> set deps
         then Some ((case od_get counts d of Some n \<Rightarrow> n | None \<Rightarrow> 0) - 1) else od_get counts d
     | None \<Rightarrow> od_get counts d)"
  using assms
proof (induction i table counts rule: decrement_dependents.induct)
  case (2 i e deps table counts)
  show ?case
  proof (cases "d = e")
    case True
    with 2(2) have "od_get table d = None" by (simp add: od_get_None_iff)
    with 2 True show ?thesis by (simp add: odict_simps)
  next
    case False
    then have "od_get (od_set e v counts) d = od_get counts d" for v by (simp add: odict_simps)
    with 2 False show ?thesis by (auto split: option.splits)
  qed
qed simp

text \<open>The counter of an interface is the number of its dependencies that are not ordered yet.\<close>

definition counts_ok :: "'i list \<Rightarrow> ('i \<Rightarrow> 'i list) \<Rightarrow> ('i, int) odict \<Rightarrow> 'i list \<Rightarrow> bool" where
  "counts_ok ifs res counts ordered \<longleftrightarrow>
     (\<forall>i\<in>set ifs. od_get counts i = Some (int (card (deps_in ifs res i - set ordered))))"

definition deps_before :: "'i list \<Rightarrow> ('i \<Rightarrow> 'i list) \<Rightarrow> 'i list \<Rightarrow> bool" where
  "deps_before ifs res ordered \<longleftrightarrow>
     (\<forall>n<length ordered. deps_in ifs res (ordered ! n) \<subseteq> set (take n ordered))"

lemma counts_ok_init:
  "counts_ok ifs res (map (\<lambda>(i, deps). (i, int (length deps))) (dependency_table ifs res)) []"
proof -
  have "length (remdups (filter (\<lambda>d. d \<in> set ifs) (res i))) = card (deps_in ifs res i)" for i
    by (simp add: length_remdups_card_conv deps_in_def inf_commute Int_def conj_commute)
  then show ?thesis
    by (simp add: counts_ok_def dependency_table_def comp_def od_get_map_keys)
qed

lemma order_loop_correct:
  assumes "counts_ok ifs res counts ordered" "distinct ordered" "set ordered \<subseteq> set ifs"
    "deps_before ifs res ordered"
  shows "let r = order_loop ifs (dependency_table ifs res) counts ordered in
    distinct r \<and> set r \<subseteq> set ifs \<and> deps_before ifs res r
    \<and> (\<forall>i\<in>set ifs - set r. deps_in ifs res i - set r \<noteq> {})"
  using assms
proof (induction ifs "dependency_table ifs res" counts ordered rule: order_loop.induct)
  case (1 ifs counts ordered)
  have count: "i \<in> set (queue_items ifs counts ordered) \<longleftrightarrow>
      i \<in> set ifs \<and> i \<notin> set ordered \<and> deps_in ifs res i - set ordered = {}" for i
    using 1(2) by (auto simp: queue_items_def counts_ok_def deps_in_def)
  show ?case
  proof (cases "queue_items ifs counts ordered")
    case Nil
    with count have "\<forall>i\<in>set ifs - set ordered. deps_in ifs res i - set ordered \<noteq> {}" by (metis DiffE empty_iff list.set(1))
    with Nil 1(3-5) show ?thesis by (simp add: order_loop.simps Let_def)
  next
    case (Cons i rest)
    with count [of i] have i: "i \<in> set ifs" "i \<notin> set ordered" "deps_in ifs res i \<subseteq> set ordered" by auto
    have "counts_ok ifs res (decrement_dependents i (dependency_table ifs res) counts) (ordered @ [i])"
      unfolding counts_ok_def
    proof
      fix d assume d: "d \<in> set ifs"
      have "deps_in ifs res d - set (ordered @ [i]) = (deps_in ifs res d - set ordered) - {i}" by auto
      moreover have "finite (deps_in ifs res d - set ordered)" by (simp add: deps_in_def)
      moreover have "i \<in> deps_in ifs res d - set ordered \<longleftrightarrow> i \<in> set (res d)" using i by (auto simp: deps_in_def)
      moreover have "0 < card (deps_in ifs res d - set ordered)" if "i \<in> deps_in ifs res d - set ordered"
        using that by (auto simp: card_gt_0_iff deps_in_def)
      ultimately show "od_get (decrement_dependents i (dependency_table ifs res) counts) d
          = Some (int (card (deps_in ifs res d - set (ordered @ [i]))))"
        using 1(2) d i by (auto simp: decrement_get [OF table_wf] table_get counts_ok_def card_Diff_singleton_if)
    qed
    moreover have "deps_before ifs res (ordered @ [i])"
      using 1(5) i(3) by (auto simp: deps_before_def nth_append less_Suc_eq)
    ultimately show ?thesis
      using 1(1) [OF Cons] 1(3,4) i Cons by (subst (1) order_loop.simps) simp
  qed
qed

section \<open>Properties\<close>

text \<open>C33: ordering interfaces with a resolver returns each input interface exactly once, and in
the order an acyclic dependency relation asks for: every dependency that is among the inputs
comes before the interface that depends on it.\<close>

theorem order_respects_dependencies:
  fixes rank :: "'i \<Rightarrow> nat"
  assumes "\<forall>i\<in>set ifs. \<forall>d\<in>set (res i) \<inter> set ifs. rank d < rank i"
  shows "let r = order_interfaces_by_dependency ifs (Some res) in
    distinct r \<and> set r = set ifs
    \<and> (\<forall>n<length r. set (res (r ! n)) \<inter> set ifs \<subseteq> set (take n r))"
proof -
  let ?counts = "map (\<lambda>(i, deps). (i, int (length deps))) (dependency_table ifs res)"
  let ?r = "order_loop ifs (dependency_table ifs res) ?counts []"
  from order_loop_correct [OF counts_ok_init, of ifs res] have
    r: "distinct ?r" "set ?r \<subseteq> set ifs" "deps_before ifs res ?r"
      "\<forall>i\<in>set ifs - set ?r. deps_in ifs res i - set ?r \<noteq> {}"
    by (simp_all add: Let_def deps_before_def)
  have "set ifs - set ?r = {}"
  proof (rule ccontr)
    assume "set ifs - set ?r \<noteq> {}"
    then obtain i where "i \<in> set ifs - set ?r" "\<forall>j. j \<in> set ifs - set ?r \<longrightarrow> rank i \<le> rank j"
      using ex_has_least_nat [of "\<lambda>i. i \<in> set ifs - set ?r" _ rank] by blast
    moreover with r(4) obtain d where "d \<in> deps_in ifs res i" "d \<notin> set ?r" by auto
    moreover then have "d \<in> set ifs" "d \<in> set (res i) \<inter> set ifs" by (auto simp: deps_in_def)
    ultimately have "rank i \<le> rank d" "rank d < rank i" using assms by blast+
    then show False by simp
  qed
  with r show ?thesis
    by (auto simp: order_interfaces_by_dependency_def Let_def deps_before_def deps_in_def filter_False)
qed

theorem order_respects_dependencies_witness:
  "order_interfaces_by_dependency [3, 1, 2 :: nat] (Some (\<lambda>i. if i = 3 then [1, 2] else if i = 2 then [1, 9] else []))
     = [1, 2, 3]
   \<and> distinct (order_interfaces_by_dependency [3, 1, 2 :: nat]
        (Some (\<lambda>i. if i = 3 then [1, 2] else if i = 2 then [1, 9] else [])))"
proof
  show "order_interfaces_by_dependency [3, 1, 2 :: nat]
      (Some (\<lambda>i. if i = 3 then [1, 2] else if i = 2 then [1, 9] else [])) = [1, 2, 3]" by code_simp
  show "distinct (order_interfaces_by_dependency [3, 1, 2 :: nat]
      (Some (\<lambda>i. if i = 3 then [1, 2] else if i = 2 then [1, 9] else [])))"
    using order_respects_dependencies [of "[3, 1, 2 :: nat]"
        "\<lambda>i. if i = 3 then [1, 2] else if i = 2 then [1, 9] else []" "\<lambda>i. i"]
    by (auto simp: Let_def)
qed

text \<open>C40: whatever the dependencies, cyclic ones included, the ordering returns every input
interface exactly once, it starts with a part in which every dependency precedes its
dependents, and the interfaces left over (each of them with a dependency that is left over
too) follow in their input order.\<close>

theorem order_total_on_cycles:
  "\<exists>front. order_interfaces_by_dependency ifs (Some res)
       = front @ filter (\<lambda>i. i \<notin> set front) (first_occurrences ifs)
     \<and> set (order_interfaces_by_dependency ifs (Some res)) = set ifs
     \<and> distinct (order_interfaces_by_dependency ifs (Some res))
     \<and> (\<forall>n<length front. set (res (front ! n)) \<inter> set ifs \<subseteq> set (take n front))
     \<and> (\<forall>i\<in>set ifs - set front. \<exists>d\<in>set (res i) \<inter> set ifs. d \<notin> set front)"
proof -
  let ?counts = "map (\<lambda>(i, deps). (i, int (length deps))) (dependency_table ifs res)"
  let ?r = "order_loop ifs (dependency_table ifs res) ?counts []"
  from order_loop_correct [OF counts_ok_init, of ifs res] have
    r: "distinct ?r" "set ?r \<subseteq> set ifs" "deps_before ifs res ?r"
      "\<forall>i\<in>set ifs - set ?r. deps_in ifs res i - set ?r \<noteq> {}"
    by (simp_all add: Let_def deps_before_def)
  then show ?thesis
    by (intro exI [of _ ?r])
      (auto simp: order_interfaces_by_dependency_def Let_def deps_before_def deps_in_def)
qed

text \<open>A two-cycle next to a free interface: nothing is lost.\<close>

theorem order_total_on_cycles_witness:
  "set (order_interfaces_by_dependency [3, 1, 2 :: nat]
      (Some (\<lambda>i. if i = 1 then [2] else if i = 2 then [1] else []))) = {1, 2, 3}
   \<and> distinct (order_interfaces_by_dependency [3, 1, 2 :: nat]
        (Some (\<lambda>i. if i = 1 then [2] else if i = 2 then [1] else [])))"
  using order_total_on_cycles [of "[3, 1, 2 :: nat]" "\<lambda>i. if i = 1 then [2] else if i = 2 then [1] else []"]
  by (elim exE conjE) (simp add: insert_commute)

end
