(* ===== verification/PermRegistry.thy ===== *)
theory PermRegistry
  imports Results
begin

text \<open>
  The permission registry, \<open>permission/permission_checks.py\<close>, and the evaluation of permission
  expressions, \<open>permission/utils.py\<close>, with the resolution of one fragment to its queryset
  filter (\<open>permission/base_permission.py\<close>).

  A permission expression is a string: \<open>&\<close> joins fragments, \<open>:\<close> separates a registered name
  from its configuration. The registry maps a name to a method, which decides for one
  instance, and to a filter, which describes the instances for a query. The subject of a
  check is a type parameter \<open>'i\<close> and a lookup value a type parameter \<open>'v\<close>; the built-in
  permissions use \<open>attrs\<close>, what \<open>getattr(instance, name, None)\<close> returns for every name, and
  \<open>lookup_value\<close>. A registered callable is a total function: exceptions raised by custom
  callables, which the code lets through, are not modelled.
\<close>

section \<open>Users and instances\<close>

text \<open>
  The attributes of a Django user that permissions read. A flag the object lacks reads as
  false; \<open>user_has_perm\<close> and \<open>user_groups\<close> are \<open>None\<close> for an object without a callable
  \<open>has_perm\<close> or without a filterable \<open>groups\<close> relation.
\<close>

record user =
  user_id :: "nat option"
  user_pk :: "nat option"
  is_superuser :: bool
  is_staff :: bool
  is_authenticated :: bool
  is_active :: bool
  user_has_perm :: "(string \<Rightarrow> bool) option"
  user_groups :: "string list option"

text \<open>
  An attribute value: \<open>None\<close>, a string, another scalar given by its \<open>str()\<close>, a saved user
  with its primary key and its \<open>str()\<close>, a relation manager over users, or an object that is
  none of these.
\<close>

datatype pyval = PNone | PStr string | PScalar string | PUser nat string | PUsers "nat list" string
  | PObj string

type_synonym attrs = "string \<Rightarrow> pyval"

fun py_str :: "pyval \<Rightarrow> string" where
  "py_str PNone = ''None''"
| "py_str (PStr s) = s"
| "py_str (PScalar s) = s"
| "py_str (PUser n s) = s"
| "py_str (PUsers ns s) = s"
| "py_str (PObj s) = s"

text \<open>\<open>value == user\<close>: Django compares saved model instances by primary key.\<close>

fun eq_user :: "pyval \<Rightarrow> user \<Rightarrow> bool" where
  "eq_user (PUser n s) u = (user_pk u = Some n)"
| "eq_user v u = False"

text \<open>\<open>_relation_filter(value, pk=n)\<close> followed by \<open>_filter_result_exists\<close>.\<close>

fun relation_has :: "pyval \<Rightarrow> nat \<Rightarrow> bool" where
  "relation_has (PUsers ns s) n = (n \<in> set ns)"
| "relation_has v n = False"

section \<open>The registry\<close>

type_synonym 'v lookups = "(string, 'v) odict"

text \<open>
  What a filter callback may return: nothing, a static decision, a mapping, or an object of
  another type. The value under a key of the mapping is itself a mapping or not.
\<close>

datatype 'v filter_part = Part "'v lookups" | NotMapping

datatype 'v raw_filter = FNone | AllowAll | DenyAll | FMapping "(string, 'v filter_part) odict" | FOther

record ('i, 'v) perm_entry =
  permission_method :: "'i \<Rightarrow> user \<Rightarrow> string list \<Rightarrow> bool"
  permission_filter :: "user \<Rightarrow> string list \<Rightarrow> 'v raw_filter"

type_synonym ('i, 'v) registry = "(string, ('i, 'v) perm_entry) odict"

datatype perm_error =
    AlreadyRegistered
  | PermissionNotFound string
  | InvalidFilterResult string
  | UnsupportedFilterKeys string "string list"
  | NonMappingPart string string
  | InvalidBasedOnConfiguration string
  | InvalidBasedOnType string
  | UnknownPermissionAction string

definition default_permission_filter :: "user \<Rightarrow> string list \<Rightarrow> 'v raw_filter" where
  "default_permission_filter u config = FNone"

definition register_permission ::
  "string \<Rightarrow> ('i \<Rightarrow> user \<Rightarrow> string list \<Rightarrow> bool) \<Rightarrow> (user \<Rightarrow> string list \<Rightarrow> 'v raw_filter) option \<Rightarrow>
   ('i, 'v) registry \<Rightarrow> perm_error + ('i, 'v) registry" where
  "register_permission name func flt reg =
     (if od_get reg name \<noteq> None then Inl AlreadyRegistered
      else Inr (od_set name
        \<lparr>permission_method = func,
         permission_filter = (case flt of None \<Rightarrow> default_permission_filter | Some f \<Rightarrow> f)\<rparr> reg))"

lemma register_permission_get:
  "register_permission name func flt reg = Inr reg' \<Longrightarrow>
   od_get reg' k = (if k = name then Some \<lparr>permission_method = func,
     permission_filter = (case flt of None \<Rightarrow> default_permission_filter | Some f \<Rightarrow> f)\<rparr>
     else od_get reg k)"
  by (auto simp: register_permission_def od_get_set split: if_splits)

section \<open>The built-in permissions\<close>

text \<open>The values of the built-in lookups: a string or a primary key.\<close>

datatype lookup_value = VStr string | VId nat

definition decision_from_user_predicate :: "bool \<Rightarrow> 'v raw_filter" where
  "decision_from_user_predicate b = (if b then AllowAll else DenyAll)"

definition user_has_permission :: "user \<Rightarrow> string list \<Rightarrow> bool" where
  "user_has_permission u config =
     (case config of [] \<Rightarrow> False
      | c # _ \<Rightarrow> (case user_has_perm u of None \<Rightarrow> False | Some has_perm \<Rightarrow> has_perm c))"

definition user_is_in_group :: "user \<Rightarrow> string list \<Rightarrow> bool" where
  "user_is_in_group u config =
     (case config of [] \<Rightarrow> False
      | c # _ \<Rightarrow> (case user_groups u of None \<Rightarrow> False | Some gs \<Rightarrow> c \<in> set gs))"

definition filter_only :: "string \<Rightarrow> 'v \<Rightarrow> 'v raw_filter" where
  "filter_only key v = FMapping [(''filter'', Part [(key, v)])]"

definition public_permission_filter :: "user \<Rightarrow> string list \<Rightarrow> lookup_value raw_filter" where
  "public_permission_filter u config = AllowAll"

definition permission_public :: "attrs \<Rightarrow> user \<Rightarrow> string list \<Rightarrow> bool" where
  "permission_public inst u config = True"

definition matches_permission_filter :: "user \<Rightarrow> string list \<Rightarrow> lookup_value raw_filter" where
  "matches_permission_filter u config =
     (if length config < 2 then DenyAll else filter_only (config ! 0) (VStr (config ! 1)))"

definition permission_matches :: "attrs \<Rightarrow> user \<Rightarrow> string list \<Rightarrow> bool" where
  "permission_matches inst u config =
     (length config \<ge> 2 \<and> py_str (inst (config ! 0)) = config ! 1)"

definition is_admin_permission_filter :: "user \<Rightarrow> string list \<Rightarrow> lookup_value raw_filter" where
  "is_admin_permission_filter u config = decision_from_user_predicate (is_staff u)"

definition permission_is_admin :: "attrs \<Rightarrow> user \<Rightarrow> string list \<Rightarrow> bool" where
  "permission_is_admin inst u config = is_staff u"

definition is_self_permission_filter :: "user \<Rightarrow> string list \<Rightarrow> lookup_value raw_filter" where
  "is_self_permission_filter u config =
     (case user_id u of None \<Rightarrow> DenyAll | Some n \<Rightarrow> filter_only ''creator_id'' (VId n))"

definition permission_is_self :: "attrs \<Rightarrow> user \<Rightarrow> string list \<Rightarrow> bool" where
  "permission_is_self inst u config = eq_user (inst ''creator'') u"

definition is_authenticated_permission_filter :: "user \<Rightarrow> string list \<Rightarrow> lookup_value raw_filter" where
  "is_authenticated_permission_filter u config = decision_from_user_predicate (is_authenticated u)"

definition permission_is_authenticated :: "attrs \<Rightarrow> user \<Rightarrow> string list \<Rightarrow> bool" where
  "permission_is_authenticated inst u config = is_authenticated u"

definition is_active_permission_filter :: "user \<Rightarrow> string list \<Rightarrow> lookup_value raw_filter" where
  "is_active_permission_filter u config = decision_from_user_predicate (is_active u)"

definition permission_is_active :: "attrs \<Rightarrow> user \<Rightarrow> string list \<Rightarrow> bool" where
  "permission_is_active inst u config = is_active u"

definition has_permission_filter :: "user \<Rightarrow> string list \<Rightarrow> lookup_value raw_filter" where
  "has_permission_filter u config = decision_from_user_predicate (user_has_permission u config)"

definition permission_has_permission :: "attrs \<Rightarrow> user \<Rightarrow> string list \<Rightarrow> bool" where
  "permission_has_permission inst u config = user_has_permission u config"

definition in_group_permission_filter :: "user \<Rightarrow> string list \<Rightarrow> lookup_value raw_filter" where
  "in_group_permission_filter u config = decision_from_user_predicate (user_is_in_group u config)"

definition permission_in_group :: "attrs \<Rightarrow> user \<Rightarrow> string list \<Rightarrow> bool" where
  "permission_in_group inst u config = user_is_in_group u config"

definition related_user_field_permission_filter :: "user \<Rightarrow> string list \<Rightarrow> lookup_value raw_filter" where
  "related_user_field_permission_filter u config =
     (case config of [] \<Rightarrow> DenyAll
      | c # _ \<Rightarrow> (case user_id u of None \<Rightarrow> DenyAll | Some n \<Rightarrow> filter_only (c @ ''_id'') (VId n)))"

definition permission_related_user_field :: "attrs \<Rightarrow> user \<Rightarrow> string list \<Rightarrow> bool" where
  "permission_related_user_field inst u config =
     (case config of [] \<Rightarrow> False | c # _ \<Rightarrow> eq_user (inst c) u)"

definition many_to_many_contains_user_permission_filter ::
  "user \<Rightarrow> string list \<Rightarrow> lookup_value raw_filter" where
  "many_to_many_contains_user_permission_filter u config =
     (case config of [] \<Rightarrow> DenyAll
      | c # _ \<Rightarrow> (case user_id u of None \<Rightarrow> DenyAll | Some n \<Rightarrow> filter_only (c @ ''__id'') (VId n)))"

definition permission_many_to_many_contains_user :: "attrs \<Rightarrow> user \<Rightarrow> string list \<Rightarrow> bool" where
  "permission_many_to_many_contains_user inst u config =
     (case config of [] \<Rightarrow> False
      | c # _ \<Rightarrow> (case user_pk u of None \<Rightarrow> False | Some n \<Rightarrow> relation_has (inst c) n))"

text \<open>The registrations of the module, in the order it makes them.\<close>

definition builtin_registrations ::
  "(string \<times> (attrs \<Rightarrow> user \<Rightarrow> string list \<Rightarrow> bool) \<times>
    (user \<Rightarrow> string list \<Rightarrow> lookup_value raw_filter)) list" where
  "builtin_registrations =
     [(''public'', permission_public, public_permission_filter),
      (''matches'', permission_matches, matches_permission_filter),
      (''isAdmin'', permission_is_admin, is_admin_permission_filter),
      (''isSelf'', permission_is_self, is_self_permission_filter),
      (''isAuthenticated'', permission_is_authenticated, is_authenticated_permission_filter),
      (''isActive'', permission_is_active, is_active_permission_filter),
      (''hasPermission'', permission_has_permission, has_permission_filter),
      (''inGroup'', permission_in_group, in_group_permission_filter),
      (''relatedUserField'', permission_related_user_field, related_user_field_permission_filter),
      (''manyToManyContainsUser'', permission_many_to_many_contains_user,
         many_to_many_contains_user_permission_filter)]"

fun register_all ::
  "(string \<times> ('i \<Rightarrow> user \<Rightarrow> string list \<Rightarrow> bool) \<times> (user \<Rightarrow> string list \<Rightarrow> 'v raw_filter)) list \<Rightarrow>
   ('i, 'v) registry \<Rightarrow> perm_error + ('i, 'v) registry" where
  "register_all [] reg = Inr reg"
| "register_all ((name, func, flt) # rs) reg =
     sbind (register_permission name func (Some flt) reg) (register_all rs)"

definition builtin_registry :: "(attrs, lookup_value) registry" where
  "builtin_registry =
     map (\<lambda>(name, func, flt). (name, \<lparr>permission_method = func, permission_filter = flt\<rparr>))
       builtin_registrations"

lemma builtin_registry_registered: "register_all builtin_registrations [] = Inr builtin_registry"
  by (simp add: builtin_registrations_def builtin_registry_def register_permission_def)

section \<open>Evaluating an expression\<close>

abbreviation perm_name :: "string \<Rightarrow> string" where
  "perm_name fragment \<equiv> hd (split_char CHR '':'' fragment)"

abbreviation perm_config :: "string \<Rightarrow> string list" where
  "perm_config fragment \<equiv> tl (split_char CHR '':'' fragment)"

definition validate_single_permission ::
  "('i, 'v) registry \<Rightarrow> 'i \<Rightarrow> user \<Rightarrow> string \<Rightarrow> perm_error + bool" where
  "validate_single_permission reg inst u fragment =
     (case od_get reg (perm_name fragment) of
        None \<Rightarrow> Inl (PermissionNotFound fragment)
      | Some entry \<Rightarrow> Inr (permission_method entry inst u (perm_config fragment)))"

definition validate_permission_string ::
  "('i, 'v) registry \<Rightarrow> string \<Rightarrow> 'i \<Rightarrow> user \<Rightarrow> perm_error + bool" where
  "validate_permission_string reg permission inst u =
     all_until (validate_single_permission reg inst u) (split_char CHR ''&'' permission)"

text \<open>\<open>BasePermission.validate_permission_string\<close>: a superuser passes every expression.\<close>

definition base_validate_permission_string ::
  "('i, 'v) registry \<Rightarrow> string \<Rightarrow> 'i \<Rightarrow> user \<Rightarrow> perm_error + bool" where
  "base_validate_permission_string reg permission inst u =
     (if is_superuser u then Inr True else validate_permission_string reg permission inst u)"

section \<open>Resolving a fragment to its filter\<close>

text \<open>\<open>PermissionConstraint\<close>: a typed dict whose two keys are optional.\<close>

record 'v constraint_dict =
  c_filter :: "'v lookups option"
  c_exclude :: "'v lookups option"

abbreviation filter_of :: "'v constraint_dict \<Rightarrow> 'v lookups" where
  "filter_of c \<equiv> (case c_filter c of None \<Rightarrow> [] | Some d \<Rightarrow> d)"

abbreviation exclude_of :: "'v constraint_dict \<Rightarrow> 'v lookups" where
  "exclude_of c \<equiv> (case c_exclude c of None \<Rightarrow> [] | Some d \<Rightarrow> d)"

datatype 'v filter_result = RNone | RAllowAll | RDenyAll | RConstraint "'v constraint_dict"

definition constraint_part ::
  "string \<Rightarrow> (string, 'v filter_part) odict \<Rightarrow> string \<Rightarrow> perm_error + 'v lookups option" where
  "constraint_part permission result part_name =
     (case od_get result part_name of
        None \<Rightarrow> Inr None
      | Some (Part d) \<Rightarrow> Inr (Some d)
      | Some NotMapping \<Rightarrow> Inl (NonMappingPart permission part_name))"

definition get_permission_filter_result ::
  "('i, 'v) registry \<Rightarrow> user \<Rightarrow> string \<Rightarrow> perm_error + 'v filter_result" where
  "get_permission_filter_result reg u permission =
     (if is_superuser u then Inr RAllowAll
      else case od_get reg (perm_name permission) of
        None \<Rightarrow> Inl (PermissionNotFound permission)
      | Some entry \<Rightarrow>
          (case permission_filter entry u (perm_config permission) of
             FNone \<Rightarrow> Inr RNone
           | AllowAll \<Rightarrow> Inr RAllowAll
           | DenyAll \<Rightarrow> Inr RDenyAll
           | FOther \<Rightarrow> Inl (InvalidFilterResult permission)
           | FMapping result \<Rightarrow>
               (case filter (\<lambda>k. k \<notin> {''filter'', ''exclude''}) (od_keys result) of
                  [] \<Rightarrow> sbind (constraint_part permission result ''filter'') (\<lambda>f.
                       sbind (constraint_part permission result ''exclude'') (\<lambda>e.
                         Inr (RConstraint \<lparr>c_filter = f, c_exclude = e\<rparr>)))
                | ks \<Rightarrow> Inl (UnsupportedFilterKeys permission ks))))"

abbreviation empty_constraint :: "'v constraint_dict" where
  "empty_constraint \<equiv> \<lparr>c_filter = Some [], c_exclude = Some []\<rparr>"

definition get_permission_filter_constraint ::
  "('i, 'v) registry \<Rightarrow> user \<Rightarrow> string \<Rightarrow> perm_error + 'v constraint_dict" where
  "get_permission_filter_constraint reg u permission =
     sbind (get_permission_filter_result reg u permission) (\<lambda>r. Inr (case r of
       RConstraint c \<Rightarrow> c | _ \<Rightarrow> empty_constraint))"

definition get_permission_filter_info ::
  "('i, 'v) registry \<Rightarrow> user \<Rightarrow> string \<Rightarrow> perm_error + ('v constraint_dict \<times> bool)" where
  "get_permission_filter_info reg u permission =
     sbind (get_permission_filter_result reg u permission) (\<lambda>r. Inr (case r of
       RConstraint c \<Rightarrow> (c, True) | _ \<Rightarrow> (empty_constraint, False)))"

end
