(* ===== verification/PermPlan.thy ===== *)
theory PermPlan
  imports PermRegistry
begin

text \<open>
  Read-permission plans: \<open>permission/manager_based_permission.py\<close> turns the read expressions of
  a manager into query constraints plus the flag that the instance gate must still run, and
  \<open>api/graphql_resolvers.py\<close> and \<open>api/graphql_search.py\<close> apply the plan to the rows. The
  locale \<open>prefilter_contract\<close> is the interface between the registry and the planner: what a
  registered filter promises about its method. Inside it each composition of the planner is
  proved to keep the plan exact; the built-in registry interprets it.
\<close>

section \<open>Plans\<close>

datatype reason = BasedOnClassContext | CompoundExcludeSemantics | FilterKeyConflict
  | NoPrefilterBackend | UnfilterableReadRule

text \<open>
  The reasons are string literals and the code sorts them; the constructors are declared in
  the alphabetical order of the literals (\<open>based_on_class_context\<close>,
  \<open>compound_exclude_semantics\<close>, \<open>filter_key_conflict\<close>, \<open>no_prefilter_backend\<close>,
  \<open>unfilterable_read_rule\<close>).
\<close>

fun reason_rank :: "reason \<Rightarrow> nat" where
  "reason_rank BasedOnClassContext = 0"
| "reason_rank CompoundExcludeSemantics = 1"
| "reason_rank FilterKeyConflict = 2"
| "reason_rank NoPrefilterBackend = 3"
| "reason_rank UnfilterableReadRule = 4"

lemma reason_rank_inj: "reason_rank a = reason_rank b \<Longrightarrow> a = b"
  by (cases a; cases b) simp_all

instantiation reason :: linorder
begin

definition less_eq_reason :: "reason \<Rightarrow> reason \<Rightarrow> bool" where
  "less_eq_reason a b = (reason_rank a \<le> reason_rank b)"

definition less_reason :: "reason \<Rightarrow> reason \<Rightarrow> bool" where
  "less_reason a b = (reason_rank a < reason_rank b)"

instance
  by standard (auto simp: less_eq_reason_def less_reason_def reason_rank_inj)

end

definition sorted_reasons :: "reason set \<Rightarrow> reason list" where
  "sorted_reasons rs = sorted_list_of_set rs"

lemma reason_rank_le: "reason_rank a \<le> 4"
  by (cases a) simp_all

lemma finite_reasons: "finite (rs :: reason set)"
proof -
  have "finite (reason_rank ` rs)"
    by (rule finite_subset [of _ "{..4}"]) (auto simp: reason_rank_le)
  moreover have "inj_on reason_rank rs" by (simp add: inj_on_def reason_rank_inj)
  ultimately show ?thesis by (rule finite_imageD)
qed

lemma set_sorted_reasons [simp]: "set (sorted_reasons rs) = rs"
  by (simp add: sorted_reasons_def finite_reasons)

datatype decision = AllowAllRows | DenyAllRows | Conditional

record 'v read_plan =
  filters :: "'v constraint_dict list"
  requires_instance_check :: bool
  instance_check_reasons :: "reason list"
  decision :: decision

definition static_plan :: "decision \<Rightarrow> 'v read_plan" where
  "static_plan d = \<lparr>filters = [], requires_instance_check = False, instance_check_reasons = [],
     decision = d\<rparr>"

lemma static_plan_simps [simp]:
  "filters (static_plan d) = []" "requires_instance_check (static_plan d) = False"
  "instance_check_reasons (static_plan d) = []" "decision (static_plan d) = d"
  by (simp_all add: static_plan_def)

section \<open>Planning one expression\<close>

text \<open>Python's \<open>==\<close> on dicts ignores the order of the keys.\<close>

definition dict_eq :: "'v lookups \<Rightarrow> 'v lookups \<Rightarrow> bool" where
  "dict_eq d e = (length d = length e \<and> list_all (\<lambda>(k, v). od_get e k = Some v) d)"

fun merge_items :: "'v lookups \<Rightarrow> bool \<Rightarrow> 'v lookups \<Rightarrow> 'v lookups \<times> bool" where
  "merge_items merged had_conflict [] = (merged, had_conflict)"
| "merge_items merged had_conflict ((key, v) # items) =
     (case od_get merged key of
        Some w \<Rightarrow> if w \<noteq> v then merge_items merged True items
                   else merge_items (od_set key v merged) had_conflict items
      | None \<Rightarrow> merge_items (od_set key v merged) had_conflict items)"

definition merge_filter_group_parts :: "'v lookups \<Rightarrow> 'v lookups \<Rightarrow> 'v lookups \<times> bool" where
  "merge_filter_group_parts delegated_part local_part = merge_items delegated_part False local_part"

record 'v fragment_plan =
  frag_decision :: decision
  frag_constraint :: "'v constraint_dict option"
  frag_requires :: bool

definition plan_permission_fragment ::
  "('i, 'v) registry \<Rightarrow> user \<Rightarrow> string \<Rightarrow> perm_error + 'v fragment_plan" where
  "plan_permission_fragment reg u fragment =
     sbind (get_permission_filter_result reg u fragment) (\<lambda>result. Inr (case result of
       RAllowAll \<Rightarrow> \<lparr>frag_decision = AllowAllRows, frag_constraint = None, frag_requires = False\<rparr>
     | RDenyAll \<Rightarrow> \<lparr>frag_decision = DenyAllRows, frag_constraint = None, frag_requires = False\<rparr>
     | RNone \<Rightarrow> \<lparr>frag_decision = Conditional, frag_constraint = None, frag_requires = True\<rparr>
     | RConstraint c \<Rightarrow>
         \<lparr>frag_decision = Conditional, frag_constraint = Some c, frag_requires = False\<rparr>))"

text \<open>The local variables of \<open>_plan_permission_expression\<close>.\<close>

record 'v expr_state =
  combined_filter :: "'v lookups"
  combined_exclude :: "'v lookups"
  has_constraint :: bool
  st_requires :: bool
  st_reasons :: "reason set"

definition init_expr_state :: "'v expr_state" where
  "init_expr_state = \<lparr>combined_filter = [], combined_exclude = [], has_constraint = False,
     st_requires = False, st_reasons = {}\<rparr>"

definition exclude_clash :: "'v lookups \<Rightarrow> 'v lookups \<Rightarrow> bool" where
  "exclude_clash d e = (d \<noteq> [] \<and> e \<noteq> [] \<and> \<not> dict_eq d e)"

definition add_constraint :: "'v constraint_dict \<Rightarrow> 'v expr_state \<Rightarrow> 'v expr_state" where
  "add_constraint c st =
     (let (cf, filter_conflict) = merge_filter_group_parts (combined_filter st) (filter_of c);
          clash = exclude_clash (combined_exclude st) (exclude_of c);
          (ce, exclude_conflict) = merge_filter_group_parts (combined_exclude st) (exclude_of c);
          conflict = filter_conflict \<or> exclude_conflict
      in \<lparr>combined_filter = cf, combined_exclude = ce, has_constraint = True,
          st_requires = (st_requires st \<or> clash \<or> conflict),
          st_reasons = st_reasons st \<union> (if clash then {CompoundExcludeSemantics} else {})
            \<union> (if conflict then {FilterKeyConflict} else {})\<rparr>)"

definition add_fragment :: "'v fragment_plan \<Rightarrow> 'v expr_state \<Rightarrow> 'v expr_state" where
  "add_fragment f st =
     (if frag_decision f = AllowAllRows then st
      else let st1 = (if frag_requires f
             then st\<lparr>st_requires := True, st_reasons := insert UnfilterableReadRule (st_reasons st)\<rparr>
             else st)
           in (case frag_constraint f of None \<Rightarrow> st1 | Some c \<Rightarrow> add_constraint c st1))"

text \<open>The loop over the fragments; \<open>None\<close> is its early return at a fragment that denies.\<close>

fun plan_fragments ::
  "('i, 'v) registry \<Rightarrow> user \<Rightarrow> string list \<Rightarrow> 'v expr_state \<Rightarrow> perm_error + 'v expr_state option" where
  "plan_fragments reg u [] st = Inr (Some st)"
| "plan_fragments reg u (name # names) st =
     sbind (plan_permission_fragment reg u name) (\<lambda>f.
       if frag_decision f = DenyAllRows then Inr None
       else plan_fragments reg u names (add_fragment f st))"

definition finish_expression :: "'v expr_state \<Rightarrow> 'v read_plan" where
  "finish_expression st =
     (if \<not> has_constraint st \<and> \<not> st_requires st then static_plan AllowAllRows
      else \<lparr>filters = (if has_constraint st
              then [\<lparr>c_filter = Some (combined_filter st), c_exclude = Some (combined_exclude st)\<rparr>]
              else []),
            requires_instance_check = st_requires st,
            instance_check_reasons = sorted_reasons (st_reasons st),
            decision = Conditional\<rparr>)"

definition plan_permission_expression ::
  "('i, 'v) registry \<Rightarrow> user \<Rightarrow> string \<Rightarrow> perm_error + 'v read_plan" where
  "plan_permission_expression reg u expression =
     sbind (plan_fragments reg u (split_char CHR ''&'' expression) init_expr_state) (\<lambda>r. Inr (case r of
       None \<Rightarrow> static_plan DenyAllRows
     | Some st \<Rightarrow> finish_expression st))"

section \<open>Alternatives, delegation and conjunction\<close>

text \<open>The loop over the read expressions: an expression that allows everything ends it.\<close>

fun plan_alternatives ::
  "('i, 'v) registry \<Rightarrow> user \<Rightarrow> string list \<Rightarrow> 'v read_plan list \<Rightarrow>
   perm_error + ('v read_plan, 'v read_plan list) sum" where
  "plan_alternatives reg u [] surviving = Inr (Inr surviving)"
| "plan_alternatives reg u (e # es) surviving =
     sbind (plan_permission_expression reg u e) (\<lambda>p.
       if decision p = AllowAllRows then Inr (Inl p)
       else plan_alternatives reg u es
              (if decision p \<noteq> DenyAllRows then surviving @ [p] else surviving))"

definition union_plans :: "'v read_plan list \<Rightarrow> 'v read_plan" where
  "union_plans surviving =
     (if surviving = [] then static_plan DenyAllRows
      else \<lparr>filters = (if list_ex (\<lambda>p. requires_instance_check p \<and> filters p = []) surviving then []
              else concat (map filters surviving)),
            requires_instance_check = list_ex requires_instance_check surviving,
            instance_check_reasons = sorted_reasons (\<Union>p \<in> set surviving. set (instance_check_reasons p)),
            decision = Conditional\<rparr>)"

definition plan_local_read_permissions ::
  "('i, 'v) registry \<Rightarrow> user \<Rightarrow> string list \<Rightarrow> perm_error + 'v read_plan" where
  "plan_local_read_permissions reg u read_permissions =
     (if read_permissions = [] then Inr (static_plan AllowAllRows)
      else sbind (plan_alternatives reg u read_permissions []) (\<lambda>r. Inr (case r of
        Inl p \<Rightarrow> p
      | Inr surviving \<Rightarrow> union_plans surviving)))"

definition prefix_lookups :: "string \<Rightarrow> 'v lookups \<Rightarrow> 'v lookups" where
  "prefix_lookups prefix d = map (\<lambda>(key, v). (prefix @ ''__'' @ key, v)) d"

definition prefix_read_permission_plan :: "'v read_plan \<Rightarrow> string \<Rightarrow> 'v read_plan" where
  "prefix_read_permission_plan plan prefix =
     (if decision plan \<noteq> Conditional then static_plan (decision plan)
      else \<lparr>filters = map (\<lambda>c. \<lparr>c_filter = Some (prefix_lookups prefix (filter_of c)),
                               c_exclude = Some (prefix_lookups prefix (exclude_of c))\<rparr>) (filters plan),
            requires_instance_check = requires_instance_check plan,
            instance_check_reasons = instance_check_reasons plan,
            decision = Conditional\<rparr>)"

text \<open>
  One pair of the cross product: the merged constraint, whether two exclusions differed and
  whether a key conflicted.
\<close>

definition and_constraints ::
  "'v constraint_dict \<Rightarrow> 'v constraint_dict \<Rightarrow> 'v constraint_dict \<times> bool \<times> bool" where
  "and_constraints c d =
     (let (cf, filter_conflict) = merge_filter_group_parts (filter_of c) (filter_of d);
          clash = exclude_clash (exclude_of c) (exclude_of d);
          (ce, exclude_conflict) = merge_filter_group_parts (exclude_of c) (exclude_of d)
      in (\<lparr>c_filter = Some cf, c_exclude = Some ce\<rparr>, clash, filter_conflict \<or> exclude_conflict))"

definition and_read_permission_plans :: "'v read_plan \<Rightarrow> 'v read_plan \<Rightarrow> 'v read_plan" where
  "and_read_permission_plans delegated local =
     (if decision delegated = DenyAllRows \<or> decision local = DenyAllRows then static_plan DenyAllRows
      else if decision delegated = AllowAllRows then local
      else if decision local = AllowAllRows then delegated
      else
        let dfs = (if filters delegated = [] then [empty_constraint] else filters delegated);
            lfs = (if filters local = [] then [empty_constraint] else filters local);
            combined = concat (map (\<lambda>d. map (and_constraints d) lfs) dfs);
            clash = list_ex (\<lambda>(c, cl, co). cl) combined;
            conflict = list_ex (\<lambda>(c, cl, co). co) combined;
            fs = map fst combined
        in \<lparr>filters = (if map (\<lambda>c. (c_filter c, c_exclude c)) fs = [(Some [], Some [])] then [] else fs),
            requires_instance_check = (requires_instance_check delegated \<or> requires_instance_check local
              \<or> clash \<or> conflict),
            instance_check_reasons = sorted_reasons (set (instance_check_reasons delegated)
              \<union> set (instance_check_reasons local)
              \<union> (if clash then {CompoundExcludeSemantics} else {})
              \<union> (if conflict then {FilterKeyConflict} else {})),
            decision = Conditional\<rparr>)"

section \<open>The instance gate\<close>

text \<open>\<open>__check_specific_permission\<close>: no expression allows, otherwise one must be granted.\<close>

definition check_permission_list ::
  "('i, 'v) registry \<Rightarrow> 'i \<Rightarrow> user \<Rightarrow> string list \<Rightarrow> perm_error + bool" where
  "check_permission_list reg inst u permissions =
     (if permissions = [] then Inr True
      else any_until (\<lambda>p. base_validate_permission_string reg p inst u) permissions)"

section \<open>What a plan selects\<close>

text \<open>
  The reading of a constraint on one row, given the truth \<open>sat key value row\<close> of a single
  lookup: \<open>filter(**d)\<close> keeps the rows that satisfy every lookup, \<open>exclude(**d)\<close> drops the
  rows that satisfy every lookup, and an empty mapping restricts nothing. A plan selects a
  row when it allows everything, or when it has no constraint or one of them matches.
\<close>

definition lookups_match :: "(string \<Rightarrow> 'v \<Rightarrow> 'i \<Rightarrow> bool) \<Rightarrow> 'v lookups \<Rightarrow> 'i \<Rightarrow> bool" where
  "lookups_match sat d r = list_all (\<lambda>(k, v). sat k v r) d"

definition exclude_passes :: "(string \<Rightarrow> 'v \<Rightarrow> 'i \<Rightarrow> bool) \<Rightarrow> 'v lookups \<Rightarrow> 'i \<Rightarrow> bool" where
  "exclude_passes sat d r = (d = [] \<or> \<not> lookups_match sat d r)"

definition constraint_matches :: "(string \<Rightarrow> 'v \<Rightarrow> 'i \<Rightarrow> bool) \<Rightarrow> 'v constraint_dict \<Rightarrow> 'i \<Rightarrow> bool" where
  "constraint_matches sat c r = (lookups_match sat (filter_of c) r \<and> exclude_passes sat (exclude_of c) r)"

definition plan_selects :: "(string \<Rightarrow> 'v \<Rightarrow> 'i \<Rightarrow> bool) \<Rightarrow> 'v read_plan \<Rightarrow> 'i \<Rightarrow> bool" where
  "plan_selects sat p r =
     (case decision p of AllowAllRows \<Rightarrow> True | DenyAllRows \<Rightarrow> False
      | Conditional \<Rightarrow> filters p = [] \<or> list_ex (\<lambda>c. constraint_matches sat c r) (filters p))"

text \<open>
  A plan is exact on a row for the answer \<open>b\<close> of the instance gate when the plan never drops
  a row that the gate grants, and grants nothing more unless it asks for the gate.
\<close>

definition plan_shape :: "'v read_plan \<Rightarrow> bool" where
  "plan_shape p = ((decision p \<noteq> Conditional \<longrightarrow> filters p = [] \<and> \<not> requires_instance_check p) \<and>
     list_all (\<lambda>c. od_wf (exclude_of c)) (filters p))"

definition plan_exact :: "(string \<Rightarrow> 'v \<Rightarrow> 'i \<Rightarrow> bool) \<Rightarrow> 'v read_plan \<Rightarrow> 'i \<Rightarrow> bool \<Rightarrow> bool" where
  "plan_exact sat p r b = (plan_shape p \<and> (b \<longrightarrow> plan_selects sat p r) \<and>
     (\<not> requires_instance_check p \<longrightarrow> plan_selects sat p r \<longrightarrow> b))"

lemma lookups_match_set: "lookups_match sat d r \<longleftrightarrow> (\<forall>p\<in>set d. sat (fst p) (snd p) r)"
  by (auto simp: lookups_match_def list_all_iff)

lemma od_set_same: "od_get d k = Some v \<Longrightarrow> od_set k v d = d"
  by (induction d) (auto split: if_splits)

lemma merge_items_set:
  "merge_items m c l = (m', c') \<Longrightarrow>
     set m \<subseteq> set m' \<and> set m' \<subseteq> set m \<union> set l \<and> (c \<longrightarrow> c') \<and> (\<not> c' \<longrightarrow> set l \<subseteq> set m')"
proof (induction l arbitrary: m c)
  case Nil
  then show ?case by simp
next
  case (Cons p l)
  obtain k v where p: "p = (k, v)" by (cases p)
  show ?case
  proof (cases "od_get m k")
    case None
    with Cons.prems p have "merge_items (m @ [(k, v)]) c l = (m', c')" by (simp add: od_set_fresh)
    from Cons.IH [OF this] p show ?thesis by auto
  next
    case (Some w)
    then have mem: "(k, w) \<in> set m" by (rule map_of_SomeD)
    show ?thesis
    proof (cases "w = v")
      case True
      with Cons.prems p Some have "merge_items m c l = (m', c')" by (simp add: od_set_same)
      from Cons.IH [OF this] p mem True show ?thesis by auto
    next
      case False
      with Cons.prems p Some have "merge_items m True l = (m', c')" by simp
      from Cons.IH [OF this] show ?thesis by auto
    qed
  qed
qed

lemma merge_items_wf: "od_wf m \<Longrightarrow> od_wf (fst (merge_items m c l))"
proof (induction l arbitrary: m c)
  case Nil
  then show ?case by simp
next
  case (Cons p l)
  obtain k v where p: "p = (k, v)" by (cases p)
  show ?case by (cases "od_get m k") (auto simp: p intro!: Cons.IH Cons.prems distinct_update)
qed

lemma merge_items_disjoint:
  "od_wf (m @ l) \<Longrightarrow> merge_items m c l = (m @ l, c)"
proof (induction l arbitrary: m)
  case Nil
  then show ?case by simp
next
  case (Cons p l)
  obtain k v where p: "p = (k, v)" by (cases p)
  have "od_get m k = None" using Cons.prems by (auto simp: p od_get_None_iff)
  then show ?case using Cons.IH [of "m @ [(k, v)]"] Cons.prems by (simp add: p od_set_fresh)
qed

lemma merge_from_empty: "od_wf l \<Longrightarrow> merge_filter_group_parts [] l = (l, False)"
  by (simp add: merge_filter_group_parts_def merge_items_disjoint)

lemma merge_filter_exact:
  assumes "merge_filter_group_parts d l = (m, conflict)"
  shows "lookups_match sat d r \<and> lookups_match sat l r \<Longrightarrow> lookups_match sat m r"
    and "\<not> conflict \<Longrightarrow> lookups_match sat m r \<Longrightarrow> lookups_match sat d r \<and> lookups_match sat l r"
  using merge_items_set [OF assms [unfolded merge_filter_group_parts_def]]
  by (auto simp: lookups_match_set)

lemma dict_eq_set:
  assumes "od_wf d" "od_wf e" "dict_eq d e"
  shows "set d = set e"
proof (rule card_subset_eq)
  show "set d \<subseteq> set e"
  proof
    fix p assume "p \<in> set d"
    with assms(3) have "od_get e (fst p) = Some (snd p)"
      by (auto simp: dict_eq_def list_all_iff)
    then show "p \<in> set e" by (metis map_of_SomeD prod.collapse)
  qed
  have "card (set d) = length d" "card (set e) = length e"
    using assms(1,2) by (simp_all add: distinct_card distinct_map)
  with assms(3) show "card (set d) = card (set e)" by (simp add: dict_eq_def)
qed simp

lemma merge_exclude_exact:
  assumes m: "merge_filter_group_parts d e = (m, conflict)" and wf: "od_wf d" "od_wf e"
  shows "exclude_passes sat d r \<and> exclude_passes sat e r \<Longrightarrow> exclude_passes sat m r"
    and "\<not> conflict \<Longrightarrow> \<not> exclude_clash d e \<Longrightarrow> exclude_passes sat m r \<Longrightarrow>
           exclude_passes sat d r \<and> exclude_passes sat e r"
    and "od_wf m"
proof -
  note s = merge_items_set [OF m [unfolded merge_filter_group_parts_def]]
  show "exclude_passes sat m r" if ex: "exclude_passes sat d r \<and> exclude_passes sat e r"
  proof (cases "d = []")
    case True
    with m wf(2) have "m = e" by (simp add: merge_from_empty)
    with ex show ?thesis by simp
  next
    case False
    with ex have "\<not> lookups_match sat d r" by (simp add: exclude_passes_def)
    with s have "\<not> lookups_match sat m r" by (auto simp: lookups_match_set)
    then show ?thesis by (simp add: exclude_passes_def)
  qed
  show "exclude_passes sat d r \<and> exclude_passes sat e r"
    if nc: "\<not> conflict" "\<not> exclude_clash d e" and ex: "exclude_passes sat m r"
  proof (cases "d = [] \<or> e = []")
    case True
    then show ?thesis
    proof
      assume "d = []"
      with m wf(2) have "m = e" by (simp add: merge_from_empty)
      with ex \<open>d = []\<close> show ?thesis by (simp add: exclude_passes_def)
    next
      assume "e = []"
      with m have "m = d" by (simp add: merge_filter_group_parts_def)
      with ex \<open>e = []\<close> show ?thesis by (simp add: exclude_passes_def)
    qed
  next
    case False
    with nc(2) have "dict_eq d e" by (simp add: exclude_clash_def)
    from dict_eq_set [OF wf this] have eq: "set d = set e" .
    from s nc(1) eq have "set m = set d" by blast
    with False have "m \<noteq> []" by auto
    with ex have "\<not> lookups_match sat m r" by (simp add: exclude_passes_def)
    with \<open>set m = set d\<close> eq show ?thesis by (simp add: exclude_passes_def lookups_match_set)
  qed
  show "od_wf m" using merge_items_wf [OF wf(1), of False e] m
    by (simp add: merge_filter_group_parts_def)
qed

lemma plan_exact_static:
  "plan_exact sat (static_plan AllowAllRows) r b \<longleftrightarrow> b"
  "plan_exact sat (static_plan DenyAllRows) r b \<longleftrightarrow> \<not> b"
  by (auto simp: plan_exact_def plan_shape_def plan_selects_def)

lemma plan_exact_decided:
  assumes "plan_exact sat p r b"
  shows "decision p = AllowAllRows \<Longrightarrow> b" "decision p = DenyAllRows \<Longrightarrow> \<not> b"
  using assms by (auto simp: plan_exact_def plan_shape_def plan_selects_def)

section \<open>Composition keeps plans exact\<close>

lemma constraint_matches_empty [simp]: "constraint_matches sat empty_constraint r"
  by (simp add: constraint_matches_def lookups_match_def exclude_passes_def)

lemma and_constraints_exact:
  assumes a: "and_constraints c d = (m, clash, conflict)"
    and wf: "od_wf (exclude_of c)" "od_wf (exclude_of d)"
  shows "constraint_matches sat c r \<and> constraint_matches sat d r \<Longrightarrow> constraint_matches sat m r"
    and "\<not> clash \<Longrightarrow> \<not> conflict \<Longrightarrow> constraint_matches sat m r \<Longrightarrow>
           constraint_matches sat c r \<and> constraint_matches sat d r"
    and "od_wf (exclude_of m)"
proof -
  obtain cf fc where f: "merge_filter_group_parts (filter_of c) (filter_of d) = (cf, fc)"
    by (cases "merge_filter_group_parts (filter_of c) (filter_of d)")
  obtain ce ec where e: "merge_filter_group_parts (exclude_of c) (exclude_of d) = (ce, ec)"
    by (cases "merge_filter_group_parts (exclude_of c) (exclude_of d)")
  from a f e have m: "m = \<lparr>c_filter = Some cf, c_exclude = Some ce\<rparr>"
    "clash = exclude_clash (exclude_of c) (exclude_of d)" "conflict = (fc \<or> ec)"
    by (simp_all add: and_constraints_def)
  note fx = merge_filter_exact(1,2) [OF f, where sat = sat and r = r]
    and ex = merge_exclude_exact(1,2) [OF e wf, where sat = sat and r = r]
    and ex3 = merge_exclude_exact(3) [OF e wf]
  show "constraint_matches sat c r \<and> constraint_matches sat d r \<Longrightarrow> constraint_matches sat m r"
    using fx(1) ex(1) by (simp add: constraint_matches_def m)
  show "\<not> clash \<Longrightarrow> \<not> conflict \<Longrightarrow> constraint_matches sat m r \<Longrightarrow>
           constraint_matches sat c r \<and> constraint_matches sat d r"
    using fx(2) ex(2) by (simp add: constraint_matches_def m)
  show "od_wf (exclude_of m)" using ex3 by (simp add: m)
qed

text \<open>The state of the fragment loop is exact for the conjunction of the fragments so far.\<close>

definition state_exact :: "(string \<Rightarrow> 'v \<Rightarrow> 'i \<Rightarrow> bool) \<Rightarrow> 'v expr_state \<Rightarrow> 'i \<Rightarrow> bool \<Rightarrow> bool" where
  "state_exact sat st r b =
     (let sel = lookups_match sat (combined_filter st) r \<and> exclude_passes sat (combined_exclude st) r
      in (b \<longrightarrow> sel) \<and> (\<not> st_requires st \<longrightarrow> sel \<longrightarrow> b) \<and> od_wf (combined_exclude st) \<and>
         (\<not> has_constraint st \<longrightarrow> combined_filter st = [] \<and> combined_exclude st = []))"

lemma state_exact_init: "state_exact sat init_expr_state r True"
  by (simp add: state_exact_def init_expr_state_def lookups_match_def exclude_passes_def)

lemma add_constraint_exact:
  assumes st: "state_exact sat st r b" and wf: "od_wf (exclude_of c)"
  shows "state_exact sat (add_constraint c st) r (b \<and> constraint_matches sat c r)"
proof -
  obtain cf fc where f: "merge_filter_group_parts (combined_filter st) (filter_of c) = (cf, fc)"
    by (cases "merge_filter_group_parts (combined_filter st) (filter_of c)")
  obtain ce ec where e: "merge_filter_group_parts (combined_exclude st) (exclude_of c) = (ce, ec)"
    by (cases "merge_filter_group_parts (combined_exclude st) (exclude_of c)")
  from st have wfs: "od_wf (combined_exclude st)" by (simp add: state_exact_def Let_def)
  note fx = merge_filter_exact(1,2) [OF f, where sat = sat and r = r]
    and ex = merge_exclude_exact(1,2) [OF e wfs wf, where sat = sat and r = r]
    and ex3 = merge_exclude_exact(3) [OF e wfs wf]
  have "(b \<and> constraint_matches sat c r \<longrightarrow> lookups_match sat cf r \<and> exclude_passes sat ce r)"
    using fx(1) ex(1) st by (auto simp: state_exact_def Let_def constraint_matches_def)
  moreover have "b \<and> constraint_matches sat c r"
    if "\<not> (st_requires st \<or> exclude_clash (combined_exclude st) (exclude_of c) \<or> fc \<or> ec)"
      "lookups_match sat cf r \<and> exclude_passes sat ce r"
    using that fx(2) ex(2) st by (auto simp: state_exact_def Let_def constraint_matches_def)
  ultimately show ?thesis
    using ex3 unfolding state_exact_def add_constraint_def f e Let_def prod.case expr_state.simps
    by blast
qed

lemma finish_constraint:
  assumes "has_constraint st"
  shows "decision (finish_expression st) = Conditional"
    "filters (finish_expression st) =
       [\<lparr>c_filter = Some (combined_filter st), c_exclude = Some (combined_exclude st)\<rparr>]"
    "requires_instance_check (finish_expression st) = st_requires st"
  using assms by (simp_all add: finish_expression_def)

lemma finish_no_constraint:
  assumes "\<not> has_constraint st"
  shows "decision (finish_expression st) = (if st_requires st then Conditional else AllowAllRows)"
    "filters (finish_expression st) = []"
    "requires_instance_check (finish_expression st) = st_requires st"
  using assms by (simp_all add: finish_expression_def)

lemma finish_exact:
  assumes "state_exact sat st r b"
  shows "plan_exact sat (finish_expression st) r b"
proof (cases "has_constraint st")
  case True
  note f = finish_constraint [OF True]
  have "plan_selects sat (finish_expression st) r \<longleftrightarrow>
      lookups_match sat (combined_filter st) r \<and> exclude_passes sat (combined_exclude st) r"
    unfolding plan_selects_def f by (simp only: decision.case) (simp add: constraint_matches_def)
  moreover from assms have "od_wf (combined_exclude st)" by (simp add: state_exact_def Let_def)
  then have "plan_shape (finish_expression st)" by (simp add: plan_shape_def f)
  ultimately show ?thesis
    using assms unfolding plan_exact_def f(3) state_exact_def Let_def by blast
next
  case False
  note f = finish_no_constraint [OF False]
  from assms False have "combined_filter st = []" "combined_exclude st = []"
    by (simp_all add: state_exact_def Let_def)
  then have "lookups_match sat (combined_filter st) r" "exclude_passes sat (combined_exclude st) r"
    by (simp_all add: lookups_match_def exclude_passes_def)
  with assms have "\<not> st_requires st \<longrightarrow> b"
    unfolding state_exact_def Let_def by blast
  then show ?thesis
    unfolding plan_exact_def plan_shape_def plan_selects_def f by (cases "st_requires st") simp_all
qed

text \<open>
  A conditional plan of one expression has a constraint or asks for the gate, so that
  dropping the constraints of the union happens only under the gate.
\<close>

definition informative :: "'v read_plan \<Rightarrow> bool" where
  "informative p = (decision p = Conditional \<and> (filters p = [] \<longrightarrow> requires_instance_check p))"

lemma finish_informative: "decision (finish_expression st) = Conditional \<Longrightarrow> informative (finish_expression st)"
  by (cases "has_constraint st")
    (auto simp: informative_def finish_constraint finish_no_constraint split: if_splits)

text \<open>
  The surviving alternatives are exact for \<open>b\<close> when none of them grants more than \<open>b\<close> and one
  of them grants it.
\<close>

definition alternatives_exact ::
  "(string \<Rightarrow> 'v \<Rightarrow> 'i \<Rightarrow> bool) \<Rightarrow> 'v read_plan list \<Rightarrow> 'i \<Rightarrow> bool \<Rightarrow> bool" where
  "alternatives_exact sat ps r b =
     ((\<forall>p\<in>set ps. \<exists>c. informative p \<and> plan_exact sat p r c \<and> (c \<longrightarrow> b)) \<and>
      (b \<longrightarrow> (\<exists>p\<in>set ps. plan_exact sat p r True)))"

lemma union_plans_exact:
  assumes inv: "alternatives_exact sat ps r b"
  shows "plan_exact sat (union_plans ps) r b"
proof (cases "ps = []")
  case True
  with inv show ?thesis by (auto simp: union_plans_def plan_exact_static alternatives_exact_def)
next
  case False
  let ?u = "union_plans ps"
  from inv have each: "\<exists>c. informative p \<and> plan_exact sat p r c \<and> (c \<longrightarrow> b)" if "p \<in> set ps" for p
    using that by (simp add: alternatives_exact_def)
  have u: "decision ?u = Conditional" "requires_instance_check ?u = list_ex requires_instance_check ps"
    "filters ?u = (if list_ex (\<lambda>p. requires_instance_check p \<and> filters p = []) ps then []
              else concat (map filters ps))"
    using False by (simp_all add: union_plans_def)
  have shape: "plan_shape ?u"
    using each by (fastforce simp: plan_shape_def u(1,3) plan_exact_def list_all_iff)
  have sel: "plan_selects sat p r = (filters p = [] \<or> (\<exists>c\<in>set (filters p). constraint_matches sat c r))"
    if "p \<in> set ps" for p
    using each [OF that] by (auto simp: plan_selects_def informative_def list_ex_iff)
  have usel: "plan_selects sat ?u r = (filters ?u = [] \<or> (\<exists>c\<in>set (filters ?u). constraint_matches sat c r))"
    by (simp add: plan_selects_def u(1) list_ex_iff)
  have complete: "plan_selects sat ?u r" if p: "p \<in> set ps" "plan_exact sat p r True" for p
  proof (cases "filters p = []")
    case True
    with each [OF p(1)] have "requires_instance_check p" by (auto simp: informative_def)
    with True p(1) have "filters ?u = []" by (auto simp: u(3) list_ex_iff)
    then show ?thesis by (simp add: usel)
  next
    case False
    from p(2) have "plan_selects sat p r" by (simp add: plan_exact_def)
    with False sel [OF p(1)] obtain c where "c \<in> set (filters p)" "constraint_matches sat c r" by blast
    with p(1) show ?thesis by (auto simp: usel u(3))
  qed
  have sound: "b" if nr: "\<not> requires_instance_check ?u" and s: "plan_selects sat ?u r"
  proof -
    from nr have nrp: "\<not> requires_instance_check p" if "p \<in> set ps" for p
      using that by (simp add: u(2) list_ex_iff)
    with each have ne: "filters p \<noteq> []" if "p \<in> set ps" for p
      using that by (auto simp: informative_def)
    with nrp have fu: "filters ?u = concat (map filters ps)" by (auto simp: u(3) list_ex_iff)
    with ne False have "filters ?u \<noteq> []" by (cases ps) auto
    with s fu obtain p c where p: "p \<in> set ps" "c \<in> set (filters p)" "constraint_matches sat c r"
      by (auto simp: usel)
    with sel have "plan_selects sat p r" by blast
    with each [OF p(1)] nrp [OF p(1)] show ?thesis unfolding plan_exact_def by blast
  qed
  from inv complete have "b \<longrightarrow> plan_selects sat ?u r" by (auto simp: alternatives_exact_def)
  with shape sound show ?thesis unfolding plan_exact_def by blast
qed

text \<open>The conjunction of a delegated and a local plan.\<close>

lemma plan_selects_conditional:
  "decision p = Conditional \<Longrightarrow> plan_selects sat p r =
     (\<exists>c\<in>set (if filters p = [] then [empty_constraint] else filters p). constraint_matches sat c r)"
  unfolding plan_selects_def by (simp only: decision.case) (simp add: list_ex_iff)

lemma and_plans_exact:
  assumes d: "plan_exact sat p r b" and l: "plan_exact sat q r c"
  shows "plan_exact sat (and_read_permission_plans p q) r (b \<and> c)"
proof (cases "decision p = Conditional \<and> decision q = Conditional")
  case False
  show ?thesis
  proof (cases "decision p = DenyAllRows \<or> decision q = DenyAllRows")
    case True
    then have "\<not> (b \<and> c)" using plan_exact_decided(2) [OF d] plan_exact_decided(2) [OF l] by blast
    with True show ?thesis by (simp add: and_read_permission_plans_def plan_exact_static)
  next
    case nd: False
    show ?thesis
    proof (cases "decision p = AllowAllRows")
      case True
      then have "b" by (rule plan_exact_decided(1) [OF d])
      with True nd l show ?thesis by (simp add: and_read_permission_plans_def)
    next
      case ndp: False
      with nd have "decision p = Conditional" by (cases "decision p") auto
      with False nd have q: "decision q = AllowAllRows" by (cases "decision q") auto
      then have "c" by (rule plan_exact_decided(1) [OF l])
      with q nd ndp d show ?thesis by (simp add: and_read_permission_plans_def)
    qed
  qed
next
  case True
  define dfs where "dfs = (if filters p = [] then [empty_constraint] else filters p)"
  define lfs where "lfs = (if filters q = [] then [empty_constraint] else filters q)"
  define comb where "comb = concat (map (\<lambda>d. map (and_constraints d) lfs) dfs)"
  let ?u = "and_read_permission_plans p q"
  have u: "decision ?u = Conditional"
    "filters ?u = (if map (\<lambda>c. (c_filter c, c_exclude c)) (map fst comb) = [(Some [], Some [])]
        then [] else map fst comb)"
    "requires_instance_check ?u = (requires_instance_check p \<or> requires_instance_check q \<or>
        list_ex (\<lambda>(c, cl, co). cl) comb \<or> list_ex (\<lambda>(c, cl, co). co) comb)"
    using True unfolding and_read_permission_plans_def dfs_def [symmetric] lfs_def [symmetric]
      comb_def [symmetric] Let_def by simp_all
  have ne: "dfs \<noteq> []" "lfs \<noteq> []" by (simp_all add: dfs_def lfs_def)
  then have "comb \<noteq> []" by (cases dfs; cases lfs) (simp_all add: comb_def)
  have wfd: "od_wf (exclude_of x)" if "x \<in> set dfs" for x
    using that d by (auto simp: dfs_def plan_exact_def plan_shape_def list_all_iff split: if_splits)
  have wfl: "od_wf (exclude_of x)" if "x \<in> set lfs" for x
    using that l by (auto simp: lfs_def plan_exact_def plan_shape_def list_all_iff split: if_splits)
  have mem: "t \<in> set comb \<longleftrightarrow> (\<exists>x\<in>set dfs. \<exists>y\<in>set lfs. t = and_constraints x y)" for t
    by (auto simp: comb_def)
  have single: "constraint_matches sat m r"
    if "map (\<lambda>c. (c_filter c, c_exclude c)) (map fst comb) = [(Some [], Some [])]"
      "m \<in> set (map fst comb)" for m
  proof -
    from that obtain k where "map fst comb = [k]" "c_filter k = Some []" "c_exclude k = Some []"
      by (auto simp: map_eq_Cons_conv)
    with that(2) show ?thesis
      by (simp add: constraint_matches_def lookups_match_def exclude_passes_def)
  qed
  have sel: "plan_selects sat ?u r \<longleftrightarrow> (\<exists>t\<in>set comb. constraint_matches sat (fst t) r)"
  proof (cases "map (\<lambda>c. (c_filter c, c_exclude c)) (map fst comb) = [(Some [], Some [])]")
    case sg: True
    from sg \<open>comb \<noteq> []\<close> obtain t where "t \<in> set comb" by (cases comb) auto
    with single [OF sg, of "fst t"] have "\<exists>t\<in>set comb. constraint_matches sat (fst t) r" by auto
    moreover from sg have "plan_selects sat ?u r" by (simp add: plan_selects_conditional u(1,2))
    ultimately show ?thesis by blast
  next
    case False
    with \<open>comb \<noteq> []\<close> show ?thesis by (simp add: plan_selects_conditional u(1,2))
  qed
  have pd: "plan_selects sat p r \<longleftrightarrow> (\<exists>x\<in>set dfs. constraint_matches sat x r)"
    and ql: "plan_selects sat q r \<longleftrightarrow> (\<exists>y\<in>set lfs. constraint_matches sat y r)"
    using True by (simp_all add: plan_selects_conditional dfs_def lfs_def)
  have shape: "plan_shape ?u"
  proof -
    have "od_wf (exclude_of (fst t))" if "t \<in> set comb" for t
    proof -
      from that obtain x y where t: "x \<in> set dfs" "y \<in> set lfs" "t = and_constraints x y"
        using mem by blast
      obtain m cl co where "and_constraints x y = (m, cl, co)" by (cases "and_constraints x y") auto
      with and_constraints_exact(3) [OF this wfd [OF t(1)] wfl [OF t(2)]] t(3) show ?thesis by simp
    qed
    then show ?thesis by (simp add: plan_shape_def u list_all_iff)
  qed
  have complete: "plan_selects sat ?u r" if "b" "c"
  proof -
    from d l that have "plan_selects sat p r" "plan_selects sat q r" by (simp_all add: plan_exact_def)
    with pd ql obtain x y where xy: "x \<in> set dfs" "y \<in> set lfs" "constraint_matches sat x r"
      "constraint_matches sat y r" by blast
    obtain m cl co where m: "and_constraints x y = (m, cl, co)" by (cases "and_constraints x y") auto
    have "constraint_matches sat m r"
      by (rule and_constraints_exact(1) [OF m wfd [OF xy(1)] wfl [OF xy(2)] conjI [OF xy(3,4)]])
    moreover have "and_constraints x y \<in> set comb" using mem xy(1,2) by blast
    then have "(m, cl, co) \<in> set comb" by (simp only: m)
    ultimately show ?thesis unfolding sel by (intro bexI [of _ "(m, cl, co)"]) simp_all
  qed
  have sound: "b \<and> c" if nr: "\<not> requires_instance_check ?u" and s: "plan_selects sat ?u r"
  proof -
    from s obtain t where t: "t \<in> set comb" "constraint_matches sat (fst t) r" by (auto simp: sel)
    then obtain x y where xy: "x \<in> set dfs" "y \<in> set lfs" "t = and_constraints x y" using mem by blast
    obtain m cl co where m: "and_constraints x y = (m, cl, co)" by (cases "and_constraints x y") auto
    from nr t(1) m xy(3) have "\<not> cl" "\<not> co" by (auto simp: u(3) list_ex_iff)
    moreover from t(2) have "constraint_matches sat m r" by (simp add: m xy(3))
    ultimately have "constraint_matches sat x r" "constraint_matches sat y r"
      using and_constraints_exact(2) [OF m wfd [OF xy(1)] wfl [OF xy(2)], where sat = sat and r = r]
      by simp_all
    with xy pd ql have "plan_selects sat p r" "plan_selects sat q r" by blast+
    with nr d l show ?thesis by (simp add: u(3) plan_exact_def)
  qed
  show ?thesis unfolding plan_exact_def using shape complete sound by blast
qed

lemma lookups_match_prefix:
  assumes "\<And>k v. sat (prefix @ ''__'' @ k) v r = sat' k v r'"
  shows "lookups_match sat (prefix_lookups prefix d) r = lookups_match sat' d r'"
  using assms by (simp add: lookups_match_def prefix_lookups_def list_all_iff case_prod_beta)

lemma od_wf_prefix: "od_wf d \<Longrightarrow> od_wf (prefix_lookups prefix d)"
  by (simp add: prefix_lookups_def distinct_map comp_def case_prod_beta inj_on_def)

text \<open>
  A delegated plan, exact on the related row, is exact on the row itself once its lookups
  are prefixed with the path to the related row.
\<close>

lemma prefix_plan_exact:
  assumes rel: "\<And>k v. sat (prefix @ ''__'' @ k) v r = sat' k v r'" and p: "plan_exact sat' p r' b"
  shows "plan_exact sat (prefix_read_permission_plan p prefix) r b"
proof (cases "decision p")
  case AllowAllRows
  with plan_exact_decided(1) [OF p] show ?thesis
    by (simp add: prefix_read_permission_plan_def plan_exact_static)
next
  case DenyAllRows
  with plan_exact_decided(2) [OF p] show ?thesis
    by (simp add: prefix_read_permission_plan_def plan_exact_static)
next
  case Conditional
  let ?u = "prefix_read_permission_plan p prefix"
  let ?f = "\<lambda>c. \<lparr>c_filter = Some (prefix_lookups prefix (filter_of c)),
                c_exclude = Some (prefix_lookups prefix (exclude_of c))\<rparr>"
  have u: "decision ?u = Conditional" "filters ?u = map ?f (filters p)"
    "requires_instance_check ?u = requires_instance_check p"
    using Conditional by (simp_all add: prefix_read_permission_plan_def)
  have "constraint_matches sat (?f c) r = constraint_matches sat' c r'" for c
    unfolding constraint_matches_def exclude_passes_def constraint_dict.simps option.case
      lookups_match_prefix [of sat prefix r sat' r', OF rel]
    by (simp add: prefix_lookups_def)
  then have "plan_selects sat ?u r = plan_selects sat' p r'"
    by (simp add: plan_selects_conditional u(1,2) Conditional)
  moreover have "plan_shape ?u"
  proof -
    have "\<forall>c\<in>set (filters p). od_wf (exclude_of c)"
      using p by (simp add: plan_exact_def plan_shape_def list_all_iff)
    then show ?thesis by (simp add: plan_shape_def u(1,2) list_all_iff od_wf_prefix)
  qed
  ultimately show ?thesis using p unfolding plan_exact_def u(3) by blast
qed


section \<open>The contract of a registered filter\<close>

text \<open>
  What a filter promises about its method on one instance: a static decision is the method's
  answer, a mapping selects the instance exactly when the method grants it, and nothing is
  promised by a filter that returns \<open>None\<close>. The mappings are dicts: their keys are distinct.
\<close>

fun part_of :: "(string, 'v filter_part) odict \<Rightarrow> string \<Rightarrow> 'v lookups" where
  "part_of m k = (case od_get m k of Some (Part d) \<Rightarrow> d | _ \<Rightarrow> [])"

definition filter_agrees ::
  "(string \<Rightarrow> 'v \<Rightarrow> 'i \<Rightarrow> bool) \<Rightarrow> 'v raw_filter \<Rightarrow> 'i \<Rightarrow> bool \<Rightarrow> bool" where
  "filter_agrees sat raw inst granted =
     (case raw of
        AllowAll \<Rightarrow> granted
      | DenyAll \<Rightarrow> \<not> granted
      | FMapping m \<Rightarrow> od_wf (part_of m ''exclude'') \<and>
          granted = (lookups_match sat (part_of m ''filter'') inst \<and>
                     exclude_passes sat (part_of m ''exclude'') inst)
      | _ \<Rightarrow> True)"

locale prefilter_contract =
  fixes reg :: "('i, 'v) registry"
    and sat :: "string \<Rightarrow> 'v \<Rightarrow> 'i \<Rightarrow> bool"
    and user_ok :: "user \<Rightarrow> bool"
    and frag_ok :: "'i \<Rightarrow> string \<Rightarrow> string list \<Rightarrow> bool"
  assumes agrees: "od_get reg name = Some e \<Longrightarrow> user_ok u \<Longrightarrow> frag_ok inst name config \<Longrightarrow>
    filter_agrees sat (permission_filter e u config) inst (permission_method e inst u config)"
begin

abbreviation fragment_ok :: "'i \<Rightarrow> string \<Rightarrow> bool" where
  "fragment_ok inst f \<equiv> frag_ok inst (perm_name f) (perm_config f)"

abbreviation expression_ok :: "'i \<Rightarrow> string \<Rightarrow> bool" where
  "expression_ok inst e \<equiv> \<forall>f\<in>set (split_char CHR ''&'' e). fragment_ok inst f"

lemma filter_result_exact:
  assumes "get_permission_filter_result reg u f = Inr res" "\<not> is_superuser u" "user_ok u"
    "fragment_ok inst f"
  shows "\<exists>b. validate_single_permission reg inst u f = Inr b \<and>
    (res = RAllowAll \<longrightarrow> b) \<and> (res = RDenyAll \<longrightarrow> \<not> b) \<and>
    (\<forall>c. res = RConstraint c \<longrightarrow> od_wf (exclude_of c) \<and> b = constraint_matches sat c inst)"
proof -
  from assms(1,2) obtain e where e: "od_get reg (perm_name f) = Some e"
    by (auto simp: get_permission_filter_result_def split: option.splits)
  let ?b = "permission_method e inst u (perm_config f)"
  note ag = agrees [OF e assms(3,4)]
  have val: "validate_single_permission reg inst u f = Inr ?b"
    by (simp add: validate_single_permission_def e)
  show ?thesis
  proof (intro exI [of _ ?b] conjI allI impI)
    show "validate_single_permission reg inst u f = Inr ?b" by (rule val)
    show "res = RAllowAll \<Longrightarrow> ?b" "res = RDenyAll \<Longrightarrow> \<not> ?b"
      using assms(1,2) ag
      by (auto simp: get_permission_filter_result_def e filter_agrees_def sbind_Inr_iff
        split: raw_filter.splits list.splits)
  next
    fix c assume c: "res = RConstraint c"
    with assms(1,2) obtain m fp ep where m: "permission_filter e u (perm_config f) = FMapping m"
      "constraint_part f m ''filter'' = Inr fp" "constraint_part f m ''exclude'' = Inr ep"
      "c = \<lparr>c_filter = fp, c_exclude = ep\<rparr>"
      by (auto simp: get_permission_filter_result_def e sbind_Inr_iff
        split: raw_filter.splits list.splits)
    have "filter_of c = part_of m ''filter''" "exclude_of c = part_of m ''exclude''"
      using m(2-4) by (auto simp: constraint_part_def split: option.splits filter_part.splits)
    with ag m(1) show "od_wf (exclude_of c)" "?b = constraint_matches sat c inst"
      unfolding constraint_matches_def by (simp_all add: filter_agrees_def)
  qed
qed

lemma add_fragment_exact:
  assumes f: "plan_permission_fragment reg u name = Inr f" and u: "\<not> is_superuser u" "user_ok u"
    and ok: "fragment_ok inst name" and st: "state_exact sat st inst b"
  shows "\<exists>g. validate_single_permission reg inst u name = Inr g \<and>
    (frag_decision f = DenyAllRows \<longrightarrow> \<not> g) \<and>
    (frag_decision f \<noteq> DenyAllRows \<longrightarrow> state_exact sat (add_fragment f st) inst (b \<and> g))"
proof -
  from f obtain res where res: "get_permission_filter_result reg u name = Inr res"
    and f: "f = (case res of
       RAllowAll \<Rightarrow> \<lparr>frag_decision = AllowAllRows, frag_constraint = None, frag_requires = False\<rparr>
     | RDenyAll \<Rightarrow> \<lparr>frag_decision = DenyAllRows, frag_constraint = None, frag_requires = False\<rparr>
     | RNone \<Rightarrow> \<lparr>frag_decision = Conditional, frag_constraint = None, frag_requires = True\<rparr>
     | RConstraint c \<Rightarrow>
         \<lparr>frag_decision = Conditional, frag_constraint = Some c, frag_requires = False\<rparr>)"
    by (auto simp: plan_permission_fragment_def sbind_Inr_iff)
  from filter_result_exact [OF res u ok] obtain g where
    g: "validate_single_permission reg inst u name = Inr g"
      "res = RAllowAll \<longrightarrow> g" "res = RDenyAll \<longrightarrow> \<not> g"
      "\<forall>c. res = RConstraint c \<longrightarrow> od_wf (exclude_of c) \<and> g = constraint_matches sat c inst"
    by blast
  show ?thesis
  proof (intro exI [of _ g] conjI impI)
    show "validate_single_permission reg inst u name = Inr g" by (rule g(1))
    show "frag_decision f = DenyAllRows \<Longrightarrow> \<not> g" using f g(3) by (cases res) auto
    show "state_exact sat (add_fragment f st) inst (b \<and> g)" if "frag_decision f \<noteq> DenyAllRows"
    proof (cases res)
      case RNone
      with f have "add_fragment f st =
        st\<lparr>st_requires := True, st_reasons := insert UnfilterableReadRule (st_reasons st)\<rparr>"
        by (simp add: add_fragment_def)
      then show ?thesis using st unfolding state_exact_def Let_def by simp
    next
      case RAllowAll
      with f g(2) st show ?thesis by (simp add: add_fragment_def)
    next
      case RDenyAll
      with f that show ?thesis by simp
    next
      case (RConstraint c)
      with f have "add_fragment f st = add_constraint c st" by (simp add: add_fragment_def)
      moreover from g(4) RConstraint have "od_wf (exclude_of c)" "g = constraint_matches sat c inst" by simp_all
      ultimately show ?thesis using add_constraint_exact [OF st, of c] by simp
    qed
  qed
qed

lemma plan_fragments_exact:
  assumes "\<not> is_superuser u" "user_ok u"
  shows "plan_fragments reg u names st = Inr res \<Longrightarrow> \<forall>f\<in>set names. fragment_ok inst f \<Longrightarrow>
    state_exact sat st inst b \<Longrightarrow>
    \<exists>g. all_until (validate_single_permission reg inst u) names = Inr g \<and>
      (case res of None \<Rightarrow> \<not> g | Some st' \<Rightarrow> state_exact sat st' inst (b \<and> g))"
proof (induction names arbitrary: st b)
  case Nil
  then have "res = Some st" by simp
  with Nil(3) show ?case by (intro exI [of _ True]) simp
next
  case (Cons name names)
  from Cons.prems(1) obtain f where f: "plan_permission_fragment reg u name = Inr f"
    and rest: "(if frag_decision f = DenyAllRows then Inr None
       else plan_fragments reg u names (add_fragment f st)) = Inr res"
    by (auto simp: sbind_Inr_iff)
  from Cons.prems(2) have ok: "fragment_ok inst name" "\<forall>f\<in>set names. fragment_ok inst f" by simp_all
  from add_fragment_exact [OF f assms ok(1) Cons.prems(3)] obtain g where
    g: "validate_single_permission reg inst u name = Inr g"
      "frag_decision f = DenyAllRows \<longrightarrow> \<not> g"
      "frag_decision f \<noteq> DenyAllRows \<longrightarrow> state_exact sat (add_fragment f st) inst (b \<and> g)"
    by blast
  show ?case
  proof (cases "frag_decision f = DenyAllRows")
    case True
    with rest g show ?thesis by auto
  next
    case False
    with rest have r: "plan_fragments reg u names (add_fragment f st) = Inr res" by simp
    from Cons.IH [OF r ok(2) mp [OF g(3) False]] obtain h where
      h: "all_until (validate_single_permission reg inst u) names = Inr h"
        "case res of None \<Rightarrow> \<not> h | Some st' \<Rightarrow> state_exact sat st' inst ((b \<and> g) \<and> h)" by blast
    show ?thesis
    proof (cases g)
      case True
      with g(1) h show ?thesis by (intro exI [of _ h]) (cases res; simp)
    next
      case ng: False
      with g(1) have "all_until (validate_single_permission reg inst u) (name # names) = Inr False" by simp
      with h(2) ng show ?thesis by (auto split: option.splits)
    qed
  qed
qed

lemma plan_fragments_superuser:
  "is_superuser u \<Longrightarrow> plan_fragments reg u names st = Inr (Some st)"
  by (induction names arbitrary: st)
    (simp_all add: plan_permission_fragment_def get_permission_filter_result_def add_fragment_def)

text \<open>A plan that the code returns decides like the gate, which then does not raise.\<close>

lemma expression_exact:
  assumes p: "plan_permission_expression reg u e = Inr p" and u: "user_ok u" and ok: "expression_ok inst e"
  shows "\<exists>b. base_validate_permission_string reg e inst u = Inr b \<and> plan_exact sat p inst b \<and>
    (decision p = Conditional \<longrightarrow> informative p)"
proof (cases "is_superuser u")
  case True
  with p have "p = finish_expression init_expr_state"
    by (simp add: plan_permission_expression_def plan_fragments_superuser)
  with True finish_exact [OF state_exact_init, of sat inst] show ?thesis
    by (intro exI [of _ True]) (simp add: base_validate_permission_string_def finish_informative)
next
  case False
  from p obtain res where res: "plan_fragments reg u (split_char CHR ''&'' e) init_expr_state = Inr res"
    "p = (case res of None \<Rightarrow> static_plan DenyAllRows | Some st \<Rightarrow> finish_expression st)"
    by (auto simp: plan_permission_expression_def sbind_Inr_iff)
  from plan_fragments_exact [OF False u res(1) ok state_exact_init] obtain g where
    g: "all_until (validate_single_permission reg inst u) (split_char CHR ''&'' e) = Inr g"
      "case res of None \<Rightarrow> \<not> g | Some st' \<Rightarrow> state_exact sat st' inst (True \<and> g)" by blast
  have "base_validate_permission_string reg e inst u = Inr g"
    using False g(1) by (simp add: base_validate_permission_string_def validate_permission_string_def)
  moreover have "plan_exact sat p inst g \<and> (decision p = Conditional \<longrightarrow> informative p)"
  proof (cases res)
    case None
    with g(2) res(2) show ?thesis by (simp add: plan_exact_static)
  next
    case (Some st)
    with g(2) res(2) show ?thesis by (simp add: finish_exact finish_informative)
  qed
  ultimately show ?thesis by blast
qed

lemma alternatives_step:
  assumes "alternatives_exact sat ps inst b" "plan_exact sat p inst g" "informative p"
  shows "alternatives_exact sat (ps @ [p]) inst (b \<or> g)"
proof -
  have "plan_exact sat p inst True" if g using assms(2) that by simp
  with assms show ?thesis unfolding alternatives_exact_def set_append list.set by blast
qed

lemma plan_alternatives_exact:
  assumes u: "user_ok u"
  shows "plan_alternatives reg u es ps = Inr res \<Longrightarrow> \<forall>e\<in>set es. expression_ok inst e \<Longrightarrow>
    alternatives_exact sat ps inst b \<Longrightarrow>
    \<exists>g. any_until (\<lambda>e. base_validate_permission_string reg e inst u) es = Inr g \<and>
      (case res of Inl p \<Rightarrow> g \<and> plan_exact sat p inst True | Inr ps' \<Rightarrow> alternatives_exact sat ps' inst (b \<or> g))"
proof (induction es arbitrary: ps b)
  case Nil
  then have "res = Inr ps" by simp
  with Nil(3) show ?case by (intro exI [of _ False]) simp
next
  case (Cons e es)
  let ?V = "\<lambda>e. base_validate_permission_string reg e inst u"
  from Cons.prems(1) obtain p where p: "plan_permission_expression reg u e = Inr p"
    and rest: "(if decision p = AllowAllRows then Inr (Inl p)
       else plan_alternatives reg u es
              (if decision p \<noteq> DenyAllRows then ps @ [p] else ps)) = Inr res"
    by (auto simp: sbind_Inr_iff)
  from Cons.prems(2) have ok: "expression_ok inst e" "\<forall>e\<in>set es. expression_ok inst e" by simp_all
  from expression_exact [OF p u ok(1)] obtain g where g: "?V e = Inr g" "plan_exact sat p inst g"
    "decision p = Conditional \<Longrightarrow> informative p" by blast
  show ?case
  proof (cases "decision p = AllowAllRows")
    case True
    have "g = True" using plan_exact_decided(1) [OF g(2) True] by simp
    moreover from True rest have "res = Inl p" by simp
    ultimately show ?thesis using g(1,2) by (intro exI [of _ True]) simp
  next
    case False
    with rest have r: "plan_alternatives reg u es (if decision p \<noteq> DenyAllRows then ps @ [p] else ps) = Inr res"
      by simp
    have "alternatives_exact sat (if decision p \<noteq> DenyAllRows then ps @ [p] else ps) inst (b \<or> g)"
    proof (cases "decision p = DenyAllRows")
      case True
      with plan_exact_decided(2) [OF g(2)] Cons.prems(3) show ?thesis by simp
    next
      case nd: False
      with False have "decision p = Conditional" by (cases "decision p") auto
      with alternatives_step [OF Cons.prems(3) g(2)] g(3) nd show ?thesis by simp
    qed
    from Cons.IH [OF r ok(2) this] obtain h where h: "any_until ?V es = Inr h"
      "case res of Inl p \<Rightarrow> h \<and> plan_exact sat p inst True
       | Inr ps' \<Rightarrow> alternatives_exact sat ps' inst ((b \<or> g) \<or> h)" by blast
    show ?thesis
    proof (cases g)
      case True
      with g(1) have "any_until ?V (e # es) = Inr True" by simp
      moreover from True h(2)
      have "case res of Inl p \<Rightarrow> True \<and> plan_exact sat p inst True
         | Inr ps' \<Rightarrow> alternatives_exact sat ps' inst (b \<or> True)"
        by (cases res) simp_all
      ultimately show ?thesis by blast
    next
      case False
      with g(1) h show ?thesis by (intro exI [of _ h]) (cases res; simp)
    qed
  qed
qed

lemma local_exact:
  assumes p: "plan_local_read_permissions reg u es = Inr p" and u: "user_ok u"
    and ok: "\<forall>e\<in>set es. expression_ok inst e"
  shows "\<exists>b. check_permission_list reg inst u es = Inr b \<and> plan_exact sat p inst b"
proof (cases "es = []")
  case True
  with p show ?thesis
    by (intro exI [of _ True])
      (auto simp: plan_local_read_permissions_def check_permission_list_def plan_exact_static)
next
  case False
  with p obtain res where res: "plan_alternatives reg u es [] = Inr res"
    "p = (case res of Inl p \<Rightarrow> p | Inr surviving \<Rightarrow> union_plans surviving)"
    by (auto simp: plan_local_read_permissions_def sbind_Inr_iff)
  have "alternatives_exact sat [] inst False" by (simp add: alternatives_exact_def)
  from plan_alternatives_exact [OF u res(1) ok this] obtain g where
    g: "any_until (\<lambda>e. base_validate_permission_string reg e inst u) es = Inr g"
      "case res of Inl p \<Rightarrow> g \<and> plan_exact sat p inst True | Inr ps' \<Rightarrow> alternatives_exact sat ps' inst (False \<or> g)"
    by blast
  have "plan_exact sat p inst g"
  proof (cases res)
    case (Inl q)
    with g(2) res(2) show ?thesis by simp
  next
    case (Inr ps)
    with g(2) res(2) show ?thesis by (simp add: union_plans_exact)
  qed
  with False g(1) show ?thesis by (simp add: check_permission_list_def)
qed

end

end
