(* ===== verification/PermObject.thy ===== *)
theory PermObject
  imports PermPlan
begin

text \<open>
  Permission objects, \<open>permission/manager_based_permission.py\<close>: the class-level configuration,
  the construction of an object for a subject with its delegation to the permission of the
  \<open>__based_on__\<close> object, the three checks with their per-object caches, and the read plan.
  Actions are the strings of the source. What Django and the managers supply (the attribute
  behind \<open>__based_on__\<close>, its coercion to a manager, the permission class of that manager) is
  the record \<open>basis_env\<close>. The functions on objects return the answer and the object with its
  updated caches; an exception leaves the caches as they are at that point.
\<close>

section \<open>Default permissions\<close>

definition permission_actions :: "string list" where
  "permission_actions = [''read'', ''create'', ''update'', ''delete'']"

definition fallback_default_permissions :: "(string, string list) odict" where
  "fallback_default_permissions =
     [(''read'', [''public'']), (''create'', [''isAuthenticated'']),
      (''update'', [''isAuthenticated'']), (''delete'', [''isAuthenticated''])]"

text \<open>
  A configured value is \<open>None\<close>, an iterable of expressions, or anything else, of which the
  code takes the \<open>str()\<close> as the only expression.
\<close>

datatype config_value = ConfigNone | ConfigList "string list" | ConfigScalar string

fun config_expressions :: "config_value \<Rightarrow> string list option" where
  "config_expressions ConfigNone = None"
| "config_expressions (ConfigList ps) = Some ps"
| "config_expressions (ConfigScalar s) = Some [s]"

fun upper_action :: "string \<Rightarrow> string" where
  "upper_action a =
     (if a = ''read'' then ''READ'' else if a = ''create'' then ''CREATE''
      else if a = ''update'' then ''UPDATE'' else if a = ''delete'' then ''DELETE'' else a)"

definition configured_for :: "(string, config_value) odict \<Rightarrow> string \<Rightarrow> string list option" where
  "configured_for configured action =
     (let get = (\<lambda>k. case od_get configured k of None \<Rightarrow> None | Some v \<Rightarrow> config_expressions v)
      in case get (upper_action action) of Some ps \<Rightarrow> Some ps | None \<Rightarrow> get action)"

text \<open>
  \<open>_get_default_permissions\<close>: the setting is \<open>None\<close> when it is absent or not a mapping.
\<close>

fun override_defaults ::
  "(string, config_value) odict \<Rightarrow> string list \<Rightarrow> (string, string list) odict \<Rightarrow> (string, string list) odict" where
  "override_defaults configured [] defaults = defaults"
| "override_defaults configured (a # as) defaults =
     override_defaults configured as
       (case configured_for configured a of None \<Rightarrow> defaults | Some ps \<Rightarrow> od_set a ps defaults)"

definition get_default_permissions ::
  "(string, config_value) odict option \<Rightarrow> (string, string list) odict" where
  "get_default_permissions configured =
     (case configured of None \<Rightarrow> fallback_default_permissions
      | Some c \<Rightarrow> override_defaults c permission_actions fallback_default_permissions)"

definition default_for :: "(string, config_value) odict option \<Rightarrow> string \<Rightarrow> string list" where
  "default_for configured action =
     (case od_get (get_default_permissions configured) action of None \<Rightarrow> [] | Some ps \<Rightarrow> ps)"

section \<open>Permission classes\<close>

datatype merge_mode = Additive | Override

text \<open>The value of a class attribute: a dict of rules per action, or anything else.\<close>

datatype attr_source = AttrRules "(string, string list) odict" | AttrOther

text \<open>
  A permission class: its merge semantics, whether it is one of the library's own classes,
  the CRUD lists its own body declares (keyed by action), \<open>__based_on__\<close>, and the class
  attributes whose name does not start with two underscores.
\<close>

record perm_class =
  pc_mode :: merge_mode
  pc_library :: bool
  pc_declared :: "(string, string list) odict"
  pc_based_on :: "string option"
  pc_attributes :: "(string, attr_source) odict"

text \<open>The lists \<open>__init_subclass__\<close> stores on the class.\<close>

definition class_permissions ::
  "(string, config_value) odict option \<Rightarrow> perm_class \<Rightarrow> string \<Rightarrow> string list" where
  "class_permissions configured cls action =
     (case od_get (pc_declared cls) action of
        Some ps \<Rightarrow> ps
      | None \<Rightarrow> if pc_based_on cls \<noteq> None then [] else default_for configured action)"

section \<open>Permission objects\<close>

record 'i perm_node =
  n_class :: perm_class
  n_inst :: 'i
  n_class_context :: bool
  n_read :: "string list"
  n_create :: "string list"
  n_update :: "string list"
  n_delete :: "string list"
  n_overall :: "string \<Rightarrow> bool option"
  n_read_result :: "bool option"

datatype 'n perm = Perm (perm_node: 'n) (perm_basis: "'n perm option")

text \<open>
  What \<open>getattr(instance, __based_on__, notExistent)\<close> yields: nothing, \<open>None\<close>, a manager
  instance or class, or another value. \<open>env_coerce\<close> is the manager that a raw value stands
  for when the subject is a data wrapper whose field type is a manager class, and
  \<open>env_permission\<close> the permission object of the basis, \<open>None\<close> when its manager has no
  permission class.
\<close>

datatype ('i, 'o) basis_value = BasisMissing | BasisNone | BasisManager 'i | BasisOther 'o

record ('i, 'o) basis_env =
  env_getattr :: "'i \<Rightarrow> string \<Rightarrow> ('i, 'o) basis_value"
  env_coerce :: "'i \<Rightarrow> string \<Rightarrow> 'o \<Rightarrow> 'i option"
  env_permission :: "'i \<Rightarrow> (perm_error + 'i perm_node perm) option"

definition set_effective_permissions ::
  "string list \<Rightarrow> string list \<Rightarrow> string list \<Rightarrow> string list \<Rightarrow> 'i perm_node \<Rightarrow> 'i perm_node" where
  "set_effective_permissions rd cr up de n =
     n\<lparr>n_read := rd, n_create := cr, n_update := up, n_delete := de\<rparr>"

definition base_node ::
  "(string, config_value) odict option \<Rightarrow> perm_class \<Rightarrow> 'i \<Rightarrow> bool \<Rightarrow> 'i perm_node" where
  "base_node configured cls inst class_context =
     (let src = (if pc_library cls then default_for configured else class_permissions configured cls)
      in set_effective_permissions (src ''read'') (src ''create'') (src ''update'') (src ''delete'')
        \<lparr>n_class = cls, n_inst = inst, n_class_context = class_context, n_read = [], n_create = [],
          n_update = [], n_delete = [], n_overall = (\<lambda>a. None), n_read_result = None\<rparr>)"

text \<open>
  The lists of an object whose \<open>__based_on__\<close> attribute is \<open>None\<close>: an action the class body
  does not declare falls back to the defaults.
\<close>

definition fallback_node :: "(string, config_value) odict option \<Rightarrow> 'i perm_node \<Rightarrow> 'i perm_node" where
  "fallback_node configured n =
     (let keep = (\<lambda>a own. if od_get (pc_declared (n_class n)) a = None then default_for configured a else own)
      in set_effective_permissions (keep ''read'' (n_read n)) (keep ''create'' (n_create n))
        (keep ''update'' (n_update n)) (keep ''delete'' (n_delete n)) n)"

definition get_based_on_permission ::
  "('i, 'o) basis_env \<Rightarrow> (string, config_value) odict option \<Rightarrow> 'i perm_node \<Rightarrow>
   perm_error + 'i perm_node perm" where
  "get_based_on_permission env configured n =
     (case pc_based_on (n_class n) of
        None \<Rightarrow> Inr (Perm n None)
      | Some b \<Rightarrow>
          (let basis = (case env_getattr env (n_inst n) b of
               BasisOther v \<Rightarrow> (case env_coerce env (n_inst n) b v of
                  None \<Rightarrow> BasisOther v | Some m \<Rightarrow> BasisManager m)
             | other \<Rightarrow> other)
           in case basis of
                BasisMissing \<Rightarrow>
                  if n_class_context n then Inr (Perm n None) else Inl (InvalidBasedOnConfiguration b)
              | BasisNone \<Rightarrow> Inr (Perm (fallback_node configured n) None)
              | BasisOther v \<Rightarrow> Inl (InvalidBasedOnType b)
              | BasisManager m \<Rightarrow>
                  (case env_permission env m of
                     None \<Rightarrow> Inr (Perm n None)
                   | Some r \<Rightarrow> sbind r (\<lambda>p. Inr (Perm n (Some p))))))"

definition init_permission ::
  "('i, 'o) basis_env \<Rightarrow> (string, config_value) odict option \<Rightarrow> perm_class \<Rightarrow> 'i \<Rightarrow> bool \<Rightarrow>
   perm_error + 'i perm_node perm" where
  "init_permission env configured cls inst class_context =
     get_based_on_permission env configured (base_node configured cls inst class_context)"

section \<open>Lists of an action\<close>

definition get_base_permissions :: "'i perm_node \<Rightarrow> string \<Rightarrow> perm_error + string list" where
  "get_base_permissions n action =
     (if action = ''create'' then Inr (n_create n)
      else if action = ''read'' then Inr (n_read n)
      else if action = ''update'' then Inr (n_update n)
      else if action = ''delete'' then Inr (n_delete n)
      else Inl (UnknownPermissionAction action))"

definition get_attribute_permission_expressions ::
  "'i perm_node \<Rightarrow> string \<Rightarrow> string \<Rightarrow> string list \<times> bool" where
  "get_attribute_permission_expressions n action attribute =
     (case od_get (pc_attributes (n_class n)) attribute of
        Some (AttrRules rules) \<Rightarrow>
          (case od_get rules action of Some ps \<Rightarrow> (ps, True) | None \<Rightarrow> ([], False))
      | _ \<Rightarrow> ([], False))"

text \<open>\<open>_evaluate_local_permission\<close> of the additive and of the override class.\<close>

definition evaluate_local_permission ::
  "('i, 'v) registry \<Rightarrow> user \<Rightarrow> 'i perm_node \<Rightarrow> string list \<Rightarrow> string list \<Rightarrow> bool \<Rightarrow> perm_error + bool" where
  "evaluate_local_permission reg u n base attribute_permissions has_attribute_permissions =
     (let allowed = check_permission_list reg (n_inst n) u in
      case pc_mode (n_class n) of
        Additive \<Rightarrow>
          sbind (allowed base) (\<lambda>base_allowed.
            if \<not> has_attribute_permissions then Inr base_allowed
            else sbind (allowed attribute_permissions) (\<lambda>a. Inr (base_allowed \<and> a)))
      | Override \<Rightarrow>
          if has_attribute_permissions then allowed attribute_permissions else allowed base)"

definition describe_local_permissions ::
  "'i perm_node \<Rightarrow> string list \<Rightarrow> string list \<Rightarrow> bool \<Rightarrow> string list" where
  "describe_local_permissions n base attribute_permissions has_attribute_permissions =
     (case pc_mode (n_class n) of
        Additive \<Rightarrow> base @ attribute_permissions
      | Override \<Rightarrow> if has_attribute_permissions then attribute_permissions else base)"

definition put_overall :: "string \<Rightarrow> bool \<Rightarrow> 'i perm_node \<Rightarrow> 'i perm_node" where
  "put_overall action b n = n\<lparr>n_overall := (n_overall n)(action \<mapsto> b)\<rparr>"

text \<open>Evaluate unless the per-action cache has an answer, and store a new one in it.\<close>

definition through_action_cache ::
  "string \<Rightarrow> perm_error + bool \<Rightarrow> 'i perm_node \<Rightarrow> (perm_error + bool) \<times> 'i perm_node" where
  "through_action_cache action r n =
     (case n_overall n action of
        Some b \<Rightarrow> (Inr b, n)
      | None \<Rightarrow> (case r of Inl e \<Rightarrow> (Inl e, n) | Inr b \<Rightarrow> (Inr b, put_overall action b n)))"

section \<open>The three checks\<close>

fun check_permission ::
  "('i, 'v) registry \<Rightarrow> user \<Rightarrow> string \<Rightarrow> string \<Rightarrow> 'i perm_node perm \<Rightarrow>
   (perm_error + bool) \<times> 'i perm_node perm" where
  "check_permission reg u action attribute (Perm n None) =
     (case get_base_permissions n action of
        Inl e \<Rightarrow> (Inl e, Perm n None)
      | Inr base \<Rightarrow>
          if is_superuser u then (Inr True, Perm (put_overall action True n) None)
          else let (aps, has) = get_attribute_permission_expressions n action attribute;
                   r = evaluate_local_permission reg u n base aps has
               in if has then (r, Perm n None)
                  else (case through_action_cache action r n of (res, n') \<Rightarrow> (res, Perm n' None)))"
| "check_permission reg u action attribute (Perm n (Some p)) =
     (case get_base_permissions n action of
        Inl e \<Rightarrow> (Inl e, Perm n (Some p))
      | Inr base \<Rightarrow>
          if is_superuser u then (Inr True, Perm (put_overall action True n) (Some p))
          else case check_permission reg u action attribute p of
            (Inl e, p') \<Rightarrow> (Inl e, Perm n (Some p'))
          | (Inr False, p') \<Rightarrow> (Inr False, Perm n (Some p'))
          | (Inr True, p') \<Rightarrow>
              (let (aps, has) = get_attribute_permission_expressions n action attribute
               in (evaluate_local_permission reg u n base aps has, Perm n (Some p'))))"

fun check_operation_permission ::
  "('i, 'v) registry \<Rightarrow> user \<Rightarrow> string \<Rightarrow> 'i perm_node perm \<Rightarrow>
   (perm_error + bool) \<times> 'i perm_node perm" where
  "check_operation_permission reg u action (Perm n None) =
     (case get_base_permissions n action of
        Inl e \<Rightarrow> (Inl e, Perm n None)
      | Inr base \<Rightarrow>
          if is_superuser u then (Inr True, Perm (put_overall action True n) None)
          else (case through_action_cache action (check_permission_list reg (n_inst n) u base) n of
                  (res, n') \<Rightarrow> (res, Perm n' None)))"
| "check_operation_permission reg u action (Perm n (Some p)) =
     (case get_base_permissions n action of
        Inl e \<Rightarrow> (Inl e, Perm n (Some p))
      | Inr base \<Rightarrow>
          if is_superuser u then (Inr True, Perm (put_overall action True n) (Some p))
          else case check_operation_permission reg u action p of
            (Inl e, p') \<Rightarrow> (Inl e, Perm n (Some p'))
          | (Inr False, p') \<Rightarrow> (Inr False, Perm n (Some p'))
          | (Inr True, p') \<Rightarrow> (check_permission_list reg (n_inst n) u base, Perm n (Some p')))"

definition put_read_result :: "bool \<Rightarrow> 'i perm_node \<Rightarrow> 'i perm_node" where
  "put_read_result b n = n\<lparr>n_read_result := Some b\<rparr>"

fun can_read_instance ::
  "('i, 'v) registry \<Rightarrow> user \<Rightarrow> 'i perm_node perm \<Rightarrow> (perm_error + bool) \<times> 'i perm_node perm" where
  "can_read_instance reg u (Perm n basis) =
     (if is_superuser u then (Inr True, Perm (put_read_result True n) basis)
      else case n_read_result n of
        Some b \<Rightarrow> (Inr b, Perm n basis)
      | None \<Rightarrow>
          (let own = (\<lambda>basis'. case check_permission_list reg (n_inst n) u (n_read n) of
                 Inl e \<Rightarrow> (Inl e, Perm n basis')
               | Inr b \<Rightarrow> (Inr b, Perm (put_read_result b n) basis'))
           in case basis of
                None \<Rightarrow> own None
              | Some p \<Rightarrow>
                  (case can_read_instance reg u p of
                     (Inl e, p') \<Rightarrow> (Inl e, Perm n (Some p'))
                   | (Inr False, p') \<Rightarrow> (Inr False, Perm (put_read_result False n) (Some p'))
                   | (Inr True, p') \<Rightarrow> own (Some p'))))"

fun describe_permissions ::
  "string \<Rightarrow> string \<Rightarrow> 'i perm_node perm \<Rightarrow> perm_error + string list" where
  "describe_permissions action attribute (Perm n basis) =
     sbind (get_base_permissions n action) (\<lambda>base.
       let (aps, has) = get_attribute_permission_expressions n action attribute;
           combined = describe_local_permissions n base aps has
       in case basis of None \<Rightarrow> Inr combined
          | Some p \<Rightarrow> sbind (describe_permissions action attribute p) (\<lambda>ds. Inr (combined @ ds)))"

fun describe_operation_permissions :: "string \<Rightarrow> 'i perm_node perm \<Rightarrow> perm_error + string list" where
  "describe_operation_permissions action (Perm n basis) =
     sbind (get_base_permissions n action) (\<lambda>base.
       case basis of None \<Rightarrow> Inr base
       | Some p \<Rightarrow> sbind (describe_operation_permissions action p) (\<lambda>ds. Inr (base @ ds)))"

section \<open>The read plan of an object\<close>

text \<open>
  \<open>_coerce_read_permission_plan\<close> reads the attributes of a plan-shaped object: \<open>None\<close> where
  the attribute is missing or has another type.
\<close>

record 'v plan_candidate =
  cand_filters :: "'v constraint_dict list option"
  cand_requires :: "bool option"
  cand_reasons :: "reason list option"
  cand_decision :: "decision option"

definition coerce_read_permission_plan :: "'v plan_candidate \<Rightarrow> 'v read_plan option" where
  "coerce_read_permission_plan c =
     (case (cand_filters c, cand_requires c) of
        (Some fs, Some req) \<Rightarrow>
          Some \<lparr>filters = fs, requires_instance_check = req,
            instance_check_reasons = (case cand_reasons c of None \<Rightarrow> [] | Some rs \<Rightarrow> rs),
            decision = (case cand_decision c of None \<Rightarrow> Conditional | Some d \<Rightarrow> d)\<rparr>
      | _ \<Rightarrow> None)"

definition candidate_of :: "'v read_plan \<Rightarrow> 'v plan_candidate" where
  "candidate_of p = \<lparr>cand_filters = Some (filters p), cand_requires = Some (requires_instance_check p),
     cand_reasons = Some (instance_check_reasons p), cand_decision = Some (decision p)\<rparr>"

lemma coerce_own_plan [simp]: "coerce_read_permission_plan (candidate_of p) = Some p"
  by (simp add: coerce_read_permission_plan_def candidate_of_def)

definition class_context_plan :: "'v read_plan" where
  "class_context_plan = \<lparr>filters = [], requires_instance_check = True,
     instance_check_reasons = [BasedOnClassContext], decision = Conditional\<rparr>"

fun get_read_permission_plan ::
  "('i, 'v) registry \<Rightarrow> user \<Rightarrow> 'i perm_node perm \<Rightarrow> perm_error + 'v read_plan" where
  "get_read_permission_plan reg u (Perm n basis) =
     (if is_superuser u then Inr (static_plan AllowAllRows)
      else sbind (plan_local_read_permissions reg u (n_read n)) (\<lambda>local.
        if decision local = DenyAllRows then Inr local
        else case basis of
          None \<Rightarrow>
            if pc_based_on (n_class n) \<noteq> None \<and> n_class_context n
            then Inr (and_read_permission_plans class_context_plan local)
            else Inr local
        | Some p \<Rightarrow>
            sbind (get_read_permission_plan reg u p) (\<lambda>candidate.
              case coerce_read_permission_plan (candidate_of candidate) of
                None \<Rightarrow> Inr local
              | Some delegated \<Rightarrow>
                  Inr (and_read_permission_plans
                    (prefix_read_permission_plan delegated
                      (case pc_based_on (n_class n) of None \<Rightarrow> [] | Some b \<Rightarrow> b)) local))))"

end
