(* ===== verification/PermCaching.thy ===== *)
theory PermCaching
  imports PermObject
begin

text \<open>
  What the checks of a permission object promise, without its caches: \<open>permits\<close>,
  \<open>operation_permits\<close> and \<open>reads\<close> are functions of the configuration alone. The lemmas show
  that the caching checks refine them, whatever was asked of the object before.
\<close>

section \<open>The answers without caches\<close>

definition attribute_verdict ::
  "('i, 'v) registry \<Rightarrow> user \<Rightarrow> 'i perm_node \<Rightarrow> string \<Rightarrow> string \<Rightarrow> string list \<Rightarrow> perm_error + bool" where
  "attribute_verdict reg u n action attribute base =
     (case get_attribute_permission_expressions n action attribute of
        (aps, has) \<Rightarrow> evaluate_local_permission reg u n base aps has)"

fun permits :: "('i, 'v) registry \<Rightarrow> user \<Rightarrow> string \<Rightarrow> string \<Rightarrow> 'i perm_node perm \<Rightarrow> perm_error + bool" where
  "permits reg u action attribute (Perm n basis) =
     sbind (get_base_permissions n action) (\<lambda>base.
       if is_superuser u then Inr True
       else case basis of
         None \<Rightarrow> attribute_verdict reg u n action attribute base
       | Some p \<Rightarrow> sbind (permits reg u action attribute p) (\<lambda>b.
           if b then attribute_verdict reg u n action attribute base else Inr False))"

fun operation_permits :: "('i, 'v) registry \<Rightarrow> user \<Rightarrow> string \<Rightarrow> 'i perm_node perm \<Rightarrow> perm_error + bool" where
  "operation_permits reg u action (Perm n basis) =
     sbind (get_base_permissions n action) (\<lambda>base.
       if is_superuser u then Inr True
       else case basis of
         None \<Rightarrow> check_permission_list reg (n_inst n) u base
       | Some p \<Rightarrow> sbind (operation_permits reg u action p) (\<lambda>b.
           if b then check_permission_list reg (n_inst n) u base else Inr False))"

fun reads :: "('i, 'v) registry \<Rightarrow> user \<Rightarrow> 'i perm_node perm \<Rightarrow> perm_error + bool" where
  "reads reg u (Perm n basis) =
     (if is_superuser u then Inr True
      else case basis of
        None \<Rightarrow> check_permission_list reg (n_inst n) u (n_read n)
      | Some p \<Rightarrow> sbind (reads reg u p) (\<lambda>b.
          if b then check_permission_list reg (n_inst n) u (n_read n) else Inr False))"

definition clear_node :: "'i perm_node \<Rightarrow> 'i perm_node" where
  "clear_node n = n\<lparr>n_overall := (\<lambda>a. None), n_read_result := None\<rparr>"

fun fresh :: "'i perm_node perm \<Rightarrow> 'i perm_node perm" where
  "fresh (Perm n basis) = Perm (clear_node n) (map_option fresh basis)"

text \<open>Every cached answer is the answer the check would compute.\<close>

definition overall_ok :: "('i, 'v) registry \<Rightarrow> user \<Rightarrow> 'i perm_node \<Rightarrow> bool \<Rightarrow> bool" where
  "overall_ok reg u n local = (\<forall>a b. n_overall n a = Some b \<longrightarrow>
     (is_superuser u \<and> b) \<or> (local \<and> \<not> is_superuser u \<and>
       sbind (get_base_permissions n a) (check_permission_list reg (n_inst n) u) = Inr b))"

fun cache_ok :: "('i, 'v) registry \<Rightarrow> user \<Rightarrow> 'i perm_node perm \<Rightarrow> bool" where
  "cache_ok reg u (Perm n basis) =
     (overall_ok reg u n (basis = None) \<and>
      (\<forall>b. n_read_result n = Some b \<longrightarrow> reads reg u (Perm n basis) = Inr b) \<and>
      (case basis of None \<Rightarrow> True | Some p \<Rightarrow> cache_ok reg u p))"

section \<open>Caches do not change the configuration\<close>

lemma clear_put [simp]:
  "clear_node (put_overall a b n) = clear_node n"
  "clear_node (put_read_result b n) = clear_node n"
  by (simp_all add: clear_node_def put_overall_def put_read_result_def)

lemma node_put [simp]:
  "get_base_permissions (put_overall a b n) act = get_base_permissions n act"
  "get_base_permissions (put_read_result b n) act = get_base_permissions n act"
  "get_base_permissions (clear_node n) act = get_base_permissions n act"
  "get_attribute_permission_expressions (clear_node n) act at = get_attribute_permission_expressions n act at"
  "n_inst (put_overall a b n) = n_inst n" "n_inst (put_read_result b n) = n_inst n"
  "n_inst (clear_node n) = n_inst n" "n_read (clear_node n) = n_read n"
  "n_read (put_overall a b n) = n_read n" "n_read (put_read_result b n) = n_read n"
  "n_class (clear_node n) = n_class n"
  "n_read_result (put_overall a b n) = n_read_result n"
  "n_overall (put_read_result b n) = n_overall n"
  by (simp_all add: get_base_permissions_def put_overall_def put_read_result_def clear_node_def
    get_attribute_permission_expressions_def)

lemma verdict_clear [simp]:
  "attribute_verdict reg u (clear_node n) action attribute base = attribute_verdict reg u n action attribute base"
  by (simp add: attribute_verdict_def evaluate_local_permission_def)

lemma permits_fresh: "permits reg u action attribute (fresh p) = permits reg u action attribute p"
proof (induction p rule: fresh.induct)
  case (1 n basis)
  then show ?case by (cases basis) (simp_all cong: if_cong)
qed

lemma operation_permits_fresh: "operation_permits reg u action (fresh p) = operation_permits reg u action p"
proof (induction p rule: fresh.induct)
  case (1 n basis)
  then show ?case by (cases basis) (simp_all cong: if_cong)
qed

lemma reads_fresh: "reads reg u (fresh p) = reads reg u p"
proof (induction p rule: fresh.induct)
  case (1 n basis)
  then show ?case by (cases basis) (simp_all cong: if_cong)
qed

lemma cache_ok_fresh: "cache_ok reg u (fresh p)"
proof (induction p rule: fresh.induct)
  case (1 n basis)
  then show ?case by (cases basis) (auto simp: overall_ok_def clear_node_def)
qed

section \<open>Each check refines its answer\<close>

lemma verdict_without_attributes:
  assumes "get_attribute_permission_expressions n action attribute = (aps, False)"
  shows "attribute_verdict reg u n action attribute base = check_permission_list reg (n_inst n) u base"
  using assms
  by (cases "check_permission_list reg (n_inst n) u base")
    (simp_all add: attribute_verdict_def evaluate_local_permission_def Let_def split: merge_mode.splits)

lemma overall_ok_put:
  assumes "overall_ok reg u n l"
    "(is_superuser u \<and> b) \<or> (l \<and> \<not> is_superuser u \<and>
       sbind (get_base_permissions n a) (check_permission_list reg (n_inst n) u) = Inr b)"
  shows "overall_ok reg u (put_overall a b n) l"
  using assms by (auto simp: overall_ok_def) (auto simp: put_overall_def split: if_splits)

lemma overall_ok_put_read: "overall_ok reg u (put_read_result b n) l = overall_ok reg u n l"
  by (simp add: overall_ok_def)

lemma through_cache_refines:
  assumes ok: "overall_ok reg u n True" and su: "\<not> is_superuser u"
    and base: "get_base_permissions n action = Inr base"
    and r: "r = check_permission_list reg (n_inst n) u base"
    and res: "through_action_cache action r n = (res, n')"
  shows "res = r \<and> overall_ok reg u n' True \<and> clear_node n' = clear_node n \<and>
    n_read_result n' = n_read_result n \<and> n_read n' = n_read n \<and> n_inst n' = n_inst n"
proof (cases "n_overall n action")
  case None
  show ?thesis
  proof (cases r)
    case (Inl e)
    with None res ok show ?thesis by (simp add: through_action_cache_def)
  next
    case (Inr b)
    then have "overall_ok reg u (put_overall action b n) True"
      using ok base r su by (intro overall_ok_put) simp_all
    with None Inr res show ?thesis by (auto simp: through_action_cache_def)
  qed
next
  case (Some b)
  with ok su have "sbind (get_base_permissions n action) (check_permission_list reg (n_inst n) u) = Inr b"
    by (auto simp: overall_ok_def)
  with base r have "r = Inr b" by simp
  with Some res ok show ?thesis by (auto simp: through_action_cache_def)
qed

definition refines :: "('i, 'v) registry \<Rightarrow> user \<Rightarrow> 'i perm_node perm \<Rightarrow> perm_error + bool \<Rightarrow>
    (perm_error + bool) \<times> 'i perm_node perm \<Rightarrow> bool" where
  "refines reg u p r res = (fst res = r \<and> cache_ok reg u (snd res) \<and> fresh (snd res) = fresh p)"


lemma reads_node_cong:
  "n_read n' = n_read n \<Longrightarrow> n_inst n' = n_inst n \<Longrightarrow> reads reg u (Perm n' basis) = reads reg u (Perm n basis)"
  by (simp only: reads.simps)

text \<open>A delegation may be asked between two checks: its caches may fill, nothing else changes.\<close>

lemma cache_ok_basis:
  assumes "cache_ok reg u (Perm n (Some p))" "cache_ok reg u p'" "fresh p' = fresh p"
  shows "cache_ok reg u (Perm n (Some p'))"
proof -
  have "reads reg u p' = reads reg u p" by (metis assms(3) reads_fresh)
  then have "reads reg u (Perm n (Some p')) = reads reg u (Perm n (Some p))"
    by (simp only: reads.simps option.case)
  with assms show ?thesis by (simp only: cache_ok.simps option.case option.distinct) simp
qed

lemma check_permission_refines:
  "cache_ok reg u p \<Longrightarrow>
     refines reg u p (permits reg u action attribute p) (check_permission reg u action attribute p)"
proof (induction reg u action attribute p rule: check_permission.induct)
  case (1 reg u action attribute n)
  show ?case
  proof (cases "get_base_permissions n action")
    case (Inl e)
    with 1 show ?thesis by (simp add: refines_def)
  next
    case base: (Inr base)
    show ?thesis
    proof (cases "is_superuser u")
      case True
      with base 1 show ?thesis
        by (auto simp: refines_def intro: overall_ok_put)
    next
      case su: False
      obtain aps has where ap: "get_attribute_permission_expressions n action attribute = (aps, has)"
        by (cases "get_attribute_permission_expressions n action attribute")
      let ?r = "evaluate_local_permission reg u n base aps has"
      have p: "permits reg u action attribute (Perm n None) = ?r"
        using base su ap by (simp add: attribute_verdict_def)
      show ?thesis
      proof (cases has)
        case True
        with p base su ap 1 show ?thesis by (simp add: refines_def)
      next
        case False
        obtain res n' where t: "through_action_cache action ?r n = (res, n')"
          by (cases "through_action_cache action ?r n")
        have r: "?r = check_permission_list reg (n_inst n) u base"
          using verdict_without_attributes [of n action attribute aps reg u base] ap False
          by (simp add: attribute_verdict_def)
        from 1 have "overall_ok reg u n True" by simp
        note tc = through_cache_refines [OF this su base r t]
        from tc 1 reads_node_cong [of n' n reg u None]
        have "cache_ok reg u (Perm n' None)" by simp
        with tc p base su ap False t show ?thesis by (simp add: refines_def)
      qed
    qed
  qed
next
  case (2 reg u action attribute n p)
  show ?case
  proof (cases "get_base_permissions n action")
    case (Inl e)
    with 2 show ?thesis by (simp add: refines_def)
  next
    case base: (Inr base)
    show ?thesis
    proof (cases "is_superuser u")
      case True
      with base 2 show ?thesis
        by (auto simp: refines_def intro: overall_ok_put)
    next
      case su: False
      obtain res p' where c: "check_permission reg u action attribute p = (res, p')"
        by (cases "check_permission reg u action attribute p")
      from "2.IH" [OF base su] "2.prems" c
      have ih: "permits reg u action attribute p = res" "cache_ok reg u p'" "fresh p' = fresh p"
        by (simp_all add: refines_def)
      note ok = cache_ok_basis [OF "2.prems" ih(2,3)]
      obtain aps has where ap: "get_attribute_permission_expressions n action attribute = (aps, has)"
        by (cases "get_attribute_permission_expressions n action attribute")
      show ?thesis
      proof (cases res)
        case (Inl e)
        with base su c ih ok show ?thesis by (simp add: refines_def)
      next
        case (Inr b)
        with base su c ih ok ap show ?thesis
          by (cases b) (simp_all add: refines_def attribute_verdict_def)
      qed
    qed
  qed
qed

lemma check_operation_refines:
  "cache_ok reg u p \<Longrightarrow>
     refines reg u p (operation_permits reg u action p) (check_operation_permission reg u action p)"
proof (induction reg u action p rule: check_operation_permission.induct)
  case (1 reg u action n)
  show ?case
  proof (cases "get_base_permissions n action")
    case (Inl e)
    with 1 show ?thesis by (simp add: refines_def)
  next
    case base: (Inr base)
    show ?thesis
    proof (cases "is_superuser u")
      case True
      with base 1 show ?thesis by (auto simp: refines_def intro: overall_ok_put)
    next
      case su: False
      let ?r = "check_permission_list reg (n_inst n) u base"
      obtain res n' where t: "through_action_cache action ?r n = (res, n')"
        by (cases "through_action_cache action ?r n")
      from 1 have "overall_ok reg u n True" by simp
      note tc = through_cache_refines [OF this su base refl t]
      from tc 1 reads_node_cong [of n' n reg u None]
      have "cache_ok reg u (Perm n' None)" by simp
      with tc base su t show ?thesis by (simp add: refines_def)
    qed
  qed
next
  case (2 reg u action n p)
  show ?case
  proof (cases "get_base_permissions n action")
    case (Inl e)
    with 2 show ?thesis by (simp add: refines_def)
  next
    case base: (Inr base)
    show ?thesis
    proof (cases "is_superuser u")
      case True
      with base 2 show ?thesis by (auto simp: refines_def intro: overall_ok_put)
    next
      case su: False
      obtain res p' where c: "check_operation_permission reg u action p = (res, p')"
        by (cases "check_operation_permission reg u action p")
      from "2.IH" [OF base su] "2.prems" c
      have ih: "operation_permits reg u action p = res" "cache_ok reg u p'" "fresh p' = fresh p"
        by (simp_all add: refines_def)
      note ok = cache_ok_basis [OF "2.prems" ih(2,3)]
      show ?thesis
      proof (cases res)
        case (Inl e)
        with base su c ih ok show ?thesis by (simp add: refines_def)
      next
        case (Inr b)
        with base su c ih ok show ?thesis by (cases b) (simp_all add: refines_def)
      qed
    qed
  qed
qed


lemma can_read_refines:
  "cache_ok reg u p \<Longrightarrow> refines reg u p (reads reg u p) (can_read_instance reg u p)"
proof (induction reg u p rule: can_read_instance.induct)
  case (1 reg u n basis)
  have put: "cache_ok reg u (Perm (put_read_result b n) basis')"
    if "reads reg u (Perm n basis') = Inr b" "cache_ok reg u (Perm n basis')" for b basis'
    using that reads_node_cong [of "put_read_result b n" n reg u basis']
    by (simp only: cache_ok.simps overall_ok_put_read node_put) (simp add: put_read_result_def)
  show ?case
  proof (cases "is_superuser u")
    case True
    then have r: "reads reg u (Perm n basis) = Inr True" by simp
    from put [OF this 1(2)] r True show ?thesis
      by (simp only: refines_def can_read_instance.simps if_True fst_conv snd_conv fresh.simps clear_put
        simp_thms)
  next
    case su: False
    show ?thesis
    proof (cases "n_read_result n")
      case (Some b)
      with 1 su show ?thesis by (simp only: refines_def can_read_instance.simps cache_ok.simps) simp
    next
      case none: None
      let ?own = "check_permission_list reg (n_inst n) u (n_read n)"
      show ?thesis
      proof (cases basis)
        case None
        show ?thesis
        proof (cases ?own)
          case (Inl e)
          with 1 su none None show ?thesis by (simp add: refines_def Let_def)
        next
          case (Inr b)
          with 1 su None put [of None b] none show ?thesis by (simp add: refines_def Let_def)
        qed
      next
        case (Some p)
        obtain res p' where c: "can_read_instance reg u p = (res, p')"
          by (cases "can_read_instance reg u p")
        from 1(2) Some have "cache_ok reg u p" by simp
        from 1(1) [OF su none refl Some this] c
        have ih: "reads reg u p = res" "cache_ok reg u p'" "fresh p' = fresh p"
          by (simp_all add: refines_def)
        from 1(2) Some have "cache_ok reg u (Perm n (Some p))" by simp
        note ok = cache_ok_basis [OF this ih(2,3)]
        have "reads reg u p' = res" by (metis ih(1,3) reads_fresh)
        note put' = put [OF _ ok]
        show ?thesis
        proof (cases res)
          case (Inl e)
          with Some su none c ih ok show ?thesis by (simp add: refines_def Let_def)
        next
          case (Inr b)
          show ?thesis
          proof (cases b)
            case False
            with Inr \<open>reads reg u p' = res\<close> su have "reads reg u (Perm n (Some p')) = Inr False" by simp
            from put' [OF this] False Inr Some su none c ih show ?thesis
              by (simp only: refines_def can_read_instance.simps) (simp add: Let_def)
          next
            case True
            then have r: "reads reg u (Perm n (Some p')) = ?own"
              using Inr \<open>reads reg u p' = res\<close> su by simp
            show ?thesis
            proof (cases ?own)
              case (Inl e)
              with True Inr Some su none c ih ok show ?thesis
                by (simp only: refines_def can_read_instance.simps) (simp add: Let_def)
            next
              case own: (Inr v)
              with r have "reads reg u (Perm n (Some p')) = Inr v" by simp
              from put' [OF this] True Inr own Some su none c ih show ?thesis
                by (simp only: refines_def can_read_instance.simps) (simp add: Let_def)
            qed
          qed
        qed
      qed
    qed
  qed
qed

section \<open>Sequences of checks\<close>

text \<open>The questions a caller asks one object, and the answers with and without caches.\<close>

datatype perm_op = AskPermission string string | AskOperation string | AskRead

fun ask :: "('i, 'v) registry \<Rightarrow> user \<Rightarrow> perm_op \<Rightarrow> 'i perm_node perm \<Rightarrow>
    (perm_error + bool) \<times> 'i perm_node perm" where
  "ask reg u (AskPermission action attribute) p = check_permission reg u action attribute p"
| "ask reg u (AskOperation action) p = check_operation_permission reg u action p"
| "ask reg u AskRead p = can_read_instance reg u p"

fun answer :: "('i, 'v) registry \<Rightarrow> user \<Rightarrow> perm_op \<Rightarrow> 'i perm_node perm \<Rightarrow> perm_error + bool" where
  "answer reg u (AskPermission action attribute) p = permits reg u action attribute p"
| "answer reg u (AskOperation action) p = operation_permits reg u action p"
| "answer reg u AskRead p = reads reg u p"

fun ask_all :: "('i, 'v) registry \<Rightarrow> user \<Rightarrow> perm_op list \<Rightarrow> 'i perm_node perm \<Rightarrow>
    (perm_error + bool) list" where
  "ask_all reg u [] p = []"
| "ask_all reg u (q # qs) p = (case ask reg u q p of (r, p') \<Rightarrow> r # ask_all reg u qs p')"

lemma ask_refines: "cache_ok reg u p \<Longrightarrow> refines reg u p (answer reg u q p) (ask reg u q p)"
  by (cases q) (simp_all add: check_permission_refines check_operation_refines can_read_refines)

lemma answer_fresh: "answer reg u q (fresh p) = answer reg u q p"
  by (cases q) (simp_all add: permits_fresh operation_permits_fresh reads_fresh)

lemma ask_all_answers: "cache_ok reg u p \<Longrightarrow> ask_all reg u qs p = map (\<lambda>q. answer reg u q p) qs"
proof (induction qs arbitrary: p)
  case Nil
  then show ?case by simp
next
  case (Cons q qs)
  obtain r p' where c: "ask reg u q p = (r, p')" by (cases "ask reg u q p")
  from ask_refines [OF Cons.prems, of q] c
  have r: "r = answer reg u q p" "cache_ok reg u p'" "fresh p' = fresh p" by (simp_all add: refines_def)
  have "answer reg u q' p' = answer reg u q' p" for q' by (metis r(3) answer_fresh)
  with Cons.IH [OF r(2)] c r(1) show ?case by simp
qed

section \<open>Properties\<close>

text \<open>C14: The per-object caches are transparent: any sequence of attribute, operation and read
  checks on a new permission object, delegation included, answers every question as the
  cache-free semantics does.\<close>

theorem checks_ignore_history:
  assumes "fresh p = p"
  shows "ask_all reg u qs p = map (\<lambda>q. answer reg u q p) qs"
proof (rule ask_all_answers)
  show "cache_ok reg u p" using cache_ok_fresh [of reg u p] by (simp only: assms)
qed

definition sample_class :: "merge_mode \<Rightarrow> perm_class" where
  "sample_class m = \<lparr>pc_mode = m, pc_library = False,
     pc_declared = [(''read'', [''public'']), (''update'', [''isAuthenticated''])], pc_based_on = None,
     pc_attributes = [(''salary'', AttrRules [(''update'', [''isAdmin''])])]\<rparr>"

definition sample_user :: user where
  "sample_user = \<lparr>user_id = Some 3, user_pk = Some 3, is_superuser = False, is_staff = False,
     is_authenticated = True, is_active = True, user_has_perm = None, user_groups = None\<rparr>"

definition sample_perm :: "merge_mode \<Rightarrow> attrs perm_node perm" where
  "sample_perm m = Perm (base_node None (sample_class m) (\<lambda>a. PNone) False) None"

lemma checks_ignore_history_witness:
  "ask_all builtin_registry sample_user [AskPermission ''update'' ''name'', AskPermission ''update'' ''salary'',
      AskPermission ''update'' ''name'', AskOperation ''update'', AskRead] (sample_perm Additive) =
   [Inr True, Inr False, Inr True, Inr True, Inr True]"
proof -
  have f: "fresh (sample_perm Additive) = sample_perm Additive"
    by (simp add: sample_perm_def base_node_def set_effective_permissions_def clear_node_def Let_def)
  show ?thesis unfolding checks_ignore_history [OF f] by code_simp
qed

fun all_additive :: "'i perm_node perm \<Rightarrow> bool" where
  "all_additive (Perm n basis) = (pc_mode (n_class n) = Additive \<and>
     (case basis of None \<Rightarrow> True | Some p \<Rightarrow> all_additive p))"

lemma additive_verdict:
  assumes "pc_mode (n_class n) = Additive" "attribute_verdict reg u n action attribute base = Inr True"
  shows "check_permission_list reg (n_inst n) u base = Inr True"
  using assms by (auto simp: attribute_verdict_def evaluate_local_permission_def Let_def sbind_Inr_iff
    split: prod.splits if_splits)

text \<open>With additive classes an attribute rule only narrows: an attribute may be touched only
  where the operation itself is permitted, at every level of delegation.\<close>

theorem additive_rules_narrow:
  "all_additive p \<Longrightarrow> permits reg u action attribute p = Inr True \<Longrightarrow> operation_permits reg u action p = Inr True"
proof (induction p rule: all_additive.induct)
  case (1 n basis)
  from "1.prems"(2) obtain base where base: "get_base_permissions n action = Inr base"
    by (auto simp: sbind_Inr_iff)
  show ?case
  proof (cases "is_superuser u")
    case True
    with base show ?thesis by simp
  next
    case su: False
    show ?thesis
    proof (cases basis)
      case None
      with "1.prems" base su additive_verdict [of n reg u action attribute base] show ?thesis by simp
    next
      case (Some p)
      with "1.prems" base su obtain b where b: "permits reg u action attribute p = Inr b"
        "(if b then attribute_verdict reg u n action attribute base else Inr False) = Inr True"
        by (auto simp: sbind_Inr_iff)
      then have t: "b" "attribute_verdict reg u n action attribute base = Inr True" by (auto split: if_splits)
      from "1.IH" [OF Some] Some "1.prems"(1) b(1) t(1) have "operation_permits reg u action p = Inr True" by simp
      moreover from t(2) "1.prems"(1) have "check_permission_list reg (n_inst n) u base = Inr True"
        using additive_verdict by (metis all_additive.simps)
      ultimately show ?thesis using Some base su by simp
    qed
  qed
qed

lemma additive_rules_narrow_witness:
  "operation_permits builtin_registry sample_user ''update'' (sample_perm Additive) = Inr True"
proof (rule additive_rules_narrow)
  show "all_additive (sample_perm Additive)" by code_simp
  show "permits builtin_registry sample_user ''update'' ''name'' (sample_perm Additive) = Inr True"
    by code_simp
qed

end
