(* ===== verification/PermRead.thy ===== *)
theory PermRead
  imports PermCaching
begin

text \<open>
  Read authorization end to end: the built-in registry satisfies the contract between filters
  and methods, the plan of an object is exact for its instance gate, and the list and item
  resolvers of \<open>api/graphql_resolvers.py\<close> and \<open>api/graphql_search.py\<close> that apply a plan
  return the readable rows.
\<close>

section \<open>The built-in registry keeps the contract\<close>

text \<open>
  Single lookups on an instance, as the ORM documents them: \<open>field=value\<close> holds when the
  column is not null and equals the value, \<open>field_id\<close> is the key of the related user and
  \<open>field__id\<close> the key of a member of a relation.
\<close>

definition strip_suffix :: "string \<Rightarrow> string \<Rightarrow> string option" where
  "strip_suffix suf s =
     (if drop (length s - length suf) s = suf then Some (take (length s - length suf) s) else None)"

lemma strip_suffix_append [simp]: "strip_suffix suf (s @ suf) = Some s"
  by (simp add: strip_suffix_def)

fun row_sat :: "string \<Rightarrow> lookup_value \<Rightarrow> attrs \<Rightarrow> bool" where
  "row_sat key (VStr s) row = (case row key of PStr t \<Rightarrow> t = s | PScalar t \<Rightarrow> t = s | _ \<Rightarrow> False)"
| "row_sat key (VId n) row =
     (case strip_suffix ''__id'' key of
        Some field \<Rightarrow> relation_has (row field) n
      | None \<Rightarrow> (case strip_suffix ''_id'' key of
            Some field \<Rightarrow> (case row field of PUser m s \<Rightarrow> m = n | _ \<Rightarrow> False)
          | None \<Rightarrow> False))"

definition has_consistent_pk :: "user \<Rightarrow> bool" where
  "has_consistent_pk u = (user_pk u = user_id u)"

text \<open>
  The fragments for which a built-in filter describes its method: \<open>matches\<close> on a scalar
  attribute with a value other than \<open>None\<close>, and a related user field whose name does not end
  in an underscore, which Django forbids.
\<close>

definition builtin_fragment_ok :: "attrs \<Rightarrow> string \<Rightarrow> string list \<Rightarrow> bool" where
  "builtin_fragment_ok inst name config =
     ((name = ''matches'' \<longrightarrow> 2 \<le> length config \<longrightarrow> config ! 1 \<noteq> ''None'' \<and>
        (case inst (config ! 0) of PNone \<Rightarrow> True | PStr s \<Rightarrow> True | PScalar s \<Rightarrow> True | _ \<Rightarrow> False)) \<and>
      (name = ''relatedUserField'' \<longrightarrow> config \<noteq> [] \<longrightarrow> strip_suffix ''_'' (hd config) = None))"

lemma related_key:
  assumes "strip_suffix ''_'' c = None"
  shows "strip_suffix ''__id'' (c @ ''_id'') = None"
proof (cases c rule: rev_cases)
  case Nil
  then show ?thesis by (simp add: strip_suffix_def)
next
  case (snoc d x)
  with assms have "x \<noteq> CHR ''_''" by (auto simp: strip_suffix_def)
  with snoc show ?thesis by (simp add: strip_suffix_def)
qed

lemma creator_key: "strip_suffix ''__id'' ''creator_id'' = None" "strip_suffix ''_id'' ''creator_id'' = Some ''creator''"
  by (simp_all add: strip_suffix_def)

lemmas builtin_filter_defs =
  public_permission_filter_def matches_permission_filter_def is_admin_permission_filter_def
  is_self_permission_filter_def is_authenticated_permission_filter_def is_active_permission_filter_def
  has_permission_filter_def in_group_permission_filter_def related_user_field_permission_filter_def
  many_to_many_contains_user_permission_filter_def decision_from_user_predicate_def filter_only_def

lemmas builtin_method_defs =
  permission_public_def permission_matches_def permission_is_admin_def permission_is_self_def
  permission_is_authenticated_def permission_is_active_def permission_has_permission_def
  permission_in_group_def permission_related_user_field_def permission_many_to_many_contains_user_def

lemma single_lookup_agrees:
  "granted = sat key v inst \<Longrightarrow> filter_agrees sat (filter_only key v) inst granted"
  by (simp add: filter_agrees_def filter_only_def lookups_match_def exclude_passes_def)

lemma decision_agrees: "filter_agrees sat (decision_from_user_predicate b) inst b"
  by (simp add: filter_agrees_def decision_from_user_predicate_def)

lemma deny_agrees: "\<not> granted \<Longrightarrow> filter_agrees sat DenyAll inst granted"
  by (simp add: filter_agrees_def)

lemma matches_agrees:
  assumes "builtin_fragment_ok inst ''matches'' config"
  shows "filter_agrees row_sat (matches_permission_filter u config) inst (permission_matches inst u config)"
proof (cases "length config < 2")
  case True
  then show ?thesis by (simp add: matches_permission_filter_def permission_matches_def deny_agrees)
next
  case False
  with assms have "permission_matches inst u config = row_sat (config ! 0) (VStr (config ! 1)) inst"
    by (auto simp: permission_matches_def builtin_fragment_ok_def split: pyval.splits)
  with False show ?thesis by (simp add: matches_permission_filter_def single_lookup_agrees)
qed

lemma is_self_agrees:
  assumes "has_consistent_pk u"
  shows "filter_agrees row_sat (is_self_permission_filter u config) inst (permission_is_self inst u config)"
proof (cases "user_id u")
  case None
  with assms have "\<not> permission_is_self inst u config"
    by (cases "inst ''creator''") (simp_all add: permission_is_self_def has_consistent_pk_def)
  with None show ?thesis by (simp add: is_self_permission_filter_def deny_agrees)
next
  case (Some n)
  with assms have "permission_is_self inst u config = row_sat ''creator_id'' (VId n) inst"
    by (cases "inst ''creator''") (auto simp: permission_is_self_def has_consistent_pk_def creator_key)
  with Some show ?thesis by (simp add: is_self_permission_filter_def single_lookup_agrees)
qed

lemma related_user_agrees:
  assumes "has_consistent_pk u" "builtin_fragment_ok inst ''relatedUserField'' config"
  shows "filter_agrees row_sat (related_user_field_permission_filter u config) inst
    (permission_related_user_field inst u config)"
proof (cases config)
  case Nil
  then show ?thesis
    by (simp add: related_user_field_permission_filter_def permission_related_user_field_def deny_agrees)
next
  case (Cons c cs)
  with assms(2) have key: "strip_suffix ''__id'' (c @ ''_id'') = None"
    by (simp add: builtin_fragment_ok_def related_key)
  show ?thesis
  proof (cases "user_id u")
    case None
    with Cons assms(1) have "\<not> permission_related_user_field inst u config"
      by (cases "inst c") (simp_all add: permission_related_user_field_def has_consistent_pk_def)
    with None Cons show ?thesis by (simp add: related_user_field_permission_filter_def deny_agrees)
  next
    case (Some n)
    have "row_sat (c @ ''_id'') (VId n) inst = (case inst c of PUser m s \<Rightarrow> m = n | _ \<Rightarrow> False)"
      using key strip_suffix_append [of "''_id''" c] by simp
    with Cons Some assms(1)
    have "permission_related_user_field inst u config = row_sat (c @ ''_id'') (VId n) inst"
      by (cases "inst c") (auto simp: permission_related_user_field_def has_consistent_pk_def)
    with Some Cons show ?thesis
      by (simp add: related_user_field_permission_filter_def single_lookup_agrees)
  qed
qed

lemma many_to_many_agrees:
  assumes "has_consistent_pk u"
  shows "filter_agrees row_sat (many_to_many_contains_user_permission_filter u config) inst
    (permission_many_to_many_contains_user inst u config)"
proof (cases config)
  case Nil
  then show ?thesis
    by (simp add: many_to_many_contains_user_permission_filter_def
      permission_many_to_many_contains_user_def deny_agrees)
next
  case (Cons c cs)
  show ?thesis
  proof (cases "user_id u")
    case None
    with Cons assms show ?thesis
      by (simp add: many_to_many_contains_user_permission_filter_def
        permission_many_to_many_contains_user_def deny_agrees has_consistent_pk_def)
  next
    case (Some n)
    have "row_sat (c @ ''__id'') (VId n) inst = relation_has (inst c) n"
      using strip_suffix_append [of "''__id''" c] by simp
    with Cons Some assms
    have "permission_many_to_many_contains_user inst u config = row_sat (c @ ''__id'') (VId n) inst"
      by (simp add: permission_many_to_many_contains_user_def has_consistent_pk_def)
    with Some Cons show ?thesis
      by (simp add: many_to_many_contains_user_permission_filter_def single_lookup_agrees)
  qed
qed

lemma builtin_entries:
  assumes "od_get builtin_registry name = Some e"
  shows "(name, permission_method e, permission_filter e) \<in> set builtin_registrations"
proof -
  from assms have "(name, e) \<in> set builtin_registry" by (rule map_of_SomeD)
  then show ?thesis by (auto simp: builtin_registry_def)
qed

interpretation builtin: prefilter_contract builtin_registry row_sat has_consistent_pk builtin_fragment_ok
proof
  fix name e u inst config
  assume "od_get builtin_registry name = Some e" and u: "has_consistent_pk u"
    and ok: "builtin_fragment_ok inst name config"
  from builtin_entries [OF this(1)] ok
  show "filter_agrees row_sat (permission_filter e u config) inst (permission_method e inst u config)"
    unfolding builtin_registrations_def
    by (auto simp: matches_agrees is_self_agrees [OF u] related_user_agrees [OF u] many_to_many_agrees [OF u]
      public_permission_filter_def permission_public_def filter_agrees_def [of _ AllowAll]
      is_admin_permission_filter_def permission_is_admin_def
      is_authenticated_permission_filter_def permission_is_authenticated_def
      is_active_permission_filter_def permission_is_active_def
      has_permission_filter_def permission_has_permission_def
      in_group_permission_filter_def permission_in_group_def decision_agrees)
qed


section \<open>The plan of an object and its instance gate\<close>

lemma base_node_simps [simp]:
  "n_class (base_node configured cls inst ctx) = cls"
  "n_inst (base_node configured cls inst ctx) = inst"
  "n_class_context (base_node configured cls inst ctx) = ctx"
  "n_overall (base_node configured cls inst ctx) = (\<lambda>a. None)"
  "n_read_result (base_node configured cls inst ctx) = None"
  "n_inst (fallback_node configured n) = n_inst n"
  "n_class (fallback_node configured n) = n_class n"
  "n_overall (fallback_node configured n) = n_overall n"
  "n_read_result (fallback_node configured n) = n_read_result n"
  by (simp_all add: base_node_def fallback_node_def set_effective_permissions_def Let_def)

definition effective_read :: "(string, config_value) odict option \<Rightarrow> perm_class \<Rightarrow> string list" where
  "effective_read configured cls =
     (if pc_library cls then default_for configured ''read'' else class_permissions configured cls ''read'')"

lemma n_read_base [simp]: "n_read (base_node configured cls inst ctx) = effective_read configured cls"
  by (simp add: base_node_def set_effective_permissions_def Let_def effective_read_def)

lemma n_read_fallback:
  assumes "pc_based_on cls \<noteq> None"
  shows "n_read (fallback_node configured (base_node configured cls inst ctx)) = effective_read configured cls
    \<or> effective_read configured cls = []"
  using assms
  by (auto simp: fallback_node_def set_effective_permissions_def Let_def effective_read_def
    class_permissions_def split: option.splits)

text \<open>
  An object built for an instance keeps the class lists, except that an undeclared list, empty
  on the class, is replaced when the basis is \<open>None\<close>.
\<close>

lemma init_permission_cases:
  assumes "init_permission env configured cls inst ctx = Inr (Perm n basis)"
  shows "n_inst n = inst \<and> n_class n = cls \<and> (pc_based_on cls = None \<longrightarrow> basis = None) \<and>
    (n_read n = effective_read configured cls \<or> effective_read configured cls = [] \<and> basis = None)"
proof (cases "pc_based_on cls")
  case None
  with assms have "n = base_node configured cls inst ctx" "basis = None"
    by (simp_all add: init_permission_def get_based_on_permission_def)
  then show ?thesis by simp
next
  case (Some b)
  have n: "(n = base_node configured cls inst ctx) \<or>
    (n = fallback_node configured (base_node configured cls inst ctx) \<and> basis = None)"
    using assms Some
    by (auto simp: init_permission_def get_based_on_permission_def Let_def sbind_Inr_iff
      split: basis_value.splits option.splits if_splits)
  then show ?thesis
  proof
    assume "n = base_node configured cls inst ctx"
    with Some show ?thesis by simp
  next
    assume "n = fallback_node configured (base_node configured cls inst ctx) \<and> basis = None"
    then show ?thesis using n_read_fallback [of cls configured inst ctx] Some by auto
  qed
qed

lemma class_context_object:
  assumes "init_permission env configured cls klass True = Inr p"
    and "\<And>b. pc_based_on cls = Some b \<Longrightarrow> env_getattr env klass b = BasisMissing"
  shows "p = Perm (base_node configured cls klass True) None"
  using assms by (cases "pc_based_on cls")
    (simp_all add: init_permission_def get_based_on_permission_def Let_def)

lemma class_context_plan_exact: "plan_exact sat class_context_plan r b"
  by (simp add: plan_exact_def plan_shape_def plan_selects_def class_context_plan_def)

lemma check_permission_list_Nil [simp]: "check_permission_list reg inst u [] = Inr True"
  by (simp add: check_permission_list_def)

context prefilter_contract
begin

lemma object_plan_exact:
  assumes pc: "init_permission env configured cls klass True = Inr pc"
    and missing: "\<And>b. pc_based_on cls = Some b \<Longrightarrow> env_getattr env klass b = BasisMissing"
    and pi: "init_permission env configured cls inst False = Inr pi"
    and plan: "get_read_permission_plan reg u pc = Inr plan"
    and u: "user_ok u" and ok: "\<forall>e\<in>set (effective_read configured cls). expression_ok inst e"
    and gate: "reads reg u pi = Inr b"
  shows "plan_exact sat plan inst b"
proof (cases "is_superuser u")
  case True
  have "pc = Perm (base_node configured cls klass True) None"
    by (rule class_context_object [OF pc]) (rule missing)
  with plan True have "plan = static_plan AllowAllRows" by simp
  moreover from True gate have "b" by (cases pi) simp
  ultimately show ?thesis by (simp add: plan_exact_static)
next
  case su: False
  let ?es = "effective_read configured cls"
  obtain n basis where p: "pi = Perm n basis" by (cases pi)
  from init_permission_cases [OF pi [unfolded p]]
  have n: "n_inst n = inst" "pc_based_on cls = None \<Longrightarrow> basis = None"
    "n_read n = ?es \<or> ?es = [] \<and> basis = None" by blast+
  have pc_eq: "pc = Perm (base_node configured cls klass True) None"
    by (rule class_context_object [OF pc]) (rule missing)
  obtain l where l: "plan_local_read_permissions reg u ?es = Inr l"
    using plan su unfolding pc_eq by (cases "plan_local_read_permissions reg u ?es :: perm_error + 'v read_plan") simp_all
  have plan_eq: "plan = (if decision l = DenyAllRows then l
      else if pc_based_on cls \<noteq> None then and_read_permission_plans class_context_plan l else l)"
    using plan su l unfolding pc_eq
    by (cases "decision l = DenyAllRows"; cases "pc_based_on cls") simp_all
  from local_exact [OF l u ok] obtain c where
    c: "check_permission_list reg inst u ?es = Inr c" "plan_exact sat l inst c" by blast
  obtain b0 where b0: "b = (b0 \<and> c)" "pc_based_on cls = None \<Longrightarrow> b0"
  proof (cases "n_read n = ?es")
    case True
    show thesis
    proof (cases basis)
      case None
      with gate su True n(1) c(1) have "b = c" by (simp add: p)
      then show thesis using that [of True] by simp
    next
      case (Some q)
      with gate su obtain d where d: "reads reg u q = Inr d"
        "(if d then check_permission_list reg (n_inst n) u (n_read n) else Inr False) = Inr b"
        by (auto simp: p sbind_Inr_iff)
      with True n(1) c(1) have "b = (d \<and> c)" by (auto split: if_splits)
      moreover from Some n(2) have "pc_based_on cls \<noteq> None" by auto
      ultimately show thesis by (intro that [of d]) simp_all
    qed
  next
    case False
    with n(3) have "?es = []" by blast
    with c(1) have c_true: "c = True" by simp
    have "pc_based_on cls \<noteq> None"
    proof
      assume none: "pc_based_on cls = None"
      with pi [unfolded p] have "n = base_node configured cls inst False"
        by (simp add: init_permission_def get_based_on_permission_def)
      with False show False by simp
    qed
    with c_true show thesis by (intro that [of b]) simp_all
  qed
  show ?thesis
  proof (cases "decision l = DenyAllRows")
    case True
    then have "\<not> c" by (rule plan_exact_decided(2) [OF c(2)])
    with True plan_eq c(2) b0(1) show ?thesis by simp
  next
    case nd: False
    show ?thesis
    proof (cases "pc_based_on cls = None")
      case True
      with nd plan_eq b0 c(2) show ?thesis by simp
    next
      case False
      with nd plan_eq b0(1) and_plans_exact [OF class_context_plan_exact c(2), of b0] show ?thesis by simp
    qed
  qed
qed

end

section \<open>Applying a plan to a bucket\<close>

text \<open>
  The operations of a bucket (a lazily evaluated collection of managers, outside this
  component) that the resolvers use.
\<close>

record ('q, 'i, 'v) bucket_ops =
  b_rows :: "'q \<Rightarrow> 'i list"
  b_filter :: "'v lookups \<Rightarrow> 'q \<Rightarrow> 'q"
  b_exclude :: "'v lookups \<Rightarrow> 'q \<Rightarrow> 'q"
  b_union :: "'q \<Rightarrow> 'q \<Rightarrow> 'q"
  b_none :: "'q \<Rightarrow> 'q"
  b_with_instances :: "'i list \<Rightarrow> 'q \<Rightarrow> 'q"

record 'q read_authorization_result =
  ra_queryset :: 'q
  ra_candidate_count :: "nat option"
  ra_authorized_count :: "nat option"
  ra_denied_count :: "nat option"
  ra_backend_shape :: string
  ra_requires :: bool
  ra_reasons :: "reason list"

definition resolve_instance_check_reasons :: "'v read_plan \<Rightarrow> string \<Rightarrow> reason list" where
  "resolve_instance_check_reasons plan backend_shape =
     (let reasons = set (instance_check_reasons plan)
      in sorted_reasons
        (if requires_instance_check plan \<and> reasons = {} \<and> backend_shape \<noteq> ''database''
         then {NoPrefilterBackend} else reasons))"

fun gate_rows :: "('i \<Rightarrow> perm_error + bool) \<Rightarrow> 'i list \<Rightarrow> perm_error + 'i list" where
  "gate_rows gate [] = Inr []"
| "gate_rows gate (r # rs) =
     sbind (gate r) (\<lambda>b. sbind (gate_rows gate rs) (\<lambda>as. Inr (if b then r # as else as)))"

text \<open>
  \<open>filter_queryset_by_read_permission\<close>; \<open>gate\<close> is \<open>None\<close> when the manager class has no
  \<open>Permission\<close>.
\<close>

definition filter_queryset_by_read_permission ::
  "('q, 'i, 'v) bucket_ops \<Rightarrow> ('i \<Rightarrow> perm_error + bool) option \<Rightarrow> bool \<Rightarrow> reason list \<Rightarrow> string \<Rightarrow> 'q \<Rightarrow>
   perm_error + 'q read_authorization_result" where
  "filter_queryset_by_read_permission bk gate requires reasons shape q =
     (let lazy = \<lparr>ra_queryset = q, ra_candidate_count = None, ra_authorized_count = None,
            ra_denied_count = None, ra_backend_shape = shape, ra_requires = False, ra_reasons = reasons\<rparr>
      in if \<not> requires then Inr lazy
         else case gate of
           None \<Rightarrow> Inr lazy
         | Some g \<Rightarrow> sbind (gate_rows g (b_rows bk q)) (\<lambda>authorized.
             let candidates = length (b_rows bk q)
             in Inr \<lparr>ra_queryset = b_with_instances bk authorized q,
                  ra_candidate_count = Some candidates, ra_authorized_count = Some (length authorized),
                  ra_denied_count = Some (candidates - length authorized), ra_backend_shape = shape,
                  ra_requires = True, ra_reasons = reasons\<rparr>))"

definition constraint_query :: "('q, 'i, 'v) bucket_ops \<Rightarrow> 'q \<Rightarrow> 'v constraint_dict \<Rightarrow> 'q" where
  "constraint_query bk q c =
     (if filter_of c = [] \<and> exclude_of c = [] then q
      else b_exclude bk (exclude_of c) (b_filter bk (filter_of c) q))"

fun union_queries :: "('q, 'i, 'v) bucket_ops \<Rightarrow> 'q \<Rightarrow> 'v constraint_dict list \<Rightarrow> 'q option \<Rightarrow> 'q option" where
  "union_queries bk q [] acc = acc"
| "union_queries bk q (c # cs) acc =
     union_queries bk q cs (Some (case acc of
       None \<Rightarrow> constraint_query bk q c
     | Some a \<Rightarrow> b_union bk a (constraint_query bk q c)))"

definition apply_read_authorization ::
  "('q, 'i, 'v) bucket_ops \<Rightarrow> ('i \<Rightarrow> perm_error + bool) option \<Rightarrow> string \<Rightarrow> 'v read_plan \<Rightarrow> 'q \<Rightarrow>
   perm_error + 'q read_authorization_result" where
  "apply_read_authorization bk gate shape plan q =
     (let reasons = resolve_instance_check_reasons plan shape;
          known = (\<lambda>qs count rs. \<lparr>ra_queryset = qs, ra_candidate_count = count, ra_authorized_count = count,
            ra_denied_count = count, ra_backend_shape = shape, ra_requires = False, ra_reasons = rs\<rparr>)
      in case decision plan of
           DenyAllRows \<Rightarrow> Inr (known (b_none bk q) (Some 0) [])
         | AllowAllRows \<Rightarrow> Inr (known q None [])
         | Conditional \<Rightarrow>
             if \<not> requires_instance_check plan \<and>
                (case filters plan of [c] \<Rightarrow> filter_of c = [] \<and> exclude_of c = [] | _ \<Rightarrow> False)
             then Inr (known q None reasons)
             else (case (if filters plan = [] then Some q else union_queries bk q (filters plan) None) of
               None \<Rightarrow> Inr (known q None reasons)
             | Some filtered \<Rightarrow>
                 filter_queryset_by_read_permission bk gate (requires_instance_check plan) reasons shape filtered))"

text \<open>
  The laws of a bucket: filtering and excluding by lookups, alternatives, and the exact subset
  for a list of its own rows.
\<close>

locale bucket =
  fixes bk :: "('q, 'i, 'v) bucket_ops"
    and sat :: "string \<Rightarrow> 'v \<Rightarrow> 'i \<Rightarrow> bool"
  assumes rows_filter: "set (b_rows bk (b_filter bk d q)) = {r \<in> set (b_rows bk q). lookups_match sat d r}"
    and rows_exclude: "set (b_rows bk (b_exclude bk d q)) = {r \<in> set (b_rows bk q). exclude_passes sat d r}"
    and rows_union: "set (b_rows bk (b_union bk q q')) = set (b_rows bk q) \<union> set (b_rows bk q')"
    and rows_none: "b_rows bk (b_none bk q) = []"
    and rows_with_instances: "set xs \<subseteq> set (b_rows bk q) \<Longrightarrow> set (b_rows bk (b_with_instances bk xs q)) = set xs"
begin

lemma rows_constraint_query:
  "set (b_rows bk (constraint_query bk q c)) = {r \<in> set (b_rows bk q). constraint_matches sat c r}"
  by (auto simp: constraint_query_def rows_filter rows_exclude constraint_matches_def
    lookups_match_def exclude_passes_def)

lemma rows_union_queries_acc:
  "\<exists>q'. union_queries bk q cs (Some a) = Some q' \<and>
     set (b_rows bk q') = set (b_rows bk a) \<union> {r \<in> set (b_rows bk q). \<exists>c\<in>set cs. constraint_matches sat c r}"
proof (induction cs arbitrary: a)
  case Nil
  then show ?case by simp
next
  case (Cons c cs)
  from Cons.IH [of "b_union bk a (constraint_query bk q c)"] obtain q' where
    q': "union_queries bk q cs (Some (b_union bk a (constraint_query bk q c))) = Some q'"
    "set (b_rows bk q') = set (b_rows bk (b_union bk a (constraint_query bk q c))) \<union>
       {r \<in> set (b_rows bk q). \<exists>c\<in>set cs. constraint_matches sat c r}" by blast
  then show ?case by (auto simp: rows_union rows_constraint_query)
qed

lemma rows_union_queries:
  assumes "cs \<noteq> []"
  shows "\<exists>q'. union_queries bk q cs None = Some q' \<and>
    set (b_rows bk q') = {r \<in> set (b_rows bk q). \<exists>c\<in>set cs. constraint_matches sat c r}"
proof (cases cs)
  case Nil
  with assms show ?thesis by simp
next
  case (Cons c cs')
  from rows_union_queries_acc [of q cs' "constraint_query bk q c"] obtain q' where
    "union_queries bk q cs' (Some (constraint_query bk q c)) = Some q'"
    "set (b_rows bk q') = set (b_rows bk (constraint_query bk q c)) \<union>
       {r \<in> set (b_rows bk q). \<exists>c\<in>set cs'. constraint_matches sat c r}" by blast
  with Cons show ?thesis by (auto simp: rows_constraint_query)
qed

end

lemma gate_rows_total:
  "(\<And>r. r \<in> set rs \<Longrightarrow> gate r = Inr (g r)) \<Longrightarrow> gate_rows gate rs = Inr (filter g rs)"
  by (induction rs) auto

context bucket
begin

lemma filter_by_gate:
  assumes "\<And>r. r \<in> set (b_rows bk q) \<Longrightarrow> gate r = Inr (g r)"
  shows "\<exists>res. filter_queryset_by_read_permission bk (Some gate) req reasons shape q = Inr res \<and>
    set (b_rows bk (ra_queryset res)) = {r \<in> set (b_rows bk q). req \<longrightarrow> g r}"
proof (cases req)
  case True
  have "gate_rows gate (b_rows bk q) = Inr (filter g (b_rows bk q))" by (rule gate_rows_total [OF assms])
  moreover have "set (b_rows bk (b_with_instances bk (filter g (b_rows bk q)) q)) = {r \<in> set (b_rows bk q). g r}"
    by (subst rows_with_instances) auto
  ultimately show ?thesis using True by (simp add: filter_queryset_by_read_permission_def Let_def)
next
  case False
  then show ?thesis by (simp add: filter_queryset_by_read_permission_def)
qed

lemma apply_selects_readable:
  assumes exact: "\<And>r. r \<in> set (b_rows bk q) \<Longrightarrow> plan_exact sat plan r (g r)"
    and gate: "\<And>r. r \<in> set (b_rows bk q) \<Longrightarrow> gate r = Inr (g r)"
  shows "\<exists>res. apply_read_authorization bk (Some gate) shape plan q = Inr res \<and>
    set (b_rows bk (ra_queryset res)) = {r \<in> set (b_rows bk q). g r}"
proof (cases "decision plan")
  case AllowAllRows
  then have "\<forall>r\<in>set (b_rows bk q). g r" using plan_exact_decided(1) [OF exact] by blast
  then show ?thesis by (auto simp: apply_read_authorization_def AllowAllRows Let_def)
next
  case DenyAllRows
  then have "\<forall>r\<in>set (b_rows bk q). \<not> g r" using plan_exact_decided(2) [OF exact] by blast
  then show ?thesis by (auto simp: apply_read_authorization_def DenyAllRows Let_def rows_none)
next
  case Conditional
  let ?trivial = "\<not> requires_instance_check plan \<and>
     (case filters plan of [c] \<Rightarrow> filter_of c = [] \<and> exclude_of c = [] | _ \<Rightarrow> False)"
  have sel: "plan_selects sat plan r \<longleftrightarrow> filters plan = [] \<or> (\<exists>c\<in>set (filters plan). constraint_matches sat c r)" for r
    unfolding plan_selects_def Conditional by (simp only: decision.case) (simp add: list_ex_iff)
  have g_iff: "g r \<longleftrightarrow> plan_selects sat plan r \<and> (requires_instance_check plan \<longrightarrow> g r)"
    if "r \<in> set (b_rows bk q)" for r
    using exact [OF that] unfolding plan_exact_def by blast
  show ?thesis
  proof (cases ?trivial)
    case True
    then obtain c where c: "filters plan = [c]" "filter_of c = []" "exclude_of c = []"
      by (auto split: list.splits)
    then have "constraint_matches sat c r" for r
      by (simp add: constraint_matches_def lookups_match_def exclude_passes_def)
    with c(1) True g_iff sel have "\<forall>r\<in>set (b_rows bk q). g r" by auto
    with True show ?thesis by (auto simp: apply_read_authorization_def Conditional Let_def)
  next
    case False
    obtain q' where q': "(if filters plan = [] then Some q else union_queries bk q (filters plan) None) = Some q'"
      "set (b_rows bk q') = {r \<in> set (b_rows bk q). plan_selects sat plan r}"
    proof (cases "filters plan = []")
      case True
      then show thesis using that [of q] by (simp add: sel)
    next
      case ne: False
      from rows_union_queries [OF ne, of q] obtain q' where "union_queries bk q (filters plan) None = Some q'"
        "set (b_rows bk q') = {r \<in> set (b_rows bk q). \<exists>c\<in>set (filters plan). constraint_matches sat c r}" by blast
      with ne show thesis using that [of q'] by (simp add: sel)
    qed
    have gq: "gate r = Inr (g r)" if "r \<in> set (b_rows bk q')" for r
      using that q'(2) gate by blast
    have "apply_read_authorization bk (Some gate) shape plan q =
      filter_queryset_by_read_permission bk (Some gate) (requires_instance_check plan)
        (resolve_instance_check_reasons plan shape) shape q'"
      unfolding apply_read_authorization_def Let_def Conditional
      by (simp only: decision.case False if_False q'(1) option.case)
    moreover from filter_by_gate [where gate = gate and g = g and q = q', OF gq] obtain res where
      "filter_queryset_by_read_permission bk (Some gate) (requires_instance_check plan)
        (resolve_instance_check_reasons plan shape) shape q' = Inr res"
      "set (b_rows bk (ra_queryset res)) = {r \<in> set (b_rows bk q'). requires_instance_check plan \<longrightarrow> g r}"
      by blast
    moreover have "{r \<in> set (b_rows bk q'). requires_instance_check plan \<longrightarrow> g r} = {r \<in> set (b_rows bk q). g r}"
      using q'(2) g_iff by blast
    ultimately show ?thesis by simp
  qed
qed

end


text \<open>A bucket that is its list of rows.\<close>

definition list_bucket :: "(string \<Rightarrow> 'v \<Rightarrow> 'i \<Rightarrow> bool) \<Rightarrow> ('i list, 'i, 'v) bucket_ops" where
  "list_bucket sat = \<lparr>b_rows = (\<lambda>q. q), b_filter = (\<lambda>d q. filter (lookups_match sat d) q),
     b_exclude = (\<lambda>d q. filter (exclude_passes sat d) q), b_union = (\<lambda>q q'. q @ q'),
     b_none = (\<lambda>q. []), b_with_instances = (\<lambda>xs q. xs)\<rparr>"

interpretation rows: bucket "list_bucket row_sat" row_sat
  by unfold_locales (auto simp: list_bucket_def)

section \<open>The resolvers\<close>

text \<open>
  \<open>get_read_permission_filter\<close> plans for the manager class, \<open>can_read_instance_for_user\<close>
  builds a permission object for the row; a manager without a permission class is readable.
\<close>

definition get_read_permission_filter ::
  "('i, 'v) registry \<Rightarrow> ('i, 'o) basis_env \<Rightarrow> (string, config_value) odict option \<Rightarrow> user \<Rightarrow>
   perm_class option \<Rightarrow> 'i \<Rightarrow> perm_error + 'v read_plan" where
  "get_read_permission_filter reg env configured u perm klass =
     (case perm of
        None \<Rightarrow> Inr (static_plan AllowAllRows)
      | Some cls \<Rightarrow> sbind (init_permission env configured cls klass True) (get_read_permission_plan reg u))"

definition can_read_instance_for_user ::
  "('i, 'v) registry \<Rightarrow> ('i, 'o) basis_env \<Rightarrow> (string, config_value) odict option \<Rightarrow> user \<Rightarrow>
   perm_class option \<Rightarrow> 'i \<Rightarrow> perm_error + bool" where
  "can_read_instance_for_user reg env configured u perm inst =
     (case perm of
        None \<Rightarrow> Inr True
      | Some cls \<Rightarrow> sbind (init_permission env configured cls inst False)
          (\<lambda>p. fst (can_read_instance reg u p)))"

definition read_queryset ::
  "('q, 'i, 'v) bucket_ops \<Rightarrow> ('i, 'v) registry \<Rightarrow> ('i, 'o) basis_env \<Rightarrow>
   (string, config_value) odict option \<Rightarrow> user \<Rightarrow> perm_class option \<Rightarrow> 'i \<Rightarrow> string \<Rightarrow> 'q \<Rightarrow>
   perm_error + 'q read_authorization_result" where
  "read_queryset bk reg env configured u perm klass shape q =
     sbind (get_read_permission_filter reg env configured u perm klass) (\<lambda>plan.
       apply_read_authorization bk
         (map_option (\<lambda>cls. can_read_instance_for_user reg env configured u (Some cls)) perm) shape plan q)"

fun matching_constraint ::
  "(string \<Rightarrow> 'v \<Rightarrow> 'i \<Rightarrow> bool) \<Rightarrow> 'v constraint_dict list \<Rightarrow> 'i \<Rightarrow> bool" where
  "matching_constraint holds [] inst = False"
| "matching_constraint holds (c # cs) inst =
     (if lookups_match holds (filter_of c) inst \<and> \<not> (exclude_of c \<noteq> [] \<and> lookups_match holds (exclude_of c) inst)
      then True else matching_constraint holds cs inst)"

definition passes_permission_filters ::
  "(string \<Rightarrow> 'v \<Rightarrow> 'i \<Rightarrow> bool) \<Rightarrow> (perm_error + bool) \<Rightarrow> 'v read_plan \<Rightarrow> 'i \<Rightarrow> perm_error + bool" where
  "passes_permission_filters holds gate plan inst =
     (case decision plan of
        AllowAllRows \<Rightarrow> Inr True
      | DenyAllRows \<Rightarrow> Inr False
      | Conditional \<Rightarrow>
          if filters plan = [] then gate
          else if matching_constraint holds (filters plan) inst
          then (if \<not> requires_instance_check plan then Inr True else gate)
          else Inr False)"

text \<open>The environment hands out permission objects whose caches are valid.\<close>

definition env_ok :: "('i, 'v) registry \<Rightarrow> user \<Rightarrow> ('i, 'o) basis_env \<Rightarrow> bool" where
  "env_ok reg u env = (\<forall>m p. env_permission env m = Some (Inr p) \<longrightarrow> cache_ok reg u p)"

lemma init_permission_cache_ok:
  assumes "env_ok reg u env" "init_permission env configured cls inst ctx = Inr p"
  shows "cache_ok reg u p"
proof -
  have node: "cache_ok reg u (Perm n None)" if "n_overall n = (\<lambda>a. None)" "n_read_result n = None" for n
    using that by (simp add: overall_ok_def)
  show ?thesis
  proof (cases "pc_based_on cls")
    case None
    with assms(2) have "p = Perm (base_node configured cls inst ctx) None"
      by (simp add: init_permission_def get_based_on_permission_def)
    then show ?thesis using node by simp
  next
    case (Some b)
    with assms(2) consider "p = Perm (base_node configured cls inst ctx) None"
      | "p = Perm (fallback_node configured (base_node configured cls inst ctx)) None"
      | q m where "p = Perm (base_node configured cls inst ctx) (Some q)" "env_permission env m = Some (Inr q)"
      by (auto simp: init_permission_def get_based_on_permission_def Let_def sbind_Inr_iff
        split: basis_value.splits option.splits if_splits)
    then show ?thesis
    proof cases
      case 3
      with assms(1) have "cache_ok reg u q" by (auto simp: env_ok_def)
      with 3 show ?thesis by (simp add: overall_ok_def)
    qed (simp_all add: overall_ok_def)
  qed
qed

lemma gate_is_reads:
  assumes "env_ok reg u env" "can_read_instance_for_user reg env configured u (Some cls) inst = Inr b"
  obtains p where "init_permission env configured cls inst False = Inr p" "reads reg u p = Inr b"
proof -
  from assms(2) obtain p where p: "init_permission env configured cls inst False = Inr p"
    "fst (can_read_instance reg u p) = Inr b"
    by (auto simp: can_read_instance_for_user_def sbind_Inr_iff)
  from can_read_refines [OF init_permission_cache_ok [OF assms(1) p(1)]] p(2)
  have "reads reg u p = Inr b" by (simp add: refines_def)
  with p(1) show thesis by (rule that)
qed

context prefilter_contract
begin

lemma read_plan_exact:
  assumes "get_read_permission_filter reg env configured u (Some cls) klass = Inr plan"
    and "\<And>b. pc_based_on cls = Some b \<Longrightarrow> env_getattr env klass b = BasisMissing"
    and "env_ok reg u env" "user_ok u"
    and "\<forall>e\<in>set (effective_read configured cls). expression_ok inst e"
    and "can_read_instance_for_user reg env configured u (Some cls) inst = Inr b"
  shows "plan_exact sat plan inst b"
proof -
  from assms(1) obtain pc where pc: "init_permission env configured cls klass True = Inr pc"
    "get_read_permission_plan reg u pc = Inr plan"
    by (auto simp: get_read_permission_filter_def sbind_Inr_iff)
  obtain p where p: "init_permission env configured cls inst False = Inr p" "reads reg u p = Inr b"
    by (rule gate_is_reads [OF assms(3,6)])
  show ?thesis
    by (rule object_plan_exact [OF pc(1) _ p(1) pc(2) assms(4,5) p(2)]) (rule assms(2))
qed

end

lemma matching_constraint_iff:
  "matching_constraint holds cs inst \<longleftrightarrow> (\<exists>c\<in>set cs. constraint_matches holds c inst)"
  by (induction cs) (auto simp: constraint_matches_def exclude_passes_def lookups_match_def)

lemma passes_exact:
  assumes "plan_exact holds plan inst b" "gate = Inr b"
  shows "passes_permission_filters holds gate plan inst = Inr b"
proof (cases "decision plan")
  case AllowAllRows
  then show ?thesis using plan_exact_decided(1) [OF assms(1)] by (simp add: passes_permission_filters_def)
next
  case DenyAllRows
  then show ?thesis using plan_exact_decided(2) [OF assms(1)] by (simp add: passes_permission_filters_def)
next
  case Conditional
  have sel: "plan_selects holds plan inst \<longleftrightarrow> filters plan = [] \<or> matching_constraint holds (filters plan) inst"
    unfolding plan_selects_def Conditional matching_constraint_iff
    by (simp only: decision.case) (simp add: list_ex_iff)
  show ?thesis
    using assms(1) unfolding passes_permission_filters_def Conditional assms(2) plan_exact_def sel decision.case
    by (cases "filters plan = []"; cases "matching_constraint holds (filters plan) inst";
        cases "requires_instance_check plan"; cases b) simp_all
qed


section \<open>Properties\<close>


definition demo_env :: "(attrs, unit) basis_env" where
  "demo_env = \<lparr>env_getattr = (\<lambda>i b. BasisMissing), env_coerce = (\<lambda>i b v. None), env_permission = (\<lambda>m. None)\<rparr>"

definition demo_user :: user where
  "demo_user = \<lparr>user_id = Some 7, user_pk = Some 7, is_superuser = False, is_staff = False,
     is_authenticated = True, is_active = True, user_has_perm = None, user_groups = None\<rparr>"

definition demo_class :: perm_class where
  "demo_class = \<lparr>pc_mode = Additive, pc_library = False,
     pc_declared = [(''read'', [''isAdmin'', ''isAuthenticated&isSelf''])], pc_based_on = None, pc_attributes = []\<rparr>"

definition demo_row :: "nat \<Rightarrow> attrs" where
  "demo_row n = (\<lambda>a. if a = ''creator'' then PUser n ''someone'' else PNone)"

lemma demo_plan: "get_read_permission_filter builtin_registry demo_env None demo_user (Some demo_class) (\<lambda>a. PNone)
  = Inr \<lparr>filters = [\<lparr>c_filter = Some [(''creator_id'', VId 7)], c_exclude = Some []\<rparr>],
      requires_instance_check = False, instance_check_reasons = [], decision = Conditional\<rparr>"
  by code_simp

lemma demo_gates:
  "can_read_instance_for_user builtin_registry demo_env None demo_user (Some demo_class) (demo_row 7) = Inr True"
  "can_read_instance_for_user builtin_registry demo_env None demo_user (Some demo_class) (demo_row 8) = Inr False"
  by code_simp+

lemma demo_env_ok: "env_ok reg u demo_env" "has_consistent_pk demo_user"
  by (simp_all add: env_ok_def demo_env_def has_consistent_pk_def demo_user_def)

lemma demo_fragments_ok:
  "\<forall>e\<in>set (effective_read None demo_class). \<forall>f\<in>set (split_char CHR ''&'' e).
     builtin_fragment_ok r (perm_name f) (perm_config f)"
  by (simp add: effective_read_def class_permissions_def demo_class_def builtin_fragment_ok_def)


text \<open>One manager returned by a search is kept exactly when its instance gate grants it:
  \<open>passes_permission_filters\<close> gives the gate's answer for every plan of the built-in
  permissions, with or without its instance check.\<close>

theorem search_item_exact:
  assumes "get_read_permission_filter builtin_registry env configured u (Some cls) klass = Inr plan"
    and "\<forall>b. pc_based_on cls = Some b \<longrightarrow> env_getattr env klass b = BasisMissing"
    and "env_ok builtin_registry u env" "has_consistent_pk u"
    and "\<forall>e\<in>set (effective_read configured cls). \<forall>f\<in>set (split_char CHR ''&'' e).
      builtin_fragment_ok inst (perm_name f) (perm_config f)"
    and "can_read_instance_for_user builtin_registry env configured u (Some cls) inst = Inr b"
  shows "passes_permission_filters row_sat
      (can_read_instance_for_user builtin_registry env configured u (Some cls) inst) plan inst = Inr b"
proof -
  have "plan_exact row_sat plan inst b"
    using assms(2,5) by (intro builtin.read_plan_exact [OF assms(1) _ assms(3,4) _ assms(6)]) simp_all
  then show ?thesis by (rule passes_exact) (rule assms(6))
qed

lemma search_item_exact_witness:
  "passes_permission_filters row_sat
     (can_read_instance_for_user builtin_registry demo_env None demo_user (Some demo_class) (demo_row 8))
     \<lparr>filters = [\<lparr>c_filter = Some [(''creator_id'', VId 7)], c_exclude = Some []\<rparr>],
      requires_instance_check = False, instance_check_reasons = [], decision = Conditional\<rparr> (demo_row 8) = Inr False"
proof -
  have nb: "\<forall>b. pc_based_on demo_class = Some b \<longrightarrow> env_getattr demo_env (\<lambda>a. PNone) b = BasisMissing"
    by (simp add: demo_class_def)
  show ?thesis
    by (rule search_item_exact [OF demo_plan nb demo_env_ok demo_fragments_ok demo_gates(2)])
qed

text \<open>A permission list that can be planned can be evaluated: when the plan of the built-in
  permissions is computed without an error, checking the list on an instance raises no error
  either, and the plan together with its instance check answers the same.\<close>

theorem planned_lists_evaluate:
  assumes "plan_local_read_permissions builtin_registry u es = Inr p" and "has_consistent_pk u"
    and "\<forall>e\<in>set es. \<forall>f\<in>set (split_char CHR ''&'' e). builtin_fragment_ok inst (perm_name f) (perm_config f)"
  shows "\<exists>b. check_permission_list builtin_registry inst u es = Inr b \<and>
    (plan_selects row_sat p inst \<and> (requires_instance_check p \<longrightarrow> b)) = b"
proof -
  from builtin.local_exact [OF assms] obtain b where
    b: "check_permission_list builtin_registry inst u es = Inr b" "plan_exact row_sat p inst b" by blast
  from b(2) have "(plan_selects row_sat p inst \<and> (requires_instance_check p \<longrightarrow> b)) = b"
    unfolding plan_exact_def by blast
  with b(1) show ?thesis by blast
qed

lemma planned_lists_evaluate_witness:
  "\<exists>b. check_permission_list builtin_registry (demo_row 7) demo_user [''isAdmin&unknown'', ''isSelf''] = Inr b \<and>
    plan_selects row_sat \<lparr>filters = [\<lparr>c_filter = Some [(''creator_id'', VId 7)], c_exclude = Some []\<rparr>],
      requires_instance_check = False, instance_check_reasons = [], decision = Conditional\<rparr> (demo_row 7) = b"
proof -
  have p: "plan_local_read_permissions builtin_registry demo_user [''isAdmin&unknown'', ''isSelf''] =
    Inr \<lparr>filters = [\<lparr>c_filter = Some [(''creator_id'', VId 7)], c_exclude = Some []\<rparr>],
      requires_instance_check = False, instance_check_reasons = [], decision = Conditional\<rparr>"
    by code_simp
  have "\<forall>e\<in>set [''isAdmin&unknown'', ''isSelf'']. \<forall>f\<in>set (split_char CHR ''&'' e).
    builtin_fragment_ok (demo_row 7) (perm_name f) (perm_config f)"
    by (simp add: builtin_fragment_ok_def)
  from planned_lists_evaluate [OF p demo_env_ok(2) this] show ?thesis by simp
qed


end
