(* ===== verification/PermChecks.thy ===== *)
theory PermChecks
  imports PermCaching
begin

text \<open>
  The checks around a write, \<open>check_create_permission\<close>, \<open>check_update_permission\<close> and
  \<open>check_delete_permission\<close> of \<open>permission/base_permission.py\<close>, and the GraphQL mutation gate,
  \<open>permission/mutation_permission.py\<close>. Each handler returns its outcome with the audit events
  it emitted and the permission object with its caches. The informational log line of a denied
  attribute is not modelled.
\<close>

section \<open>Outcomes and audit events\<close>

record audit_event =
  ae_action :: string
  ae_attributes :: "string list"
  ae_granted :: bool
  ae_manager :: "string option"
  ae_permissions :: "string list"
  ae_bypassed :: bool

datatype check_outcome = Passed | PermissionDenied "string list" | Raised perm_error

definition quote :: "string \<Rightarrow> string" where
  "quote s = CHR 0x27 # s @ [CHR 0x27]"

definition denied_attribute :: "string \<Rightarrow> string \<Rightarrow> string" where
  "denied_attribute title key = title @ '' permission denied for attribute '' @ quote key"

definition raise_errors :: "string list \<Rightarrow> check_outcome" where
  "raise_errors errors = (if errors = [] then Passed else PermissionDenied errors)"

section \<open>Resolving the user\<close>

text \<open>
  \<open>get_user_with_id\<close>: a lazy object is unwrapped once, a user object is kept, and any other
  value is looked up as a primary key (\<open>lookup\<close> is the user model's manager, \<open>None\<close> when it
  raises \<open>DoesNotExist\<close>, \<open>ValueError\<close> or \<open>TypeError\<close>).
\<close>

datatype 'k user_value = UserObject user | UserKey 'k

datatype 'k user_input = Plain "'k user_value" | Lazy "'k user_value"

definition get_user_with_id :: "('k \<Rightarrow> user option) \<Rightarrow> user \<Rightarrow> 'k user_input \<Rightarrow> user" where
  "get_user_with_id lookup anonymous inp =
     (case (case inp of Plain v \<Rightarrow> v | Lazy v \<Rightarrow> v) of
        UserObject u \<Rightarrow> u
      | UserKey k \<Rightarrow> (case lookup k of Some u \<Rightarrow> u | None \<Rightarrow> anonymous))"

section \<open>Create, update and delete\<close>

text \<open>The audit events of a superuser, who bypasses the checks.\<close>

fun bypass_events ::
  "string \<Rightarrow> string option \<Rightarrow> string list \<Rightarrow> 'i perm_node perm \<Rightarrow> perm_error + audit_event list" where
  "bypass_events action manager [] p = Inr []"
| "bypass_events action manager (key # keys) p =
     sbind (describe_permissions action key p) (\<lambda>ds.
       sbind (bypass_events action manager keys p) (\<lambda>evs. Inr
         (\<lparr>ae_action = action, ae_attributes = [key], ae_granted = True, ae_manager = manager,
           ae_permissions = ds, ae_bypassed = True\<rparr> # evs)))"

definition bypass_operation_event ::
  "string \<Rightarrow> string option \<Rightarrow> 'i perm_node perm \<Rightarrow> perm_error + audit_event list" where
  "bypass_operation_event action manager p =
     sbind (describe_operation_permissions action p) (\<lambda>ds. Inr
       [\<lparr>ae_action = action, ae_attributes = [], ae_granted = True, ae_manager = manager,
         ae_permissions = ds, ae_bypassed = True\<rparr>])"

definition superuser_check ::
  "bool \<Rightarrow> string \<Rightarrow> string option \<Rightarrow> bool \<Rightarrow> string list \<Rightarrow> 'i perm_node perm \<Rightarrow>
   check_outcome \<times> audit_event list" where
  "superuser_check audit action manager empty_event keys p =
     (if \<not> audit then (Passed, [])
      else case sbind (if keys = [] \<and> empty_event then bypass_operation_event action manager p else Inr [])
             (\<lambda>e1. sbind (bypass_events action manager keys p) (\<lambda>e2. Inr (e1 @ e2))) of
        Inl e \<Rightarrow> (Raised e, [])
      | Inr evs \<Rightarrow> (Passed, evs))"

text \<open>The check of an operation without a payload: its denial message, if any.\<close>

definition check_operation_event ::
  "('i, 'v) registry \<Rightarrow> user \<Rightarrow> bool \<Rightarrow> string \<Rightarrow> string \<Rightarrow> string option \<Rightarrow> 'i perm_node perm \<Rightarrow>
   (perm_error + string list) \<times> audit_event list \<times> 'i perm_node perm" where
  "check_operation_event reg u audit action title manager p =
     (case check_operation_permission reg u action p of
        (Inl e, p') \<Rightarrow> (Inl e, [], p')
      | (Inr allowed, p') \<Rightarrow>
          (let errors = (if allowed then [] else [title @ '' permission denied''])
           in if \<not> audit then (Inr errors, [], p')
              else case describe_operation_permissions action p' of
                Inl e \<Rightarrow> (Inl e, [], p')
              | Inr ds \<Rightarrow> (Inr errors,
                  [\<lparr>ae_action = action, ae_attributes = [], ae_granted = allowed, ae_manager = manager,
                    ae_permissions = ds, ae_bypassed = False\<rparr>], p')))"

text \<open>The loop over the attributes, with the events and messages so far.\<close>

fun check_keys ::
  "('i, 'v) registry \<Rightarrow> user \<Rightarrow> bool \<Rightarrow> string \<Rightarrow> string \<Rightarrow> string option \<Rightarrow> string list \<Rightarrow>
   'i perm_node perm \<Rightarrow> audit_event list \<Rightarrow> string list \<Rightarrow>
   (perm_error + string list) \<times> audit_event list \<times> 'i perm_node perm" where
  "check_keys reg u audit action title manager [] p evs errors = (Inr errors, evs, p)"
| "check_keys reg u audit action title manager (key # keys) p evs errors =
     (case check_permission reg u action key p of
        (Inl e, p') \<Rightarrow> (Inl e, evs, p')
      | (Inr allowed, p') \<Rightarrow>
          (let errors' = (if allowed then errors else errors @ [denied_attribute title key])
           in if \<not> audit then check_keys reg u audit action title manager keys p' evs errors'
              else case describe_permissions action key p' of
                Inl e \<Rightarrow> (Inl e, evs, p')
              | Inr ds \<Rightarrow> check_keys reg u audit action title manager keys p'
                  (evs @ [\<lparr>ae_action = action, ae_attributes = [key], ae_granted = allowed,
                    ae_manager = manager, ae_permissions = ds, ae_bypassed = False\<rparr>]) errors'))"

definition outcome_of :: "perm_error + string list \<Rightarrow> check_outcome" where
  "outcome_of r = (case r of Inl e \<Rightarrow> Raised e | Inr errors \<Rightarrow> raise_errors errors)"

definition check_create_permission ::
  "('i, 'v) registry \<Rightarrow> user \<Rightarrow> bool \<Rightarrow> string option \<Rightarrow> string list \<Rightarrow> 'i perm_node perm \<Rightarrow>
   check_outcome \<times> audit_event list" where
  "check_create_permission reg u audit manager data p =
     (if is_superuser u then superuser_check audit ''create'' manager True data p
      else case (if data = [] then check_operation_event reg u audit ''create'' ''Create'' manager p
                 else (Inr [], [], p)) of
        (Inl e, evs, p') \<Rightarrow> (Raised e, evs)
      | (Inr errors, evs, p') \<Rightarrow>
          (case check_keys reg u audit ''create'' ''Create'' manager data p' evs errors of
             (r, evs', p'') \<Rightarrow> (outcome_of r, evs')))"

definition check_update_permission ::
  "('i, 'v) registry \<Rightarrow> user \<Rightarrow> bool \<Rightarrow> string option \<Rightarrow> string list \<Rightarrow> 'i perm_node perm \<Rightarrow>
   check_outcome \<times> audit_event list" where
  "check_update_permission reg u audit manager data p =
     (if is_superuser u then superuser_check audit ''update'' manager True data p
      else case (if data = [] then check_operation_event reg u audit ''update'' ''Update'' manager p
                 else (Inr [], [], p)) of
        (Inl e, evs, p') \<Rightarrow> (Raised e, evs)
      | (Inr errors, evs, p') \<Rightarrow>
          (case check_keys reg u audit ''update'' ''Update'' manager data p' evs errors of
             (r, evs', p'') \<Rightarrow> (outcome_of r, evs')))"

text \<open>
  \<open>_iter_permission_attributes\<close>: the keys of \<open>_attributes\<close> when that is a mapping, otherwise
  the names of the instance dict that do not start with an underscore.
\<close>

definition iter_permission_attributes :: "string list option \<Rightarrow> string list \<Rightarrow> string list" where
  "iter_permission_attributes attributes instance_dict =
     (case attributes of
        Some keys \<Rightarrow> keys
      | None \<Rightarrow> filter (\<lambda>k. \<not> (k \<noteq> [] \<and> hd k = CHR ''_'')) instance_dict)"

definition check_delete_permission ::
  "('i, 'v) registry \<Rightarrow> user \<Rightarrow> bool \<Rightarrow> string option \<Rightarrow> string list option \<Rightarrow> string list \<Rightarrow>
   'i perm_node perm \<Rightarrow> check_outcome \<times> audit_event list" where
  "check_delete_permission reg u audit manager attributes instance_dict p =
     (let keys = iter_permission_attributes attributes instance_dict in
      if is_superuser u then superuser_check audit ''delete'' manager False keys p
      else case check_keys reg u audit ''delete'' ''Delete'' manager keys p [] [] of
        (r, evs, p') \<Rightarrow> (outcome_of r, evs))"

lemma describe_fresh: "describe_permissions action key (fresh p) = describe_permissions action key p"
proof (induction p rule: fresh.induct)
  case (1 n basis)
  have "describe_local_permissions (clear_node n) = describe_local_permissions n"
    by (simp add: describe_local_permissions_def fun_eq_iff)
  with 1 show ?case by (cases basis) (simp_all cong: if_cong)
qed

lemma describe_total:
  assumes "action \<in> {''create'', ''read'', ''update'', ''delete''}"
  shows "\<exists>ds. describe_permissions action key p = Inr ds"
proof (induction p rule: fresh.induct)
  case (1 n basis)
  obtain base where base: "get_base_permissions n action = Inr base"
    using assms by (auto simp: get_base_permissions_def)
  obtain aps has where "get_attribute_permission_expressions n action key = (aps, has)"
    by (cases "get_attribute_permission_expressions n action key")
  with base 1 show ?case by (cases basis) auto
qed

text \<open>
  The loop denies the attributes that are not permitted, in payload order, and its audit
  trail has one event per attribute with the verdict.
\<close>

definition verdicts :: "audit_event list \<Rightarrow> (string list \<times> bool \<times> bool) list" where
  "verdicts evs = map (\<lambda>e. (ae_attributes e, ae_granted e, ae_bypassed e)) evs"

lemma check_keys_denies:
  assumes act: "action \<in> {''create'', ''read'', ''update'', ''delete''}"
  shows "cache_ok reg u p \<Longrightarrow> \<forall>k\<in>set keys. permits reg u action k p = Inr (g k) \<Longrightarrow>
    \<exists>evs' p'. check_keys reg u audit action title manager keys p evs errors =
      (Inr (errors @ map (denied_attribute title) (filter (\<lambda>k. \<not> g k) keys)), evs', p') \<and>
      verdicts evs' = verdicts evs @ (if audit then map (\<lambda>k. ([k], g k, False)) keys else [])"
proof (induction keys arbitrary: p evs errors)
  case Nil
  then show ?case by simp
next
  case (Cons k keys)
  obtain res p' where c: "check_permission reg u action k p = (res, p')"
    by (cases "check_permission reg u action k p")
  from check_permission_refines [OF Cons.prems(1), of action k] c
  have r: "permits reg u action k p = res" "cache_ok reg u p'" "fresh p' = fresh p"
    by (simp_all add: refines_def)
  have "permits reg u action k' p' = permits reg u action k' p" for k' by (metis r(3) permits_fresh)
  then have "\<forall>k\<in>set keys. permits reg u action k p' = Inr (g k)" using Cons.prems(2) by simp
  note ih = Cons.IH [OF r(2) this]
  have res: "res = Inr (g k)" using r(1) Cons.prems(2) by simp
  obtain ds where ds: "describe_permissions action k p' = Inr ds" using describe_total [OF act] by blast
  let ?ev = "\<lparr>ae_action = action, ae_attributes = [k], ae_granted = g k, ae_manager = manager,
    ae_permissions = ds, ae_bypassed = False\<rparr>"
  let ?errors = "if g k then errors else errors @ [denied_attribute title k]"
  let ?evs = "if audit then evs @ [?ev] else evs"
  have step: "check_keys reg u audit action title manager (k # keys) p evs errors =
    check_keys reg u audit action title manager keys p' ?evs ?errors"
    using c res ds by (simp add: Let_def)
  from ih [of ?evs ?errors] obtain evs' p'' where
    "check_keys reg u audit action title manager keys p' ?evs ?errors =
      (Inr (?errors @ map (denied_attribute title) (filter (\<lambda>k. \<not> g k) keys)), evs', p'')"
    "verdicts evs' = verdicts ?evs @ (if audit then map (\<lambda>k. ([k], g k, False)) keys else [])" by blast
  with step show ?case by (simp add: verdicts_def)
qed

section \<open>The GraphQL mutation gate\<close>

text \<open>
  A class attribute is a list whose items may be strings or not, or another value;
  \<open>__mutate__\<close> may be missing.
\<close>

datatype class_value = ClassList "string option list" | ClassOther

definition string_list :: "class_value \<Rightarrow> string list option" where
  "string_list v = (case v of
     ClassList items \<Rightarrow> if list_all (\<lambda>i. i \<noteq> None) items then Some (map the items) else None
   | ClassOther \<Rightarrow> None)"

record 'i mutation_permission =
  mp_data :: 'i
  mp_attributes :: "(string, string list) odict"
  mp_mutate :: "string list option"
  mp_overall :: "bool option"

fun get_attribute_permissions :: "(string \<times> class_value) list \<Rightarrow> (string, string list) odict" where
  "get_attribute_permissions [] = []"
| "get_attribute_permissions ((attribute, v) # items) =
     (if take 2 attribute = ''__'' then get_attribute_permissions items
      else case string_list v of
        None \<Rightarrow> get_attribute_permissions items
      | Some ps \<Rightarrow> (attribute, ps) # get_attribute_permissions items)"

definition init_mutation_permission ::
  "class_value option \<Rightarrow> (string \<times> class_value) list \<Rightarrow> 'i \<Rightarrow> 'i mutation_permission" where
  "init_mutation_permission mutate class_dict data =
     \<lparr>mp_data = data, mp_attributes = get_attribute_permissions class_dict,
      mp_mutate = (case mutate of None \<Rightarrow> None | Some v \<Rightarrow> string_list v), mp_overall = None\<rparr>"

definition describe_mutation_permissions :: "'i mutation_permission \<Rightarrow> string \<Rightarrow> string list" where
  "describe_mutation_permissions m attribute =
     (case mp_mutate m of None \<Rightarrow> [] | Some ps \<Rightarrow> ps) @
     (case od_get (mp_attributes m) attribute of None \<Rightarrow> [] | Some ps \<Rightarrow> ps)"

definition check_specific_permission ::
  "('i, 'v) registry \<Rightarrow> user \<Rightarrow> 'i mutation_permission \<Rightarrow> string list option \<Rightarrow> perm_error + bool" where
  "check_specific_permission reg u m permissions =
     (case permissions of
        None \<Rightarrow> Inr False
      | Some ps \<Rightarrow> if ps = [] then Inr True
          else any_until (\<lambda>p. validate_permission_string reg p (mp_data m) u) ps)"

definition mutation_check_permission ::
  "('i, 'v) registry \<Rightarrow> user \<Rightarrow> string \<Rightarrow> 'i mutation_permission \<Rightarrow>
   (perm_error + bool) \<times> 'i mutation_permission" where
  "mutation_check_permission reg u attribute m =
     (let continue = (\<lambda>attribute_permission.
        case check_specific_permission reg u m (mp_mutate m) of
          Inl e \<Rightarrow> (Inl e, m)
        | Inr permission \<Rightarrow> (Inr (permission \<and> attribute_permission), m\<lparr>mp_overall := Some permission\<rparr>))
      in case od_get (mp_attributes m) attribute of
           None \<Rightarrow> (case mp_overall m of Some prev \<Rightarrow> (Inr prev, m) | None \<Rightarrow> continue True)
         | Some ps \<Rightarrow>
             (case check_specific_permission reg u m (Some ps) of
                Inl e \<Rightarrow> (Inl e, m)
              | Inr allowed \<Rightarrow> continue allowed))"

fun check_mutation_keys ::
  "('i, 'v) registry \<Rightarrow> user \<Rightarrow> bool \<Rightarrow> string \<Rightarrow> string list \<Rightarrow> 'i mutation_permission \<Rightarrow>
   audit_event list \<Rightarrow> string list \<Rightarrow> (perm_error + string list) \<times> audit_event list \<times> 'i mutation_permission" where
  "check_mutation_keys reg u audit cls [] m evs errors = (Inr errors, evs, m)"
| "check_mutation_keys reg u audit cls (key # keys) m evs errors =
     (case mutation_check_permission reg u key m of
        (Inl e, m') \<Rightarrow> (Inl e, evs, m')
      | (Inr allowed, m') \<Rightarrow>
          check_mutation_keys reg u audit cls keys m'
            (if audit then evs @ [\<lparr>ae_action = ''mutation'', ae_attributes = [key], ae_granted = allowed,
               ae_manager = Some cls, ae_permissions = describe_mutation_permissions m' key,
               ae_bypassed = False\<rparr>] else evs)
            (if allowed then errors else errors @ [denied_attribute ''Mutation'' key]))"

definition mutation_check ::
  "('i, 'v) registry \<Rightarrow> user \<Rightarrow> bool \<Rightarrow> string \<Rightarrow> class_value option \<Rightarrow> (string \<times> class_value) list \<Rightarrow>
   string list \<Rightarrow> 'i \<Rightarrow> check_outcome \<times> audit_event list" where
  "mutation_check reg u audit cls mutate class_dict keys data =
     (let m = init_mutation_permission mutate class_dict data in
      if is_superuser u then
        (Passed, if audit then map (\<lambda>key. \<lparr>ae_action = ''mutation'', ae_attributes = [key],
           ae_granted = True, ae_manager = Some cls, ae_permissions = describe_mutation_permissions m key,
           ae_bypassed = True\<rparr>) keys else [])
      else case check_mutation_keys reg u audit cls (if keys = [] then [''__mutate__''] else keys) m [] [] of
        (r, evs, m') \<Rightarrow> (outcome_of r, evs))"

text \<open>The answer without the cache: the global gate and the gate of the field.\<close>

definition mutation_permits ::
  "('i, 'v) registry \<Rightarrow> user \<Rightarrow> 'i mutation_permission \<Rightarrow> string \<Rightarrow> perm_error + bool" where
  "mutation_permits reg u m attribute =
     sbind (case od_get (mp_attributes m) attribute of None \<Rightarrow> Inr True
            | Some ps \<Rightarrow> check_specific_permission reg u m (Some ps)) (\<lambda>a.
       sbind (check_specific_permission reg u m (mp_mutate m)) (\<lambda>g. Inr (g \<and> a)))"

definition mutation_cache_ok :: "('i, 'v) registry \<Rightarrow> user \<Rightarrow> 'i mutation_permission \<Rightarrow> bool" where
  "mutation_cache_ok reg u m =
     (\<forall>b. mp_overall m = Some b \<longrightarrow> check_specific_permission reg u m (mp_mutate m) = Inr b)"

lemma specific_overall [simp]:
  "check_specific_permission reg u (m\<lparr>mp_overall := x\<rparr>) ps = check_specific_permission reg u m ps"
  by (simp add: check_specific_permission_def cong: option.case_cong if_cong)

lemma sbind_return [simp]: "sbind r Inr = r"
  by (cases r) simp_all

lemma mutation_permits_overall [simp]:
  "mutation_permits reg u (m\<lparr>mp_overall := x\<rparr>) attribute = mutation_permits reg u m attribute"
  by (simp add: mutation_permits_def cong: option.case_cong)

lemma mutation_check_refines:
  assumes "mutation_cache_ok reg u m" "mutation_check_permission reg u attribute m = (r, m')"
  shows "r = mutation_permits reg u m attribute \<and> mutation_cache_ok reg u m' \<and> (\<exists>x. m' = m\<lparr>mp_overall := x\<rparr>)"
proof -
  have self: "\<exists>x. m = m\<lparr>mp_overall := x\<rparr>" by (intro exI [of _ "mp_overall m"]) simp
  show ?thesis
  proof (cases "od_get (mp_attributes m) attribute")
    case None
    show ?thesis
    proof (cases "mp_overall m")
      case (Some b)
      with assms None self show ?thesis
        by (auto simp: mutation_check_permission_def mutation_cache_ok_def mutation_permits_def)
    next
      case ov: None
      show ?thesis
      proof (cases "check_specific_permission reg u m (mp_mutate m)")
        case (Inl e)
        with assms None ov self show ?thesis
          by (auto simp: mutation_check_permission_def mutation_permits_def)
      next
        case (Inr b)
        with assms None ov show ?thesis
          by (auto simp: mutation_check_permission_def mutation_permits_def mutation_cache_ok_def)
      qed
    qed
  next
    case (Some ps)
    show ?thesis
    proof (cases "check_specific_permission reg u m (Some ps)")
      case (Inl e)
      with assms(2) Some have "r = Inl e" "m' = m" by (simp_all add: mutation_check_permission_def)
      with Inl Some self assms(1) show ?thesis by (simp add: mutation_permits_def)
    next
      case a: (Inr a)
      show ?thesis
      proof (cases "check_specific_permission reg u m (mp_mutate m)")
        case (Inl e)
        with assms(2) Some a have "r = Inl e" "m' = m" by (simp_all add: mutation_check_permission_def)
        with Inl Some a self assms(1) show ?thesis by (simp add: mutation_permits_def)
      next
        case (Inr b)
        with assms Some a show ?thesis
          by (auto simp: mutation_check_permission_def mutation_permits_def mutation_cache_ok_def)
      qed
    qed
  qed
qed

lemma check_mutation_keys_denies:
  "mutation_cache_ok reg u m \<Longrightarrow> \<forall>k\<in>set keys. mutation_permits reg u m k = Inr (g k) \<Longrightarrow>
    \<exists>evs' m'. check_mutation_keys reg u audit cls keys m evs errors =
      (Inr (errors @ map (denied_attribute ''Mutation'') (filter (\<lambda>k. \<not> g k) keys)), evs', m') \<and>
      verdicts evs' = verdicts evs @ (if audit then map (\<lambda>k. ([k], g k, False)) keys else [])"
proof (induction keys arbitrary: m evs errors)
  case Nil
  then show ?case by simp
next
  case (Cons k keys)
  obtain r m' where c: "mutation_check_permission reg u k m = (r, m')"
    by (cases "mutation_check_permission reg u k m")
  from mutation_check_refines [OF Cons.prems(1) c] obtain x where
    r: "r = mutation_permits reg u m k" "mutation_cache_ok reg u m'" "m' = m\<lparr>mp_overall := x\<rparr>" by blast
  from Cons.prems(2) r(3) have "\<forall>k\<in>set keys. mutation_permits reg u m' k = Inr (g k)" by simp
  note ih = Cons.IH [OF r(2) this]
  have res: "r = Inr (g k)" using r(1) Cons.prems(2) by simp
  let ?ev = "\<lparr>ae_action = ''mutation'', ae_attributes = [k], ae_granted = g k, ae_manager = Some cls,
    ae_permissions = describe_mutation_permissions m' k, ae_bypassed = False\<rparr>"
  let ?errors = "if g k then errors else errors @ [denied_attribute ''Mutation'' k]"
  let ?evs = "if audit then evs @ [?ev] else evs"
  have step: "check_mutation_keys reg u audit cls (k # keys) m evs errors =
    check_mutation_keys reg u audit cls keys m' ?evs ?errors"
    using c res by simp
  from ih [of ?evs ?errors] obtain evs' m'' where
    "check_mutation_keys reg u audit cls keys m' ?evs ?errors =
      (Inr (?errors @ map (denied_attribute ''Mutation'') (filter (\<lambda>k. \<not> g k) keys)), evs', m'')"
    "verdicts evs' = verdicts ?evs @ (if audit then map (\<lambda>k. ([k], g k, False)) keys else [])" by blast
  with step show ?case by (simp add: verdicts_def)
qed


section \<open>Properties\<close>

text \<open>
  What a write check answers for a payload, given the verdict \<open>g\<close> of every attribute and
  \<open>opg\<close> of the operation, which only an empty payload consults.
\<close>

definition denied_messages :: "string \<Rightarrow> bool \<Rightarrow> (string \<Rightarrow> bool) \<Rightarrow> string list \<Rightarrow> string list" where
  "denied_messages title opg g keys =
     (if keys = [] \<and> \<not> opg then [title @ '' permission denied''] else []) @
     map (denied_attribute title) (filter (\<lambda>k. \<not> g k) keys)"

lemma check_operation_event_denies:
  assumes "action \<in> {''create'', ''read'', ''update'', ''delete''}" "cache_ok reg u p"
    "operation_permits reg u action p = Inr opg"
  shows "\<exists>evs p'. check_operation_event reg u audit action title manager p =
    (Inr (if opg then [] else [title @ '' permission denied'']), evs, p') \<and> cache_ok reg u p' \<and> fresh p' = fresh p"
proof -
  obtain res p' where c: "check_operation_permission reg u action p = (res, p')"
    by (cases "check_operation_permission reg u action p")
  from check_operation_refines [OF assms(2), of action] c assms(3)
  have r: "res = Inr opg" "cache_ok reg u p'" "fresh p' = fresh p" by (simp_all add: refines_def)
  have "\<exists>ds. describe_operation_permissions action p' = Inr ds"
  proof (induction p' rule: fresh.induct)
    case (1 n basis)
    obtain base where "get_base_permissions n action = Inr base"
      using assms(1) by (auto simp: get_base_permissions_def)
    with 1 show ?case by (cases basis) auto
  qed
  then obtain ds where "describe_operation_permissions action p' = Inr ds" by blast
  with c r show ?thesis by (simp add: check_operation_event_def Let_def)
qed

lemma write_check_denies:
  assumes act: "action \<in> {''create'', ''read'', ''update'', ''delete''}" and ok: "cache_ok reg u p"
    and opg: "operation_permits reg u action p = Inr opg"
    and g: "\<forall>k\<in>set keys. permits reg u action k p = Inr (g k)"
  shows "\<exists>evs. (case (if keys = [] then check_operation_event reg u audit action title manager p
                 else (Inr [], [], p)) of
        (Inl e, evs, p') \<Rightarrow> (Raised e, evs)
      | (Inr errors, evs, p') \<Rightarrow>
          (case check_keys reg u audit action title manager keys p' evs errors of
             (r, evs', p'') \<Rightarrow> (outcome_of r, evs'))) = (raise_errors (denied_messages title opg g keys), evs) \<and>
     (keys \<noteq> [] \<longrightarrow> audit \<longrightarrow> verdicts evs = map (\<lambda>k. ([k], g k, False)) keys)"
proof (cases "keys = []")
  case True
  with check_operation_event_denies [OF act ok opg, of audit title manager]
  show ?thesis by (auto simp: outcome_of_def denied_messages_def)
next
  case False
  from check_keys_denies [OF act ok g, of audit title manager "[]" "[]"] obtain evs p' where
    "check_keys reg u audit action title manager keys p [] [] =
      (Inr (map (denied_attribute title) (filter (\<lambda>k. \<not> g k) keys)), evs, p')"
    "verdicts evs = (if audit then map (\<lambda>k. ([k], g k, False)) keys else [])"
    by (auto simp: verdicts_def)
  with False show ?thesis by (simp add: outcome_of_def denied_messages_def)
qed

text \<open>C23: A create is refused exactly for the attributes the user may not set: the handler
  raises with one message per denied attribute in payload order (an empty payload is refused
  exactly when the create operation is), passes when nothing is denied, and the audit trail
  records every attribute with its verdict.\<close>

theorem create_denies_exactly:
  assumes "cache_ok reg u p" "\<not> is_superuser u" "operation_permits reg u ''create'' p = Inr opg"
    and "\<forall>k\<in>set data. permits reg u ''create'' k p = Inr (g k)"
  shows "\<exists>evs. check_create_permission reg u audit manager data p =
      (raise_errors (denied_messages ''Create'' opg g data), evs) \<and>
    (data \<noteq> [] \<longrightarrow> audit \<longrightarrow> verdicts evs = map (\<lambda>k. ([k], g k, False)) data)"
  unfolding check_create_permission_def using assms(2)
  by (simp only: if_False) (rule write_check_denies [OF _ assms(1,3,4)], simp)

lemma sample_cache_ok: "cache_ok reg u (sample_perm m)"
proof -
  have "fresh (sample_perm m) = sample_perm m"
    by (simp add: sample_perm_def base_node_def set_effective_permissions_def clear_node_def Let_def)
  then show ?thesis using cache_ok_fresh [of reg u "sample_perm m"] by simp
qed

lemma create_denies_exactly_witness:
  "\<exists>evs. check_create_permission builtin_registry sample_user True (Some ''Staff'') [''name''] (sample_perm Additive) =
     (Passed, evs) \<and> verdicts evs = [([''name''], True, False)]"
proof -
  have "\<exists>evs. check_create_permission builtin_registry sample_user True (Some ''Staff'') [''name''] (sample_perm Additive) =
     (raise_errors (denied_messages ''Create'' True (\<lambda>k. True) [''name'']), evs) \<and>
   ([''name''] \<noteq> [] \<longrightarrow> True \<longrightarrow> verdicts evs = map (\<lambda>k. ([k], True, False)) [''name''])"
  proof (rule create_denies_exactly [OF sample_cache_ok])
    show "\<not> is_superuser sample_user" by code_simp
    show "operation_permits builtin_registry sample_user ''create'' (sample_perm Additive) = Inr True" by code_simp
    show "\<forall>k\<in>set [''name'']. permits builtin_registry sample_user ''create'' k (sample_perm Additive) = Inr True"
      by code_simp
  qed
  then show ?thesis by (simp add: raise_errors_def denied_messages_def)
qed

text \<open>An update is refused exactly for the attributes the user may not change, with one
  message per denied attribute in payload order, and an empty payload exactly when the update
  operation is denied.\<close>

theorem update_denies_exactly:
  assumes "cache_ok reg u p" "\<not> is_superuser u" "operation_permits reg u ''update'' p = Inr opg"
    and "\<forall>k\<in>set data. permits reg u ''update'' k p = Inr (g k)"
  shows "\<exists>evs. check_update_permission reg u audit manager data p =
      (raise_errors (denied_messages ''Update'' opg g data), evs) \<and>
    (data \<noteq> [] \<longrightarrow> audit \<longrightarrow> verdicts evs = map (\<lambda>k. ([k], g k, False)) data)"
  unfolding check_update_permission_def using assms(2)
  by (simp only: if_False) (rule write_check_denies [OF _ assms(1,3,4)], simp)

lemma update_denies_exactly_witness:
  "\<exists>evs. check_update_permission builtin_registry sample_user True None [''name'', ''salary''] (sample_perm Additive) =
     (PermissionDenied [denied_attribute ''Update'' ''salary''], evs) \<and>
   verdicts evs = [([''name''], True, False), ([''salary''], False, False)]"
proof -
  have "\<exists>evs. check_update_permission builtin_registry sample_user True None [''name'', ''salary''] (sample_perm Additive) =
     (raise_errors (denied_messages ''Update'' True (\<lambda>k. k \<noteq> ''salary'') [''name'', ''salary'']), evs) \<and>
   ([''name'', ''salary''] \<noteq> [] \<longrightarrow> True \<longrightarrow>
      verdicts evs = map (\<lambda>k. ([k], k \<noteq> ''salary'', False)) [''name'', ''salary''])"
  proof (rule update_denies_exactly [OF sample_cache_ok])
    show "\<not> is_superuser sample_user" by code_simp
    show "operation_permits builtin_registry sample_user ''update'' (sample_perm Additive) = Inr True" by code_simp
    show "\<forall>k\<in>set [''name'', ''salary'']. permits builtin_registry sample_user ''update'' k (sample_perm Additive) =
      Inr (k \<noteq> ''salary'')" by code_simp
  qed
  then show ?thesis by (simp add: raise_errors_def denied_messages_def)
qed

text \<open>A mutation is refused exactly for the payload fields whose own gate or whose global
  gate denies the user, with one message per field in payload order (an empty payload asks the
  global gate alone); the cache of the global gate, filled by whichever field comes first,
  never changes an answer.\<close>

theorem mutation_denies_exactly:
  assumes "\<not> is_superuser u" "names = (if keys = [] then [''__mutate__''] else keys)"
    and "\<forall>k\<in>set names. mutation_permits reg u (init_mutation_permission mutate class_dict data) k = Inr (g k)"
  shows "\<exists>evs. mutation_check reg u audit cls mutate class_dict keys data =
      (raise_errors (map (denied_attribute ''Mutation'') (filter (\<lambda>k. \<not> g k) names)), evs) \<and>
    verdicts evs = (if audit then map (\<lambda>k. ([k], g k, False)) names else [])"
proof -
  let ?m = "init_mutation_permission mutate class_dict data"
  have "mutation_cache_ok reg u ?m"
    by (simp add: mutation_cache_ok_def init_mutation_permission_def)
  from check_mutation_keys_denies [OF this assms(3), of audit cls "[]" "[]"] obtain evs m' where
    "check_mutation_keys reg u audit cls names ?m [] [] =
      (Inr (map (denied_attribute ''Mutation'') (filter (\<lambda>k. \<not> g k) names)), evs, m')"
    "verdicts evs = (if audit then map (\<lambda>k. ([k], g k, False)) names else [])"
    by (auto simp: verdicts_def)
  with assms(1,2) show ?thesis by (simp add: mutation_check_def outcome_of_def)
qed

lemma mutation_denies_exactly_witness:
  "\<exists>evs. mutation_check builtin_registry sample_user True ''Rename'' (Some (ClassList [Some ''isAuthenticated'']))
      [(''title'', ClassList [Some ''isAdmin'']), (''note'', ClassOther)] [''title'', ''note''] (\<lambda>a. PNone) =
     (raise_errors (map (denied_attribute ''Mutation'') (filter (\<lambda>k. \<not> (k = ''note'')) [''title'', ''note''])), evs) \<and>
   verdicts evs = (if True then map (\<lambda>k. ([k], k = ''note'', False)) [''title'', ''note''] else [])"
proof (rule mutation_denies_exactly)
  show "\<not> is_superuser sample_user" by code_simp
  show "[''title'', ''note''] = (if [''title'', ''note''] = [] then [''__mutate__''] else [''title'', ''note''])" by simp
  show "\<forall>k\<in>set [''title'', ''note'']. mutation_permits builtin_registry sample_user
      (init_mutation_permission (Some (ClassList [Some ''isAuthenticated'']))
        [(''title'', ClassList [Some ''isAdmin'']), (''note'', ClassOther)] (\<lambda>a. PNone)) k = Inr (k = ''note'')"
    by code_simp
qed

end
