(* ===== verification/WfRouting.thy ===== *)
theory WfRouting
  imports Results
begin

text \<open>
  Event routing of the workflow registries, \<open>workflow/event_registry.py\<close>: registration with its
  duplicate check, the handlers that match an event, one handler with its retries and dead
  letter, and the in-memory registry with its bounded cache of seen event ids. The database
  registry shares the routing and supplies its own attempt of a handler.

  User code (handlers, validators, dead-letter handlers) acts on a world \<open>'w\<close>; a registry has
  data \<open>'d\<close> of its own, and routing threads the pair. A raised exception is a value of
  \<open>wf_exn\<close>: the internal \<open>_DeliveryInProgressError\<close> or any other one with its \<open>str()\<close>.
\<close>

section \<open>Events and registrations\<close>

datatype wf_exn = DeliveryInProgress nat | Failure string

record 'p wf_event =
  ev_id :: string
  ev_type :: string
  ev_payload :: 'p
  ev_name :: "string option"
  ev_source :: "string option"
  ev_occurred_at :: "nat option"
  ev_metadata :: 'p

text \<open>\<open>reg_paths\<close> are the \<open>_callable_path\<close>s of the five callables, in the order of the digest.\<close>

record ('p, 'w) registration =
  reg_event_key :: string
  reg_id :: string
  reg_paths :: "string list"
  reg_handler :: "'p wf_event \<Rightarrow> 'w \<Rightarrow> wf_exn option \<times> 'w"
  reg_validator :: "('p wf_event \<Rightarrow> 'w \<Rightarrow> wf_exn option \<times> 'w) option"
  reg_when :: "('p wf_event \<Rightarrow> 'w \<Rightarrow> wf_exn + bool) option"
  reg_retries :: nat
  reg_retry_on :: "(wf_exn \<Rightarrow> wf_exn + bool) option"
  reg_dead_letter :: "('p wf_event \<Rightarrow> wf_exn \<Rightarrow> 'w \<Rightarrow> wf_exn option \<times> 'w) option"

text \<open>\<open>digest\<close> is the hexadecimal SHA-1 of a string; the paths are handler, validator, when,
  retry_on and dead-letter handler.\<close>

definition registration_id :: "(string \<Rightarrow> string) \<Rightarrow> string \<Rightarrow> string list \<Rightarrow> nat \<Rightarrow> string" where
  "registration_id digest event paths retries =
     digest (join_char CHR '':'' (event # take 3 paths @ [decimal retries] @ drop 3 paths))"

record ('p, 'w) routing_tables =
  by_type :: "(string, ('p, 'w) registration list) odict"
  by_name :: "(string, ('p, 'w) registration list) odict"

definition bucket_at :: "(string, 'a list) odict \<Rightarrow> string \<Rightarrow> 'a list" where
  "bucket_at table key = (case od_get table key of None \<Rightarrow> [] | Some b \<Rightarrow> b)"

definition add_registration ::
  "('p, 'w) registration \<Rightarrow> (string, ('p, 'w) registration list) odict \<Rightarrow>
   (string, ('p, 'w) registration list) odict" where
  "add_registration r table =
     (let bucket = bucket_at table (reg_event_key r) in
      if list_ex (\<lambda>x. reg_id x = reg_id r) bucket then od_set (reg_event_key r) bucket table
      else od_set (reg_event_key r) (bucket @ [r]) table)"

text \<open>
  \<open>register\<close>: the retry count is clamped at zero and the identity is the digest; a key with
  a dot routes by type, any other by name.
\<close>

definition register ::
  "(string \<Rightarrow> string) \<Rightarrow> string \<Rightarrow> int \<Rightarrow> ('p, 'w) registration \<Rightarrow> ('p, 'w) routing_tables \<Rightarrow>
   ('p, 'w) routing_tables" where
  "register digest event retries given tables =
     (let retry_count = nat (max 0 retries);
          r = given\<lparr>reg_event_key := event, reg_retries := retry_count,
                reg_id := registration_id digest event (reg_paths given) retry_count\<rparr>
      in if CHR ''.'' \<in> set event then tables\<lparr>by_type := add_registration r (by_type tables)\<rparr>
         else tables\<lparr>by_name := add_registration r (by_name tables)\<rparr>)"

definition get_entries :: "('p, 'w) routing_tables \<Rightarrow> 'p wf_event \<Rightarrow> ('p, 'w) registration list" where
  "get_entries tables ev =
     bucket_at (by_type tables) (ev_type ev) @
     bucket_at (by_name tables) (case ev_name ev of None \<Rightarrow> [] | Some n \<Rightarrow> n)"

section \<open>Running one handler\<close>

definition on_world :: "('w \<Rightarrow> 'a \<times> 'w) \<Rightarrow> 'd \<times> 'w \<Rightarrow> 'a \<times> 'd \<times> 'w" where
  "on_world f s = (case f (snd s) of (a, w) \<Rightarrow> (a, fst s, w))"

text \<open>
  \<open>_send_to_dead_letter\<close>: the handler of the registration, else the registry's own, else only
  a log line. The result is the exception the handler raised, if any.
\<close>

definition send_to_dead_letter ::
  "('p wf_event \<Rightarrow> wf_exn \<Rightarrow> 'w \<Rightarrow> wf_exn option \<times> 'w) option \<Rightarrow> 'p wf_event \<Rightarrow> wf_exn \<Rightarrow>
   ('p, 'w) registration \<Rightarrow> 'd \<times> 'w \<Rightarrow> wf_exn option \<times> 'd \<times> 'w" where
  "send_to_dead_letter fallback ev e r s =
     (case (case reg_dead_letter r of Some h \<Rightarrow> Some h | None \<Rightarrow> fallback) of
        None \<Rightarrow> (None, s)
      | Some h \<Rightarrow> on_world (h ev e) s)"

text \<open>
  \<open>_run_handler_with_retry\<close>: \<open>left\<close> attempts remain, \<open>attempt\<close> is the number of the next one.
\<close>

fun run_attempts ::
  "('p wf_event \<Rightarrow> ('p, 'w) registration \<Rightarrow> nat \<Rightarrow> 'd \<times> 'w \<Rightarrow> (wf_exn + bool) \<times> 'd \<times> 'w) \<Rightarrow>
   ('p wf_event \<Rightarrow> wf_exn \<Rightarrow> 'w \<Rightarrow> wf_exn option \<times> 'w) option \<Rightarrow>
   'p wf_event \<Rightarrow> ('p, 'w) registration \<Rightarrow> nat \<Rightarrow> nat \<Rightarrow> 'd \<times> 'w \<Rightarrow> (wf_exn + bool) \<times> 'd \<times> 'w" where
  "run_attempts try_handler fallback ev r 0 attempt s = (Inr False, s)"
| "run_attempts try_handler fallback ev r (Suc left) attempt s =
     (case try_handler ev r attempt s of
        (Inr b, s') \<Rightarrow> (Inr b, s')
      | (Inl (DeliveryInProgress i), s') \<Rightarrow> (Inl (DeliveryInProgress i), s')
      | (Inl (Failure m), s') \<Rightarrow>
          (case (if left > 0 then (case reg_retry_on r of None \<Rightarrow> Inr True | Some f \<Rightarrow> f (Failure m))
                 else Inr False) of
             Inl e \<Rightarrow> (Inl e, s')
           | Inr True \<Rightarrow> run_attempts try_handler fallback ev r left (Suc attempt) s'
           | Inr False \<Rightarrow>
               (case send_to_dead_letter fallback ev (Failure m) r s' of
                  (Some e, s'') \<Rightarrow> (Inl e, s'')
                | (None, s'') \<Rightarrow> (Inr False, s''))))"

definition run_handler_with_retry ::
  "('p wf_event \<Rightarrow> ('p, 'w) registration \<Rightarrow> nat \<Rightarrow> 'd \<times> 'w \<Rightarrow> (wf_exn + bool) \<times> 'd \<times> 'w) \<Rightarrow>
   ('p wf_event \<Rightarrow> wf_exn \<Rightarrow> 'w \<Rightarrow> wf_exn option \<times> 'w) option \<Rightarrow>
   'p wf_event \<Rightarrow> ('p, 'w) registration \<Rightarrow> 'd \<times> 'w \<Rightarrow> (wf_exn + bool) \<times> 'd \<times> 'w" where
  "run_handler_with_retry try_handler fallback ev r s =
     run_attempts try_handler fallback ev r (reg_retries r + 1) 1 s"

section \<open>Routing an event\<close>

record routing_outcome =
  handled :: bool
  had_applicable_handlers :: bool

fun route_entries ::
  "('p wf_event \<Rightarrow> ('p, 'w) registration \<Rightarrow> nat \<Rightarrow> 'd \<times> 'w \<Rightarrow> (wf_exn + bool) \<times> 'd \<times> 'w) \<Rightarrow>
   ('p wf_event \<Rightarrow> wf_exn \<Rightarrow> 'w \<Rightarrow> wf_exn option \<times> 'w) option \<Rightarrow>
   'p wf_event \<Rightarrow> ('p, 'w) registration list \<Rightarrow> routing_outcome \<Rightarrow> 'd \<times> 'w \<Rightarrow>
   (wf_exn + routing_outcome) \<times> 'd \<times> 'w" where
  "route_entries try_handler fallback ev [] oc s = (Inr oc, s)"
| "route_entries try_handler fallback ev (r # rs) oc s =
     (case (case reg_validator r of None \<Rightarrow> (None, s) | Some v \<Rightarrow> on_world (v ev) s) of
        (Some e, s1) \<Rightarrow>
          (case send_to_dead_letter fallback ev e r s1 of
             (Some e', s2) \<Rightarrow> (Inl e', s2)
           | (None, s2) \<Rightarrow> route_entries try_handler fallback ev rs oc s2)
      | (None, s1) \<Rightarrow>
          (case (case reg_when r of None \<Rightarrow> Inr True | Some p \<Rightarrow> p ev (snd s1)) of
             Inl e \<Rightarrow> (Inl e, s1)
           | Inr False \<Rightarrow> route_entries try_handler fallback ev rs oc s1
           | Inr True \<Rightarrow>
               (case run_handler_with_retry try_handler fallback ev r s1 of
                  (Inl e, s2) \<Rightarrow> (Inl e, s2)
                | (Inr b, s2) \<Rightarrow> route_entries try_handler fallback ev rs
                    \<lparr>handled = (handled oc \<or> b), had_applicable_handlers = True\<rparr> s2)))"

definition route_event ::
  "('p wf_event \<Rightarrow> ('p, 'w) registration \<Rightarrow> nat \<Rightarrow> 'd \<times> 'w \<Rightarrow> (wf_exn + bool) \<times> 'd \<times> 'w) \<Rightarrow>
   ('p wf_event \<Rightarrow> wf_exn \<Rightarrow> 'w \<Rightarrow> wf_exn option \<times> 'w) option \<Rightarrow> ('p, 'w) routing_tables \<Rightarrow>
   'p wf_event \<Rightarrow> 'd \<times> 'w \<Rightarrow> (wf_exn + routing_outcome) \<times> 'd \<times> 'w" where
  "route_event try_handler fallback tables ev s =
     route_entries try_handler fallback ev (get_entries tables ev)
       \<lparr>handled = False, had_applicable_handlers = False\<rparr> s"

section \<open>The in-memory registry\<close>

record seen_cache =
  seen_ids :: "string set"
  seen_order :: "string list"
  max_seen :: nat

definition init_seen :: "int \<Rightarrow> seen_cache" where
  "init_seen limit = \<lparr>seen_ids = {}, seen_order = [], max_seen = nat (max 1 limit)\<rparr>"

definition mark_seen :: "string \<Rightarrow> seen_cache \<Rightarrow> seen_cache" where
  "mark_seen i c =
     (let c1 = (if length (seen_order c) \<ge> max_seen c then
                  (case seen_order c of
                     [] \<Rightarrow> c
                   | old # rest \<Rightarrow> c\<lparr>seen_order := rest, seen_ids := seen_ids c - {old}\<rparr>)
                else c)
      in c1\<lparr>seen_ids := insert i (seen_ids c1), seen_order := seen_order c1 @ [i]\<rparr>)"

definition memory_attempt ::
  "'p wf_event \<Rightarrow> ('p, 'w) registration \<Rightarrow> nat \<Rightarrow> 'd \<times> 'w \<Rightarrow> (wf_exn + bool) \<times> 'd \<times> 'w" where
  "memory_attempt ev r attempt s =
     (case on_world (reg_handler r ev) s of
        (Some e, s') \<Rightarrow> (Inl e, s')
      | (None, s') \<Rightarrow> (Inr True, s'))"

definition memory_publish ::
  "('p wf_event \<Rightarrow> wf_exn \<Rightarrow> 'w \<Rightarrow> wf_exn option \<times> 'w) option \<Rightarrow> ('p, 'w) routing_tables \<Rightarrow>
   'p wf_event \<Rightarrow> seen_cache \<times> 'w \<Rightarrow> (wf_exn + bool) \<times> seen_cache \<times> 'w" where
  "memory_publish fallback tables ev s =
     (if ev_id ev \<in> seen_ids (fst s) then (Inr False, s)
      else (case route_event memory_attempt fallback tables ev (mark_seen (ev_id ev) (fst s), snd s) of
          (Inl e, s') \<Rightarrow> (Inl e, s')
        | (Inr oc, s') \<Rightarrow> (Inr (handled oc), s')))"


section \<open>The interface of a delivery\<close>

text \<open>
  What routing relies on, and what it then promises: if one attempt of a handler and any
  action of user code on the world only move the state along a preorder, routing a whole
  event does.
\<close>

locale delivery =
  fixes try_handler :: "'p wf_event \<Rightarrow> ('p, 'w) registration \<Rightarrow> nat \<Rightarrow> 'd \<times> 'w \<Rightarrow> (wf_exn + bool) \<times> 'd \<times> 'w"
    and evolves :: "'d \<times> 'w \<Rightarrow> 'd \<times> 'w \<Rightarrow> bool"
  assumes evolves_refl: "evolves s s"
    and evolves_trans: "evolves s t \<Longrightarrow> evolves t u \<Longrightarrow> evolves s u"
    and evolves_world: "evolves (d, w) (d, w')"
    and evolves_attempt: "try_handler ev r n s = (x, t) \<Longrightarrow> evolves s t"
begin

lemma evolves_on_world: "on_world f s = (a, t) \<Longrightarrow> evolves s t"
  by (cases s) (auto simp: on_world_def evolves_world split: prod.splits)

lemma evolves_dead_letter: "send_to_dead_letter fallback ev e r s = (x, t) \<Longrightarrow> evolves s t"
  by (auto simp: send_to_dead_letter_def evolves_refl evolves_on_world split: option.splits)

lemma evolves_attempts: "run_attempts try_handler fallback ev r n k s = (x, t) \<Longrightarrow> evolves s t"
proof (induction n arbitrary: k s)
  case 0
  then show ?case by (simp add: evolves_refl)
next
  case (Suc n)
  obtain y s' where y: "try_handler ev r k s = (y, s')" by (cases "try_handler ev r k s")
  note e = evolves_attempt [OF y]
  show ?case
  proof (cases y)
    case (Inr b)
    with Suc.prems y e show ?thesis by simp
  next
    case (Inl exn)
    show ?thesis
    proof (cases exn)
      case (DeliveryInProgress i)
      with Suc.prems y e Inl show ?thesis by simp
    next
      case (Failure m)
      obtain d where d: "(if n > 0 then (case reg_retry_on r of None \<Rightarrow> Inr True | Some f \<Rightarrow> f (Failure m))
                 else Inr False) = d" by blast
      note run = Suc.prems [unfolded run_attempts.simps y Inl Failure prod.case sum.case wf_exn.case d]
      show ?thesis
      proof (cases d)
        case (Inl e')
        with run e show ?thesis by simp
      next
        case (Inr b)
        show ?thesis
        proof (cases b)
          case True
          with run Inr have "run_attempts try_handler fallback ev r n (Suc k) s' = (x, t)" by simp
          from evolves_trans [OF e Suc.IH [OF this]] show ?thesis .
        next
          case False
          obtain z s'' where z: "send_to_dead_letter fallback ev (Failure m) r s' = (z, s'')"
            by (cases "send_to_dead_letter fallback ev (Failure m) r s'")
          from run Inr False z have "t = s''" by (cases z) simp_all
          with evolves_trans [OF e evolves_dead_letter [OF z]] show ?thesis by simp
        qed
      qed
    qed
  qed
qed

lemma evolves_handler: "run_handler_with_retry try_handler fallback ev r s = (x, t) \<Longrightarrow> evolves s t"
  unfolding run_handler_with_retry_def by (rule evolves_attempts)

lemma evolves_entries: "route_entries try_handler fallback ev rs oc s = (x, t) \<Longrightarrow> evolves s t"
proof (induction rs arbitrary: oc s)
  case Nil
  then show ?case by (simp add: evolves_refl)
next
  case (Cons r rs)
  obtain v s1 where v: "(case reg_validator r of None \<Rightarrow> (None, s) | Some v \<Rightarrow> on_world (v ev) s) = (v, s1)"
    by (cases "case reg_validator r of None \<Rightarrow> (None, s) | Some v \<Rightarrow> on_world (v ev) s")
  then have e1: "evolves s s1"
    by (cases "reg_validator r") (auto simp: evolves_refl evolves_on_world)
  note run = Cons.prems [unfolded route_entries.simps v prod.case]
  show ?case
  proof (cases v)
    case (Some exn)
    obtain z s2 where z: "send_to_dead_letter fallback ev exn r s1 = (z, s2)"
      by (cases "send_to_dead_letter fallback ev exn r s1")
    have e2: "evolves s s2" by (rule evolves_trans [OF e1 evolves_dead_letter [OF z]])
    show ?thesis
    proof (cases z)
      case (Some e')
      with run \<open>v = Some exn\<close> z e2 show ?thesis by simp
    next
      case None
      with run Some z have "route_entries try_handler fallback ev rs oc s2 = (x, t)" by simp
      from evolves_trans [OF e2 Cons.IH [OF this]] show ?thesis .
    qed
  next
    case None
    obtain p where p: "(case reg_when r of None \<Rightarrow> Inr True | Some p \<Rightarrow> p ev (snd s1)) = p" by blast
    show ?thesis
    proof (cases p)
      case (Inl e)
      with run None p e1 show ?thesis by simp
    next
      case (Inr b)
      show ?thesis
      proof (cases b)
        case False
        with run None p Inr have "route_entries try_handler fallback ev rs oc s1 = (x, t)" by simp
        from evolves_trans [OF e1 Cons.IH [OF this]] show ?thesis .
      next
        case True
        obtain z s2 where z: "run_handler_with_retry try_handler fallback ev r s1 = (z, s2)"
          by (cases "run_handler_with_retry try_handler fallback ev r s1")
        have e2: "evolves s s2" by (rule evolves_trans [OF e1 evolves_handler [OF z]])
        show ?thesis
        proof (cases z)
          case (Inl e)
          with run None p Inr True z e2 show ?thesis by simp
        next
          case (Inr b')
          let ?oc = "\<lparr>handled = (handled oc \<or> b'), had_applicable_handlers = True\<rparr>"
          from run None p \<open>p = Inr b\<close> True z Inr
          have "route_entries try_handler fallback ev rs ?oc s2 = (x, t)" by simp
          from evolves_trans [OF e2 Cons.IH [OF this]] show ?thesis .
        qed
      qed
    qed
  qed
qed

lemma evolves_route: "route_event try_handler fallback tables ev s = (x, t) \<Longrightarrow> evolves s t"
  by (simp add: route_event_def evolves_entries)

end

text \<open>Routing through the in-memory registry leaves its seen cache alone.\<close>

interpretation memory: delivery memory_attempt "\<lambda>s t. fst s = fst t"
  by unfold_locales (auto simp: memory_attempt_def on_world_def split: prod.splits option.splits)

section \<open>Lemmas on the seen cache\<close>

definition seen_ok :: "seen_cache \<Rightarrow> bool" where
  "seen_ok c = (seen_ids c = set (seen_order c) \<and> distinct (seen_order c) \<and>
     length (seen_order c) \<le> max_seen c \<and> 1 \<le> max_seen c)"

lemma seen_ok_init: "seen_ok (init_seen n)"
  by (simp add: seen_ok_def init_seen_def)

lemma mark_seen_ok:
  assumes "seen_ok c" "i \<notin> seen_ids c"
  shows "seen_ok (mark_seen i c) \<and> max_seen (mark_seen i c) = max_seen c"
proof (cases "seen_order c")
  case Nil
  with assms show ?thesis by (simp add: seen_ok_def mark_seen_def Let_def)
next
  case (Cons old rest)
  with assms show ?thesis by (auto simp: seen_ok_def mark_seen_def Let_def)
qed

text \<open>\<open>recent i k c\<close>: at most \<open>k\<close> ids were marked after \<open>i\<close>.\<close>

definition recent :: "string \<Rightarrow> nat \<Rightarrow> seen_cache \<Rightarrow> bool" where
  "recent i k c = (\<exists>xs ys. seen_order c = xs @ i # ys \<and> length ys \<le> k)"

lemma recent_mark_seen:
  assumes ok: "seen_ok c" and r: "recent i k c" and room: "Suc k < max_seen c"
  shows "recent i (Suc k) (mark_seen j c)"
proof -
  from r obtain xs ys where o: "seen_order c = xs @ i # ys" "length ys \<le> k" by (auto simp: recent_def)
  show ?thesis
  proof (cases "length (seen_order c) \<ge> max_seen c")
    case False
    with o have "seen_order (mark_seen j c) = xs @ i # (ys @ [j]) \<and> length (ys @ [j]) \<le> Suc k"
      by (simp add: mark_seen_def Let_def)
    then show ?thesis unfolding recent_def by blast
  next
    case True
    with o room have "xs \<noteq> []" by auto
    then obtain x xs' where "xs = x # xs'" by (cases xs) auto
    with True o have "seen_order (mark_seen j c) = xs' @ i # (ys @ [j]) \<and> length (ys @ [j]) \<le> Suc k"
      by (simp add: mark_seen_def Let_def)
    then show ?thesis unfolding recent_def by blast
  qed
qed

lemma seen_order_mark: "\<exists>xs. seen_order (mark_seen i c) = xs @ [i]"
  by (simp add: mark_seen_def Let_def)

lemma recent_marked: "recent i 0 (mark_seen i c)"
  using seen_order_mark [of i c] unfolding recent_def by blast

lemma recent_weaken: "recent i k c \<Longrightarrow> k \<le> k' \<Longrightarrow> recent i k' c"
  unfolding recent_def by (meson le_trans)

lemma recent_seen: "seen_ok c \<Longrightarrow> recent i k c \<Longrightarrow> i \<in> seen_ids c"
  unfolding recent_def seen_ok_def by (elim exE conjE) simp

lemma memory_publish_cache:
  assumes "memory_publish fallback tables ev s = (x, t)"
  shows "fst t = (if ev_id ev \<in> seen_ids (fst s) then fst s else mark_seen (ev_id ev) (fst s))"
proof (cases "ev_id ev \<in> seen_ids (fst s)")
  case True
  with assms show ?thesis by (simp add: memory_publish_def)
next
  case False
  let ?s = "(mark_seen (ev_id ev) (fst s), snd s)"
  obtain y u where r: "route_event memory_attempt fallback tables ev ?s = (y, u)"
    by (cases "route_event memory_attempt fallback tables ev ?s")
  with assms False have "t = u" by (cases y) (simp_all add: memory_publish_def)
  with memory.evolves_route [OF r] False show ?thesis by simp
qed

lemma publish_keeps_recent:
  assumes "seen_ok (fst s)" "recent i k (fst s)" "Suc k < max_seen (fst s)"
    "memory_publish fallback tables ev s = (x, t)"
  shows "seen_ok (fst t) \<and> recent i (Suc k) (fst t) \<and> max_seen (fst t) = max_seen (fst s)"
  using assms memory_publish_cache [OF assms(4)] mark_seen_ok [of "fst s" "ev_id ev"]
    recent_mark_seen [OF assms(1-3), of "ev_id ev"] recent_weaken [OF assms(2), of "Suc k"]
  by simp

fun publish_all ::
  "('p wf_event \<Rightarrow> wf_exn \<Rightarrow> 'w \<Rightarrow> wf_exn option \<times> 'w) option \<Rightarrow> ('p, 'w) routing_tables \<Rightarrow>
   'p wf_event list \<Rightarrow> seen_cache \<times> 'w \<Rightarrow> seen_cache \<times> 'w" where
  "publish_all fallback tables [] s = s"
| "publish_all fallback tables (ev # evs) s =
     publish_all fallback tables evs (snd (memory_publish fallback tables ev s))"

lemma publish_all_keeps_recent:
  "seen_ok (fst s) \<Longrightarrow> recent i k (fst s) \<Longrightarrow> k + length evs < max_seen (fst s) \<Longrightarrow>
    seen_ok (fst (publish_all fallback tables evs s)) \<and>
    recent i (k + length evs) (fst (publish_all fallback tables evs s))"
proof (induction evs arbitrary: k s)
  case Nil
  then show ?case by simp
next
  case (Cons ev evs)
  obtain x t where p: "memory_publish fallback tables ev s = (x, t)"
    by (cases "memory_publish fallback tables ev s")
  have room: "Suc k < max_seen (fst s)" using Cons.prems(3) by simp
  from publish_keeps_recent [OF Cons.prems(1,2) room p]
  have t: "seen_ok (fst t)" "recent i (Suc k) (fst t)" "max_seen (fst t) = max_seen (fst s)" by blast+
  from Cons.IH [OF t(1,2)] t(3) Cons.prems(3) p show ?case by simp
qed

section \<open>Lemmas on registration and retries\<close>

lemma od_set_present: "od_get d k = Some v \<Longrightarrow> od_set k v d = d"
  by (induction d) (auto split: if_splits)

lemma add_registration_twice: "add_registration r (add_registration r table) = add_registration r table"
proof -
  let ?b = "bucket_at table (reg_event_key r)"
  obtain b where b: "add_registration r table = od_set (reg_event_key r) b table"
      "list_ex (\<lambda>x. reg_id x = reg_id r) b"
    by (cases "list_ex (\<lambda>x. reg_id x = reg_id r) ?b") (auto simp: add_registration_def Let_def)
  have g: "od_get (add_registration r table) (reg_event_key r) = Some b"
    unfolding b by (simp add: od_get_set)
  then have "bucket_at (add_registration r table) (reg_event_key r) = b" by (simp add: bucket_at_def)
  with b(2) show ?thesis by (subst add_registration_def) (simp add: Let_def od_set_present [OF g])
qed

lemma failing_attempts:
  assumes "reg_handler r = (\<lambda>e w. (Some (Failure m), tick w))" "reg_retry_on r = None"
    "reg_dead_letter r = Some (\<lambda>e x w. (None, dead x w))"
  shows "run_attempts memory_attempt fallback ev r (Suc n) k (d, w) =
    (Inr False, d, dead (Failure m) ((tick ^^ Suc n) w))"
proof (induction n arbitrary: k w)
  case 0
  show ?case by (simp add: assms memory_attempt_def on_world_def send_to_dead_letter_def)
next
  case (Suc n)
  have "run_attempts memory_attempt fallback ev r (Suc (Suc n)) k (d, w) =
      run_attempts memory_attempt fallback ev r (Suc n) (Suc k) (d, tick w)"
    by (subst run_attempts.simps)
      (simp add: assms(1,2) memory_attempt_def on_world_def del: run_attempts.simps)
  also have "\<dots> = (Inr False, d, dead (Failure m) ((tick ^^ Suc n) (tick w)))" by (rule Suc.IH)
  finally show ?case by (simp add: funpow_swap1)
qed

section \<open>Properties\<close>

text \<open>The in-memory registry suppresses duplicates within its window: after an event was
  accepted, an event with the same id is refused without any handler running as long as fewer
  than \<open>max_seen_event_ids\<close> other events were published in between, whatever the handlers did
  and whether or not they raised.\<close>

theorem duplicates_suppressed:
  assumes "seen_ok (fst s)" "ev_id ev \<notin> seen_ids (fst s)" "ev_id ev' = ev_id ev"
    "length evs < max_seen (fst s)"
  shows "memory_publish fallback tables ev'
      (publish_all fallback tables evs (snd (memory_publish fallback tables ev s))) =
    (Inr False, publish_all fallback tables evs (snd (memory_publish fallback tables ev s)))"
proof -
  obtain x s1 where p: "memory_publish fallback tables ev s = (x, s1)"
    by (cases "memory_publish fallback tables ev s")
  have c: "fst s1 = mark_seen (ev_id ev) (fst s)" using memory_publish_cache [OF p] assms(2) by simp
  have s1: "seen_ok (fst s1)" "max_seen (fst s1) = max_seen (fst s)"
    using mark_seen_ok [OF assms(1,2)] by (simp_all add: c)
  have r: "recent (ev_id ev) 0 (fst s1)" unfolding c by (rule recent_marked)
  from publish_all_keeps_recent [OF s1(1) r, of evs fallback tables] s1(2) assms(4)
  have "ev_id ev \<in> seen_ids (fst (publish_all fallback tables evs s1))"
    by (auto intro: recent_seen)
  with assms(3) p show ?thesis by (simp add: memory_publish_def)
qed

lemma duplicates_suppressed_witness:
  "let c = init_seen 2; s = (c, 0 :: nat);
       ev = \<lparr>ev_id = ''e1'', ev_type = ''a.b'', ev_payload = (), ev_name = None, ev_source = None,
             ev_occurred_at = None, ev_metadata = ()\<rparr>;
       r = \<lparr>reg_event_key = ''a.b'', reg_id = ''r'', reg_paths = [], reg_handler = \<lambda>e w. (None, w + 1),
            reg_validator = None, reg_when = None, reg_retries = 0, reg_retry_on = None,
            reg_dead_letter = None\<rparr>;
       tables = \<lparr>by_type = [(''a.b'', [r])], by_name = []\<rparr>;
       t = publish_all None tables [ev\<lparr>ev_id := ''e2''\<rparr>] (snd (memory_publish None tables ev s))
   in memory_publish None tables ev t = (Inr False, t)"
  unfolding Let_def
  by (rule duplicates_suppressed) (simp_all add: seen_ok_def init_seen_def)

text \<open>Registering the same registration again is registering it once: the tables, and so the
  handlers an event reaches, are the same.\<close>

theorem register_idempotent:
  "register digest event retries r (register digest event retries r tables) =
   register digest event retries r tables"
  by (simp add: register_def Let_def add_registration_twice)

text \<open>A handler that fails every time with the default retry policy runs exactly
  \<open>retries + 1\<close> times, then its event goes to the dead-letter handler once, with the last
  exception, and the registration reports failure.\<close>

theorem retries_then_dead_letters_once:
  "run_handler_with_retry memory_attempt fallback ev
     (r\<lparr>reg_handler := \<lambda>e w. (Some (Failure m), tick w), reg_retry_on := None,
        reg_dead_letter := Some (\<lambda>e x w. (None, dead x w))\<rparr>) (d, w) =
   (Inr False, d, dead (Failure m) ((tick ^^ (reg_retries r + 1)) w))"
  unfolding run_handler_with_retry_def
  by (simp add: failing_attempts [where n = "reg_retries r"] del: run_attempts.simps funpow.simps)

end
