(* ===== verification/WfOutbox.thy ===== *)
theory WfOutbox
  imports WfRouting WfConfig
begin

text \<open>
  The database event registry of \<open>workflow/event_registry.py\<close> with the rows of
  \<open>workflow/models.py\<close> and the outbox tasks of \<open>workflow/tasks.py\<close>. A table is an ordered
  dictionary from its key to its rows; each \<open>transaction.atomic()\<close> block is one function on
  the store, so that workers interleave between them. Times are microseconds, \<open>now w\<close> is the
  clock read in world \<open>w\<close>, \<open>fresh n\<close> the \<open>n\<close>-th \<open>uuid4().hex\<close>.
\<close>

section \<open>Rows and store\<close>

datatype outbox_status = OPending | OClaimed | OProcessed | OFailed | ODeadLetter

datatype delivery_status = DPending | DRunning | DCompleted | DFailed | DDeadLetter

record outbox_row =
  ob_event :: string
  ob_status :: outbox_status
  ob_available_at :: int
  ob_claimed_at :: "int option"
  ob_claim_token :: "string option"
  ob_attempts :: nat
  ob_last_error :: "string option"
  ob_created_at :: int
  ob_updated_at :: int

record delivery_row =
  da_pk :: nat
  da_event :: string
  da_registration :: string
  da_status :: delivery_status
  da_attempts :: nat
  da_last_error :: "string option"
  da_last_traceback :: "string option"
  da_updated_at :: int

text \<open>Celery messages that were sent with \<open>delay\<close>.\<close>

datatype outbox_task = PublishBatch | RouteClaims "(nat \<times> string) list"

record 'p store =
  events :: "(string, 'p wf_event) odict"
  outbox :: "(nat, outbox_row) odict"
  deliveries :: "(string, delivery_row) odict"
  next_outbox :: nat
  next_delivery :: nat
  tokens_issued :: nat
  messages :: "outbox_task list"

definition seconds :: "int \<Rightarrow> int" where
  "seconds n = 1000000 * n"

fun exn_text :: "wf_exn \<Rightarrow> string" where
  "exn_text (Failure m) = m"
| "exn_text (DeliveryInProgress i) = ''Delivery attempt '' @ decimal i @ '' is already running.''"

section \<open>Publishing\<close>

text \<open>The unique \<open>event_id\<close>: \<^const>\<open>None\<close> is the \<open>IntegrityError\<close>.\<close>

definition create_event :: "'p wf_event \<Rightarrow> 'p store \<Rightarrow> 'p store option" where
  "create_event ev db =
     (case od_get (events db) (ev_id ev) of
        Some _ \<Rightarrow> None
      | None \<Rightarrow> Some (db\<lparr>events := events db @ [(ev_id ev, ev)]\<rparr>))"

definition save_event :: "'p wf_event \<Rightarrow> 'p store \<Rightarrow> 'p store" where
  "save_event ev db = (case create_event ev db of None \<Rightarrow> db | Some db' \<Rightarrow> db')"

definition new_outbox_row :: "string \<Rightarrow> int \<Rightarrow> outbox_row" where
  "new_outbox_row i t =
     \<lparr>ob_event = i, ob_status = OPending, ob_available_at = t, ob_claimed_at = None,
      ob_claim_token = None, ob_attempts = 0, ob_last_error = None, ob_created_at = t,
      ob_updated_at = t\<rparr>"

text \<open>The transaction of \<open>publish\<close>: event record and outbox row together, or neither.\<close>

definition publish_row :: "'p wf_event \<Rightarrow> int \<Rightarrow> 'p store \<Rightarrow> (nat \<times> 'p store) option" where
  "publish_row ev t db =
     (case create_event ev db of
        None \<Rightarrow> None
      | Some db' \<Rightarrow>
          (let pk = next_outbox db' in
           Some (pk, db'\<lparr>outbox := outbox db' @ [(pk, new_outbox_row (ev_id ev) t)],
                          next_outbox := Suc pk\<rparr>)))"

section \<open>One delivery of an event to a handler\<close>

datatype begin_result = NoEvent | AlreadyDone | InProgress nat | Started

definition delivery_key :: "string \<Rightarrow> string \<Rightarrow> string" where
  "delivery_key eid reg = eid @ '':'' @ reg"

text \<open>The first part of \<open>_attempt_handler\<close>, up to the end of its transaction.\<close>

definition begin_delivery ::
  "settings \<Rightarrow> string \<Rightarrow> string \<Rightarrow> nat \<Rightarrow> int \<Rightarrow> 'p store \<Rightarrow> begin_result \<times> 'p store" where
  "begin_delivery st eid reg attempt t db =
     (case od_get (events db) eid of
        None \<Rightarrow> (NoEvent, db)
      | Some _ \<Rightarrow>
          (let key = delivery_key eid reg;
               (row, db1) =
                 (case od_get (deliveries db) key of
                    Some row \<Rightarrow> (row, db)
                  | None \<Rightarrow>
                      (let row = \<lparr>da_pk = next_delivery db, da_event = eid,
                             da_registration = reg, da_status = DPending, da_attempts = 0,
                             da_last_error = None, da_last_traceback = None, da_updated_at = t\<rparr>
                       in (row, db\<lparr>deliveries := od_set key row (deliveries db),
                                    next_delivery := Suc (next_delivery db)\<rparr>)))
           in if da_status row = DCompleted then (AlreadyDone, db1)
              else if da_status row = DRunning \<and>
                  da_updated_at row > t - seconds (workflow_delivery_running_timeout_seconds st)
              then (InProgress (da_pk row), db)
              else (Started, db1\<lparr>deliveries := od_set key
                       (row\<lparr>da_status := DRunning, da_attempts := max (da_attempts row) attempt,
                            da_updated_at := t\<rparr>) (deliveries db1)\<rparr>)))"

text \<open>The conditional updates after the handler: only a running row changes.\<close>

definition end_delivery ::
  "string \<Rightarrow> delivery_status \<Rightarrow> string option \<Rightarrow> string option \<Rightarrow> 'p store \<Rightarrow> 'p store" where
  "end_delivery key status err trace db =
     (case od_get (deliveries db) key of
        None \<Rightarrow> db
      | Some row \<Rightarrow>
          if da_status row = DRunning
          then db\<lparr>deliveries := od_set key (row\<lparr>da_status := status, da_last_error := err,
                    da_last_traceback := trace\<rparr>) (deliveries db)\<rparr>
          else db)"

definition failed_delivery_status :: "settings \<Rightarrow> ('p, 'w) registration \<Rightarrow> nat \<Rightarrow> delivery_status" where
  "failed_delivery_status st r attempt =
     (if attempt > reg_retries r \<and> workflow_dead_letter_enabled st then DDeadLetter else DFailed)"

definition db_attempt ::
  "settings \<Rightarrow> ('w \<Rightarrow> int) \<Rightarrow> (wf_exn \<Rightarrow> string) \<Rightarrow> 'p wf_event \<Rightarrow> ('p, 'w) registration \<Rightarrow> nat \<Rightarrow>
   'p store \<times> 'w \<Rightarrow> (wf_exn + bool) \<times> 'p store \<times> 'w" where
  "db_attempt st now traceback ev r attempt s =
     (case begin_delivery st (ev_id ev) (reg_id r) attempt (now (snd s)) (fst s) of
        (NoEvent, db) \<Rightarrow> (Inr False, db, snd s)
      | (AlreadyDone, db) \<Rightarrow> (Inr True, db, snd s)
      | (InProgress i, db) \<Rightarrow> (Inl (DeliveryInProgress i), db, snd s)
      | (Started, db) \<Rightarrow>
          (case reg_handler r ev (snd s) of
             (Some e, w) \<Rightarrow>
               (Inl e, end_delivery (delivery_key (ev_id ev) (reg_id r)) (failed_delivery_status st r attempt)
                  (Some (exn_text e)) (Some (traceback e)) db, w)
           | (None, w) \<Rightarrow>
               (Inr True, end_delivery (delivery_key (ev_id ev) (reg_id r)) DCompleted None None db, w)))"

section \<open>Processing an outbox row\<close>

record 'p ticket =
  tk_outbox :: nat
  tk_token :: "string option"
  tk_was_claimed :: bool
  tk_event :: "'p wf_event"

text \<open>The first transaction of \<open>process_outbox_entry\<close>; \<^const>\<open>None\<close> is an early \<open>return False\<close>.\<close>

definition begin_processing :: "nat \<Rightarrow> string option \<Rightarrow> 'p store \<Rightarrow> 'p ticket option" where
  "begin_processing outbox_id claim_token db =
     (case od_get (outbox db) outbox_id of
        None \<Rightarrow> None
      | Some row \<Rightarrow>
        (case od_get (events db) (ob_event row) of
           None \<Rightarrow> None
         | Some ev \<Rightarrow>
             if ob_status row = OProcessed then None
             else if (case claim_token of
                 Some tok \<Rightarrow> ob_status row \<noteq> OClaimed \<or> ob_claim_token row \<noteq> Some tok
               | None \<Rightarrow> ob_status row = OClaimed) then None
             else Some \<lparr>tk_outbox = outbox_id, tk_token = ob_claim_token row,
                        tk_was_claimed = (ob_status row = OClaimed), tk_event = ev\<rparr>))"

text \<open>Whether the row still is what the ticket was issued for.\<close>

definition owns :: "'p ticket \<Rightarrow> outbox_row \<Rightarrow> bool" where
  "owns tk row =
     (if tk_was_claimed tk then ob_status row = OClaimed \<and> ob_claim_token row = tk_token tk
      else ob_status row = OPending \<or> ob_status row = OFailed)"

definition failed_row :: "settings \<Rightarrow> string \<Rightarrow> int \<Rightarrow> outbox_row \<Rightarrow> outbox_row" where
  "failed_row st err t row =
     (let attempts = ob_attempts row + 1;
          row1 = row\<lparr>ob_status := OFailed, ob_attempts := attempts, ob_last_error := Some err,
                     ob_claim_token := None, ob_claimed_at := None\<rparr>;
          row2 = (if int attempts \<ge> workflow_max_retries st \<and> workflow_dead_letter_enabled st
                  then row1\<lparr>ob_status := ODeadLetter\<rparr>
                  else row1\<lparr>ob_available_at := t + seconds (workflow_retry_backoff_seconds st *
                         max (int attempts) 1)\<rparr>)
      in row2\<lparr>ob_updated_at := t\<rparr>)"

definition finalize_failure ::
  "settings \<Rightarrow> 'p ticket \<Rightarrow> string \<Rightarrow> int \<Rightarrow> 'p store \<Rightarrow> outbox_status \<times> 'p store" where
  "finalize_failure st tk err t db =
     (case od_get (outbox db) (tk_outbox tk) of
        None \<Rightarrow> (OFailed, db)
      | Some row \<Rightarrow>
          if \<not> owns tk row then (ob_status row, db)
          else (let row' = failed_row st err t row
                in (ob_status row', db\<lparr>outbox := od_set (tk_outbox tk) row' (outbox db)\<rparr>)))"

definition processed_row :: "int \<Rightarrow> outbox_row \<Rightarrow> outbox_row" where
  "processed_row t row =
     row\<lparr>ob_status := OProcessed, ob_last_error := None, ob_claim_token := None,
         ob_claimed_at := None, ob_updated_at := t\<rparr>"

definition finalize_processed :: "'p ticket \<Rightarrow> int \<Rightarrow> 'p store \<Rightarrow> bool \<times> 'p store" where
  "finalize_processed tk t db =
     (case od_get (outbox db) (tk_outbox tk) of
        None \<Rightarrow> (False, db)
      | Some row \<Rightarrow>
          if \<not> owns tk row then (False, db)
          else (True, db\<lparr>outbox := od_set (tk_outbox tk) (processed_row t row) (outbox db)\<rparr>))"

definition process_outbox_entry ::
  "settings \<Rightarrow> ('w \<Rightarrow> int) \<Rightarrow> (wf_exn \<Rightarrow> string) \<Rightarrow> ('p, 'w) routing_tables \<Rightarrow> nat \<Rightarrow>
   string option \<Rightarrow> 'p store \<times> 'w \<Rightarrow> bool \<times> 'p store \<times> 'w" where
  "process_outbox_entry st now traceback tables outbox_id claim_token s =
     (case begin_processing outbox_id claim_token (fst s) of
        None \<Rightarrow> (False, s)
      | Some tk \<Rightarrow>
        (case route_event (db_attempt st now traceback) None tables (tk_event tk) s of
           (Inl (DeliveryInProgress i), s') \<Rightarrow> (False, s')
         | (Inl (Failure m), db, w) \<Rightarrow> (False, snd (finalize_failure st tk m (now w) db), w)
         | (Inr oc, db, w) \<Rightarrow>
             if had_applicable_handlers oc \<and> \<not> handled oc
             then (False, snd (finalize_failure st tk
                     ''Workflow event handler did not complete successfully.'' (now w) db), w)
             else (case finalize_processed tk (now w) db of
                 (False, db') \<Rightarrow> (False, db', w)
               | (True, db') \<Rightarrow> (handled oc, db', w))))"

section \<open>Claiming\<close>

definition due :: "settings \<Rightarrow> int \<Rightarrow> outbox_row \<Rightarrow> bool" where
  "due st t row =
     ((ob_status row = OPending \<or> ob_status row = OFailed) \<and> ob_available_at row \<le> t \<or>
      ob_status row = OClaimed \<and>
      (case ob_claimed_at row of
         None \<Rightarrow> False
       | Some c \<Rightarrow> c \<le> t - seconds (workflow_outbox_claim_ttl_seconds st)))"

text \<open>
  \<open>claim_outbox_batch\<close>: \<open>locked\<close> are the rows another transaction holds, which
  \<open>skip_locked\<close> leaves out; rows with equal \<open>available_at\<close> come in the order of the table.
\<close>

definition claimed_row :: "string \<Rightarrow> int \<Rightarrow> outbox_row \<Rightarrow> outbox_row" where
  "claimed_row token t row =
     row\<lparr>ob_status := OClaimed, ob_claimed_at := Some t, ob_claim_token := Some token\<rparr>"

definition claim_ids :: "settings \<Rightarrow> nat set \<Rightarrow> nat \<Rightarrow> int \<Rightarrow> 'p store \<Rightarrow> nat list" where
  "claim_ids st locked batch t db =
     map fst (take batch (sort_key (\<lambda>p. ob_available_at (snd p))
       (filter (\<lambda>p. fst p \<notin> locked \<and> due st t (snd p)) (outbox db))))"

definition claim_outbox_batch ::
  "settings \<Rightarrow> (nat \<Rightarrow> string) \<Rightarrow> nat set \<Rightarrow> nat option \<Rightarrow> int \<Rightarrow> 'p store \<Rightarrow>
   (nat \<times> string) list \<times> 'p store" where
  "claim_outbox_batch st fresh locked batch_size t db =
     (let batch = (case batch_size of
            None \<Rightarrow> nat (workflow_outbox_batch_size st)
          | Some n \<Rightarrow> if n = 0 then nat (workflow_outbox_batch_size st) else n);
          token = fresh (tokens_issued db);
          ids = claim_ids st locked batch t db
      in (map (\<lambda>i. (i, token)) ids,
          db\<lparr>tokens_issued := Suc (tokens_issued db),
             outbox := map (\<lambda>(k, row). (k, if k \<in> set ids then claimed_row token t row else row))
                         (outbox db)\<rparr>))"

section \<open>Tasks and the entry points\<close>

definition outbox_snapshot :: "int \<Rightarrow> 'p store \<Rightarrow> nat \<times> int" where
  "outbox_snapshot t db =
     (let created = map (ob_created_at \<circ> snd) (filter (\<lambda>p. ob_status (snd p) = OPending) (outbox db))
      in (length created,
          case created of [] \<Rightarrow> 0 | c # cs \<Rightarrow> max 0 (t - fold min cs c)))"

definition route_outbox_event ::
  "settings \<Rightarrow> ('w \<Rightarrow> int) \<Rightarrow> (wf_exn \<Rightarrow> string) \<Rightarrow> ('p, 'w) routing_tables \<Rightarrow> nat \<Rightarrow>
   string option \<Rightarrow> 'p store \<times> 'w \<Rightarrow> bool \<times> 'p store \<times> 'w" where
  "route_outbox_event st now traceback tables outbox_id claim_token s =
     process_outbox_entry st now traceback tables outbox_id claim_token s"

fun route_outbox_claims_batch ::
  "settings \<Rightarrow> ('w \<Rightarrow> int) \<Rightarrow> (wf_exn \<Rightarrow> string) \<Rightarrow> ('p, 'w) routing_tables \<Rightarrow>
   (nat \<times> string) list \<Rightarrow> 'p store \<times> 'w \<Rightarrow> nat \<times> 'p store \<times> 'w" where
  "route_outbox_claims_batch st now traceback tables [] s = (0, s)"
| "route_outbox_claims_batch st now traceback tables ((outbox_id, token) # claims) s =
     (case route_outbox_event st now traceback tables outbox_id (Some token) s of (b, s1) \<Rightarrow>
        (case route_outbox_claims_batch st now traceback tables claims s1 of (n, s2) \<Rightarrow>
           (if b then Suc n else n, s2)))"

definition send_message :: "outbox_task \<Rightarrow> 'p store \<Rightarrow> 'p store" where
  "send_message m db = db\<lparr>messages := messages db @ [m]\<rparr>"

text \<open>
  \<open>publish_outbox_batch\<close>: \<open>celery\<close> says whether Celery is installed; the result is the number of
  claimed rows with the snapshot it publishes.
\<close>

definition publish_outbox_batch ::
  "settings \<Rightarrow> bool \<Rightarrow> ('w \<Rightarrow> int) \<Rightarrow> (wf_exn \<Rightarrow> string) \<Rightarrow> (nat \<Rightarrow> string) \<Rightarrow> nat set \<Rightarrow>
   ('p, 'w) routing_tables \<Rightarrow> 'p store \<times> 'w \<Rightarrow> (nat \<times> nat \<times> int) \<times> 'p store \<times> 'w" where
  "publish_outbox_batch st celery now traceback fresh locked tables s =
     (case claim_outbox_batch st fresh locked (Some (nat (workflow_outbox_process_chunk_size st)))
             (now (snd s)) (fst s) of
        (claims, db) \<Rightarrow>
          (let s1 = (if claims = [] then (db, snd s)
                     else if celery then (send_message (RouteClaims claims) db, snd s)
                     else snd (route_outbox_claims_batch st now traceback tables claims (db, snd s)))
           in ((length claims, outbox_snapshot (now (snd s1)) (fst s1)), s1)))"

definition enqueue_publish_task ::
  "settings \<Rightarrow> bool \<Rightarrow> ('w \<Rightarrow> int) \<Rightarrow> (wf_exn \<Rightarrow> string) \<Rightarrow> (nat \<Rightarrow> string) \<Rightarrow> nat set \<Rightarrow>
   ('p, 'w) routing_tables \<Rightarrow> 'p store \<times> 'w \<Rightarrow> 'p store \<times> 'w" where
  "enqueue_publish_task st celery now traceback fresh locked tables s =
     (if celery then (send_message PublishBatch (fst s), snd s)
      else snd (publish_outbox_batch st celery now traceback fresh locked tables s))"

definition db_publish ::
  "settings \<Rightarrow> bool \<Rightarrow> ('w \<Rightarrow> int) \<Rightarrow> (wf_exn \<Rightarrow> string) \<Rightarrow> (nat \<Rightarrow> string) \<Rightarrow> nat set \<Rightarrow>
   ('p, 'w) routing_tables \<Rightarrow> 'p wf_event \<Rightarrow> 'p store \<times> 'w \<Rightarrow> bool \<times> 'p store \<times> 'w" where
  "db_publish st celery now traceback fresh locked tables ev s =
     (case publish_row ev (now (snd s)) (fst s) of
        None \<Rightarrow> (False, s)
      | Some (pk, db) \<Rightarrow>
          if workflow_async_enabled st
          then (False, enqueue_publish_task st celery now traceback fresh locked tables (db, snd s))
          else process_outbox_entry st now traceback tables pk None (db, snd s))"

definition db_publish_sync ::
  "settings \<Rightarrow> ('w \<Rightarrow> int) \<Rightarrow> (wf_exn \<Rightarrow> string) \<Rightarrow> ('p, 'w) routing_tables \<Rightarrow> 'p wf_event \<Rightarrow>
   'p store \<times> 'w \<Rightarrow> (wf_exn + bool) \<times> 'p store \<times> 'w" where
  "db_publish_sync st now traceback tables ev s =
     (case route_event (db_attempt st now traceback) None tables ev (save_event ev (fst s), snd s) of
        (Inl e, s') \<Rightarrow> (Inl e, s')
      | (Inr oc, s') \<Rightarrow> (Inr (handled oc), s'))"

end
