(* ===== verification/WfOutboxStep.thy ===== *)
theory WfOutboxStep
  imports WfOutbox
begin

text \<open>
  Concurrent workers on the outbox. A system is the store with the tickets that some worker
  holds; every atomic block of the registry is a step, in any order, at any clock reading, and
  a ticket is never given back (a worker may crash, or be run twice with the same claim). The
  row machine \<open>row_step\<close> is the abstract specification of one outbox row; the entry points of
  \<open>WfOutbox\<close> are shown to be runs of the step relation.
\<close>

section \<open>The row machine\<close>

inductive row_step :: "settings \<Rightarrow> string \<Rightarrow> outbox_row \<Rightarrow> outbox_row \<Rightarrow> bool"
  for st token where
  claim: "due st t row \<Longrightarrow> row_step st token row (claimed_row token t row)"
| fail: "ob_status row \<in> {OPending, OFailed, OClaimed} \<Longrightarrow> row_step st token row (failed_row st err t row)"
| finish: "ob_status row \<in> {OPending, OFailed, OClaimed} \<Longrightarrow> row_step st token row (processed_row t row)"

section \<open>Steps of the system\<close>

type_synonym 'p system = "'p store \<times> 'p ticket set"

inductive outbox_step :: "settings \<Rightarrow> (nat \<Rightarrow> string) \<Rightarrow> 'p system \<Rightarrow> 'p system \<Rightarrow> bool"
  for st fresh where
  publish: "publish_row ev t db = Some (pk, db') \<Longrightarrow> outbox_step st fresh (db, T) (db', T)"
| save: "outbox_step st fresh (db, T) (save_event ev db, T)"
| claim: "claim_outbox_batch st fresh locked batch t db = (claims, db') \<Longrightarrow>
    outbox_step st fresh (db, T) (db', T)"
| begin_processing: "begin_processing pk token db = Some tk \<Longrightarrow>
    outbox_step st fresh (db, T) (db, insert tk T)"
| begin_delivery: "begin_delivery st eid reg attempt t db = (res, db') \<Longrightarrow>
    outbox_step st fresh (db, T) (db', T)"
| end_delivery: "outbox_step st fresh (db, T) (end_delivery key status err trace db, T)"
| fail: "tk \<in> T \<Longrightarrow> finalize_failure st tk err t db = (res, db') \<Longrightarrow>
    outbox_step st fresh (db, T) (db', T)"
| finish: "tk \<in> T \<Longrightarrow> finalize_processed tk t db = (res, db') \<Longrightarrow>
    outbox_step st fresh (db, T) (db', T)"
| message: "outbox_step st fresh (db, T) (send_message m db, T)"

abbreviation outbox_steps :: "settings \<Rightarrow> (nat \<Rightarrow> string) \<Rightarrow> 'p system \<Rightarrow> 'p system \<Rightarrow> bool" where
  "outbox_steps st fresh \<equiv> (outbox_step st fresh)\<^sup>*\<^sup>*"

definition empty_store :: "'p store" where
  "empty_store = \<lparr>events = [], outbox = [], deliveries = [], next_outbox = 1, next_delivery = 1,
     tokens_issued = 0, messages = []\<rparr>"

definition reachable :: "settings \<Rightarrow> (nat \<Rightarrow> string) \<Rightarrow> 'p system \<Rightarrow> bool" where
  "reachable st fresh sys = outbox_steps st fresh (empty_store, {}) sys"

section \<open>What each step does to the rows\<close>

named_theorems store_defs

lemmas [store_defs] =
  create_event_def save_event_def publish_row_def begin_delivery_def end_delivery_def
  finalize_failure_def finalize_processed_def send_message_def claim_outbox_batch_def

lemma map_of_map_key: "map_of (map (\<lambda>(k, v). (k, f k v)) d) k = map_option (f k) (map_of d k)"
  by (induction d) auto

lemma claim_ids_due:
  assumes "od_wf (outbox db)" "k \<in> set (claim_ids st locked batch t db)"
  shows "\<exists>row. od_get (outbox db) k = Some row \<and> due st t row \<and> k \<notin> locked"
proof -
  from assms(2) obtain p where p: "p \<in> set (take batch (sort_key (\<lambda>p. ob_available_at (snd p))
      (filter (\<lambda>p. fst p \<notin> locked \<and> due st t (snd p)) (outbox db))))" "k = fst p"
    by (auto simp: claim_ids_def)
  from in_set_takeD [OF p(1)] have "p \<in> set (outbox db)" "due st t (snd p)" "fst p \<notin> locked"
    by simp_all
  then have "(k, snd p) \<in> set (outbox db)" "due st t (snd p)" "k \<notin> locked" by (simp_all add: p(2))
  with iffD1 [OF od_set_iff [OF assms(1)]] show ?thesis by blast
qed

lemma claim_outbox:
  assumes "claim_outbox_batch st fresh locked batch t db = (claims, db')"
  shows "\<exists>ids. claims = map (\<lambda>i. (i, fresh (tokens_issued db))) ids \<and>
    (od_wf (outbox db) \<longrightarrow> (\<forall>k\<in>set ids. \<exists>row. od_get (outbox db) k = Some row \<and> due st t row)) \<and>
    (\<forall>k. od_get (outbox db') k = map_option
       (\<lambda>row. if k \<in> set ids then claimed_row (fresh (tokens_issued db)) t row else row)
       (od_get (outbox db) k)) \<and>
    od_keys (outbox db') = od_keys (outbox db) \<and> events db' = events db \<and>
    deliveries db' = deliveries db \<and> next_outbox db' = next_outbox db \<and>
    tokens_issued db' = Suc (tokens_issued db)"
proof -
  let ?n = "case batch of None \<Rightarrow> nat (workflow_outbox_batch_size st)
      | Some n \<Rightarrow> if n = 0 then nat (workflow_outbox_batch_size st) else n"
  let ?ids = "claim_ids st locked ?n t db"
  let ?tok = "fresh (tokens_issued db)"
  have db': "db' = db\<lparr>tokens_issued := Suc (tokens_issued db), outbox := map (\<lambda>(k, row).
      (k, if k \<in> set ?ids then claimed_row ?tok t row else row)) (outbox db)\<rparr>"
    and c: "claims = map (\<lambda>i. (i, ?tok)) ?ids"
    using assms by (simp_all add: claim_outbox_batch_def Let_def)
  have "od_keys (outbox db') = od_keys (outbox db)" by (simp add: db' comp_def case_prod_beta)
  with c show ?thesis
    by (intro exI [of _ ?ids]) (auto simp: db' map_of_map_key dest: claim_ids_due)
qed

definition keys_ok :: "'p store \<Rightarrow> bool" where
  "keys_ok db = (od_wf (outbox db) \<and> (\<forall>k\<in>set (od_keys (outbox db)). k < next_outbox db))"

text \<open>
  \<open>effect\<close>: keys stay distinct, events and rows are never removed, and each row is new, is
  unchanged, or made one step of the row machine with the token of the next claim.
\<close>

definition effect :: "settings \<Rightarrow> (nat \<Rightarrow> string) \<Rightarrow> 'p store \<Rightarrow> 'p store \<Rightarrow> bool" where
  "effect st fresh db db' =
     (keys_ok db' \<and> tokens_issued db \<le> tokens_issued db' \<and>
      (\<forall>i ev. od_get (events db) i = Some ev \<longrightarrow> od_get (events db') i = Some ev) \<and>
      (\<forall>k row. od_get (outbox db) k = Some row \<longrightarrow> od_get (outbox db') k \<noteq> None) \<and>
      (\<forall>k row'. od_get (outbox db') k = Some row' \<longrightarrow>
         (od_get (outbox db) k = None \<and>
           (\<exists>i t. row' = new_outbox_row i t \<and> od_get (events db') i \<noteq> None)) \<or>
         (\<exists>row. od_get (outbox db) k = Some row \<and>
           (row' = row \<or>
            row_step st (fresh (tokens_issued db)) row row' \<and>
            (ob_claim_token row' = None \<or> tokens_issued db' = Suc (tokens_issued db))))))"

lemma effect_same_outbox:
  assumes "keys_ok db" "outbox db' = outbox db" "next_outbox db' = next_outbox db"
    "tokens_issued db' = tokens_issued db"
    "\<And>i ev. od_get (events db) i = Some ev \<Longrightarrow> od_get (events db') i = Some ev"
  shows "effect st fresh db db'"
  using assms by (simp add: effect_def keys_ok_def)

lemma effect_set_row:
  assumes "keys_ok db" "od_get (outbox db) k = Some row" "row_step st (fresh (tokens_issued db)) row row'"
    "ob_claim_token row' = None"
  shows "effect st fresh db (db\<lparr>outbox := od_set k row' (outbox db)\<rparr>)"
proof -
  have "k \<in> set (od_keys (outbox db))" using assms(2) od_get_None_iff [of "outbox db" k] by auto
  with assms(1) have "keys_ok (db\<lparr>outbox := od_set k row' (outbox db)\<rparr>)"
    by (auto simp: keys_ok_def odict_simps dom_update)
  with assms show ?thesis by (simp add: effect_def od_get_set)
qed

lemma failed_row_token [simp]: "ob_claim_token (failed_row st err t row) = None"
  by (simp add: failed_row_def Let_def)

lemma processed_row_token [simp]: "ob_claim_token (processed_row t row) = None"
  by (simp add: processed_row_def)

lemma owns_status: "owns tk row \<Longrightarrow> ob_status row \<in> {OPending, OFailed, OClaimed}"
  by (auto simp: owns_def split: if_splits)

lemma effect_failure:
  assumes "keys_ok db" "finalize_failure st tk err t db = (res, db')"
  shows "effect st fresh db db'"
proof (cases "od_get (outbox db) (tk_outbox tk)")
  case None
  with assms show ?thesis by (auto simp: finalize_failure_def intro: effect_same_outbox)
next
  case (Some row)
  show ?thesis
  proof (cases "owns tk row")
    case False
    with assms Some show ?thesis by (auto simp: finalize_failure_def intro: effect_same_outbox)
  next
    case True
    with assms(2) Some have "db' = db\<lparr>outbox := od_set (tk_outbox tk) (failed_row st err t row) (outbox db)\<rparr>"
      by (simp add: finalize_failure_def Let_def)
    with effect_set_row [OF assms(1) Some row_step.fail [OF owns_status [OF True]] failed_row_token]
    show ?thesis by simp
  qed
qed

lemma effect_processed:
  assumes "keys_ok db" "finalize_processed tk t db = (res, db')"
  shows "effect st fresh db db'"
proof (cases "od_get (outbox db) (tk_outbox tk)")
  case None
  with assms show ?thesis by (auto simp: finalize_processed_def intro: effect_same_outbox)
next
  case (Some row)
  show ?thesis
  proof (cases "owns tk row")
    case False
    with assms Some show ?thesis by (auto simp: finalize_processed_def intro: effect_same_outbox)
  next
    case True
    with assms(2) Some have "db' = db\<lparr>outbox := od_set (tk_outbox tk) (processed_row t row) (outbox db)\<rparr>"
      by (simp add: finalize_processed_def)
    with effect_set_row [OF assms(1) Some row_step.finish [OF owns_status [OF True]] processed_row_token]
    show ?thesis by simp
  qed
qed

lemma effect_claim:
  assumes "keys_ok db" "claim_outbox_batch st fresh locked batch t db = (claims, db')"
  shows "effect st fresh db db'"
proof -
  have wf: "od_wf (outbox db)" using assms(1) by (simp add: keys_ok_def)
  let ?tok = "fresh (tokens_issued db)"
  from claim_outbox [OF assms(2)] wf obtain ids where
    ids: "\<forall>k\<in>set ids. \<exists>row. od_get (outbox db) k = Some row \<and> due st t row"
    and get: "\<And>k. od_get (outbox db') k = map_option
       (\<lambda>row. if k \<in> set ids then claimed_row ?tok t row else row) (od_get (outbox db) k)"
    and same: "od_keys (outbox db') = od_keys (outbox db)" "events db' = events db"
      "next_outbox db' = next_outbox db" "tokens_issued db' = Suc (tokens_issued db)"
    by blast
  have "row' = row \<or> row_step st ?tok row row'"
    if "od_get (outbox db') k = Some row'" "od_get (outbox db) k = Some row" for k row row'
  proof (cases "k \<in> set ids")
    case True
    with ids that(2) have "due st t row" by auto
    with get [of k] that True show ?thesis by (simp add: row_step.claim)
  next
    case False
    with get [of k] that show ?thesis by simp
  qed
  moreover have "od_get (outbox db') k = Some row' \<Longrightarrow> \<exists>row. od_get (outbox db) k = Some row" for k row'
    using get [of k] by auto
  moreover have "od_get (outbox db) k = Some row \<Longrightarrow> od_get (outbox db') k \<noteq> None" for k row
    using get [of k] by auto
  moreover have "keys_ok db'" using assms(1) same by (simp add: keys_ok_def)
  ultimately show ?thesis unfolding effect_def same
    by (metis lessI less_imp_le_nat)
qed

lemma create_event_mono:
  "create_event ev db = Some db' \<Longrightarrow> od_get (events db) i = Some e \<Longrightarrow> od_get (events db') i = Some e"
  by (auto simp: create_event_def map_add_def split: option.splits)

lemma create_event_frame:
  "create_event ev db = Some db' \<Longrightarrow> outbox db' = outbox db \<and> next_outbox db' = next_outbox db \<and>
    tokens_issued db' = tokens_issued db \<and> deliveries db' = deliveries db \<and>
    od_get (events db') (ev_id ev) = Some ev"
  by (auto simp: create_event_def map_add_def split: option.splits)

lemma effect_save: "keys_ok db \<Longrightarrow> effect st fresh db (save_event ev db)"
  by (cases "create_event ev db")
    (auto simp: save_event_def create_event_frame create_event_mono intro: effect_same_outbox)

lemma effect_publish:
  assumes "keys_ok db" "publish_row ev t db = Some (pk, db')"
  shows "effect st fresh db db'"
proof -
  from assms(2) obtain db1 where c: "create_event ev db = Some db1"
    and db': "db' = db1\<lparr>outbox := outbox db1 @ [(next_outbox db1, new_outbox_row (ev_id ev) t)],
        next_outbox := Suc (next_outbox db1)\<rparr>"
    by (auto simp: publish_row_def Let_def split: option.splits)
  note f = create_event_frame [OF c]
  have new: "od_get (outbox db) (next_outbox db) = None"
    using assms(1) by (auto simp: keys_ok_def od_get_None_iff)
  have keys: "keys_ok db'"
    using assms(1) f new by (auto simp: db' keys_ok_def od_wf_append_fresh less_Suc_eq)
  have get: "od_get (outbox db') k = (case od_get (outbox db) k of Some row \<Rightarrow> Some row
      | None \<Rightarrow> if k = next_outbox db then Some (new_outbox_row (ev_id ev) t) else None)" for k
    using f by (auto simp: db' map_add_def split: option.splits)
  show ?thesis unfolding effect_def
  proof (intro conjI allI impI)
    show "keys_ok db'" by (rule keys)
    show "tokens_issued db \<le> tokens_issued db'" using f by (simp add: db')
    show "od_get (events db') i = Some e" if "od_get (events db) i = Some e" for i e
      using create_event_mono [OF c that] by (simp add: db')
    show "od_get (outbox db') k \<noteq> None" if "od_get (outbox db) k = Some row" for k row
      using that get [of k] by simp
    show "(od_get (outbox db) k = None \<and>
           (\<exists>i t. row' = new_outbox_row i t \<and> od_get (events db') i \<noteq> None)) \<or>
         (\<exists>row. od_get (outbox db) k = Some row \<and>
           (row' = row \<or>
            row_step st (fresh (tokens_issued db)) row row' \<and>
            (ob_claim_token row' = None \<or> tokens_issued db' = Suc (tokens_issued db))))"
      if "od_get (outbox db') k = Some row'" for k row'
    proof (cases "od_get (outbox db) k")
      case None
      with get [of k] that have "row' = new_outbox_row (ev_id ev) t" by (simp split: if_splits)
      moreover have "od_get (events db') (ev_id ev) \<noteq> None" using f by (simp add: db')
      ultimately show ?thesis using None by blast
    next
      case (Some row)
      with get [of k] that show ?thesis by simp
    qed
  qed
qed

lemma begin_delivery_frame:
  assumes "begin_delivery st eid reg attempt t db = (res, db')"
  shows "outbox db' = outbox db \<and> next_outbox db' = next_outbox db \<and> events db' = events db \<and>
    tokens_issued db' = tokens_issued db"
  using assms
  by (auto simp: begin_delivery_def Let_def split: option.splits prod.splits if_splits)

lemma end_delivery_frame:
  "outbox (end_delivery key status err trace db) = outbox db"
  "next_outbox (end_delivery key status err trace db) = next_outbox db"
  "events (end_delivery key status err trace db) = events db"
  "tokens_issued (end_delivery key status err trace db) = tokens_issued db"
  by (simp_all add: end_delivery_def split: option.splits)

lemma step_effect:
  assumes "outbox_step st fresh (db, T) (db', T')" "keys_ok db"
  shows "effect st fresh db db'"
  using assms(1)
proof cases
  case (publish ev t pk)
  with assms(2) show ?thesis by (simp add: effect_publish)
next
  case (save ev)
  with assms(2) show ?thesis by (simp add: effect_save)
next
  case (claim locked batch t claims)
  with assms(2) show ?thesis by (simp add: effect_claim)
next
  case (begin_processing pk token tk)
  with assms(2) show ?thesis by (simp add: effect_same_outbox)
next
  case (begin_delivery eid reg attempt t res)
  with begin_delivery_frame [OF begin_delivery(2)] assms(2) show ?thesis by (simp add: effect_same_outbox)
next
  case (end_delivery key status err trace)
  with assms(2) show ?thesis by (simp add: effect_same_outbox end_delivery_frame)
next
  case (fail tk err t res)
  with assms(2) show ?thesis by (simp add: effect_failure)
next
  case (finish tk t res)
  with assms(2) show ?thesis by (simp add: effect_processed)
next
  case (message m)
  with assms(2) show ?thesis by (simp add: effect_same_outbox send_message_def)
qed

section \<open>The invariant\<close>

definition row_ok :: "settings \<Rightarrow> outbox_row \<Rightarrow> bool" where
  "row_ok st row =
     ((ob_status row = OClaimed \<longleftrightarrow> ob_claim_token row \<noteq> None) \<and>
      (ob_status row = OClaimed \<longleftrightarrow> ob_claimed_at row \<noteq> None) \<and>
      (ob_status row = OPending \<longrightarrow> ob_attempts row = 0) \<and>
      (ob_status row = OFailed \<longrightarrow> 0 < ob_attempts row \<and> ob_last_error row \<noteq> None) \<and>
      (ob_status row = ODeadLetter \<longrightarrow> workflow_dead_letter_enabled st \<and>
         int (ob_attempts row) = max 1 (workflow_max_retries st)) \<and>
      (workflow_dead_letter_enabled st \<and> ob_status row \<noteq> ODeadLetter \<longrightarrow>
         int (ob_attempts row) < max 1 (workflow_max_retries st)))"

lemma row_ok_new: "row_ok st (new_outbox_row i t)"
  by (simp add: row_ok_def new_outbox_row_def max.strict_coboundedI1)

lemma row_ok_step:
  assumes "row_step st token row row'" "row_ok st row"
  shows "row_ok st row'"
  using assms(1)
proof cases
  case (claim t)
  with assms(2) show ?thesis
    by (auto simp: row_ok_def claimed_row_def due_def)
next
  case (fail err t)
  have "0 \<le> workflow_max_retries st" by (simp add: limit_defs bounded_int_ge)
  with fail assms(2) show ?thesis
    by (auto simp: row_ok_def failed_row_def Let_def)
next
  case (finish t)
  with assms(2) show ?thesis by (auto simp: row_ok_def processed_row_def)
qed

lemma row_step_event: "row_step st token row row' \<Longrightarrow> ob_event row' = ob_event row"
  by (auto elim!: row_step.cases simp: claimed_row_def failed_row_def processed_row_def Let_def)

lemma row_step_token:
  "row_step st token row row' \<Longrightarrow> ob_claim_token row' = None \<or> ob_claim_token row' = Some token"
  by (auto elim!: row_step.cases simp: claimed_row_def)

definition sys_inv :: "settings \<Rightarrow> (nat \<Rightarrow> string) \<Rightarrow> 'p system \<Rightarrow> bool" where
  "sys_inv st fresh sys =
     (keys_ok (fst sys) \<and>
      (\<forall>k row. od_get (outbox (fst sys)) k = Some row \<longrightarrow>
         row_ok st row \<and> od_get (events (fst sys)) (ob_event row) \<noteq> None \<and>
         (\<forall>token. ob_claim_token row = Some token \<longrightarrow>
            (\<exists>n<tokens_issued (fst sys). token = fresh n))) \<and>
      (\<forall>tk\<in>snd sys. tk_was_claimed tk \<longrightarrow>
         (\<exists>n<tokens_issued (fst sys). tk_token tk = Some (fresh n))))"

lemma sys_inv_init: "sys_inv st fresh (empty_store, {})"
  by (simp add: sys_inv_def keys_ok_def empty_store_def)

lemma sys_inv_rows:
  assumes "sys_inv st fresh (db, T)" "effect st fresh db db'" "od_get (outbox db') k = Some row'"
  shows "row_ok st row' \<and> od_get (events db') (ob_event row') \<noteq> None \<and>
    (\<forall>token. ob_claim_token row' = Some token \<longrightarrow> (\<exists>n<tokens_issued db'. token = fresh n))"
proof -
  from assms(2,3) consider
      (new) i t where "row' = new_outbox_row i t" "od_get (events db') i \<noteq> None"
    | (old) row where "od_get (outbox db) k = Some row" "row' = row"
    | (step) row where "od_get (outbox db) k = Some row"
        "row_step st (fresh (tokens_issued db)) row row'"
        "ob_claim_token row' = None \<or> tokens_issued db' = Suc (tokens_issued db)"
    unfolding effect_def by blast
  then show ?thesis
  proof cases
    case new
    then show ?thesis by (simp add: row_ok_new) (simp add: new_outbox_row_def)
  next
    case old
    from assms(1) old(1) have "row_ok st row" "od_get (events db) (ob_event row) \<noteq> None"
      "\<forall>token. ob_claim_token row = Some token \<longrightarrow> (\<exists>n<tokens_issued db. token = fresh n)"
      by (simp_all add: sys_inv_def)
    moreover have "tokens_issued db \<le> tokens_issued db'" using assms(2) by (simp add: effect_def)
    moreover have "od_get (events db) i \<noteq> None \<longrightarrow> od_get (events db') i \<noteq> None" for i
      using assms(2) unfolding effect_def by blast
    ultimately show ?thesis unfolding old(2) by (meson less_le_trans)
  next
    case step
    from assms(1) step(1) have "row_ok st row" "od_get (events db) (ob_event row) \<noteq> None"
      by (simp_all add: sys_inv_def)
    moreover have "od_get (events db) i \<noteq> None \<longrightarrow> od_get (events db') i \<noteq> None" for i
      using assms(2) unfolding effect_def by blast
    ultimately have "row_ok st row'" "od_get (events db') (ob_event row') \<noteq> None"
      using row_ok_step [OF step(2)] row_step_event [OF step(2)] by simp_all
    with row_step_token [OF step(2)] step(3) show ?thesis by auto
  qed
qed

lemma begin_processing_token:
  assumes "begin_processing pk token db = Some tk"
  shows "\<exists>row. od_get (outbox db) pk = Some row \<and> tk_token tk = ob_claim_token row \<and>
    tk_was_claimed tk = (ob_status row = OClaimed) \<and> tk_outbox tk = pk"
  using assms by (auto simp: begin_processing_def split: option.splits if_splits)

lemma step_tickets:
  assumes "outbox_step st fresh (db, T) (db', T')"
  shows "T' = T \<or> db' = db \<and> (\<exists>pk token tk. begin_processing pk token db = Some tk \<and> T' = insert tk T)"
  using assms by cases auto

lemma sys_inv_step:
  assumes "outbox_step st fresh (db, T) (db', T')" "sys_inv st fresh (db, T)"
  shows "sys_inv st fresh (db', T')"
proof -
  have e: "effect st fresh db db'" using step_effect [OF assms(1)] assms(2) by (simp add: sys_inv_def)
  have mono: "tokens_issued db \<le> tokens_issued db'" using e by (simp add: effect_def)
  have old: "\<exists>n<tokens_issued db'. tk_token tk = Some (fresh n)"
    if "tk \<in> T" "tk_was_claimed tk" for tk
  proof -
    from assms(2) that obtain n where "n < tokens_issued db" "tk_token tk = Some (fresh n)"
      by (auto simp: sys_inv_def)
    with mono show ?thesis by (meson less_le_trans)
  qed
  have tk: "\<exists>n<tokens_issued db'. tk_token tk = Some (fresh n)"
    if "tk \<in> T'" "tk_was_claimed tk" for tk
  proof (cases "tk \<in> T")
    case True
    with old that show ?thesis by blast
  next
    case False
    with step_tickets [OF assms(1)] that(1) obtain pk token where
      "db' = db" "begin_processing pk token db = Some tk" by auto
    with begin_processing_token [OF this(2)] that(2) assms(2) show ?thesis
      by (auto simp: sys_inv_def row_ok_def)
  qed
  show ?thesis unfolding sys_inv_def fst_conv snd_conv
    using sys_inv_rows [OF assms(2) e] tk e unfolding effect_def by blast
qed

lemma steps_inv:
  "outbox_steps st fresh s s' \<Longrightarrow> sys_inv st fresh s \<Longrightarrow> sys_inv st fresh s'"
proof (induction rule: rtranclp_induct)
  case base
  then show ?case .
next
  case (step y z)
  then show ?case by (cases y, cases z) (auto intro: sys_inv_step)
qed

lemma reachable_inv: "reachable st fresh s \<Longrightarrow> sys_inv st fresh s"
  unfolding reachable_def by (rule steps_inv [OF _ sys_inv_init])

section \<open>Ownership and terminal rows over runs\<close>

text \<open>A lifting of row properties that new rows need not have: the row is known to exist.\<close>

lemma steps_row_induct:
  assumes "outbox_steps st fresh s s'" "sys_inv st fresh s" "od_get (outbox (fst s)) k = Some row"
    "P row"
    "\<And>n row row'. tokens_issued (fst s) \<le> n \<Longrightarrow> row_step st (fresh n) row row' \<Longrightarrow> P row \<Longrightarrow> P row'"
  shows "\<exists>row'. od_get (outbox (fst s')) k = Some row' \<and> P row'"
proof -
  have "(\<exists>row'. od_get (outbox (fst s')) k = Some row' \<and> P row') \<and> sys_inv st fresh s' \<and>
      tokens_issued (fst s) \<le> tokens_issued (fst s')"
    using assms(1)
  proof (induction rule: rtranclp_induct)
    case base
    with assms(2-4) show ?case by auto
  next
    case (step y z)
    obtain db T where y: "y = (db, T)" by (cases y)
    obtain db' T' where z: "z = (db', T')" by (cases z)
    from step.IH y obtain r where r: "od_get (outbox db) k = Some r" "P r"
      and inv: "sys_inv st fresh (db, T)" and le: "tokens_issued (fst s) \<le> tokens_issued db" by auto
    have inv': "sys_inv st fresh (db', T')" using sys_inv_step [OF _ inv] step.hyps(2) y z by simp
    have e: "effect st fresh db db'"
      using step_effect [of st fresh db T db' T'] step.hyps(2) y z inv by (simp add: sys_inv_def)
    with r(1) obtain r' where r': "od_get (outbox db') k = Some r'" unfolding effect_def by blast
    with e r(1) have "r' = r \<or> row_step st (fresh (tokens_issued db)) r r'"
      unfolding effect_def by (metis option.inject option.distinct(1))
    with assms(5) [OF le] r(2) have "P r'" by blast
    moreover have "tokens_issued (fst s) \<le> tokens_issued db'" using le e unfolding effect_def by linarith
    ultimately show ?case using r' inv' z by auto
  qed
  then show ?thesis by blast
qed

section \<open>Completed deliveries\<close>

lemma begin_delivery_completed:
  assumes "begin_delivery st eid reg attempt t db = (res, db')"
    "od_get (deliveries db) key = Some row" "da_status row = DCompleted"
  shows "od_get (deliveries db') key = Some row"
  using assms
  by (auto simp: begin_delivery_def Let_def od_get_set split: option.splits prod.splits if_splits)

lemma end_delivery_completed:
  assumes "od_get (deliveries db) key = Some row" "da_status row = DCompleted"
  shows "od_get (deliveries (end_delivery key' status err trace db)) key = Some row"
  using assms by (auto simp: end_delivery_def od_get_set split: option.splits)

lemma step_completed:
  assumes "outbox_step st fresh (db, T) (db', T')"
    "od_get (deliveries db) key = Some row" "da_status row = DCompleted"
  shows "od_get (deliveries db') key = Some row"
  using assms(1)
proof cases
  case (begin_delivery eid reg attempt t res)
  with begin_delivery_completed [OF begin_delivery(2) assms(2,3)] show ?thesis by simp
next
  case (end_delivery key' status err trace)
  with end_delivery_completed [OF assms(2,3)] show ?thesis by simp
qed (use assms(2) in \<open>auto simp: store_defs Let_def split: option.splits if_splits\<close>)

lemma steps_completed:
  assumes "outbox_steps st fresh s s'" "od_get (deliveries (fst s)) key = Some row"
    "da_status row = DCompleted"
  shows "od_get (deliveries (fst s')) key = Some row"
  using assms(1)
proof (induction rule: rtranclp_induct)
  case base
  show ?case by (rule assms(2))
next
  case (step y z)
  then show ?case by (cases y, cases z) (auto intro: step_completed [OF _ _ assms(3)])
qed

lemma step_events: 
  assumes "outbox_step st fresh (db, T) (db', T')" "od_get (events db) i = Some ev"
  shows "od_get (events db') i = Some ev"
  using assms(1)
proof cases
  case (publish e t pk)
  with assms(2) show ?thesis
    by (auto simp: publish_row_def Let_def dest: create_event_mono split: option.splits)
next
  case (save e)
  with assms(2) show ?thesis
    by (auto simp: save_event_def dest: create_event_mono split: option.splits)
next
  case (claim locked batch t claims)
  with assms(2) show ?thesis by (auto simp: claim_outbox_batch_def Let_def)
next
  case (begin_delivery eid reg attempt t res)
  with begin_delivery_frame [OF begin_delivery(2)] assms(2) show ?thesis by simp
next
  case (end_delivery key' status err trace)
  with assms(2) show ?thesis by (simp add: end_delivery_frame)
qed (use assms(2) in \<open>auto simp: store_defs Let_def split: option.splits if_splits\<close>)

lemma steps_events:
  assumes "outbox_steps st fresh s s'" "od_get (events (fst s)) i = Some ev"
  shows "od_get (events (fst s')) i = Some ev"
  using assms(1)
proof (induction rule: rtranclp_induct)
  case base
  show ?case by (rule assms(2))
next
  case (step y z)
  then show ?case by (cases y, cases z) (auto intro: step_events)
qed

section \<open>The entry points are runs\<close>

lemma attempt_store:
  assumes "db_attempt st now traceback ev r n s = (x, t)"
    "begin_delivery st (ev_id ev) (reg_id r) n (now (snd s)) (fst s) = (res, db)"
  shows "fst t = db \<or> (\<exists>key status err trace. fst t = end_delivery key status err trace db)"
proof (cases res)
  case Started
  obtain y w where h: "reg_handler r ev (snd s) = (y, w)" by (cases "reg_handler r ev (snd s)")
  let ?fin = "end_delivery (delivery_key (ev_id ev) (reg_id r))"
  have "fst t = (case y of None \<Rightarrow> ?fin DCompleted None None db
      | Some e \<Rightarrow> ?fin (failed_delivery_status st r n) (Some (exn_text e)) (Some (traceback e)) db)"
    using assms Started h by (cases y) (auto simp: db_attempt_def)
  then show ?thesis by (cases y) (simp_all only: option.case, blast+)
qed (use assms in \<open>auto simp: db_attempt_def\<close>)

lemma attempt_runs:
  assumes "db_attempt st now traceback ev r n s = (x, t)"
  shows "outbox_steps st fresh (fst s, T) (fst t, T)"
proof -
  obtain res db where b: "begin_delivery st (ev_id ev) (reg_id r) n (now (snd s)) (fst s) = (res, db)"
    by (cases "begin_delivery st (ev_id ev) (reg_id r) n (now (snd s)) (fst s)")
  have s1: "outbox_step st fresh (fst s, T) (db, T)" by (rule outbox_step.begin_delivery [OF b])
  have s2: "outbox_steps st fresh (fst s, T) (end_delivery key status err trace db, T)"
    for key status err trace
    using s1 outbox_step.end_delivery by (rule r_into_rtranclp [THEN rtranclp.rtrancl_into_rtrancl])
  from attempt_store [OF assms b]
  have "fst t = db \<or> (\<exists>key status err trace. fst t = end_delivery key status err trace db)" .
  with s1 s2 show ?thesis by auto
qed

interpretation db_runs:
  delivery "db_attempt st now traceback"
    "\<lambda>s t. \<forall>T. outbox_steps st fresh (fst s, T) (fst t, T)"
  by unfold_locales (auto intro: attempt_runs rtranclp_trans)

interpretation db_frame:
  delivery "db_attempt st now traceback" "\<lambda>s t. outbox (fst s) = outbox (fst t)"
proof
  show "outbox (fst s) = outbox (fst t)"
    if "db_attempt st now traceback ev r n s = (x, t)" for ev r n s x t
  proof -
    obtain res db where b: "begin_delivery st (ev_id ev) (reg_id r) n (now (snd s)) (fst s) = (res, db)"
      by (cases "begin_delivery st (ev_id ev) (reg_id r) n (now (snd s)) (fst s)")
    from attempt_store [OF that b]
    have "fst t = db \<or> (\<exists>key status err trace. fst t = end_delivery key status err trace db)" .
    with begin_delivery_frame [OF b] show ?thesis by (auto simp: end_delivery_frame)
  qed
qed simp_all

end
