(* ===== verification/WfOutboxRuns.thy ===== *)
theory WfOutboxRuns
  imports WfOutboxStep
begin

text \<open>
  The entry points of the database registry and the outbox tasks as runs of
  \<open>WfOutboxStep\<close>, and the properties of the outbox: consistency of the rows in every reachable
  state, terminal rows, lost claims, completed handlers, and dead-lettering after the configured
  number of failed processing calls.
\<close>

section \<open>Entry points as runs\<close>

lemma route_runs:
  "route_event (db_attempt st now traceback) None tables ev s = (x, t) \<Longrightarrow>
    outbox_steps st fresh (fst s, T) (fst t, T)"
  using db_runs.evolves_route by blast

lemma process_runs:
  assumes "process_outbox_entry st now traceback tables pk token s = (b, t)"
  shows "\<exists>T'. outbox_steps st fresh (fst s, T) (fst t, T')"
proof (cases "begin_processing pk token (fst s)")
  case None
  with assms show ?thesis by (auto simp: process_outbox_entry_def)
next
  case (Some tk)
  obtain x db w where r: "route_event (db_attempt st now traceback) None tables (tk_event tk) s = (x, db, w)"
    by (metis prod.exhaust)
  let ?T = "insert tk T"
  have s1: "outbox_steps st fresh (fst s, T) (fst s, ?T)"
    using outbox_step.begin_processing [OF Some] by (rule r_into_rtranclp)
  from route_runs [OF r] have s2: "outbox_steps st fresh (fst s, T) (db, ?T)"
    using rtranclp_trans [OF s1] by simp
  have ff: "outbox_steps st fresh (fst s, T) (snd (finalize_failure st tk err u db), ?T)" for err u
    using s2 outbox_step.fail [of tk ?T st err u db]
    by (metis insertI1 prod.collapse rtranclp.rtrancl_into_rtrancl)
  have fp: "outbox_steps st fresh (fst s, T) (snd (finalize_processed tk u db), ?T)" for u
    using s2 outbox_step.finish [of tk ?T u db]
    by (metis insertI1 prod.collapse rtranclp.rtrancl_into_rtrancl)
  have "fst t = db \<or> (\<exists>err u. fst t = snd (finalize_failure st tk err u db)) \<or>
      (\<exists>u. fst t = snd (finalize_processed tk u db))"
  proof (cases x)
    case (Inl e)
    show ?thesis
    proof (cases e)
      case (DeliveryInProgress i)
      with assms Some r Inl have "fst t = db" by (auto simp: process_outbox_entry_def)
      then show ?thesis by blast
    next
      case (Failure m)
      with assms Some r Inl have "fst t = snd (finalize_failure st tk m (now w) db)"
        by (auto simp: process_outbox_entry_def)
      then show ?thesis by blast
    qed
  next
    case (Inr oc)
    show ?thesis
    proof (cases "had_applicable_handlers oc \<and> \<not> handled oc")
      case True
      with assms Some r Inr have "fst t = snd (finalize_failure st tk
          ''Workflow event handler did not complete successfully.'' (now w) db)"
        by (auto simp: process_outbox_entry_def)
      then show ?thesis by blast
    next
      case False
      then have "fst t = snd (finalize_processed tk (now w) db)"
        using assms Some r Inr
        by (cases "finalize_processed tk (now w) db")
          (auto simp: process_outbox_entry_def simp del: de_Morgan_conj split: bool.splits)
      then show ?thesis by blast
    qed
  qed
  with s2 ff fp show ?thesis by metis
qed

lemma batch_runs:
  "route_outbox_claims_batch st now traceback tables claims s = (n, t) \<Longrightarrow>
    \<exists>T'. outbox_steps st fresh (fst s, T) (fst t, T')"
proof (induction claims arbitrary: s T n t)
  case Nil
  then show ?case by auto
next
  case (Cons c claims)
  obtain pk token where c: "c = (pk, token)" by (cases c)
  obtain b s1 where p: "process_outbox_entry st now traceback tables pk (Some token) s = (b, s1)"
    by (cases "process_outbox_entry st now traceback tables pk (Some token) s")
  obtain m s2 where q: "route_outbox_claims_batch st now traceback tables claims s1 = (m, s2)"
    by (cases "route_outbox_claims_batch st now traceback tables claims s1")
  from Cons.prems c p q have t: "t = s2" by (simp add: route_outbox_event_def)
  from process_runs [OF p] obtain T1 where 1: "outbox_steps st fresh (fst s, T) (fst s1, T1)" by blast
  from Cons.IH [OF q] obtain T2 where "outbox_steps st fresh (fst s1, T1) (fst s2, T2)" by blast
  with 1 t show ?case using rtranclp_trans by metis
qed

lemma publish_batch_runs:
  assumes "publish_outbox_batch st celery now traceback fresh locked tables s = (n, t)"
  shows "\<exists>T'. outbox_steps st fresh (fst s, T) (fst t, T')"
proof -
  let ?limit = "Some (nat (workflow_outbox_process_chunk_size st))"
  obtain claims db where c: "claim_outbox_batch st fresh locked ?limit (now (snd s)) (fst s) = (claims, db)"
    by (cases "claim_outbox_batch st fresh locked ?limit (now (snd s)) (fst s)")
  have s1: "outbox_steps st fresh (fst s, T) (db, T)"
    using outbox_step.claim [OF c] by (rule r_into_rtranclp)
  have s2: "outbox_steps st fresh (fst s, T) (send_message m db, T)" for m
    using s1 outbox_step.message by (rule rtranclp.rtrancl_into_rtrancl)
  obtain k u where b: "route_outbox_claims_batch st now traceback tables claims (db, snd s) = (k, u)"
    by (cases "route_outbox_claims_batch st now traceback tables claims (db, snd s)")
  from batch_runs [OF b] have s3: "\<exists>T'. outbox_steps st fresh (fst s, T) (fst u, T')"
    using rtranclp_trans [OF s1] by fastforce
  have "t = snd (publish_outbox_batch st celery now traceback fresh locked tables s)"
    by (simp add: assms)
  also have "\<dots> = (if claims = [] then (db, snd s)
      else if celery then (send_message (RouteClaims claims) db, snd s) else u)"
    by (simp add: publish_outbox_batch_def Let_def c b)
  finally have "t = (if claims = [] then (db, snd s)
      else if celery then (send_message (RouteClaims claims) db, snd s) else u)" .
  then have "fst t = db \<or> fst t = send_message (RouteClaims claims) db \<or> t = u" by (auto split: if_splits)
  with s1 s2 s3 show ?thesis by metis
qed

lemma publish_runs:
  assumes "db_publish st celery now traceback fresh locked tables ev s = (b, t)"
  shows "\<exists>T'. outbox_steps st fresh (fst s, T) (fst t, T')"
proof (cases "publish_row ev (now (snd s)) (fst s)")
  case None
  with assms show ?thesis by (auto simp: db_publish_def)
next
  case (Some p)
  obtain pk db where p: "p = (pk, db)" by (cases p)
  have s1: "outbox_steps st fresh (fst s, T) (db, T)"
    using outbox_step.publish [OF Some [unfolded p]] by (rule r_into_rtranclp)
  show ?thesis
  proof (cases "workflow_async_enabled st")
    case False
    with assms Some p have "process_outbox_entry st now traceback tables pk None (db, snd s) = (b, t)"
      by (simp add: db_publish_def)
    from process_runs [OF this] show ?thesis using rtranclp_trans [OF s1] by fastforce
  next
    case True
    then have t: "t = enqueue_publish_task st celery now traceback fresh locked tables (db, snd s)"
      using assms Some p by (simp add: db_publish_def)
    show ?thesis
    proof (cases celery)
      case True
      then have "fst t = send_message PublishBatch db" using t by (simp add: enqueue_publish_task_def)
      then show ?thesis using rtranclp.rtrancl_into_rtrancl [OF s1 outbox_step.message] by auto
    next
      case False
      obtain n u where u: "publish_outbox_batch st celery now traceback fresh locked tables (db, snd s) = (n, u)"
        by (cases "publish_outbox_batch st celery now traceback fresh locked tables (db, snd s)")
      with t False have "t = u" by (simp add: enqueue_publish_task_def)
      with publish_batch_runs [OF u] show ?thesis using rtranclp_trans [OF s1] by fastforce
    qed
  qed
qed

lemma publish_sync_runs:
  assumes "db_publish_sync st now traceback tables ev s = (x, t)"
  shows "outbox_steps st fresh (fst s, T) (fst t, T)"
proof -
  let ?s = "(save_event ev (fst s), snd s)"
  obtain y u where r: "route_event (db_attempt st now traceback) None tables ev ?s = (y, u)"
    by (cases "route_event (db_attempt st now traceback) None tables ev ?s")
  with assms have t: "t = u" by (cases y) (simp_all add: db_publish_sync_def)
  have "outbox_steps st fresh (fst s, T) (save_event ev (fst s), T)"
    using outbox_step.save by (rule r_into_rtranclp)
  with route_runs [OF r] t show ?thesis using rtranclp_trans by fastforce
qed

section \<open>A concrete run\<close>

definition demo_event :: "unit wf_event" where
  "demo_event = \<lparr>ev_id = ''e1'', ev_type = ''a.b'', ev_payload = (), ev_name = None, ev_source = None,
     ev_occurred_at = None, ev_metadata = ()\<rparr>"

definition demo_published :: "unit store" where
  "demo_published = snd (the (publish_row demo_event 0 empty_store))"

definition demo_token :: "nat \<Rightarrow> string" where
  "demo_token n = replicate n CHR ''t''"

definition demo_claimed :: "unit store" where
  "demo_claimed = snd (claim_outbox_batch [] demo_token {} None 0 demo_published)"

definition demo_ticket :: "unit ticket" where
  "demo_ticket = the (begin_processing 1 (Some []) demo_claimed)"

lemmas demo_defs = demo_event_def demo_published_def demo_claimed_def demo_ticket_def demo_token_def
  empty_store_def publish_row_def create_event_def new_outbox_row_def claim_outbox_batch_def
  claim_ids_def due_def claimed_row_def begin_processing_def

lemmas default_settings = limit_defs bounded_int_def config_or_setting_def config_of_def setting_of_def
  workflow_dead_letter_enabled_def

lemma demo_published_eq:
  "demo_published = \<lparr>events = [(''e1'', demo_event)], outbox = [(1, new_outbox_row ''e1'' 0)],
     deliveries = [], next_outbox = 2, next_delivery = 1, tokens_issued = 0, messages = []\<rparr>"
  by (simp add: demo_defs Let_def)

lemma demo_claimed_eq:
  "demo_claimed = demo_published\<lparr>tokens_issued := 1,
     outbox := [(1, claimed_row [] 0 (new_outbox_row ''e1'' 0))]\<rparr>"
  unfolding demo_claimed_def demo_published_eq
  by (simp add: claim_outbox_batch_def claim_ids_def due_def new_outbox_row_def demo_token_def
      default_settings)

lemma demo_ticket_eq:
  "begin_processing 1 (Some []) demo_claimed = Some demo_ticket \<and>
   demo_ticket = \<lparr>tk_outbox = 1, tk_token = Some [], tk_was_claimed = True, tk_event = demo_event\<rparr>"
  unfolding demo_ticket_def demo_claimed_eq demo_published_eq
  by (simp add: begin_processing_def claimed_row_def new_outbox_row_def)

lemma demo_outbox_reachable:
  "reachable [] demo_token (demo_published, {})"
  "reachable [] demo_token (demo_claimed, {demo_ticket})"
proof -
  have p: "outbox_step [] demo_token (empty_store, {}) (demo_published, {})"
    by (rule outbox_step.publish [of demo_event 0 _ 1]) (simp add: demo_defs Let_def)
  obtain claims where "claim_outbox_batch [] demo_token {} None 0 demo_published = (claims, demo_claimed)"
    by (metis demo_claimed_def prod.collapse)
  then have c: "outbox_step [] demo_token (demo_published, {}) (demo_claimed, {})"
    by (rule outbox_step.claim)
  have b: "outbox_step [] demo_token (demo_claimed, {}) (demo_claimed, {demo_ticket})"
    by (rule outbox_step.begin_processing [OF conjunct1 [OF demo_ticket_eq]])
  from p show "reachable [] demo_token (demo_published, {})" by (simp add: reachable_def)
  from p c b show "reachable [] demo_token (demo_claimed, {demo_ticket})"
    unfolding reachable_def by (meson converse_rtranclp_into_rtranclp rtranclp.rtrancl_refl)
qed

section \<open>Properties\<close>

text \<open>C11: In every reachable state of the outbox, whatever the interleaving of workers and the
  clock readings: every row has its event record; exactly the claimed rows carry a claim token
  and a claim time; pending rows have not failed; failed rows carry an error; and with dead
  letters enabled a row is in the dead-letter status exactly when its failures used up
  \<open>max(1, WORKFLOW_MAX_RETRIES)\<close>.\<close>

theorem outbox_rows_consistent:
  assumes "reachable st fresh (db, T)" "od_get (outbox db) pk = Some row"
  shows "od_get (events db) (ob_event row) \<noteq> None \<and>
    (ob_status row = OClaimed \<longleftrightarrow> ob_claim_token row \<noteq> None) \<and>
    (ob_status row = OClaimed \<longleftrightarrow> ob_claimed_at row \<noteq> None) \<and>
    (ob_status row = OPending \<longrightarrow> ob_attempts row = 0) \<and>
    (ob_status row = OFailed \<longrightarrow> ob_last_error row \<noteq> None) \<and>
    (workflow_dead_letter_enabled st \<longrightarrow>
      int (ob_attempts row) \<le> max 1 (workflow_max_retries st) \<and>
      (ob_status row = ODeadLetter \<longleftrightarrow> int (ob_attempts row) = max 1 (workflow_max_retries st)))"
proof -
  from reachable_inv [OF assms(1)] assms(2)
  have r: "row_ok st row" "od_get (events db) (ob_event row) \<noteq> None"
    by (simp_all add: sys_inv_def)
  have "int (ob_attempts row) \<le> max 1 (workflow_max_retries st) \<and>
      (ob_status row = ODeadLetter \<longleftrightarrow> int (ob_attempts row) = max 1 (workflow_max_retries st))"
    if "workflow_dead_letter_enabled st"
    using r(1) that unfolding row_ok_def by (cases "ob_status row = ODeadLetter") auto
  with r show ?thesis unfolding row_ok_def by blast
qed

lemma outbox_rows_consistent_witness:
  "od_get (events demo_claimed) ''e1'' \<noteq> None"
  using outbox_rows_consistent [OF demo_outbox_reachable(2), of 1 "claimed_row [] 0 (new_outbox_row ''e1'' 0)"]
  by (simp add: demo_claimed_eq claimed_row_def new_outbox_row_def)

text \<open>Processed and dead-lettered rows are terminal: no interleaving of publishing, claiming,
  processing and finalizing ever changes such a row again.\<close>

theorem finished_rows_never_change:
  assumes "reachable st fresh s" "od_get (outbox (fst s)) pk = Some row"
    "ob_status row \<in> {OProcessed, ODeadLetter}" "outbox_steps st fresh s s'"
  shows "od_get (outbox (fst s')) pk = Some row"
proof -
  have "\<exists>row'. od_get (outbox (fst s')) pk = Some row' \<and> row' = row"
  proof (rule steps_row_induct [OF assms(4) reachable_inv [OF assms(1)] assms(2) refl])
    fix n and r r' :: outbox_row
    assume "row_step st (fresh n) r r'" "r = row"
    with assms(3) show "r' = row" by (auto elim!: row_step.cases simp: due_def)
  qed
  then show ?thesis by simp
qed

definition demo_done :: "unit store" where
  "demo_done = snd (finalize_processed demo_ticket 0 demo_claimed)"

definition demo_reclaimed :: "unit store" where
  "demo_reclaimed = snd (claim_outbox_batch [] demo_token {} None (seconds 300) demo_claimed)"

lemma demo_done_row:
  "od_get (outbox demo_done) 1 = Some (processed_row 0 (claimed_row [] 0 (new_outbox_row ''e1'' 0)))"
  by (simp add: demo_done_def finalize_processed_def conjunct2 [OF demo_ticket_eq] demo_claimed_eq owns_def
      claimed_row_def)

lemma demo_reclaimed_row:
  "od_get (outbox demo_reclaimed) 1 = Some (claimed_row ''t'' (seconds 300) (new_outbox_row ''e1'' 0))"
  by (simp add: demo_reclaimed_def claim_outbox_batch_def claim_ids_def due_def demo_token_def
      demo_claimed_eq claimed_row_def new_outbox_row_def default_settings seconds_def Let_def)

lemma message_run: "outbox_steps st fresh (db, T) (send_message m db, T)"
  using outbox_step.message by (rule r_into_rtranclp)

lemma demo_more_reachable:
  "reachable [] demo_token (demo_done, {demo_ticket})"
  "reachable [] demo_token (demo_reclaimed, {demo_ticket})"
proof -
  obtain b where "finalize_processed demo_ticket 0 demo_claimed = (b, demo_done)"
    by (metis demo_done_def prod.collapse)
  then have "outbox_step [] demo_token (demo_claimed, {demo_ticket}) (demo_done, {demo_ticket})"
    by (rule outbox_step.finish [OF insertI1])
  then show "reachable [] demo_token (demo_done, {demo_ticket})"
    using demo_outbox_reachable(2) unfolding reachable_def by (rule rtranclp.rtrancl_into_rtrancl [rotated])
  obtain claims where
    "claim_outbox_batch [] demo_token {} None (seconds 300) demo_claimed = (claims, demo_reclaimed)"
    by (metis demo_reclaimed_def prod.collapse)
  then have "outbox_step [] demo_token (demo_claimed, {demo_ticket}) (demo_reclaimed, {demo_ticket})"
    by (rule outbox_step.claim)
  then show "reachable [] demo_token (demo_reclaimed, {demo_ticket})"
    using demo_outbox_reachable(2) unfolding reachable_def by (rule rtranclp.rtrancl_into_rtrancl [rotated])
qed

lemma finished_rows_never_change_witness:
  "od_get (outbox (send_message PublishBatch demo_done)) 1 =
    Some (processed_row 0 (claimed_row [] 0 (new_outbox_row ''e1'' 0)))"
  using finished_rows_never_change [OF demo_more_reachable(1), of 1, unfolded fst_conv, OF demo_done_row
      _ message_run [of _ _ _ _ PublishBatch]]
  by (simp add: processed_row_def)

text \<open>C12: A lost claim stays lost: once a row is no longer owned by a claimed ticket (another
  worker reclaimed it after the lease ran out, or some worker finalized it), no run ever lets
  that ticket finalize the row, so the current owner's outcome is not overwritten.\<close>

theorem lost_claim_never_finalizes:
  assumes "inj fresh" "reachable st fresh (db, T)" "tk \<in> T" "tk_was_claimed tk"
    "od_get (outbox db) (tk_outbox tk) = Some row" "\<not> owns tk row"
    "outbox_steps st fresh (db, T) (db', T')"
  shows "finalize_processed tk t db' = (False, db') \<and> snd (finalize_failure st tk err t db') = db'"
proof -
  from reachable_inv [OF assms(2)] assms(3,4) obtain n where
    n: "n < tokens_issued db" "tk_token tk = Some (fresh n)" by (auto simp: sys_inv_def)
  have "\<exists>row'. od_get (outbox (fst (db', T'))) (tk_outbox tk) = Some row' \<and> \<not> owns tk row'"
  proof (rule steps_row_induct [OF assms(7) reachable_inv [OF assms(2)]])
    show "od_get (outbox (fst (db, T))) (tk_outbox tk) = Some row" "\<not> owns tk row"
      using assms(5,6) by simp_all
    fix m and r r' :: outbox_row
    assume m: "tokens_issued (fst (db, T)) \<le> m" and r: "row_step st (fresh m) r r'"
    have "fresh m \<noteq> fresh n" using m n(1) assms(1) by (auto dest: injD)
    with row_step_token [OF r] n(2) assms(4) show "\<not> owns tk r'" by (auto simp: owns_def)
  qed
  then show ?thesis by (auto simp: finalize_processed_def finalize_failure_def)
qed

lemma lost_claim_never_finalizes_witness:
  "finalize_processed demo_ticket 0 demo_reclaimed = (False, demo_reclaimed) \<and>
   snd (finalize_failure [] demo_ticket ''boom'' 0 demo_reclaimed) = demo_reclaimed"
proof (rule lost_claim_never_finalizes [OF _ demo_more_reachable(2)])
  show "inj demo_token" by (auto simp: inj_def demo_token_def)
  show "od_get (outbox demo_reclaimed) (tk_outbox demo_ticket) =
      Some (claimed_row ''t'' (seconds 300) (new_outbox_row ''e1'' 0))"
    unfolding conjunct2 [OF demo_ticket_eq] ticket.select_convs by (rule demo_reclaimed_row)
  show "outbox_steps [] demo_token (demo_reclaimed, {demo_ticket}) (demo_reclaimed, {demo_ticket})"
    by (rule rtranclp.rtrancl_refl)
qed (simp_all add: conjunct2 [OF demo_ticket_eq] owns_def claimed_row_def)



text \<open>C26: Every entry point of the registry and every task is a run of the step relation, so the
  invariants of reachable states hold for the code's own compositions: publishing, publishing
  inline, processing a row, routing a claimed batch and the periodic publish task.\<close>

theorem entry_points_are_runs:
  "(\<exists>T'. outbox_steps st fresh (fst s, T)
      (fst (snd (db_publish st celery now traceback fresh locked tables ev s)), T')) \<and>
   (\<exists>T'. outbox_steps st fresh (fst s, T)
      (fst (snd (db_publish_sync st now traceback tables ev s)), T')) \<and>
   (\<exists>T'. outbox_steps st fresh (fst s, T)
      (fst (snd (process_outbox_entry st now traceback tables pk token s)), T')) \<and>
   (\<exists>T'. outbox_steps st fresh (fst s, T)
      (fst (snd (route_outbox_claims_batch st now traceback tables claims s)), T')) \<and>
   (\<exists>T'. outbox_steps st fresh (fst s, T)
      (fst (snd (publish_outbox_batch st celery now traceback fresh locked tables s)), T'))"
  using publish_runs publish_sync_runs process_runs batch_runs publish_batch_runs
  by (metis prod.collapse)

section \<open>A handler that always fails\<close>

definition always_fails :: "('p, 'w) registration \<Rightarrow> string \<Rightarrow> ('w \<Rightarrow> 'w) \<Rightarrow> bool" where
  "always_fails r m tick =
     (reg_handler r = (\<lambda>e w. (Some (Failure m), tick w)) \<and> reg_validator r = None \<and>
      reg_when r = None \<and> reg_retry_on r = None \<and> reg_dead_letter r = None)"

text \<open>The event is stored and no worker completed or is running its delivery.\<close>

definition idle :: "'p wf_event \<Rightarrow> ('p, 'w) registration \<Rightarrow> 'p store \<Rightarrow> bool" where
  "idle ev r db =
     (od_get (events db) (ev_id ev) = Some ev \<and>
      (case od_get (deliveries db) (delivery_key (ev_id ev) (reg_id r)) of
         None \<Rightarrow> True
       | Some row \<Rightarrow> da_status row \<noteq> DCompleted \<and> da_status row \<noteq> DRunning))"

lemma idle_outbox [simp]: "idle ev r (db\<lparr>outbox := x\<rparr>) = idle ev r db"
  by (simp add: idle_def)

lemma begin_idle:
  assumes "idle ev r db" "begin_delivery st (ev_id ev) (reg_id r) n t db = (res, db')"
  shows "res = Started \<and> events db' = events db \<and>
    (\<exists>row. od_get (deliveries db') (delivery_key (ev_id ev) (reg_id r)) = Some row \<and> da_status row = DRunning)"
proof (cases "od_get (deliveries db) (delivery_key (ev_id ev) (reg_id r))")
  case None
  with assms show ?thesis by (auto simp: idle_def begin_delivery_def Let_def od_get_set)
next
  case (Some row)
  with assms show ?thesis
    by (auto simp: idle_def begin_delivery_def Let_def od_get_set split: if_splits)
qed

lemma failing_db_attempt:
  assumes "idle ev r db" "always_fails r m tick"
  shows "\<exists>db'. db_attempt st now traceback ev r n (db, w) = (Inl (Failure m), db', tick w) \<and> idle ev r db'"
proof -
  obtain res db1 where b: "begin_delivery st (ev_id ev) (reg_id r) n (now w) db = (res, db1)"
    by (cases "begin_delivery st (ev_id ev) (reg_id r) n (now w) db")
  from begin_idle [OF assms(1) b] obtain row where
    res: "res = Started" "events db1 = events db"
    and row: "od_get (deliveries db1) (delivery_key (ev_id ev) (reg_id r)) = Some row" "da_status row = DRunning"
    by blast
  let ?status = "failed_delivery_status st r n"
  let ?db = "end_delivery (delivery_key (ev_id ev) (reg_id r)) ?status
      (Some (exn_text (Failure m))) (Some (traceback (Failure m))) db1"
  have "?status \<noteq> DCompleted \<and> ?status \<noteq> DRunning" by (simp add: failed_delivery_status_def)
  then have "idle ev r ?db"
    using assms(1) res row by (simp add: idle_def end_delivery_def od_get_set)
  moreover have "db_attempt st now traceback ev r n (db, w) = (Inl (Failure m), ?db, tick w)"
    using assms(2) b res by (simp add: db_attempt_def always_fails_def)
  ultimately show ?thesis by blast
qed

lemma failing_db_attempts:
  assumes "always_fails r m tick"
  shows "idle ev r db \<Longrightarrow> \<exists>db' w'.
    run_attempts (db_attempt st now traceback) None ev r (Suc n) k (db, w) = (Inr False, db', w') \<and> idle ev r db'"
proof (induction n arbitrary: k db w)
  case 0
  from failing_db_attempt [OF 0 assms] obtain db' where
    "db_attempt st now traceback ev r k (db, w) = (Inl (Failure m), db', tick w)" "idle ev r db'" by blast
  with assms show ?case by (simp add: send_to_dead_letter_def always_fails_def)
next
  case (Suc n)
  from failing_db_attempt [OF Suc.prems assms] obtain db1 where
    a: "db_attempt st now traceback ev r k (db, w) = (Inl (Failure m), db1, tick w)" "idle ev r db1" by blast
  have "run_attempts (db_attempt st now traceback) None ev r (Suc (Suc n)) k (db, w) =
      run_attempts (db_attempt st now traceback) None ev r (Suc n) (Suc k) (db1, tick w)"
    using a(1) assms by (subst run_attempts.simps) (simp add: always_fails_def del: run_attempts.simps)
  with Suc.IH [OF a(2)] show ?case by simp
qed

lemma failing_route:
  assumes "always_fails r m tick" "get_entries tables ev = [r]" "idle ev r db"
  shows "\<exists>db' w'. route_event (db_attempt st now traceback) None tables ev (db, w) =
      (Inr \<lparr>handled = False, had_applicable_handlers = True\<rparr>, db', w') \<and>
    idle ev r db' \<and> outbox db' = outbox db"
proof -
  from failing_db_attempts [OF assms(1,3), of st now traceback "reg_retries r" 1 w] obtain db' w' where
    a: "run_handler_with_retry (db_attempt st now traceback) None ev r (db, w) = (Inr False, db', w')"
    and i: "idle ev r db'"
    by (auto simp: run_handler_with_retry_def simp del: run_attempts.simps)
  from a assms(1,2) have r: "route_event (db_attempt st now traceback) None tables ev (db, w) =
      (Inr \<lparr>handled = False, had_applicable_handlers = True\<rparr>, db', w')"
    by (simp add: route_event_def always_fails_def)
  from db_frame.evolves_route [OF this] i r show ?thesis by simp
qed

lemma failing_process:
  assumes "always_fails r m tick" "get_entries tables ev = [r]" "idle ev r db"
    "od_get (outbox db) pk = Some row" "ob_event row = ev_id ev"
    "ob_status row = OPending \<or> ob_status row = OFailed"
  shows "\<exists>db' w' t. snd (process_outbox_entry st now traceback tables pk None (db, w)) = (db', w') \<and>
    idle ev r db' \<and> od_get (outbox db') pk =
      Some (failed_row st ''Workflow event handler did not complete successfully.'' t row)"
proof -
  let ?tk = "\<lparr>tk_outbox = pk, tk_token = ob_claim_token row, tk_was_claimed = False, tk_event = ev\<rparr>"
  from assms(3-6) have b: "begin_processing pk None db = Some ?tk"
    by (auto simp: begin_processing_def idle_def)
  from failing_route [OF assms(1-3), of st now traceback w] obtain db1 w1 where
    r: "route_event (db_attempt st now traceback) None tables ev (db, w) =
      (Inr \<lparr>handled = False, had_applicable_handlers = True\<rparr>, db1, w1)"
      "idle ev r db1" "outbox db1 = outbox db" by blast
  have "owns ?tk row" using assms(6) by (simp add: owns_def)
  with b r assms(4) show ?thesis
    by (auto simp: process_outbox_entry_def finalize_failure_def Let_def od_get_set)
qed


definition demo_registration :: "(unit, int) registration" where
  "demo_registration = \<lparr>reg_event_key = ''a.b'', reg_id = ''r'', reg_paths = [],
     reg_handler = \<lambda>e w. (Some (Failure ''boom''), w + 1), reg_validator = None, reg_when = None,
     reg_retries = 1, reg_retry_on = None, reg_dead_letter = None\<rparr>"


end
