(* ===== verification/WfEngine.thy ===== *)
theory WfEngine
  imports WfConfig
begin

text \<open>
  Workflow executions: the vocabulary of \<open>workflow/engine.py\<close>, the database engine of
  \<open>workflow/backends/celery.py\<close> and the execution tasks of \<open>workflow/tasks.py\<close>. The executions
  table is an ordered dictionary from execution ids in the order of creation; each
  \<open>transaction.atomic()\<close> block is one function. Handlers act on a world \<open>'w\<close>, \<open>now w\<close> is the
  clock, and \<open>imports\<close> stands for Django's \<open>import_string\<close> followed by \<open>callable\<close>.
\<close>

section \<open>Executions\<close>

datatype wf_state = WPending | WRunning | WWaiting | WFailed | WCancelled | WCompleted

definition active_states :: "wf_state list" where
  "active_states = [WPending, WRunning, WWaiting]"

definition active_plus_completed_states :: "wf_state list" where
  "active_plus_completed_states = active_states @ [WCompleted]"

definition terminal_states :: "wf_state list" where
  "terminal_states = [WFailed, WCancelled, WCompleted]"

text \<open>JSON-like values: what the engines look into are strings and mappings.\<close>

datatype 'v json = JStr string | JMap "(string \<times> 'v json) list" | JOther 'v

type_synonym 'v payload = "(string, 'v json) odict"

text \<open>
  What a handler returns: a falsy value, a value that \<open>dict()\<close> turns into a mapping, or any
  other truthy value with the text of the exception that \<open>dict()\<close> raises on it.
\<close>

datatype 'v result = Falsy | Mapping_result "'v payload" | Other_result string

type_synonym ('v, 'w) handler = "'v payload \<Rightarrow> 'w \<Rightarrow> (string + 'v result) \<times> 'w"

record ('v, 'w) handler_object =
  h_run :: "('v, 'w) handler"
  h_module :: string
  h_qualname :: string

record ('v, 'w) workflow_definition =
  wf_id :: string
  wf_handler :: "('v, 'w) handler_object option"
  wf_metadata :: "'v payload"

record 'v execution =
  ex_id :: string
  ex_workflow :: string
  ex_state :: wf_state
  ex_input :: "'v payload"
  ex_output :: "'v result option"
  ex_correlation :: "string option"
  ex_started :: "int option"
  ex_ended :: "int option"
  ex_error :: "string option"
  ex_metadata :: "'v payload"

datatype engine_error =
  ExecutionNotFound string
| ExecutionCancelled string
| InvalidState string string wf_state "wf_state list"
| IntegrityFailure
| BrokenTransaction

fun state_name :: "wf_state \<Rightarrow> string" where
  "state_name WPending = ''pending''"
| "state_name WRunning = ''running''"
| "state_name WWaiting = ''waiting''"
| "state_name WFailed = ''failed''"
| "state_name WCancelled = ''cancelled''"
| "state_name WCompleted = ''completed''"

fun comma_separated :: "string list \<Rightarrow> string" where
  "comma_separated [] = []"
| "comma_separated [p] = p"
| "comma_separated (p # q # ps) = p @ '', '' @ comma_separated (q # ps)"

definition in_quotes :: "string \<Rightarrow> string" where
  "in_quotes s = CHR 0x27 # s @ [CHR 0x27]"

text \<open>The messages of the engine errors; the database errors have Django's own.\<close>

fun engine_error_text :: "engine_error \<Rightarrow> string option" where
  "engine_error_text (ExecutionNotFound i) =
     Some (''Workflow execution '' @ in_quotes i @ '' was not found.'')"
| "engine_error_text (ExecutionCancelled i) =
     Some (''Workflow execution '' @ in_quotes i @ '' is cancelled.'')"
| "engine_error_text (InvalidState i operation state expected) =
     Some (''Workflow execution '' @ in_quotes i @ '' cannot '' @ operation @ '' from state '' @
       in_quotes (state_name state) @ ''. Expected one of: '' @
       comma_separated (map state_name expected) @ ''.'')"
| "engine_error_text IntegrityFailure = None"
| "engine_error_text BrokenTransaction = None"

section \<open>Handler paths\<close>

fun contains_text :: "string \<Rightarrow> string \<Rightarrow> bool" where
  "contains_text sub [] = (sub = [])"
| "contains_text sub (c # cs) = (take (length sub) (c # cs) = sub \<or> contains_text sub cs)"

definition handler_path :: "('v, 'w) workflow_definition \<Rightarrow> string option" where
  "handler_path flow =
     (case od_get (wf_metadata flow) ''handler_path'' of
        Some (JStr (c # cs)) \<Rightarrow> Some (c # cs)
      | _ \<Rightarrow>
          (case wf_handler flow of
             None \<Rightarrow> None
           | Some h \<Rightarrow>
               if h_module h \<noteq> [] \<and> h_qualname h \<noteq> [] \<and> \<not> contains_text ''<locals>'' (h_qualname h)
               then Some (h_module h @ ''.'' @ h_qualname h) else None))"

datatype ('v, 'w) imported = ImportFails string | NotCallable string | Imported "('v, 'w) handler"

section \<open>The executions table\<close>

text \<open>\<open>dispatched\<close> are the \<open>execute_workflow_handler.delay\<close> messages sent after commit.\<close>

record 'v executions_db =
  executions :: "(string, 'v execution) odict"
  dispatched :: "(string \<times> string \<times> 'v payload) list"

definition live_under :: "string \<Rightarrow> string \<Rightarrow> 'v execution \<Rightarrow> bool" where
  "live_under workflow_id correlation_id ex =
     (ex_correlation ex = Some correlation_id \<and> ex_workflow ex = workflow_id \<and>
      ex_state ex \<in> set active_plus_completed_states)"

definition get_existing_correlation_execution ::
  "string \<Rightarrow> string \<Rightarrow> 'v executions_db \<Rightarrow> 'v execution option" where
  "get_existing_correlation_execution workflow_id correlation_id db =
     find (live_under workflow_id correlation_id) (map snd (executions db))"

text \<open>
  \<open>objects.create\<close> with the unique execution id and the unique constraint on live executions
  of a non-empty correlation id; \<^const>\<open>None\<close> is the \<open>IntegrityError\<close>.
\<close>

definition create_execution :: "'v execution \<Rightarrow> 'v executions_db \<Rightarrow> 'v executions_db option" where
  "create_execution ex db =
     (if od_get (executions db) (ex_id ex) \<noteq> None then None
      else if (case ex_correlation ex of
            None \<Rightarrow> False
          | Some c \<Rightarrow> c \<noteq> [] \<and> ex_state ex \<in> set active_plus_completed_states \<and>
              list_ex (live_under (ex_workflow ex) c) (map snd (executions db))) then None
      else Some (db\<lparr>executions := executions db @ [(ex_id ex, ex)]\<rparr>))"

definition store_execution :: "'v execution \<Rightarrow> 'v executions_db \<Rightarrow> 'v executions_db" where
  "store_execution ex db = db\<lparr>executions := od_set (ex_id ex) ex (executions db)\<rparr>"

section \<open>Starting an execution\<close>

fun run_inline_handler ::
  "('v, 'w) handler \<Rightarrow> 'v payload \<Rightarrow> 'w \<Rightarrow> (wf_state \<times> 'v result option \<times> string option) \<times> 'w" where
  "run_inline_handler h payload w =
     (case h payload w of
        (Inl e, w') \<Rightarrow> ((WFailed, None, Some e), w')
      | (Inr Falsy, w') \<Rightarrow> ((WCompleted, Some (Mapping_result []), None), w')
      | (Inr (Mapping_result m), w') \<Rightarrow> ((WCompleted, Some (Mapping_result m), None), w')
      | (Inr (Other_result e), w') \<Rightarrow> ((WFailed, None, Some e), w'))"

definition resolve_error :: "string \<Rightarrow> string \<Rightarrow> string" where
  "resolve_error path reason =
     ''Failed to resolve workflow handler path '' @ in_quotes path @ '': '' @ reason"

text \<open>State and error with which the row is created.\<close>

definition initial_state ::
  "bool \<Rightarrow> bool \<Rightarrow> (string \<Rightarrow> ('v, 'w) imported) \<Rightarrow> bool \<Rightarrow> string option \<Rightarrow> wf_state \<times> string option" where
  "initial_state async celery imports runnable path =
     (if \<not> runnable then (WCompleted, None)
      else if \<not> async then (WPending, None)
      else (case path of
          None \<Rightarrow> (WFailed, Some ''Workflow async mode requires an importable top-level handler path.'')
        | Some p \<Rightarrow>
            if \<not> celery then (WFailed, Some ''Workflow async mode requires Celery to be installed.'')
            else (case imports p of
                ImportFails e \<Rightarrow> (WFailed, Some (resolve_error p e))
              | NotCallable t \<Rightarrow> (WFailed, Some (resolve_error p ''handler is not callable''))
              | Imported h \<Rightarrow> (WPending, None))))"

text \<open>The synchronous branch: resolve the handler if needed, run it, and save the row.\<close>

definition finish_inline ::
  "(string \<Rightarrow> ('v, 'w) imported) \<Rightarrow> ('w \<Rightarrow> int) \<Rightarrow> ('v, 'w) workflow_definition \<Rightarrow> string option \<Rightarrow>
   'v payload \<Rightarrow> 'v execution \<Rightarrow> 'w \<Rightarrow> 'v execution \<times> 'w" where
  "finish_inline imports now flow path payload ex w =
     (case (case wf_handler flow of
              Some h \<Rightarrow> Inr (Some (h_run h))
            | None \<Rightarrow>
                (case path of
                   None \<Rightarrow> Inr None
                 | Some p \<Rightarrow>
                     (case imports p of
                        ImportFails e \<Rightarrow> Inl (resolve_error p e)
                      | NotCallable t \<Rightarrow> Inl (resolve_error p (''handler is not callable ('' @ t @ '')''))
                      | Imported h \<Rightarrow> Inr (Some h)))) of
        Inl e \<Rightarrow>
          (ex\<lparr>ex_state := WFailed, ex_output := None, ex_error := Some e, ex_ended := Some (now w)\<rparr>, w)
      | Inr None \<Rightarrow> (ex, w)
      | Inr (Some h) \<Rightarrow>
          (case run_inline_handler h payload w of
             ((state, output, err), w') \<Rightarrow>
               (ex\<lparr>ex_state := state, ex_output := output, ex_error := err, ex_ended := Some (now w')\<rparr>, w')))"

text \<open>
  The rest of \<open>CeleryWorkflowEngine.start\<close> after the correlation lookup. Django marks the
  transaction as broken when the insert fails inside the \<open>atomic\<close> block, and the fallback query
  then raises.
\<close>

definition celery_insert ::
  "settings \<Rightarrow> bool \<Rightarrow> (string \<Rightarrow> ('v, 'w) imported) \<Rightarrow> string \<Rightarrow> ('w \<Rightarrow> int) \<Rightarrow>
   ('v, 'w) workflow_definition \<Rightarrow> 'v payload option \<Rightarrow> string option \<Rightarrow> 'v payload option \<Rightarrow>
   'v executions_db \<times> 'w \<Rightarrow> (engine_error + 'v execution) \<times> 'v executions_db \<times> 'w" where
  "celery_insert st celery imports new_id now flow input_data correlation_id metadata s =
     (let w = snd s;
          path = handler_path flow;
          payload = (case input_data of None \<Rightarrow> [] | Some m \<Rightarrow> m);
          given = (case metadata of None \<Rightarrow> [] | Some m \<Rightarrow> m);
          merged = (case path of None \<Rightarrow> given | Some p \<Rightarrow> od_set ''handler_path'' (JStr p) given);
          runnable = (wf_handler flow \<noteq> None \<or> path \<noteq> None);
          async = workflow_async_enabled st;
          (state, err) = initial_state async celery imports runnable path;
          ex = \<lparr>ex_id = new_id, ex_workflow = wf_id flow, ex_state = state, ex_input = payload,
             ex_output = (if runnable then None else Some (Mapping_result [])),
             ex_correlation = correlation_id, ex_started = Some (now w),
             ex_ended = (if state \<in> set terminal_states then Some (now w) else None),
             ex_error = err, ex_metadata = merged\<rparr>
      in case create_execution ex (fst s) of
           None \<Rightarrow>
             (Inl (if correlation_id = None \<or> correlation_id = Some [] then IntegrityFailure
                   else BrokenTransaction), s)
         | Some db1 \<Rightarrow>
             if runnable \<and> async \<and> celery \<and> path \<noteq> None \<and> state = WPending
             then (Inr ex, db1\<lparr>dispatched := dispatched db1 @ [(new_id, the path, payload)]\<rparr>, w)
             else if runnable \<and> \<not> async
             then (case finish_inline imports now flow path payload ex w of
                 (ex', w') \<Rightarrow> (Inr ex', store_execution ex' db1, w'))
             else (Inr ex, db1, w))"

text \<open>
  \<open>CeleryWorkflowEngine.start\<close>; \<open>race\<close> is what other transactions commit between the lookup of
  the correlation id and the insert.
\<close>

definition celery_start ::
  "settings \<Rightarrow> bool \<Rightarrow> (string \<Rightarrow> ('v, 'w) imported) \<Rightarrow> ('v executions_db \<Rightarrow> 'v executions_db) \<Rightarrow>
   string \<Rightarrow> ('w \<Rightarrow> int) \<Rightarrow> ('v, 'w) workflow_definition \<Rightarrow> 'v payload option \<Rightarrow> string option \<Rightarrow>
   'v payload option \<Rightarrow> 'v executions_db \<times> 'w \<Rightarrow>
   (engine_error + 'v execution) \<times> 'v executions_db \<times> 'w" where
  "celery_start st celery imports race new_id now flow input_data correlation_id metadata s =
     (case (case correlation_id of
              None \<Rightarrow> None
            | Some c \<Rightarrow> if c = [] then None
                else get_existing_correlation_execution (wf_id flow) c (fst s)) of
        Some ex \<Rightarrow> (Inr ex, s)
      | None \<Rightarrow> celery_insert st celery imports new_id now flow input_data correlation_id metadata
                  (race (fst s), snd s))"

section \<open>Running a dispatched execution\<close>

text \<open>The first transaction of \<open>execute_workflow_handler\<close>: whether the handler is to run.\<close>

definition execute_begin :: "string \<Rightarrow> 'v executions_db \<Rightarrow> engine_error + (bool \<times> 'v executions_db)" where
  "execute_begin i db =
     (case od_get (executions db) i of
        None \<Rightarrow> Inl (ExecutionNotFound i)
      | Some ex \<Rightarrow>
          if ex_state ex \<noteq> WPending then Inr (False, db)
          else Inr (True, store_execution (ex\<lparr>ex_state := WRunning\<rparr>) db))"

text \<open>The conditional update with the outcome.\<close>

definition execute_finish ::
  "string \<Rightarrow> string + 'v payload \<Rightarrow> int \<Rightarrow> 'v executions_db \<Rightarrow> 'v executions_db" where
  "execute_finish i outcome t db =
     (case od_get (executions db) i of
        None \<Rightarrow> db
      | Some ex \<Rightarrow>
          if ex_state ex \<noteq> WRunning then db
          else (case outcome of
              Inr m \<Rightarrow> store_execution (ex\<lparr>ex_state := WCompleted, ex_output := Some (Mapping_result m),
                         ex_error := None, ex_ended := Some t\<rparr>) db
            | Inl e \<Rightarrow> store_execution (ex\<lparr>ex_state := WFailed, ex_output := None,
                         ex_error := Some e, ex_ended := Some t\<rparr>) db))"

definition run_imported ::
  "(string \<Rightarrow> ('v, 'w) imported) \<Rightarrow> string \<Rightarrow> 'v payload \<Rightarrow> 'w \<Rightarrow> (string + 'v payload) \<times> 'w" where
  "run_imported imports path payload w =
     (case imports path of
        ImportFails e \<Rightarrow> (Inl e, w)
      | NotCallable t \<Rightarrow> (Inr [], w)
      | Imported h \<Rightarrow>
          (case h payload w of
             (Inl e, w') \<Rightarrow> (Inl e, w')
           | (Inr Falsy, w') \<Rightarrow> (Inr [], w')
           | (Inr (Mapping_result m), w') \<Rightarrow> (Inr m, w')
           | (Inr (Other_result e), w') \<Rightarrow> (Inl e, w')))"

definition execute_workflow_handler ::
  "(string \<Rightarrow> ('v, 'w) imported) \<Rightarrow> ('w \<Rightarrow> int) \<Rightarrow> string \<Rightarrow> string \<Rightarrow> 'v payload option \<Rightarrow>
   'v executions_db \<times> 'w \<Rightarrow> (engine_error + unit) \<times> 'v executions_db \<times> 'w" where
  "execute_workflow_handler imports now i path input_data s =
     (case execute_begin i (fst s) of
        Inl e \<Rightarrow> (Inl e, s)
      | Inr (False, db) \<Rightarrow> (Inr (), db, snd s)
      | Inr (True, db) \<Rightarrow>
          (case run_imported imports path (case input_data of None \<Rightarrow> [] | Some m \<Rightarrow> m) (snd s) of
             (outcome, w) \<Rightarrow> (Inr (), execute_finish i outcome (now w) db, w)))"

section \<open>Resume, cancel and status\<close>

definition resumed_execution :: "'v payload option \<Rightarrow> int \<Rightarrow> 'v execution \<Rightarrow> 'v execution" where
  "resumed_execution signal t ex =
     ex\<lparr>ex_metadata := (case signal of
            None \<Rightarrow> ex_metadata ex
          | Some m \<Rightarrow> od_set ''resume_signal'' (JMap m) (ex_metadata ex)),
        ex_state := WCompleted, ex_ended := Some t\<rparr>"

definition cancelled_execution :: "string option \<Rightarrow> int \<Rightarrow> 'v execution \<Rightarrow> 'v execution" where
  "cancelled_execution reason t ex =
     ex\<lparr>ex_state := WCancelled, ex_error := reason, ex_ended := Some t\<rparr>"

definition resume_execution_task ::
  "string \<Rightarrow> 'v payload option \<Rightarrow> int \<Rightarrow> 'v executions_db \<Rightarrow>
   (engine_error + bool) \<times> 'v executions_db" where
  "resume_execution_task i signal t db =
     (case od_get (executions db) i of
        None \<Rightarrow> (Inl (ExecutionNotFound i), db)
      | Some ex \<Rightarrow>
          if ex_state ex \<noteq> WWaiting then (Inr False, db)
          else (Inr True, store_execution (resumed_execution signal t ex) db))"

definition cancel_execution_task ::
  "string \<Rightarrow> string option \<Rightarrow> int \<Rightarrow> 'v executions_db \<Rightarrow> (engine_error + bool) \<times> 'v executions_db" where
  "cancel_execution_task i reason t db =
     (case od_get (executions db) i of
        None \<Rightarrow> (Inl (ExecutionNotFound i), db)
      | Some ex \<Rightarrow>
          if ex_state ex \<notin> set active_states then (Inr False, db)
          else (Inr True, store_execution (cancelled_execution reason t ex) db))"

definition celery_resume ::
  "string \<Rightarrow> 'v payload option \<Rightarrow> int \<Rightarrow> 'v executions_db \<Rightarrow>
   (engine_error + 'v execution) \<times> 'v executions_db" where
  "celery_resume i signal t db =
     (case od_get (executions db) i of
        None \<Rightarrow> (Inl (ExecutionNotFound i), db)
      | Some ex \<Rightarrow>
          if ex_state ex = WCancelled then (Inl (ExecutionCancelled i), db)
          else if ex_state ex \<noteq> WWaiting
          then (Inl (InvalidState i ''resume'' (ex_state ex) [WWaiting]), db)
          else (Inr (resumed_execution signal t ex), store_execution (resumed_execution signal t ex) db))"

definition celery_cancel ::
  "string \<Rightarrow> string option \<Rightarrow> int \<Rightarrow> 'v executions_db \<Rightarrow>
   (engine_error + 'v execution) \<times> 'v executions_db" where
  "celery_cancel i reason t db =
     (case od_get (executions db) i of
        None \<Rightarrow> (Inl (ExecutionNotFound i), db)
      | Some ex \<Rightarrow>
          if ex_state ex = WCancelled then (Inl (ExecutionCancelled i), db)
          else if ex_state ex \<notin> set active_states
          then (Inl (InvalidState i ''cancel'' (ex_state ex) active_states), db)
          else (Inr (cancelled_execution reason t ex), store_execution (cancelled_execution reason t ex) db))"

definition celery_status :: "string \<Rightarrow> 'v executions_db \<Rightarrow> engine_error + 'v execution" where
  "celery_status i db =
     (case od_get (executions db) i of None \<Rightarrow> Inl (ExecutionNotFound i) | Some ex \<Rightarrow> Inr ex)"

section \<open>The interface of an engine\<close>

text \<open>
  What \<open>cancel\<close> and \<open>resume\<close> promise in the \<open>WorkflowEngine\<close> protocol, over any store of
  executions, and what a client may conclude.
\<close>

locale workflow_engine =
  fixes ex_lookup :: "'s \<Rightarrow> string \<Rightarrow> 'v execution option"
    and resume :: "string \<Rightarrow> 'v payload option \<Rightarrow> int \<Rightarrow> 's \<Rightarrow> (engine_error + 'v execution) \<times> 's"
    and cancel :: "string \<Rightarrow> string option \<Rightarrow> int \<Rightarrow> 's \<Rightarrow> (engine_error + 'v execution) \<times> 's"
    and ids_ok :: "'s \<Rightarrow> bool"
  assumes cancel_missing: "ex_lookup s i = None \<Longrightarrow> cancel i r t s = (Inl (ExecutionNotFound i), s)"
    and cancel_cancelled: "ex_lookup s i = Some ex \<Longrightarrow> ex_state ex = WCancelled \<Longrightarrow>
      cancel i r t s = (Inl (ExecutionCancelled i), s)"
    and cancel_finished: "ex_lookup s i = Some ex \<Longrightarrow> ex_state ex \<in> {WFailed, WCompleted} \<Longrightarrow>
      cancel i r t s = (Inl (InvalidState i ''cancel'' (ex_state ex) active_states), s)"
    and cancel_active: "ids_ok s \<Longrightarrow> ex_lookup s i = Some ex \<Longrightarrow> ex_state ex \<in> set active_states \<Longrightarrow>
      \<exists>s'. cancel i r t s = (Inr (cancelled_execution r t ex), s') \<and> ids_ok s' \<and>
        (\<forall>j. ex_lookup s' j = (if j = i then Some (cancelled_execution r t ex) else ex_lookup s j))"
    and resume_missing: "ex_lookup s i = None \<Longrightarrow> resume i m t s = (Inl (ExecutionNotFound i), s)"
    and resume_cancelled: "ex_lookup s i = Some ex \<Longrightarrow> ex_state ex = WCancelled \<Longrightarrow>
      resume i m t s = (Inl (ExecutionCancelled i), s)"
    and resume_other: "ex_lookup s i = Some ex \<Longrightarrow> ex_state ex \<notin> {WCancelled, WWaiting} \<Longrightarrow>
      resume i m t s = (Inl (InvalidState i ''resume'' (ex_state ex) [WWaiting]), s)"
    and resume_waiting: "ids_ok s \<Longrightarrow> ex_lookup s i = Some ex \<Longrightarrow> ex_state ex = WWaiting \<Longrightarrow>
      \<exists>s'. resume i m t s = (Inr (resumed_execution m t ex), s') \<and> ids_ok s' \<and>
        (\<forall>j. ex_lookup s' j = (if j = i then Some (resumed_execution m t ex) else ex_lookup s j))"
begin

lemma cancel_succeeds_iff:
  assumes "ids_ok s"
  shows "(\<exists>ex. fst (cancel i r t s) = Inr ex) \<longleftrightarrow>
    (\<exists>ex. ex_lookup s i = Some ex \<and> ex_state ex \<in> set active_states)"
proof (cases "ex_lookup s i")
  case None
  with cancel_missing show ?thesis by simp
next
  case (Some ex)
  consider "ex_state ex = WCancelled" | "ex_state ex \<in> {WFailed, WCompleted}" | "ex_state ex \<in> set active_states"
    by (cases "ex_state ex") (simp_all add: active_states_def)
  then show ?thesis
  proof cases
    case 1
    with cancel_cancelled [OF Some] Some show ?thesis by (simp add: active_states_def)
  next
    case 2
    with cancel_finished [OF Some] Some show ?thesis by (auto simp: active_states_def)
  next
    case 3
    with cancel_active [OF assms Some, of r t] Some show ?thesis by auto
  qed
qed

lemma cancel_is_final:
  assumes "ids_ok s" "fst (cancel i r t s) = Inr ex"
  shows "ex_lookup (snd (cancel i r t s)) i = Some ex \<and> ex_state ex = WCancelled \<and> ex_error ex = r \<and>
    cancel i r' t' (snd (cancel i r t s)) = (Inl (ExecutionCancelled i), snd (cancel i r t s)) \<and>
    resume i m t' (snd (cancel i r t s)) = (Inl (ExecutionCancelled i), snd (cancel i r t s))"
proof -
  from cancel_succeeds_iff [OF assms(1)] assms(2) obtain ex0 where
    e: "ex_lookup s i = Some ex0" "ex_state ex0 \<in> set active_states" by blast
  from cancel_active [OF assms(1) e, of r t] obtain s' where
    c: "cancel i r t s = (Inr (cancelled_execution r t ex0), s')"
    "ex_lookup s' i = Some (cancelled_execution r t ex0)" by auto
  have "ex_state (cancelled_execution r t ex0) = WCancelled" by (simp add: cancelled_execution_def)
  with c assms(2) cancel_cancelled [OF c(2)] resume_cancelled [OF c(2)] show ?thesis
    by (auto simp: cancelled_execution_def)
qed

lemma terminal_kept:
  assumes "ids_ok s" "ex_lookup s i = Some ex" "ex_state ex \<in> set terminal_states"
  shows "ex_lookup (snd (cancel j r t s)) i = Some ex \<and> ex_lookup (snd (resume j m t s)) i = Some ex"
proof (cases "ex_lookup s j")
  case None
  with cancel_missing [OF None] resume_missing [OF None] assms(2) show ?thesis by simp
next
  case (Some ex')
  have n: "ex_state ex' \<in> set active_states \<or> ex_state ex' = WWaiting \<Longrightarrow> j \<noteq> i"
    using assms(2,3) Some by (auto simp: active_states_def terminal_states_def)
  have c: "ex_lookup (snd (cancel j r t s)) i = Some ex"
  proof (cases "ex_state ex' \<in> set active_states")
    case True
    with cancel_active [OF assms(1) Some True, of r t] n assms(2) show ?thesis by auto
  next
    case False
    then have "ex_state ex' = WCancelled \<or> ex_state ex' \<in> {WFailed, WCompleted}"
      by (cases "ex_state ex'") (simp_all add: active_states_def)
    with cancel_cancelled [OF Some, of r t] cancel_finished [OF Some, of r t] assms(2) show ?thesis by auto
  qed
  have "ex_lookup (snd (resume j m t s)) i = Some ex"
  proof (cases "ex_state ex' = WWaiting")
    case True
    with resume_waiting [OF assms(1) Some True, of m t] n assms(2) show ?thesis by auto
  next
    case False
    with resume_cancelled [OF Some, of m t] resume_other [OF Some, of m t] assms(2) show ?thesis
      by (cases "ex_state ex' = WCancelled") simp_all
  qed
  with c show ?thesis by blast
qed

end

definition celery_ids_ok :: "'v executions_db \<Rightarrow> bool" where
  "celery_ids_ok db = (od_wf (executions db) \<and>
     (\<forall>i ex. od_get (executions db) i = Some ex \<longrightarrow> ex_id ex = i))"

lemma cancelled_execution_id [simp]: "ex_id (cancelled_execution r t ex) = ex_id ex"
  by (simp add: cancelled_execution_def)

lemma resumed_execution_id [simp]: "ex_id (resumed_execution m t ex) = ex_id ex"
  by (simp add: resumed_execution_def)

lemma store_execution_ids:
  "celery_ids_ok db \<Longrightarrow> celery_ids_ok (store_execution ex db)"
  by (simp add: celery_ids_ok_def store_execution_def odict_simps)

lemma store_execution_get [simp]:
  "od_get (executions (store_execution ex db)) i = (if i = ex_id ex then Some ex else od_get (executions db) i)"
  by (simp add: store_execution_def odict_simps)

interpretation celery: workflow_engine "\<lambda>db. od_get (executions db)" celery_resume celery_cancel celery_ids_ok
proof
  fix db :: "'v executions_db" and i ex r t m
  assume ok: "celery_ids_ok db" and ex: "od_get (executions db) i = Some ex"
  then have i: "ex_id ex = i" by (simp add: celery_ids_ok_def)
  show "ex_state ex \<in> set active_states \<Longrightarrow>
      \<exists>s'. celery_cancel i r t db = (Inr (cancelled_execution r t ex), s') \<and> celery_ids_ok s' \<and>
        (\<forall>j. od_get (executions s') j =
          (if j = i then Some (cancelled_execution r t ex) else od_get (executions db) j))"
    using ok ex i store_execution_ids [OF ok, of "cancelled_execution r t ex"]
    by (auto simp: celery_cancel_def active_states_def)
  show "ex_state ex = WWaiting \<Longrightarrow>
      \<exists>s'. celery_resume i m t db = (Inr (resumed_execution m t ex), s') \<and> celery_ids_ok s' \<and>
        (\<forall>j. od_get (executions s') j =
          (if j = i then Some (resumed_execution m t ex) else od_get (executions db) j))"
    using ok ex i store_execution_ids [OF ok, of "resumed_execution m t ex"]
    by (auto simp: celery_resume_def)
qed (auto simp: celery_cancel_def celery_resume_def active_states_def)

end
