(* ===== verification/WfEngineStep.thy ===== *)
theory WfEngineStep
  imports WfEngine
begin

text \<open>
  The database engine under concurrency: every transaction of \<open>CeleryWorkflowEngine\<close> and of the
  execution tasks is a step on the executions table, in any order and at any clock reading. The
  state machine of one execution is the abstract specification; live executions of one
  correlation id stay unique and finished executions never change.
\<close>

section \<open>The state machine of an execution\<close>

fun wf_transition :: "wf_state \<Rightarrow> wf_state \<Rightarrow> bool" where
  "wf_transition WPending s = (s \<in> {WRunning, WCancelled})"
| "wf_transition WRunning s = (s \<in> {WCompleted, WFailed, WCancelled})"
| "wf_transition WWaiting s = (s \<in> {WCompleted, WCancelled})"
| "wf_transition _ s = False"

text \<open>An update of a row keeps its identity, correlation and input and moves along the machine.\<close>

definition execution_step :: "'v execution \<Rightarrow> 'v execution \<Rightarrow> bool" where
  "execution_step ex ex' =
     (ex_id ex' = ex_id ex \<and> ex_workflow ex' = ex_workflow ex \<and>
      ex_correlation ex' = ex_correlation ex \<and> ex_input ex' = ex_input ex \<and>
      wf_transition (ex_state ex) (ex_state ex'))"

definition ended_ok :: "'v execution \<Rightarrow> bool" where
  "ended_ok ex = (ex_ended ex = None \<longleftrightarrow> ex_state ex \<notin> set terminal_states)"

lemmas state_sets = active_states_def active_plus_completed_states_def terminal_states_def

section \<open>Steps\<close>

inductive engine_step :: "('w \<Rightarrow> int) \<Rightarrow> 'v executions_db \<Rightarrow> 'v executions_db \<Rightarrow> bool" for now where
  start: "celery_insert st celery imports new_id now flow input_data correlation_id metadata (db, w)
      = (res, db', w') \<Longrightarrow> engine_step now db db'"
| execute_begin: "execute_begin i db = Inr (run, db') \<Longrightarrow> engine_step now db db'"
| execute_finish: "engine_step now db (execute_finish i outcome t db)"
| resume: "celery_resume i signal t db = (res1, db') \<Longrightarrow> engine_step now db db'"
| cancel: "celery_cancel i reason t db = (res1, db') \<Longrightarrow> engine_step now db db'"
| resume_task: "resume_execution_task i signal t db = (res2, db') \<Longrightarrow> engine_step now db db'"
| cancel_task: "cancel_execution_task i reason t db = (res2, db') \<Longrightarrow> engine_step now db db'"

abbreviation engine_steps :: "('w \<Rightarrow> int) \<Rightarrow> 'v executions_db \<Rightarrow> 'v executions_db \<Rightarrow> bool" where
  "engine_steps now \<equiv> (engine_step now)\<^sup>*\<^sup>*"

section \<open>What a step does\<close>

inductive engine_effect :: "'v executions_db \<Rightarrow> 'v executions_db \<Rightarrow> bool" where
  same: "executions db' = executions db \<Longrightarrow> engine_effect db db'"
| update: "od_get (executions db) (ex_id ex) = Some ex \<Longrightarrow> execution_step ex ex' \<Longrightarrow> ended_ok ex' \<Longrightarrow>
    executions db' = od_set (ex_id ex) ex' (executions db) \<Longrightarrow> engine_effect db db'"
| create: "od_get (executions db) (ex_id ex) = None \<Longrightarrow> ended_ok ex \<Longrightarrow>
    executions db' = executions db @ [(ex_id ex, ex)] \<Longrightarrow>
    (\<And>c. c \<noteq> [] \<Longrightarrow> live_under (ex_workflow ex) c ex \<Longrightarrow>
      \<not> list_ex (live_under (ex_workflow ex) c) (map snd (executions db))) \<Longrightarrow> engine_effect db db'"

lemma effect_store:
  assumes "celery_ids_ok db" "od_get (executions db) i = Some ex" "execution_step ex ex'" "ended_ok ex'"
  shows "engine_effect db (store_execution ex' db)"
proof (rule engine_effect.update [of _ ex])
  show "od_get (executions db) (ex_id ex) = Some ex" using assms(1,2) by (simp add: celery_ids_ok_def)
  show "executions (store_execution ex' db) = od_set (ex_id ex) ex' (executions db)"
    using assms(3) by (simp add: store_execution_def execution_step_def)
qed (use assms in auto)

lemma od_set_append_fresh: "od_get d k = None \<Longrightarrow> od_set k v (d @ [(k, u)]) = d @ [(k, v)]"
  by (induction d) (auto split: if_splits)

lemma run_inline_state:
  "run_inline_handler h payload w = ((state, out, err), w1) \<Longrightarrow> state = WFailed \<or> state = WCompleted"
  by (auto split: prod.splits sum.splits result.splits)

lemma finish_inline_execution:
  assumes "finish_inline imports now flow path payload ex w = (ex', w')" "ex_state ex = WPending" "ended_ok ex"
  shows "ex_id ex' = ex_id ex \<and> ex_workflow ex' = ex_workflow ex \<and> ex_correlation ex' = ex_correlation ex \<and>
    ex_state ex' \<in> {WPending, WCompleted, WFailed} \<and> ended_ok ex'"
  using assms
  by (auto simp: finish_inline_def ended_ok_def state_sets dest: run_inline_state
      split: option.splits imported.splits sum.splits prod.splits simp del: run_inline_handler.simps)

lemma initial_state_cases:
  "initial_state async celery imports runnable path = (state, err) \<Longrightarrow>
    state \<in> {WCompleted, WPending, WFailed} \<and> (runnable \<and> \<not> async \<longrightarrow> state = WPending)"
  by (auto simp: initial_state_def split: if_splits option.splits imported.splits)

text \<open>The insert either leaves the table alone or appends the execution that it returns.\<close>

lemma insert_outcome:
  assumes "celery_insert st celery imports new_id now flow input_data correlation_id metadata (db, w)
      = (res, db', w')"
  shows "(\<exists>e. res = Inl e \<and> db' = db) \<or>
    (\<exists>ex. res = Inr ex \<and> od_get (executions db) (ex_id ex) = None \<and>
      executions db' = executions db @ [(ex_id ex, ex)] \<and> ended_ok ex \<and> ex_workflow ex = wf_id flow \<and>
      ex_correlation ex = correlation_id \<and> ex_state ex \<in> {WPending, WCompleted, WFailed} \<and>
      (\<forall>c. c \<noteq> [] \<longrightarrow> live_under (ex_workflow ex) c ex \<longrightarrow>
        \<not> list_ex (live_under (ex_workflow ex) c) (map snd (executions db))))"
proof -
  define path where "path = handler_path flow"
  define runnable where "runnable = (wf_handler flow \<noteq> None \<or> path \<noteq> None)"
  define async where "async = workflow_async_enabled st"
  obtain state err where st: "initial_state async celery imports runnable path = (state, err)"
    by (cases "initial_state async celery imports runnable path")
  define payload where "payload = (case input_data of None \<Rightarrow> [] | Some m \<Rightarrow> m)"
  define ex where "ex = \<lparr>ex_id = new_id, ex_workflow = wf_id flow, ex_state = state, ex_input = payload,
      ex_output = (if runnable then None else Some (Mapping_result [])),
      ex_correlation = correlation_id, ex_started = Some (now w),
      ex_ended = (if state \<in> set terminal_states then Some (now w) else None), ex_error = err,
      ex_metadata = (case path of None \<Rightarrow> (case metadata of None \<Rightarrow> [] | Some m \<Rightarrow> m)
        | Some p \<Rightarrow> od_set ''handler_path'' (JStr p) (case metadata of None \<Rightarrow> [] | Some m \<Rightarrow> m))\<rparr>"
  have i: "(case create_execution ex db of
           None \<Rightarrow>
             (Inl (if correlation_id = None \<or> correlation_id = Some [] then IntegrityFailure
                   else BrokenTransaction), db, w)
         | Some db1 \<Rightarrow>
             if runnable \<and> async \<and> celery \<and> path \<noteq> None \<and> state = WPending
             then (Inr ex, db1\<lparr>dispatched := dispatched db1 @ [(new_id, the path, payload)]\<rparr>, w)
             else if runnable \<and> \<not> async
             then (case finish_inline imports now flow path payload ex w of
                 (ex', w') \<Rightarrow> (Inr ex', store_execution ex' db1, w'))
             else (Inr ex, db1, w)) = (res, db', w')"
    using assms
    unfolding celery_insert_def Let_def fst_conv snd_conv path_def [symmetric] runnable_def [symmetric]
      async_def [symmetric] payload_def [symmetric] st prod.case ex_def [symmetric]
    by blast
  show ?thesis
  proof (cases "create_execution ex db")
    case None
    with i show ?thesis by auto
  next
    case (Some db1)
    have fresh: "od_get (executions db) (ex_id ex) = None"
      and db1: "executions db1 = executions db @ [(ex_id ex, ex)]"
      using Some by (auto simp: create_execution_def split: if_splits)
    have live: "\<not> list_ex (live_under (ex_workflow ex) c) (map snd (executions db))"
      if "c \<noteq> []" "live_under (ex_workflow ex) c ex" for c
      using Some that by (auto simp: create_execution_def live_under_def split: if_splits)
    have ended: "ended_ok ex" by (simp add: ex_def ended_ok_def)
    have ids: "ex_workflow ex = wf_id flow" "ex_correlation ex = correlation_id" by (simp_all add: ex_def)
    have states: "ex_state ex \<in> {WPending, WCompleted, WFailed}"
      using initial_state_cases [OF st] by (auto simp: ex_def)
    show ?thesis
    proof (cases "runnable \<and> \<not> async")
      case False
      with i Some db1 have "res = Inr ex \<and> executions db' = executions db @ [(ex_id ex, ex)]"
        by (auto split: if_splits)
      with fresh ended ids states live show ?thesis by blast
    next
      case True
      obtain ex' w1 where f: "finish_inline imports now flow path payload ex w = (ex', w1)"
        by (cases "finish_inline imports now flow path payload ex w")
      have p: "ex_state ex = WPending" using initial_state_cases [OF st] True by (simp add: ex_def)
      note e = finish_inline_execution [OF f p ended]
      from i Some True f have r: "res = Inr ex' \<and> db' = store_execution ex' db1" by simp
      with e db1 fresh have d: "executions db' = executions db @ [(ex_id ex', ex')]"
        by (simp add: store_execution_def od_set_append_fresh)
      have l: "\<not> list_ex (live_under (ex_workflow ex') c) (map snd (executions db))"
        if "c \<noteq> []" "live_under (ex_workflow ex') c ex'" for c
        using live [OF that(1)] that(2) e p by (simp add: live_under_def state_sets)
      from r d e fresh ids l show ?thesis by simp
    qed
  qed
qed

lemma effect_insert:
  assumes "celery_insert st celery imports new_id now flow input_data correlation_id metadata (db, w)
      = (res, db', w')"
  shows "engine_effect db db'"
  using insert_outcome [OF assms]
proof (elim disjE exE conjE)
  assume "db' = db"
  then show ?thesis by (simp add: engine_effect.same)
next
  fix ex
  assume "od_get (executions db) (ex_id ex) = None" "executions db' = executions db @ [(ex_id ex, ex)]"
    "ended_ok ex" "\<forall>c. c \<noteq> [] \<longrightarrow> live_under (ex_workflow ex) c ex \<longrightarrow>
        \<not> list_ex (live_under (ex_workflow ex) c) (map snd (executions db))"
  then show ?thesis by (intro engine_effect.create) auto
qed

lemma engine_step_effect:
  assumes "engine_step now db db'" "celery_ids_ok db" "\<And>i ex. od_get (executions db) i = Some ex \<Longrightarrow> ended_ok ex"
  shows "engine_effect db db'"
  using assms(1)
proof cases
  case start
  then show ?thesis by (rule effect_insert)
next
  case (execute_begin i run)
  then obtain ex where ex: "od_get (executions db) i = Some ex"
    by (auto simp: execute_begin_def split: option.splits)
  show ?thesis
  proof (cases "ex_state ex = WPending")
    case True
    with execute_begin ex have "db' = store_execution (ex\<lparr>ex_state := WRunning\<rparr>) db"
      by (simp add: execute_begin_def)
    moreover have "ended_ok (ex\<lparr>ex_state := WRunning\<rparr>)"
      using assms(3) [OF ex] True by (simp add: ended_ok_def state_sets)
    ultimately show ?thesis
      using effect_store [OF assms(2) ex, of "ex\<lparr>ex_state := WRunning\<rparr>"] True by (simp add: execution_step_def)
  next
    case False
    with execute_begin ex show ?thesis by (simp add: execute_begin_def engine_effect.same)
  qed
next
  case (execute_finish i outcome t)
  show ?thesis
  proof (cases "od_get (executions db) i")
    case None
    with execute_finish show ?thesis by (simp add: execute_finish_def engine_effect.same)
  next
    case (Some ex)
    note store = effect_store [OF assms(2) Some]
    show ?thesis
    proof (cases "ex_state ex = WRunning")
      case True
      with execute_finish Some show ?thesis
        by (cases outcome)
          (auto simp: execute_finish_def execution_step_def ended_ok_def state_sets intro!: store)
    next
      case False
      with execute_finish Some show ?thesis by (simp add: execute_finish_def engine_effect.same)
    qed
  qed
next
  case (resume i signal t res)
  show ?thesis
  proof (cases "od_get (executions db) i")
    case None
    with resume show ?thesis by (simp add: celery_resume_def engine_effect.same)
  next
    case (Some ex)
    from effect_store [OF assms(2) Some, of "resumed_execution signal t ex"] Some resume show ?thesis
      by (auto simp: celery_resume_def resumed_execution_def execution_step_def ended_ok_def state_sets
          engine_effect.same split: if_splits)
  qed
next
  case (cancel i reason t res)
  show ?thesis
  proof (cases "od_get (executions db) i")
    case None
    with cancel show ?thesis by (simp add: celery_cancel_def engine_effect.same)
  next
    case (Some ex)
    from effect_store [OF assms(2) Some, of "cancelled_execution reason t ex"] Some cancel show ?thesis
      by (auto simp: celery_cancel_def cancelled_execution_def execution_step_def ended_ok_def state_sets
          engine_effect.same split: if_splits)
  qed
next
  case (resume_task i signal t res)
  show ?thesis
  proof (cases "od_get (executions db) i")
    case None
    with resume_task show ?thesis by (simp add: resume_execution_task_def engine_effect.same)
  next
    case (Some ex)
    from effect_store [OF assms(2) Some, of "resumed_execution signal t ex"] Some resume_task show ?thesis
      by (auto simp: resume_execution_task_def resumed_execution_def execution_step_def ended_ok_def
          state_sets engine_effect.same split: if_splits)
  qed
next
  case (cancel_task i reason t res)
  show ?thesis
  proof (cases "od_get (executions db) i")
    case None
    with cancel_task show ?thesis by (simp add: cancel_execution_task_def engine_effect.same)
  next
    case (Some ex)
    from effect_store [OF assms(2) Some, of "cancelled_execution reason t ex"] Some cancel_task show ?thesis
      by (auto simp: cancel_execution_task_def cancelled_execution_def execution_step_def ended_ok_def
          state_sets engine_effect.same split: if_splits)
  qed
qed

section \<open>The invariant\<close>

definition engine_inv :: "'v executions_db \<Rightarrow> bool" where
  "engine_inv db =
     (celery_ids_ok db \<and> (\<forall>i ex. od_get (executions db) i = Some ex \<longrightarrow> ended_ok ex) \<and>
      (\<forall>i j ex ex' c. od_get (executions db) i = Some ex \<and> od_get (executions db) j = Some ex' \<and> c \<noteq> [] \<and>
         live_under (ex_workflow ex) c ex \<and> live_under (ex_workflow ex) c ex' \<longrightarrow> i = j))"

lemma engine_inv_effect:
  assumes "engine_effect db db'" "engine_inv db"
  shows "engine_inv db'"
  using assms(1)
proof cases
  case same
  with assms(2) show ?thesis by (simp add: engine_inv_def celery_ids_ok_def)
next
  case (update ex ex')
  have get: "od_get (executions db') i = (if i = ex_id ex then Some ex' else od_get (executions db) i)" for i
    by (simp add: update(4) od_get_set)
  have ids: "celery_ids_ok db'"
    using assms(2) update(2) get by (simp add: engine_inv_def celery_ids_ok_def update(4) odict_simps execution_step_def)
  have live: "live_under w c ex' \<Longrightarrow> live_under w c ex" for w c
    using update(2) by (cases "ex_state ex") (auto simp: live_under_def execution_step_def state_sets)
  have w: "ex_workflow ex' = ex_workflow ex" using update(2) by (simp add: execution_step_def)
  have "i = j" if "od_get (executions db') i = Some e" "od_get (executions db') j = Some e'" "c \<noteq> []"
    "live_under (ex_workflow e) c e" "live_under (ex_workflow e) c e'" for i j e e' c
  proof -
    have "\<exists>f. od_get (executions db) i = Some f \<and> ex_workflow f = ex_workflow e \<and> live_under (ex_workflow e) c f"
      using that(1,4) get [of i] update(1) live w by (auto split: if_splits)
    moreover have "\<exists>f. od_get (executions db) j = Some f \<and> live_under (ex_workflow e) c f"
      using that(2,5) get [of j] update(1) live by (auto split: if_splits)
    ultimately show ?thesis using assms(2) that(3) unfolding engine_inv_def by metis
  qed
  moreover have "ended_ok e" if "od_get (executions db') i = Some e" for i e
    using that get [of i] update(3) assms(2) by (auto simp: engine_inv_def split: if_splits)
  ultimately show ?thesis using ids unfolding engine_inv_def by blast
next
  case (create ex)
  have get: "od_get (executions db') i = (if i = ex_id ex then Some ex else od_get (executions db) i)" for i
    using create(1) by (auto simp: create(3) map_add_def split: option.splits)
  have ids: "celery_ids_ok db'"
    using assms(2) create(1) get
    by (simp add: engine_inv_def celery_ids_ok_def) (simp add: create(3) od_get_None_iff)
  have none: "\<not> live_under (ex_workflow ex) c f"
    if "c \<noteq> []" "live_under (ex_workflow ex) c ex" "od_get (executions db) i = Some f" for c f i
  proof -
    have "f \<in> snd ` set (executions db)" using map_of_SomeD [OF that(3)] by (rule image_eqI [rotated]) simp
    with create(4) [OF that(1,2)] show ?thesis by (auto simp: list_ex_iff)
  qed
  have "i = j" if "od_get (executions db') i = Some e" "od_get (executions db') j = Some e'" "c \<noteq> []"
    "live_under (ex_workflow e) c e" "live_under (ex_workflow e) c e'" for i j e e' c
  proof (cases "i = ex_id ex \<or> j = ex_id ex")
    case False
    with that get [of i] get [of j] assms(2) show ?thesis unfolding engine_inv_def by (metis (full_types))
  next
    case True
    have w: "ex_workflow e' = ex_workflow e" using that(5) by (simp add: live_under_def)
    have "e = ex" if "i = ex_id ex" using that \<open>od_get (executions db') i = Some e\<close> get [of i] by simp
    moreover have "e' = ex" if "j = ex_id ex"
      using that \<open>od_get (executions db') j = Some e'\<close> get [of j] by simp
    moreover have "od_get (executions db) i = Some e" if "i \<noteq> ex_id ex"
      using that \<open>od_get (executions db') i = Some e\<close> get [of i] by simp
    moreover have "od_get (executions db) j = Some e'" if "j \<noteq> ex_id ex"
      using that \<open>od_get (executions db') j = Some e'\<close> get [of j] by simp
    ultimately show ?thesis using True w that(3-5) none by metis
  qed
  moreover have "ended_ok e" if "od_get (executions db') i = Some e" for i e
    using that get [of i] create(2) assms(2) by (auto simp: engine_inv_def split: if_splits)
  ultimately show ?thesis using ids unfolding engine_inv_def by blast
qed

lemma engine_inv_steps: "engine_steps now db db' \<Longrightarrow> engine_inv db \<Longrightarrow> engine_inv db'"
proof (induction rule: rtranclp_induct)
  case base
  then show ?case .
next
  case (step y z)
  then have inv: "engine_inv y" by blast
  from engine_step_effect [OF step.hyps(2)] inv have "engine_effect y z" by (simp add: engine_inv_def)
  then show ?case using inv by (rule engine_inv_effect)
qed

definition empty_executions :: "'v executions_db" where
  "empty_executions = \<lparr>executions = [], dispatched = []\<rparr>"

lemma engine_inv_empty: "engine_inv empty_executions"
  by (simp add: engine_inv_def empty_executions_def celery_ids_ok_def)

lemma engine_inv_reachable: "engine_steps now empty_executions db \<Longrightarrow> engine_inv db"
  using engine_inv_steps engine_inv_empty by blast

lemma terminal_step:
  assumes "engine_effect db db'" "od_get (executions db) i = Some ex" "ex_state ex \<in> set terminal_states"
  shows "od_get (executions db') i = Some ex"
  using assms(1)
proof cases
  case same
  with assms(2) show ?thesis by simp
next
  case (update ex0 ex')
  have "i \<noteq> ex_id ex0"
  proof
    assume "i = ex_id ex0"
    with update(1) assms(2) have "ex0 = ex" by simp
    with update(2) assms(3) show False by (auto simp: execution_step_def state_sets)
  qed
  with update(4) assms(2) show ?thesis by (simp add: od_get_set)
next
  case (create ex0)
  with assms(2) show ?thesis by (simp add: map_add_def)
qed

section \<open>Properties\<close>

text \<open>C15: A finished execution never changes: once an execution of the database engine is
  completed, failed or cancelled, no interleaving of starts, workers, resumes and cancels alters
  it, so a late worker cannot overwrite a cancellation.\<close>

theorem finished_execution_never_changes:
  assumes "engine_steps now empty_executions db" "od_get (executions db) i = Some ex"
    "ex_state ex \<in> set terminal_states" "engine_steps now db db'"
  shows "od_get (executions db') i = Some ex"
  using assms(4)
proof (induction rule: rtranclp_induct)
  case base
  show ?case by (rule assms(2))
next
  case (step y z)
  have inv: "engine_inv y" using engine_inv_steps [OF step.hyps(1) engine_inv_reachable [OF assms(1)]] .
  from engine_step_effect [OF step.hyps(2)] inv have "engine_effect y z" by (simp add: engine_inv_def)
  from terminal_step [OF this step.IH assms(3)] show ?case .
qed

definition demo_flow :: "(nat, int) workflow_definition" where
  "demo_flow = \<lparr>wf_id = ''w'', wf_handler = None, wf_metadata = []\<rparr>"

definition demo_execution :: "nat execution" where
  "demo_execution = \<lparr>ex_id = ''x1'', ex_workflow = ''w'', ex_state = WCompleted, ex_input = [],
     ex_output = Some (Mapping_result []), ex_correlation = Some ''c'', ex_started = Some 0,
     ex_ended = Some 0, ex_error = None, ex_metadata = []\<rparr>"

definition demo_executions :: "nat executions_db" where
  "demo_executions = \<lparr>executions = [(''x1'', demo_execution)], dispatched = []\<rparr>"

lemma demo_insert:
  "celery_insert [] True ImportFails ''x1'' (\<lambda>w. w) demo_flow None (Some ''c'') None (empty_executions, 0 :: int) =
    (Inr demo_execution, demo_executions, 0)"
  by (simp add: celery_insert_def Let_def demo_flow_def handler_path_def initial_state_def
      create_execution_def empty_executions_def demo_executions_def demo_execution_def state_sets)

lemma demo_run: "engine_steps (\<lambda>w :: int. w) empty_executions demo_executions"
  using engine_step.start [OF demo_insert] by (rule r_into_rtranclp)

lemma finished_execution_never_changes_witness:
  "od_get (executions (snd (celery_cancel ''x1'' None 5 demo_executions))) ''x1'' = Some demo_execution"
proof -
  obtain r db where c: "celery_cancel ''x1'' None 5 demo_executions = (r, db)"
    by (cases "celery_cancel ''x1'' None 5 demo_executions")
  have "engine_steps (\<lambda>w :: int. w) demo_executions db"
    using engine_step.cancel [OF c] by (rule r_into_rtranclp)
  then have "od_get (executions db) ''x1'' = Some demo_execution"
    by (rule finished_execution_never_changes [OF demo_run, rotated 2])
      (simp_all add: demo_executions_def demo_execution_def state_sets)
  with c show ?thesis by simp
qed

text \<open>C24: In every reachable state at most one execution of a workflow is active or completed
  under a non-empty correlation id, and exactly the finished executions have an end time.\<close>

theorem live_executions_unique:
  assumes "engine_steps now empty_executions db" "od_get (executions db) i = Some ex"
  shows "(ex_ended ex \<noteq> None \<longleftrightarrow> ex_state ex \<in> {WCompleted, WFailed, WCancelled}) \<and>
    (\<forall>j ex' c. od_get (executions db) j = Some ex' \<and> c \<noteq> [] \<and>
       live_under (ex_workflow ex) c ex \<and> live_under (ex_workflow ex) c ex' \<longrightarrow> j = i)"
proof -
  have inv: "engine_inv db" by (rule engine_inv_reachable [OF assms(1)])
  then have "ended_ok ex" using assms(2) by (simp add: engine_inv_def)
  then have "ex_ended ex \<noteq> None \<longleftrightarrow> ex_state ex \<in> {WCompleted, WFailed, WCancelled}"
    by (auto simp: ended_ok_def state_sets)
  moreover have "\<forall>j ex' c. od_get (executions db) j = Some ex' \<and> c \<noteq> [] \<and>
      live_under (ex_workflow ex) c ex \<and> live_under (ex_workflow ex) c ex' \<longrightarrow> j = i"
    using inv assms(2) unfolding engine_inv_def by metis
  ultimately show ?thesis by blast
qed

lemma live_executions_unique_witness: "ex_ended demo_execution \<noteq> None"
  using live_executions_unique [OF demo_run, of "''x1''" demo_execution]
  by (simp add: demo_executions_def demo_execution_def)

lemma find_append_None: "find P xs = None \<Longrightarrow> find P (xs @ ys) = find P ys"
  by (induction xs) (auto split: if_splits)

text \<open>Starting is idempotent per correlation id: once a start with a non-empty correlation id
  returned an execution that did not fail, every further start of that workflow with that id
  returns the same execution and neither changes the table nor runs a handler, whatever its
  input, metadata, handler and settings.\<close>

theorem start_reuses_live_execution:
  assumes "celery_start st celery imports race i now flow inp (Some c) meta s = (Inr ex, s')"
    "c \<noteq> []" "ex_state ex \<noteq> WFailed" "wf_id flow2 = wf_id flow"
  shows "celery_start st2 celery2 imports2 race2 i2 now2 flow2 inp2 (Some c) meta2 s' = (Inr ex, s')"
proof (cases "get_existing_correlation_execution (wf_id flow) c (fst s)")
  case (Some e)
  with assms show ?thesis by (simp add: celery_start_def)
next
  case None
  obtain db' w' where s': "s' = (db', w')" by (cases s')
  with assms(1,2) None have
    "celery_insert st celery imports i now flow inp (Some c) meta (race (fst s), snd s) = (Inr ex, db', w')"
    by (simp add: celery_start_def)
  from insert_outcome [OF this] have
    e: "executions db' = executions (race (fst s)) @ [(ex_id ex, ex)]" "ex_workflow ex = wf_id flow"
      "ex_correlation ex = Some c" "ex_state ex \<in> {WPending, WCompleted, WFailed}"
    and none: "\<forall>c. c \<noteq> [] \<longrightarrow> live_under (ex_workflow ex) c ex \<longrightarrow>
        \<not> list_ex (live_under (ex_workflow ex) c) (map snd (executions (race (fst s))))" by auto
  have live: "live_under (wf_id flow) c ex" using e(2-4) assms(3) by (auto simp: live_under_def state_sets)
  with none assms(2) e(2) have "\<not> list_ex (live_under (wf_id flow) c) (map snd (executions (race (fst s))))"
    by simp
  then have "find (live_under (wf_id flow) c) (map snd (executions (race (fst s)))) = None"
    by (auto simp: find_None_iff list_ex_iff)
  then have "get_existing_correlation_execution (wf_id flow) c db' = Some ex"
    using live by (simp add: get_existing_correlation_execution_def e(1) find_append_None)
  with assms(2,4) show ?thesis by (simp add: celery_start_def s')
qed

lemma start_reuses_live_execution_witness:
  "celery_start [] True ImportFails (\<lambda>db. db) ''x2'' (\<lambda>w. w) (demo_flow\<lparr>wf_metadata := []\<rparr>)
     (Some []) (Some ''c'') None (demo_executions, 0 :: int) = (Inr demo_execution, demo_executions, 0)"
proof (rule start_reuses_live_execution)
  show "celery_start [] True ImportFails (\<lambda>db. db) ''x1'' (\<lambda>w. w) demo_flow None (Some ''c'') None
      (empty_executions, 0 :: int) = (Inr demo_execution, demo_executions, 0)"
    using demo_insert
    by (simp add: celery_start_def get_existing_correlation_execution_def) (simp add: empty_executions_def)
qed (simp_all add: demo_execution_def)

text \<open>
  A concurrent start that commits between the lookup and the insert makes the insert fail, and
  then \<open>start\<close> raises instead of returning the other execution.
\<close>

lemma start_race_raises:
  assumes "get_existing_correlation_execution (wf_id flow) c (fst s) = None" "c \<noteq> []"
    "list_ex (live_under (wf_id flow) c) (map snd (executions (race (fst s))))"
    "\<not> workflow_async_enabled st"
  shows "fst (celery_start st celery imports race i now flow inp (Some c) meta s) = Inl BrokenTransaction"
proof -
  obtain r db' w' where i:
    "celery_insert st celery imports i now flow inp (Some c) meta (race (fst s), snd s) = (r, db', w')"
    by (metis prod.exhaust)
  let ?runnable = "wf_handler flow \<noteq> None \<or> handler_path flow \<noteq> None"
  have "initial_state False celery imports ?runnable (handler_path flow) =
      (if ?runnable then WPending else WCompleted, None)" by (simp add: initial_state_def)
  then have "r = Inl BrokenTransaction"
    using i assms(2-4)
    by (simp add: celery_insert_def Let_def create_execution_def state_sets split: if_splits)
  with i assms(1,2) show ?thesis by (simp add: celery_start_def)
qed

end
