(* ===== verification/WfLocal.thy ===== *)
theory WfLocal
  imports WfEngine
begin

text \<open>
  The process-local engine, \<open>workflow/backends/local.py\<close>. Every block under the engine's lock is
  one function; between two of them other threads run, so \<open>start\<close> is three pieces: reserve or
  find, wait for another start, store the outcome. A \<open>threading.Event\<close> is a number; \<open>fired\<close>
  are the events that were set.
\<close>

section \<open>State\<close>

type_synonym correlation_key = "string \<times> string"

record 'v local_engine =
  le_executions :: "(string, 'v execution) odict"
  le_index :: "(correlation_key, string) odict"
  le_events :: "(correlation_key, nat) odict"
  le_next_event :: nat
  le_fired :: "nat set"

definition local_init :: "'v local_engine" where
  "local_init = \<lparr>le_executions = [], le_index = [], le_events = [], le_next_event = 0, le_fired = {}\<rparr>"

text \<open>A call of \<open>start\<close> after its copies of input and metadata were made.\<close>

record ('v, 'w) start_call =
  sc_id :: string
  sc_flow :: "('v, 'w) workflow_definition"
  sc_input :: "'v payload"
  sc_correlation :: "string option"
  sc_metadata :: "'v payload"
  sc_started :: int

definition call_key :: "('v, 'w) start_call \<Rightarrow> correlation_key option" where
  "call_key call = (case sc_correlation call of
     None \<Rightarrow> None
   | Some c \<Rightarrow> if c = [] then None else Some (wf_id (sc_flow call), c))"

section \<open>Start\<close>

datatype 'v start_decision = Existing "'v execution" | Wait_for nat | Run_handler

definition placeholder :: "('v, 'w) start_call \<Rightarrow> 'v execution" where
  "placeholder call =
     \<lparr>ex_id = sc_id call, ex_workflow = wf_id (sc_flow call), ex_state = WPending,
      ex_input = sc_input call, ex_output = None, ex_correlation = sc_correlation call,
      ex_started = Some (sc_started call), ex_ended = None, ex_error = None,
      ex_metadata = sc_metadata call\<rparr>"

definition reserve :: "correlation_key \<Rightarrow> ('v, 'w) start_call \<Rightarrow> 'v local_engine \<Rightarrow> 'v local_engine" where
  "reserve key call le =
     le\<lparr>le_index := od_set key (sc_id call) (le_index le),
        le_executions := od_set (sc_id call) (placeholder call) (le_executions le),
        le_events := od_set key (le_next_event le) (le_events le),
        le_next_event := Suc (le_next_event le)\<rparr>"

text \<open>The first block under the lock.\<close>

definition local_begin ::
  "('v, 'w) start_call \<Rightarrow> 'v local_engine \<Rightarrow> 'v start_decision \<times> 'v local_engine" where
  "local_begin call le =
     (case call_key call of
        None \<Rightarrow> (Run_handler, le)
      | Some key \<Rightarrow>
          (case (case od_get (le_index le) key of
                   None \<Rightarrow> None
                 | Some i \<Rightarrow> od_get (le_executions le) i) of
             None \<Rightarrow> (Run_handler, reserve key call le)
           | Some ex \<Rightarrow>
               if ex_state ex = WCompleted \<or> ex_state ex \<in> set active_states \<and> ex_state ex \<noteq> WPending
               then (Existing ex, le)
               else if ex_state ex = WPending \<and> ex_output ex = None
               then (case od_get (le_events le) key of
                   None \<Rightarrow> (Run_handler, le)
                 | Some e \<Rightarrow> (Wait_for e, le))
               else (Run_handler, reserve key call le)))"

text \<open>After the wait.\<close>

definition local_after_wait ::
  "('v, 'w) start_call \<Rightarrow> correlation_key \<Rightarrow> 'v local_engine \<Rightarrow> engine_error + 'v execution" where
  "local_after_wait call key le =
     (case od_get (le_index le) key of
        None \<Rightarrow> Inl (ExecutionNotFound (sc_id call))
      | Some i \<Rightarrow>
          (case od_get (le_executions le) i of
             None \<Rightarrow> Inl (ExecutionNotFound i)
           | Some ex \<Rightarrow> Inr ex))"

definition run_local_handler ::
  "('v, 'w) start_call \<Rightarrow> 'w \<Rightarrow> (wf_state \<times> 'v result option \<times> string option) \<times> 'w" where
  "run_local_handler call w =
     (case wf_handler (sc_flow call) of
        None \<Rightarrow> ((WCompleted, Some (Mapping_result []), None), w)
      | Some h \<Rightarrow>
          (case h_run h (sc_input call) w of
             (Inl e, w') \<Rightarrow> ((WFailed, None, Some e), w')
           | (Inr Falsy, w') \<Rightarrow> ((WCompleted, Some (Mapping_result []), None), w')
           | (Inr r, w') \<Rightarrow> ((WCompleted, Some r, None), w')))"

definition outcome_execution ::
  "('v, 'w) start_call \<Rightarrow> wf_state \<times> 'v result option \<times> string option \<Rightarrow> int \<Rightarrow> 'v execution" where
  "outcome_execution call outcome t =
     (case outcome of (state, out, err) \<Rightarrow>
        \<lparr>ex_id = sc_id call, ex_workflow = wf_id (sc_flow call), ex_state = state,
         ex_input = sc_input call, ex_output = out, ex_correlation = sc_correlation call,
         ex_started = Some (sc_started call), ex_ended = Some t, ex_error = err,
         ex_metadata = sc_metadata call\<rparr>)"

text \<open>The last block: the event that is popped is the one stored under the key by then.\<close>

definition local_finish ::
  "('v, 'w) start_call \<Rightarrow> 'v execution \<Rightarrow> 'v local_engine \<Rightarrow> 'v local_engine" where
  "local_finish call ex le =
     (let le1 = le\<lparr>le_executions := od_set (sc_id call) ex (le_executions le)\<rparr>
      in case call_key call of
           None \<Rightarrow> le1
         | Some key \<Rightarrow>
             (let le2 = le1\<lparr>le_index := od_set key (sc_id call) (le_index le1),
                            le_events := od_pop key (le_events le1)\<rparr>
              in case od_get (le_events le1) key of
                   None \<Rightarrow> le2
                 | Some e \<Rightarrow> le2\<lparr>le_fired := insert e (le_fired le2)\<rparr>))"

text \<open>
  A whole \<open>start\<close> without interference; \<^const>\<open>None\<close> means that it waits for an event that
  is not set.
\<close>

definition local_start ::
  "('w \<Rightarrow> int) \<Rightarrow> ('v, 'w) start_call \<Rightarrow> 'v local_engine \<times> 'w \<Rightarrow>
   ((engine_error + 'v execution) \<times> 'v local_engine \<times> 'w) option" where
  "local_start now call s =
     (case local_begin call (fst s) of
        (Existing ex, le) \<Rightarrow> Some (Inr ex, le, snd s)
      | (Wait_for e, le) \<Rightarrow>
          (if e \<in> le_fired le
           then (case call_key call of
               None \<Rightarrow> None
             | Some key \<Rightarrow> Some (local_after_wait call key le, le, snd s))
           else None)
      | (Run_handler, le) \<Rightarrow>
          (case run_local_handler call (snd s) of
             (outcome, w) \<Rightarrow>
               (let ex = outcome_execution call outcome (now w)
                in Some (Inr ex, local_finish call ex le, w))))"

section \<open>Resume, cancel and status\<close>

definition put_local :: "string \<Rightarrow> 'v execution \<Rightarrow> 'v local_engine \<Rightarrow> 'v local_engine" where
  "put_local i ex le = le\<lparr>le_executions := od_set i ex (le_executions le)\<rparr>"

definition local_resume ::
  "string \<Rightarrow> 'v payload option \<Rightarrow> int \<Rightarrow> 'v local_engine \<Rightarrow>
   (engine_error + 'v execution) \<times> 'v local_engine" where
  "local_resume i signal t le =
     (case od_get (le_executions le) i of
        None \<Rightarrow> (Inl (ExecutionNotFound i), le)
      | Some ex \<Rightarrow>
          if ex_state ex = WCancelled then (Inl (ExecutionCancelled i), le)
          else if ex_state ex \<noteq> WWaiting
          then (Inl (InvalidState i ''resume'' (ex_state ex) [WWaiting]), le)
          else (Inr (resumed_execution signal t ex), put_local i (resumed_execution signal t ex) le))"

definition local_cancel ::
  "string \<Rightarrow> string option \<Rightarrow> int \<Rightarrow> 'v local_engine \<Rightarrow>
   (engine_error + 'v execution) \<times> 'v local_engine" where
  "local_cancel i reason t le =
     (case od_get (le_executions le) i of
        None \<Rightarrow> (Inl (ExecutionNotFound i), le)
      | Some ex \<Rightarrow>
          if ex_state ex = WCancelled then (Inl (ExecutionCancelled i), le)
          else if ex_state ex \<notin> set active_states
          then (Inl (InvalidState i ''cancel'' (ex_state ex) active_states), le)
          else (Inr (cancelled_execution reason t ex), put_local i (cancelled_execution reason t ex) le))"

definition local_status :: "string \<Rightarrow> 'v local_engine \<Rightarrow> engine_error + 'v execution" where
  "local_status i le =
     (case od_get (le_executions le) i of None \<Rightarrow> Inl (ExecutionNotFound i) | Some ex \<Rightarrow> Inr ex)"

interpretation local_eng: workflow_engine "\<lambda>le. od_get (le_executions le)" local_resume local_cancel "\<lambda>le. True"
  by unfold_locales
    (auto simp: local_cancel_def local_resume_def put_local_def od_get_set active_states_def)

section \<open>Threads\<close>

datatype ('v, 'w) thread =
  Running "('v, 'w) start_call"
| Waiting "('v, 'w) start_call" correlation_key nat
| Returned "engine_error + 'v execution"

type_synonym ('v, 'w) threads = "'v local_engine \<times> ('v, 'w) thread list"

text \<open>
  A step of the process: a thread calls \<open>start\<close> with a fresh execution id, a running handler
  ends with any outcome, a waiting thread wakes up, or some thread cancels or resumes.
\<close>

inductive thread_step :: "('v, 'w) threads \<Rightarrow> ('v, 'w) threads \<Rightarrow> bool" where
  call_existing: "local_begin (call :: ('v, 'w) start_call) le = (Existing ex, le') \<Longrightarrow>
    thread_step (le, ts) (le', ts @ [Returned (Inr ex)])"
| call_wait: "local_begin call le = (Wait_for e, le') \<Longrightarrow> call_key call = Some key \<Longrightarrow>
    thread_step (le, ts) (le', ts @ [Waiting call key e])"
| call_run: "local_begin call le = (Run_handler, le') \<Longrightarrow> od_get (le_executions le) (sc_id call) = None \<Longrightarrow>
    thread_step (le, ts) (le', ts @ [Running call])"
| finish: "n < length ts \<Longrightarrow> ts ! n = Running call \<Longrightarrow>
    thread_step (le, ts) (local_finish call (outcome_execution call outcome t) le,
      ts[n := Returned (Inr (outcome_execution call outcome t))])"
| wake: "n < length ts \<Longrightarrow> ts ! n = Waiting call key e \<Longrightarrow> e \<in> le_fired le \<Longrightarrow>
    thread_step (le, ts) (le, ts[n := Returned (local_after_wait call key le)])"
| resume: "thread_step (le, ts) (snd (local_resume i signal t le), ts)"
| cancel: "thread_step (le, ts) (snd (local_cancel i reason t le), ts)"

abbreviation thread_steps :: "('v, 'w) threads \<Rightarrow> ('v, 'w) threads \<Rightarrow> bool" where
  "thread_steps \<equiv> thread_step\<^sup>*\<^sup>*"

section \<open>Lost events\<close>

text \<open>
  An event that is no longer stored under any key and was not set will never be set: new
  events are numbered on, and only stored events are popped and set.
\<close>

definition lost :: "nat \<Rightarrow> 'v local_engine \<Rightarrow> bool" where
  "lost e le = (e < le_next_event le \<and> e \<notin> le_fired le \<and> (\<forall>k. od_get (le_events le) k \<noteq> Some e))"

lemma lost_reserve: "lost e le \<Longrightarrow> lost e (reserve key call le)"
  by (auto simp: lost_def reserve_def od_get_set)

lemma lost_begin: "local_begin call le = (d, le') \<Longrightarrow> lost e le \<Longrightarrow> lost e le'"
  by (auto simp: local_begin_def lost_reserve split: option.splits if_splits)

lemma lost_finish: "lost e le \<Longrightarrow> lost e (local_finish call ex le)"
  by (auto simp: lost_def local_finish_def Let_def od_get_pop split: option.splits)

lemma lost_resume: "lost e le \<Longrightarrow> lost e (snd (local_resume i signal t le))"
  by (auto simp: lost_def local_resume_def put_local_def split: option.splits)

lemma lost_cancel: "lost e le \<Longrightarrow> lost e (snd (local_cancel i reason t le))"
  by (auto simp: lost_def local_cancel_def put_local_def split: option.splits)

lemma lost_waits:
  assumes "thread_steps s s'" "lost e (fst s)" "n < length (snd s)" "snd s ! n = Waiting call key e"
  shows "lost e (fst s') \<and> n < length (snd s') \<and> snd s' ! n = Waiting call key e"
  using assms(1)
proof (induction rule: rtranclp_induct)
  case base
  with assms(2-4) show ?case by simp
next
  case (step y z)
  from step.hyps(2) step.IH show ?case
  proof cases
    case (finish m ts call' le outcome t)
    with step.IH have "n \<noteq> m" by auto
    with finish step.IH show ?thesis by (simp add: lost_finish)
  next
    case (wake m ts call' key' e' le)
    with step.IH have "n \<noteq> m" by (auto simp: lost_def)
    with wake step.IH show ?thesis by simp
  qed (auto simp: nth_append lost_resume lost_cancel dest: lost_begin)
qed

section \<open>Sequential starts\<close>

text \<open>No start is in flight: no stored execution is an unfinished placeholder.\<close>

definition quiescent :: "'v local_engine \<Rightarrow> bool" where
  "quiescent le = (\<forall>i ex. od_get (le_executions le) i = Some ex \<longrightarrow> ex_state ex \<noteq> WPending)"

lemma run_local_state:
  "run_local_handler call w = ((state, out, err), w') \<Longrightarrow> state = WCompleted \<or> state = WFailed"
  by (auto simp: run_local_handler_def split: option.splits prod.splits sum.splits result.splits)

lemma finish_executions:
  "le_executions (local_finish call ex le) = od_set (sc_id call) ex (le_executions le)"
  "call_key call = Some key \<Longrightarrow> od_get (le_index (local_finish call ex le)) key = Some (sc_id call)"
  by (auto simp: local_finish_def Let_def od_get_set split: option.splits)

lemma begin_executions:
  "local_begin call le = (Run_handler, le') \<Longrightarrow> 
    le_executions le' = le_executions le \<or> le_executions le' = od_set (sc_id call) (placeholder call) (le_executions le)"
  by (auto simp: local_begin_def reserve_def split: option.splits if_splits)

lemma local_start_sequential:
  assumes "quiescent le"
  shows "\<exists>ex le' w'. local_start now call (le, w) = Some (Inr ex, le', w') \<and> quiescent le'"
proof -
  obtain d le1 where b: "local_begin call le = (d, le1)" by (cases "local_begin call le")
  show ?thesis
  proof (cases d)
    case (Existing ex)
    with b have "le1 = le" by (auto simp: local_begin_def split: option.splits if_splits)
    with b Existing assms show ?thesis by (simp add: local_start_def)
  next
    case (Wait_for e)
    with b assms show ?thesis
      by (fastforce simp: local_begin_def quiescent_def split: option.splits if_splits)
  next
    case Run_handler
    obtain state out err w' where r: "run_local_handler call w = ((state, out, err), w')"
      by (metis prod.exhaust)
    let ?ex = "outcome_execution call (state, out, err) (now w')"
    have "ex_state ?ex \<noteq> WPending" using run_local_state [OF r] by (auto simp: outcome_execution_def)
    with begin_executions [OF b [unfolded Run_handler]] assms have "quiescent (local_finish call ?ex le1)"
      by (auto simp: quiescent_def finish_executions od_get_set)
    with b Run_handler r show ?thesis by (simp add: local_start_def Let_def)
  qed
qed

lemma local_start_reuses:
  assumes "local_start now call (le, w) = Some (Inr ex, le', w')" "call_key call = Some key"
    "call_key call2 = Some key" "ex_state ex = WCompleted"
  shows "local_start now2 call2 (le', w2) = Some (Inr ex, le', w2)"
proof -
  have "\<exists>i. od_get (le_index le') key = Some i \<and> od_get (le_executions le') i = Some ex"
  proof -
    obtain d le1 where b: "local_begin call le = (d, le1)" by (cases "local_begin call le")
    show ?thesis
    proof (cases d)
      case (Existing ex0)
      with b assms show ?thesis
        by (auto simp: local_start_def local_begin_def split: option.splits if_splits)
    next
      case (Wait_for e)
      with b assms show ?thesis
        by (auto simp: local_start_def local_after_wait_def split: option.splits if_splits)
    next
      case Run_handler
      obtain outcome w1 where r: "run_local_handler call w = (outcome, w1)"
        by (cases "run_local_handler call w")
      with b Run_handler assms(1) have "le' = local_finish call ex le1"
        by (auto simp: local_start_def Let_def)
      moreover have "ex = outcome_execution call outcome (now w1)"
        using b Run_handler r assms(1) by (auto simp: local_start_def Let_def)
      ultimately show ?thesis using assms(2) by (simp add: finish_executions od_get_set)
    qed
  qed
  then have "local_begin call2 le' = (Existing ex, le')"
    using assms(3,4) by (auto simp: local_begin_def)
  then show ?thesis by (simp add: local_start_def)
qed

section \<open>Properties\<close>

definition demo_call :: "string \<Rightarrow> (nat, nat) start_call" where
  "demo_call i = \<lparr>sc_id = i, sc_flow = \<lparr>wf_id = ''w'', wf_handler = None, wf_metadata = []\<rparr>, sc_input = [],
     sc_correlation = Some ''c'', sc_metadata = [], sc_started = 0\<rparr>"

definition demo_outcome :: "wf_state \<times> nat result option \<times> string option" where
  "demo_outcome = (WCompleted, Some Falsy, None)"

abbreviation demo_result :: "string \<Rightarrow> nat execution" where
  "demo_result i \<equiv> outcome_execution (demo_call i) demo_outcome 1"

definition stranded :: "(nat, nat) threads" where
  "stranded =
     (local_finish (demo_call ''x3'') (demo_result ''x3'')
       (local_finish (demo_call ''x1'') (demo_result ''x1'')
         (reserve (''w'', ''c'') (demo_call ''x3'')
           (snd (local_cancel ''x1'' None 0 (reserve (''w'', ''c'') (demo_call ''x1'') local_init))))),
      [Returned (Inr (demo_result ''x1'')), Waiting (demo_call ''x2'') (''w'', ''c'') 0,
       Returned (Inr (demo_result ''x3''))])"

lemmas demo_start_defs = demo_call_def call_key_def local_begin_def reserve_def local_init_def placeholder_def
  local_cancel_def cancelled_execution_def put_local_def active_states_def

lemma demo_key: "call_key (demo_call i) = Some (''w'', ''c'')"
  by (simp add: demo_call_def call_key_def)

lemma stranded_reachable: "thread_steps (local_init, []) stranded"
proof -
  let ?le1 = "reserve (''w'', ''c'') (demo_call ''x1'') local_init"
  let ?le2 = "snd (local_cancel ''x1'' None 0 ?le1)"
  let ?le3 = "reserve (''w'', ''c'') (demo_call ''x3'') ?le2"
  let ?le4 = "local_finish (demo_call ''x1'') (demo_result ''x1'') ?le3"
  let ?R1 = "Running (demo_call ''x1'')" and ?R3 = "Running (demo_call ''x3'')"
  let ?W = "Waiting (demo_call ''x2'') (''w'', ''c'') 0"
  let ?D1 = "Returned (Inr (demo_result ''x1''))" and ?D3 = "Returned (Inr (demo_result ''x3''))"
  have 1: "thread_step (local_init, []) (?le1, [] @ [?R1])"
    by (rule thread_step.call_run) (simp_all add: demo_start_defs)
  have 2: "thread_step (?le1, [?R1]) (?le1, [?R1] @ [?W])"
    by (rule thread_step.call_wait) (simp_all add: demo_start_defs)
  have 3: "thread_step (?le1, [?R1, ?W]) (?le2, [?R1, ?W])" by (rule thread_step.cancel)
  have 4: "thread_step (?le2, [?R1, ?W]) (?le3, [?R1, ?W] @ [?R3])"
    by (rule thread_step.call_run) (simp_all add: demo_start_defs)
  have 5: "thread_step (?le3, [?R1, ?W, ?R3]) (?le4, [?R1, ?W, ?R3][0 := ?D1])"
    by (rule thread_step.finish) simp_all
  have 6: "thread_step (?le4, [?D1, ?W, ?R3])
      (local_finish (demo_call ''x3'') (demo_result ''x3'') ?le4, [?D1, ?W, ?R3][2 := ?D3])"
    by (rule thread_step.finish) simp_all
  have e: "[?R1, ?W, ?R3][0 := ?D1] = [?D1, ?W, ?R3]" "[?D1, ?W, ?R3][2 := ?D3] = [?D1, ?W, ?D3]"
    by (simp_all add: numeral_2_eq_2)
  show ?thesis unfolding stranded_def
    using 1 [unfolded append.simps] 2 [unfolded append.simps] 3 4 [unfolded append.simps]
      5 [unfolded e] 6 [unfolded e]
    by (meson converse_rtranclp_into_rtranclp rtranclp.rtrancl_refl)
qed

text \<open>C31: A cancellation can strand a waiting start for ever: there is a run in which a start for
  a correlation id waits for the one in flight, that one is cancelled, a third start takes its
  place and both running starts return; from then on, whatever any thread does, the waiting start
  never returns, because the event it waits for was replaced and is never set.\<close>

theorem cancelled_start_strands_waiter:
  "thread_steps (local_init, []) stranded \<and>
   snd stranded ! 1 = Waiting (demo_call ''x2'') (''w'', ''c'') 0 \<and>
   {s. thread_steps stranded s} \<subseteq> {s. snd s ! 1 = Waiting (demo_call ''x2'') (''w'', ''c'') 0}"
proof -
  have "lost 0 (fst stranded)"
    by (simp add: stranded_def lost_def local_finish_def demo_start_defs od_get_set od_get_pop)
  then have "snd s ! 1 = Waiting (demo_call ''x2'') (''w'', ''c'') 0" if "thread_steps stranded s" for s
    using lost_waits [OF that, of 0 1 "demo_call ''x2''" "(''w'', ''c'')"] by (simp add: stranded_def)
  with stranded_reachable show ?thesis by (auto simp: stranded_def)
qed

text \<open>A cancellation during the handler is overwritten by the outcome of the start.\<close>

lemma cancellation_overwritten:
  "local_status (sc_id call) (local_finish call ex (snd (local_cancel (sc_id call) reason t le))) = Inr ex"
  by (simp add: local_status_def finish_executions od_get_set)

end
