(* ===== verification/CalDates.thy ===== *)
theory CalDates
  imports Prelude
begin

text \<open>
  Python's \<open>datetime.date\<close> as far as the date helpers and \<open>DateRangeDomain\<close> of
  \<open>src/general_manager/manager/input.py\<close> use it: the proleptic Gregorian calendar with years 1 to
  9999, order, \<open>toordinal\<close>, \<open>fromordinal\<close> and \<open>weekday\<close>, and on top of it the anchors (month start and
  end, quarter end, year start and end, week end) and the addition of months.

  A date is a triple that is ordered lexicographically. Adding days steps through the calendar; the
  ordinal grows by one with every step, so this is \<open>fromordinal(toordinal() + n)\<close>. What Python refuses
  (a day after 9999-12-31, a year above 9999) is \<open>None\<close>.
\<close>

section \<open>The calendar\<close>

datatype pdate = PDate (yr: int) (mo: int) (dy: int)

definition leap :: "int \<Rightarrow> bool" where
  "leap y = (4 dvd y \<and> (100 dvd y \<longrightarrow> 400 dvd y))"

text \<open>\<open>calendar.monthrange(year, month)[1]\<close>\<close>

definition month_length :: "int \<Rightarrow> int \<Rightarrow> int" where
  "month_length y m =
     (if m = 2 then (if leap y then 29 else 28) else if m \<in> {4, 6, 9, 11} then 30 else 31)"

definition valid_date :: "pdate \<Rightarrow> bool" where
  "valid_date d = (1 \<le> yr d \<and> yr d \<le> 9999 \<and> 1 \<le> mo d \<and> mo d \<le> 12 \<and> 1 \<le> dy d \<and> dy d \<le> month_length (yr d) (mo d))"

instantiation pdate :: linorder
begin

definition less_eq_pdate :: "pdate \<Rightarrow> pdate \<Rightarrow> bool" where
  "a \<le> b = (yr a < yr b \<or> yr a = yr b \<and> (mo a < mo b \<or> mo a = mo b \<and> dy a \<le> dy b))"

definition less_pdate :: "pdate \<Rightarrow> pdate \<Rightarrow> bool" where
  "a < b = (yr a < yr b \<or> yr a = yr b \<and> (mo a < mo b \<or> mo a = mo b \<and> dy a < dy b))"

instance
  by standard (auto simp: less_eq_pdate_def less_pdate_def pdate.expand)

end

text \<open>\<open>toordinal\<close>: days since 0000-12-31.\<close>

fun days_before_month :: "int \<Rightarrow> nat \<Rightarrow> int" where
  "days_before_month y 0 = 0"
| "days_before_month y (Suc m) = (if m = 0 then 0 else days_before_month y m + month_length y (int m))"

definition days_before_year :: "int \<Rightarrow> int" where
  "days_before_year y = (let p = y - 1 in p * 365 + p div 4 - p div 100 + p div 400)"

definition ordinal :: "pdate \<Rightarrow> int" where
  "ordinal d = days_before_year (yr d) + days_before_month (yr d) (nat (mo d)) + dy d"

definition weekday :: "pdate \<Rightarrow> int" where
  "weekday d = (ordinal d + 6) mod 7"

definition next_day :: "pdate \<Rightarrow> pdate option" where
  "next_day d =
     (if dy d < month_length (yr d) (mo d) then Some (PDate (yr d) (mo d) (dy d + 1))
      else if mo d < 12 then Some (PDate (yr d) (mo d + 1) 1)
      else if yr d < 9999 then Some (PDate (yr d + 1) 1 1)
      else None)"

fun add_days :: "nat \<Rightarrow> pdate \<Rightarrow> pdate option" where
  "add_days 0 d = Some d"
| "add_days (Suc n) d = (case next_day d of None \<Rightarrow> None | Some e \<Rightarrow> add_days n e)"

lemma month_length_bounds: "28 \<le> month_length y m" "month_length y m \<le> 31"
  by (auto simp: month_length_def)

lemma days_before_Suc: "1 \<le> m \<Longrightarrow> days_before_month y (nat (m + 1)) = days_before_month y (nat m) + month_length y m"
  using days_before_month.simps(2) [of y "nat m"] by (simp add: nat_add_distrib)

lemma year_days: "days_before_year (y + 1) = days_before_year y + (if leap y then 366 else 365)"
proof -
  have p: "y div n = (y - 1) div n + (if n dvd y then 1 else 0)" if "0 < n" for n :: int
  proof (cases "n dvd y")
    case True
    then obtain k where "y = n * k" by (elim dvdE)
    moreover have "(n * k - 1) div n = k - 1" using that
      by (intro int_div_pos_eq [where r = "n - 1"]) (simp_all add: algebra_simps)
    ultimately show ?thesis using that by simp
  next
    case False
    then have "0 < y mod n" using that by (simp add: dvd_eq_mod_eq_0 order_less_le)
    moreover have "y mod n - 1 < n" using pos_mod_bound [OF that, of y] by simp
    ultimately have "(y - 1) div n = y div n"
      using that by (intro int_div_pos_eq [where r = "y mod n - 1"]) simp_all
    with False show ?thesis by simp
  qed
  have d: "100 dvd y \<Longrightarrow> 4 dvd y" "400 dvd y \<Longrightarrow> 100 dvd y" by presburger+
  have e: "days_before_year (y + 1) = y * 365 + y div 4 - y div 100 + y div 400"
    "days_before_year y = y * 365 - 365 + (y - 1) div 4 - (y - 1) div 100 + (y - 1) div 400"
    by (simp_all add: days_before_year_def Let_def algebra_simps)
  have arith: "X = Z + (if P \<and> (Q \<longrightarrow> R) then 366 else 365)"
    if "X = k + a - b + c" "Z = k - 365 + a' - b' + c'"
      "a = a' + (if P then 1 else 0)" "b = b' + (if Q then 1 else 0)" "c = c' + (if R then 1 else 0)"
      "Q \<Longrightarrow> P" "R \<Longrightarrow> Q"
    for X Z k a b c a' b' c' :: int and P Q R
    using that by (cases P; cases Q; cases R) simp_all
  show ?thesis unfolding leap_def by (rule arith [OF e p p p d]) simp_all
qed

lemma year_months: "days_before_month y 13 = (if leap y then 366 else 365)"
  by (simp add: eval_nat_numeral month_length_def)

lemma next_day_valid: "valid_date d \<Longrightarrow> next_day d = Some e \<Longrightarrow> valid_date e"
  by (auto simp: next_day_def valid_date_def month_length_def split: if_splits)

lemma next_day_ordinal:
  assumes "valid_date d" "next_day d = Some e"
  shows "ordinal e = ordinal d + 1"
proof -
  have "days_before_month (yr d) (nat 12) + month_length (yr d) 12 = (if leap (yr d) then 366 else 365)"
    using days_before_Suc [of 12 "yr d"] year_months by simp
  with assms show ?thesis
    by (auto simp: next_day_def valid_date_def ordinal_def days_before_Suc year_days split: if_splits)
qed

lemma next_day_less: "valid_date d \<Longrightarrow> next_day d = Some e \<Longrightarrow> d < e"
  by (auto simp: next_day_def less_pdate_def split: if_splits)

lemma next_day_least: "valid_date d \<Longrightarrow> next_day d = Some e \<Longrightarrow> valid_date c \<Longrightarrow> d < c \<Longrightarrow> e \<le> c"
  by (auto simp: next_day_def less_pdate_def less_eq_pdate_def valid_date_def split: if_splits)

lemma next_day_None: "valid_date d \<Longrightarrow> next_day d = None \<Longrightarrow> valid_date c \<Longrightarrow> c \<le> d"
  by (auto simp: next_day_def less_eq_pdate_def valid_date_def month_length_def split: if_splits)

section \<open>Ordinals\<close>

lemma days_before_year_mono: "y \<le> z \<Longrightarrow> days_before_year y \<le> days_before_year z"
proof (induction z rule: int_ge_induct)
  case (step z)
  with year_days [of z] show ?case by (auto split: if_splits)
qed simp

lemma days_before_month_mono: "m \<le> n \<Longrightarrow> days_before_month y m \<le> days_before_month y n"
proof (induction n rule: dec_induct)
  case (step n)
  then show ?case using month_length_bounds(1) [of y "int n"] by auto
qed simp

lemma day_of_year:
  assumes "valid_date d"
  shows "0 < days_before_month (yr d) (nat (mo d)) + dy d"
    and "days_before_month (yr d) (nat (mo d)) + dy d \<le> (if leap (yr d) then 366 else 365)"
proof -
  from assms have v: "1 \<le> mo d" "mo d \<le> 12" "1 \<le> dy d" "dy d \<le> month_length (yr d) (mo d)"
    by (simp_all add: valid_date_def)
  have "days_before_month (yr d) 0 \<le> days_before_month (yr d) (nat (mo d))" by (rule days_before_month_mono) simp
  with v show "0 < days_before_month (yr d) (nat (mo d)) + dy d" by simp
  have "days_before_month (yr d) (nat (mo d + 1)) \<le> days_before_month (yr d) 13"
    using v by (intro days_before_month_mono) auto
  with v days_before_Suc [OF v(1)] year_months
  show "days_before_month (yr d) (nat (mo d)) + dy d \<le> (if leap (yr d) then 366 else 365)"
    by (simp del: days_before_month.simps)
qed

lemma ordinal_mono:
  assumes "valid_date a" "valid_date b" "a < b"
  shows "ordinal a < ordinal b"
proof -
  consider (year) "yr a < yr b" | (month) "yr a = yr b" "mo a < mo b" | (day) "yr a = yr b" "mo a = mo b" "dy a < dy b"
    using assms(3) by (auto simp: less_pdate_def)
  then show ?thesis
  proof cases
    case year
    then have "days_before_year (yr a + 1) \<le> days_before_year (yr b)" by (intro days_before_year_mono) simp
    with year_days [of "yr a"] day_of_year [OF assms(1)] day_of_year [OF assms(2)] show ?thesis
      by (simp add: ordinal_def split: if_splits)
  next
    case month
    from assms(1) have "1 \<le> mo a" "dy a \<le> month_length (yr a) (mo a)" by (simp_all add: valid_date_def)
    moreover have "days_before_month (yr a) (nat (mo a + 1)) \<le> days_before_month (yr a) (nat (mo b))"
      using month by (intro days_before_month_mono) simp
    moreover have "1 \<le> dy b" using assms(2) by (simp add: valid_date_def)
    ultimately show ?thesis using month days_before_Suc [of "mo a" "yr a"] by (simp add: ordinal_def)
  qed (simp add: ordinal_def)
qed

lemma ordinal_less_iff: "valid_date a \<Longrightarrow> valid_date b \<Longrightarrow> ordinal a < ordinal b \<longleftrightarrow> a < b"
  by (metis linorder_cases order_less_asym ordinal_mono)

lemma ordinal_le_iff: "valid_date a \<Longrightarrow> valid_date b \<Longrightarrow> ordinal a \<le> ordinal b \<longleftrightarrow> a \<le> b"
  by (meson linorder_not_less ordinal_less_iff)

lemma add_days_ordinal:
  "valid_date d \<Longrightarrow> add_days n d = Some e \<Longrightarrow> valid_date e \<and> ordinal e = ordinal d + int n"
proof (induction n arbitrary: d)
  case (Suc n)
  from Suc.prems(2) obtain c where c: "next_day d = Some c" "add_days n c = Some e" by (auto split: option.splits)
  from Suc.IH [OF next_day_valid [OF Suc.prems(1) c(1)] c(2)] next_day_ordinal [OF Suc.prems(1) c(1)] show ?case by simp
qed simp

lemma add_days_None:
  "valid_date d \<Longrightarrow> add_days n d = None \<Longrightarrow> valid_date c \<Longrightarrow> ordinal c < ordinal d + int n"
proof (induction n arbitrary: d)
  case (Suc n)
  show ?case
  proof (cases "next_day d")
    case None
    from next_day_None [OF Suc.prems(1) None Suc.prems(3)] Suc.prems(1,3) show ?thesis
      using ordinal_le_iff [of c d] by simp
  next
    case (Some e)
    from Suc.IH [OF next_day_valid [OF Suc.prems(1) Some]] Suc.prems Some next_day_ordinal [OF Suc.prems(1) Some]
    show ?thesis by simp
  qed
qed simp

lemma add_days_less: "valid_date d \<Longrightarrow> 0 < n \<Longrightarrow> add_days n d = Some e \<Longrightarrow> d < e"
  using add_days_ordinal [of d n e] ordinal_less_iff [of d e] by simp

lemma add_days_reaches:
  assumes "valid_date d" "valid_date c" "ordinal c = ordinal d + int n"
  shows "add_days n d = Some c"
proof (cases "add_days n d")
  case None
  from add_days_None [OF assms(1) None assms(2)] assms(3) show ?thesis by simp
next
  case (Some e)
  with add_days_ordinal [OF assms(1) Some] assms ordinal_le_iff [of e c] ordinal_le_iff [of c e] show ?thesis by simp
qed

section \<open>Anchors\<close>

definition month_start :: "pdate \<Rightarrow> pdate" where
  "month_start d = PDate (yr d) (mo d) 1"

definition month_end :: "pdate \<Rightarrow> pdate" where
  "month_end d = PDate (yr d) (mo d) (month_length (yr d) (mo d))"

definition year_start :: "pdate \<Rightarrow> pdate" where
  "year_start d = PDate (yr d) 1 1"

definition year_end :: "pdate \<Rightarrow> pdate" where
  "year_end d = PDate (yr d) 12 31"

definition week_end :: "pdate \<Rightarrow> pdate option" where
  "week_end d = add_days (nat ((6 - weekday d) mod 7)) d"

definition quarter_end :: "pdate \<Rightarrow> pdate" where
  "quarter_end d = (let m = ((mo d - 1) div 3 + 1) * 3 in PDate (yr d) m (month_length (yr d) m))"

definition add_months :: "pdate \<Rightarrow> int \<Rightarrow> pdate option" where
  "add_months d months =
     (let absolute = yr d * 12 + (mo d - 1) + months; y = absolute div 12; m = absolute mod 12 + 1 in
      if 1 \<le> y \<and> y \<le> 9999 then Some (PDate y m (min (dy d) (month_length y m))) else None)"

lemma weekday_range: "0 \<le> weekday d" "weekday d < 7"
  by (simp_all add: weekday_def)

lemma week_end_sunday:
  assumes "valid_date d" "week_end d = Some e"
  shows "valid_date e" "weekday e = 6" "ordinal d \<le> ordinal e" "ordinal e < ordinal d + 7"
proof -
  from add_days_ordinal [OF assms(1)] assms(2)
  have e: "valid_date e" "ordinal e = ordinal d + (6 - weekday d) mod 7" by (auto simp: week_end_def)
  then show "valid_date e" "ordinal d \<le> ordinal e" "ordinal e < ordinal d + 7" by simp_all
  have "(ordinal d + (6 - (ordinal d + 6) mod 7) mod 7 + 6) mod 7 = 6" by presburger
  with e(2) show "weekday e = 6" by (simp add: weekday_def)
qed

end
