(* ===== verification/CalDomain.thy ===== *)
theory CalDomain
  imports CalDates
begin

text \<open>
  \<open>DateRangeDomain\<close> of \<open>src/general_manager/manager/input.py\<close>: the dates between two bounds that are
  anchors of a frequency, enumerated by a loop and tested by a loop over the same dates.

  The loops of the code end because a positive step moves the date forward; they are
  \<open>partial_function\<close>s, whose \<open>None\<close> is "does not return", and the lemmas show that a domain the
  constructor accepts always returns. A date beyond 9999-12-31 makes Python raise: a generator has
  then yielded its dates so far, so it is a pair of the dates and a flag; a test that raises is
  \<open>Inl ()\<close>.
\<close>

section \<open>The domain\<close>

datatype frequency = FDay | FWeekEnd | FMonthStart | FMonthEnd | FQuarterEnd | FYearStart | FYearEnd

definition frequency_of :: "string \<Rightarrow> frequency option" where
  "frequency_of s =
     (if s = ''day'' then Some FDay else if s = ''week_end'' then Some FWeekEnd
      else if s = ''month_start'' then Some FMonthStart else if s = ''month_end'' then Some FMonthEnd
      else if s = ''quarter_end'' then Some FQuarterEnd else if s = ''year_start'' then Some FYearStart
      else if s = ''year_end'' then Some FYearEnd else None)"

record date_domain =
  dd_start :: pdate
  dd_end :: pdate
  dd_frequency :: frequency
  dd_step :: int

datatype date_range_error = BadStep | BadBounds | BadFrequency

definition make_date_range :: "pdate \<Rightarrow> pdate \<Rightarrow> string \<Rightarrow> int \<Rightarrow> date_range_error + date_domain" where
  "make_date_range start until freq step =
     (if step \<le> 0 then Inl BadStep
      else if until < start then Inl BadBounds
      else case frequency_of freq of
          None \<Rightarrow> Inl BadFrequency
        | Some f \<Rightarrow> Inr \<lparr>dd_start = start, dd_end = until, dd_frequency = f, dd_step = step\<rparr>)"

definition anchor :: "frequency \<Rightarrow> pdate \<Rightarrow> pdate option" where
  "anchor f d =
     (case f of
        FDay \<Rightarrow> Some d
      | FWeekEnd \<Rightarrow> week_end d
      | FMonthStart \<Rightarrow> Some (month_start d)
      | FMonthEnd \<Rightarrow> Some (month_end d)
      | FQuarterEnd \<Rightarrow> Some (quarter_end d)
      | FYearStart \<Rightarrow> Some (year_start d)
      | FYearEnd \<Rightarrow> Some (year_end d))"

definition add_years :: "int \<Rightarrow> pdate \<Rightarrow> pdate option" where
  "add_years n d = (if 1 \<le> yr d + n \<and> yr d + n \<le> 9999 then Some (PDate (yr d + n) (mo d) (dy d)) else None)"

definition advance :: "date_domain \<Rightarrow> pdate \<Rightarrow> pdate option" where
  "advance dm d =
     (case dd_frequency dm of
        FDay \<Rightarrow> add_days (nat (dd_step dm)) d
      | FWeekEnd \<Rightarrow> add_days (nat (dd_step dm * 7)) d
      | FMonthStart \<Rightarrow> map_option month_start (add_months d (dd_step dm))
      | FMonthEnd \<Rightarrow> map_option month_end (add_months d (dd_step dm))
      | FQuarterEnd \<Rightarrow> map_option quarter_end (add_months d (dd_step dm * 3))
      | FYearStart \<Rightarrow> map_option year_start (add_years (dd_step dm) (year_start d))
      | FYearEnd \<Rightarrow> map_option year_end (add_years (dd_step dm) (year_start d)))"

text \<open>\<open>__iter__\<close>: the dates it yields, and whether it raises after them.\<close>

partial_function (option) dates_from :: "date_domain \<Rightarrow> pdate \<Rightarrow> (pdate list \<times> bool) option" where
  "dates_from dm d =
     (if d \<le> dd_end dm then
        (case advance dm d of
           None \<Rightarrow> Some ([d], True)
         | Some e \<Rightarrow> Option.bind (dates_from dm e) (\<lambda>(ds, raised). Some (d # ds, raised)))
      else Some ([], False))"

definition domain_dates :: "date_domain \<Rightarrow> (pdate list \<times> bool) option" where
  "domain_dates dm =
     (case anchor (dd_frequency dm) (dd_start dm) of
        None \<Rightarrow> Some ([], True)
      | Some d \<Rightarrow> dates_from dm d)"

text \<open>\<open>__contains__\<close> of a date; \<open>contains\<close> makes the first comparison twice.\<close>

partial_function (option) scan_dates :: "date_domain \<Rightarrow> pdate \<Rightarrow> pdate \<Rightarrow> (unit + bool) option" where
  "scan_dates dm v d =
     (if d \<le> dd_end dm then
        (if d = v then Some (Inr True)
         else case advance dm d of
             None \<Rightarrow> Some (Inl ())
           | Some e \<Rightarrow> scan_dates dm v e)
      else Some (Inr False))"

definition domain_has :: "date_domain \<Rightarrow> pdate \<Rightarrow> (unit + bool) option" where
  "domain_has dm v =
     (case anchor (dd_frequency dm) v of
        None \<Rightarrow> Some (Inl ())
      | Some n \<Rightarrow>
          if dd_end dm < n then Some (Inr False)
          else case anchor (dd_frequency dm) (dd_start dm) of
              None \<Rightarrow> Some (Inl ())
            | Some d \<Rightarrow> scan_dates dm n d)"

definition domain_contains :: "date_domain \<Rightarrow> pdate \<Rightarrow> (unit + bool) option" where
  "domain_contains dm v =
     (case anchor (dd_frequency dm) v of
        None \<Rightarrow> Some (Inl ())
      | Some n \<Rightarrow> if dd_end dm < n then Some (Inr False) else domain_has dm n)"

lemmas date_loops_code [code] = dates_from.simps scan_dates.simps

section \<open>Anchors and steps\<close>

definition anchored :: "frequency \<Rightarrow> pdate \<Rightarrow> bool" where
  "anchored f d = (valid_date d \<and> anchor f d = Some d)"

lemma anchored_iff:
  "anchored FDay d \<longleftrightarrow> valid_date d"
  "anchored FWeekEnd d \<longleftrightarrow> valid_date d \<and> weekday d = 6"
  "anchored FMonthStart d \<longleftrightarrow> valid_date d \<and> dy d = 1"
  "anchored FMonthEnd d \<longleftrightarrow> valid_date d \<and> dy d = month_length (yr d) (mo d)"
  "anchored FQuarterEnd d \<longleftrightarrow> valid_date d \<and> 3 dvd mo d \<and> dy d = month_length (yr d) (mo d)"
  "anchored FYearStart d \<longleftrightarrow> valid_date d \<and> mo d = 1 \<and> dy d = 1"
  "anchored FYearEnd d \<longleftrightarrow> valid_date d \<and> mo d = 12 \<and> dy d = 31"
proof -
  show "anchored FWeekEnd d \<longleftrightarrow> valid_date d \<and> weekday d = 6"
  proof -
    have "weekday d = 6 \<Longrightarrow> week_end d = Some d" by (simp add: week_end_def)
    then show ?thesis using week_end_sunday(2) [of d d] by (auto simp only: anchored_def anchor_def frequency.case)
  qed
  have q: "((mo d - 1) div 3 + 1) * 3 = mo d \<longleftrightarrow> 3 dvd mo d" by presburger
  show "anchored FQuarterEnd d \<longleftrightarrow> valid_date d \<and> 3 dvd mo d \<and> dy d = month_length (yr d) (mo d)"
    by (cases d) (use q in \<open>auto simp: anchored_def anchor_def quarter_end_def Let_def\<close>)
qed (cases d; auto simp: anchored_def anchor_def month_start_def month_end_def year_start_def year_end_def)+

text \<open>Anchoring a date gives an anchor, and a date that is one already stays.\<close>

lemma valid_end: "1 \<le> y \<Longrightarrow> y \<le> 9999 \<Longrightarrow> 1 \<le> m \<Longrightarrow> m \<le> 12 \<Longrightarrow> valid_date (PDate y m (month_length y m))"
  using month_length_bounds(1) [of y m] by (simp add: valid_date_def)

lemma valid_begin: "1 \<le> y \<Longrightarrow> y \<le> 9999 \<Longrightarrow> 1 \<le> m \<Longrightarrow> m \<le> 12 \<Longrightarrow> valid_date (PDate y m 1)"
  using month_length_bounds(1) [of y m] by (simp add: valid_date_def)

lemma december: "month_length y 12 = 31"
  by (simp add: month_length_def)

lemma anchor_anchored:
  assumes "valid_date d" "anchor f d = Some e"
  shows "anchored f e"
proof -
  from assms(1) have v: "1 \<le> yr d" "yr d \<le> 9999" "1 \<le> mo d" "mo d \<le> 12" by (simp_all add: valid_date_def)
  show ?thesis
  proof (cases f)
    case FDay
    with assms show ?thesis by (simp add: anchored_iff anchor_def)
  next
    case FWeekEnd
    with assms week_end_sunday [of d e] show ?thesis by (simp add: anchored_iff anchor_def)
  next
    case FMonthStart
    with assms v valid_begin [of "yr d" "mo d"] show ?thesis by (auto simp: anchored_iff anchor_def month_start_def)
  next
    case FMonthEnd
    with assms v valid_end [of "yr d" "mo d"] show ?thesis by (auto simp: anchored_iff anchor_def month_end_def)
  next
    case FQuarterEnd
    let ?m = "((mo d - 1) div 3 + 1) * 3"
    have "1 \<le> ?m" "?m \<le> 12" using v(3,4) by presburger+
    with v have "valid_date (PDate (yr d) ?m (month_length (yr d) ?m))" by (intro valid_end)
    moreover have "e = PDate (yr d) ?m (month_length (yr d) ?m)"
      using FQuarterEnd assms(2) by (simp add: anchor_def quarter_end_def Let_def)
    ultimately show ?thesis using FQuarterEnd by (simp add: anchored_iff)
  next
    case FYearStart
    with assms v valid_begin [of "yr d" 1] show ?thesis by (auto simp: anchored_iff anchor_def year_start_def)
  next
    case FYearEnd
    with assms v valid_end [of "yr d" 12] show ?thesis by (auto simp: anchored_iff anchor_def year_end_def december)
  qed
qed

text \<open>The anchors of a frequency are numbered consecutively.\<close>

definition position :: "frequency \<Rightarrow> pdate \<Rightarrow> int" where
  "position f d =
     (case f of
        FDay \<Rightarrow> ordinal d
      | FWeekEnd \<Rightarrow> ordinal d div 7
      | FMonthStart \<Rightarrow> yr d * 12 + mo d
      | FMonthEnd \<Rightarrow> yr d * 12 + mo d
      | FQuarterEnd \<Rightarrow> yr d * 4 + mo d div 3
      | FYearStart \<Rightarrow> yr d
      | FYearEnd \<Rightarrow> yr d)"

lemma sunday_ordinal: "weekday d = 6 \<longleftrightarrow> ordinal d mod 7 = 0"
  unfolding weekday_def by presburger

lemma position_mono:
  assumes "anchored f a" "anchored f b" "a < b"
  shows "position f a < position f b"
proof (cases f)
  case FDay
  with assms ordinal_mono [of a b] show ?thesis by (simp add: anchored_iff position_def)
next
  case FWeekEnd
  with assms have "ordinal a < ordinal b" "ordinal a mod 7 = 0" "ordinal b mod 7 = 0"
    using ordinal_mono [of a b] by (simp_all add: anchored_iff sunday_ordinal)
  then have "ordinal a div 7 < ordinal b div 7" by presburger
  with FWeekEnd show ?thesis by (simp add: position_def)
next
  case FQuarterEnd
  with assms have "3 dvd mo a" "3 dvd mo b" "1 \<le> mo b" "mo a \<le> 12"
    "yr a < yr b \<or> yr a = yr b \<and> mo a < mo b"
    by (auto simp: anchored_iff less_pdate_def valid_date_def)
  then have "yr a * 4 + mo a div 3 < yr b * 4 + mo b div 3" by presburger
  with FQuarterEnd show ?thesis by (simp add: position_def)
qed (use assms in \<open>auto simp: anchored_iff position_def less_pdate_def valid_date_def\<close>)

lemma position_less: "anchored f a \<Longrightarrow> anchored f b \<Longrightarrow> position f a < position f b \<longleftrightarrow> a < b"
  by (metis linorder_cases order_less_asym position_mono)

lemma position_eq: "anchored f a \<Longrightarrow> anchored f b \<Longrightarrow> position f a = position f b \<longleftrightarrow> a = b"
  by (metis linorder_cases order_less_irrefl position_mono)

lemma add_months_Some:
  assumes "add_months d n = Some e"
  shows "yr e * 12 + mo e = yr d * 12 + mo d + n" "1 \<le> yr e" "yr e \<le> 9999" "1 \<le> mo e" "mo e \<le> 12"
  using assms by (auto simp: add_months_def Let_def split: if_splits)

lemma add_months_None:
  assumes "add_months d n = None" "valid_date d" "0 \<le> n" "valid_date c"
  shows "yr c * 12 + mo c < yr d * 12 + mo d + n"
proof -
  let ?y = "(yr d * 12 + (mo d - 1) + n) div 12"
  have "1 \<le> ?y" using assms(2,3) unfolding valid_date_def by presburger
  then have "9999 < ?y" using assms(1) by (auto simp: add_months_def Let_def split: if_splits)
  with assms(4) show ?thesis unfolding valid_date_def by presburger
qed

lemma advance_anchored:
  assumes "0 < dd_step dm" "anchored (dd_frequency dm) d" "advance dm d = Some e"
  shows "anchored (dd_frequency dm) e" "position (dd_frequency dm) e = position (dd_frequency dm) d + dd_step dm"
proof -
  have "anchored (dd_frequency dm) e \<and> position (dd_frequency dm) e = position (dd_frequency dm) d + dd_step dm"
  proof (cases "dd_frequency dm")
    case FDay
    with assms add_days_ordinal [of d "nat (dd_step dm)" e] show ?thesis
      by (simp add: advance_def anchored_iff position_def)
  next
    case FWeekEnd
    with assms add_days_ordinal [of d "nat (dd_step dm * 7)" e]
    have "valid_date e" "ordinal e = ordinal d + dd_step dm * 7" "ordinal d mod 7 = 0"
      by (simp_all add: advance_def anchored_iff sunday_ordinal)
    with FWeekEnd show ?thesis by (simp add: anchored_iff sunday_ordinal position_def)
  next
    case FQuarterEnd
    with assms obtain c where c: "add_months d (dd_step dm * 3) = Some c" "e = quarter_end c" "3 dvd mo d"
      by (auto simp: advance_def anchored_iff)
    from add_months_Some [OF c(1)] c(3) have "3 dvd mo c" by presburger
    then have m: "((mo c - 1) div 3 + 1) * 3 = mo c" by presburger
    then have e: "e = PDate (yr c) (mo c) (month_length (yr c) (mo c))" using c(2) by (simp add: quarter_end_def Let_def)
    have "yr c * 4 + mo c div 3 = yr d * 4 + mo d div 3 + dd_step dm"
      using add_months_Some(1) [OF c(1)] \<open>3 dvd mo c\<close> c(3) by presburger
    with FQuarterEnd e \<open>3 dvd mo c\<close> add_months_Some(2-5) [OF c(1)] show ?thesis
      using month_length_bounds(1) [of "yr c" "mo c"] by (simp add: anchored_iff position_def valid_date_def)
  next
    case FMonthStart
    with assms obtain c where c: "add_months d (dd_step dm) = Some c" "e = month_start c"
      by (auto simp: advance_def)
    with FMonthStart add_months_Some [OF c(1)] show ?thesis
      using month_length_bounds(1) [of "yr c" "mo c"]
      by (simp add: month_start_def anchored_iff position_def valid_date_def)
  next
    case FMonthEnd
    with assms obtain c where c: "add_months d (dd_step dm) = Some c" "e = month_end c"
      by (auto simp: advance_def)
    with FMonthEnd add_months_Some [OF c(1)] show ?thesis
      using month_length_bounds(1) [of "yr c" "mo c"]
      by (simp add: month_end_def anchored_iff position_def valid_date_def)
  qed (use assms in \<open>auto simp: advance_def add_years_def anchored_iff position_def valid_date_def year_start_def
      year_end_def month_length_def split: if_splits\<close>)
  then show "anchored (dd_frequency dm) e" "position (dd_frequency dm) e = position (dd_frequency dm) d + dd_step dm"
    by simp_all
qed

lemma advance_None:
  assumes "0 < dd_step dm" "anchored (dd_frequency dm) d" "advance dm d = None" "anchored (dd_frequency dm) c"
  shows "position (dd_frequency dm) c < position (dd_frequency dm) d + dd_step dm"
proof (cases "dd_frequency dm")
  case FDay
  with assms add_days_None [of d "nat (dd_step dm)" c] show ?thesis
    by (simp add: advance_def anchored_iff position_def)
next
  case FWeekEnd
  with assms add_days_None [of d "nat (dd_step dm * 7)" c]
  have "ordinal c < ordinal d + dd_step dm * 7" by (simp add: advance_def anchored_iff)
  moreover have "ordinal d mod 7 = 0" using assms(2) FWeekEnd by (simp add: anchored_iff sunday_ordinal)
  ultimately have "ordinal c div 7 < ordinal d div 7 + dd_step dm" by presburger
  with FWeekEnd show ?thesis by (simp add: position_def)
next
  case FQuarterEnd
  with assms add_months_None [of d "dd_step dm * 3" c]
  have "yr c * 12 + mo c < yr d * 12 + mo d + dd_step dm * 3" "3 dvd mo c" "3 dvd mo d"
    by (simp_all add: advance_def anchored_iff)
  then have "yr c * 4 + mo c div 3 < yr d * 4 + mo d div 3 + dd_step dm" by presburger
  with FQuarterEnd show ?thesis by (simp add: position_def)
next
  case FMonthStart
  with assms add_months_None [of d "dd_step dm" c] show ?thesis
    by (simp add: advance_def anchored_iff position_def)
next
  case FMonthEnd
  with assms add_months_None [of d "dd_step dm" c] show ?thesis
    by (simp add: advance_def anchored_iff position_def)
qed (use assms in \<open>auto simp: advance_def add_years_def anchored_iff position_def valid_date_def year_start_def
      split: if_splits\<close>)


section \<open>The loops\<close>

lemma position_bound: "valid_date d \<Longrightarrow> position f d < 4000000"
proof -
  assume v: "valid_date d"
  have "ordinal d \<le> ordinal (PDate 9999 12 31)"
    using v by (subst ordinal_le_iff) (auto simp: valid_date_def less_eq_pdate_def month_length_def split: if_splits)
  also have "ordinal (PDate 9999 12 31) = 3652059"
    by (simp add: ordinal_def days_before_year_def month_length_def eval_nat_numeral leap_def)
  finally have "ordinal d \<le> 3652059" .
  then have "ordinal d < 4000000" "ordinal d div 7 < 4000000" by presburger+
  moreover have "yr d * 12 + mo d < 4000000" "yr d * 4 + mo d div 3 < 4000000" "yr d < 4000000"
    using v unfolding valid_date_def by presburger+
  ultimately show ?thesis by (simp add: position_def split: frequency.split)
qed

text \<open>\<open>on_grid dm d\<close>: the anchors up to the end that lie a whole number of steps after \<open>d\<close>.\<close>

definition on_grid :: "date_domain \<Rightarrow> pdate \<Rightarrow> pdate set" where
  "on_grid dm d = {c. anchored (dd_frequency dm) c \<and> c \<le> dd_end dm
     \<and> (\<exists>k. position (dd_frequency dm) c = position (dd_frequency dm) d + int k * dd_step dm)}"

lemma on_grid_past:
  assumes "0 < dd_step dm" "anchored (dd_frequency dm) d" "\<not> d \<le> dd_end dm"
  shows "on_grid dm d = {}"
proof -
  have "\<not> c \<le> dd_end dm" if c: "anchored (dd_frequency dm) c"
    "position (dd_frequency dm) c = position (dd_frequency dm) d + int k * dd_step dm" for c k
  proof -
    have "0 \<le> int k * dd_step dm" using assms(1) by simp
    with c have "d \<le> c" using position_less [OF c(1) assms(2)] by simp
    with assms(3) show ?thesis by simp
  qed
  then show ?thesis unfolding on_grid_def by blast
qed

lemma on_grid_last:
  assumes "0 < dd_step dm" "anchored (dd_frequency dm) d" "d \<le> dd_end dm" "advance dm d = None"
  shows "on_grid dm d = {d}"
proof -
  have "c = d" if c: "anchored (dd_frequency dm) c"
    "position (dd_frequency dm) c = position (dd_frequency dm) d + int k * dd_step dm" for c k
  proof -
    from advance_None [OF assms(1,2,4) c(1)] c(2) have "int k * dd_step dm < 1 * dd_step dm" by simp
    then have "k = 0" using assms(1) by (simp only: mult_less_cancel_right) auto
    with c show ?thesis using position_eq [OF c(1) assms(2)] by simp
  qed
  moreover have "d \<in> on_grid dm d" using assms(2,3) by (auto simp: on_grid_def intro: exI [of _ 0])
  ultimately show ?thesis unfolding on_grid_def by blast
qed

lemma on_grid_step:
  assumes "0 < dd_step dm" "anchored (dd_frequency dm) d" "d \<le> dd_end dm" "advance dm d = Some e"
  shows "on_grid dm d = insert d (on_grid dm e)" "\<And>c. c \<in> on_grid dm e \<Longrightarrow> d < c"
proof -
  note e = advance_anchored [OF assms(1,2,4)]
  show less: "d < c" if "c \<in> on_grid dm e" for c
  proof -
    from that obtain k where c: "anchored (dd_frequency dm) c"
      "position (dd_frequency dm) c = position (dd_frequency dm) e + int k * dd_step dm" by (auto simp: on_grid_def)
    have "0 < dd_step dm + int k * dd_step dm" using assms(1) by (intro add_pos_nonneg) simp_all
    with c(2) e(2) have "position (dd_frequency dm) d < position (dd_frequency dm) c" by linarith
    then show ?thesis using position_less [OF assms(2) c(1)] by simp
  qed
  show "on_grid dm d = insert d (on_grid dm e)"
  proof (intro set_eqI iffI)
    fix c assume "c \<in> on_grid dm d"
    then obtain k where c: "anchored (dd_frequency dm) c" "c \<le> dd_end dm"
      "position (dd_frequency dm) c = position (dd_frequency dm) d + int k * dd_step dm" by (auto simp: on_grid_def)
    show "c \<in> insert d (on_grid dm e)"
    proof (cases k)
      case 0
      with c position_eq [OF c(1) assms(2)] show ?thesis by simp
    next
      case (Suc j)
      with c(3) e(2) have "position (dd_frequency dm) c = position (dd_frequency dm) e + int j * dd_step dm"
        by (simp add: algebra_simps)
      with c(1,2) have "c \<in> on_grid dm e" unfolding on_grid_def by blast
      then show ?thesis by simp
    qed
  next
    fix c assume "c \<in> insert d (on_grid dm e)"
    then consider "c = d" | "c \<in> on_grid dm e" by blast
    then show "c \<in> on_grid dm d"
    proof cases
      case 1
      with assms(2,3) show ?thesis by (auto simp: on_grid_def intro: exI [of _ 0])
    next
      case 2
      then obtain k where c: "anchored (dd_frequency dm) c" "c \<le> dd_end dm"
        "position (dd_frequency dm) c = position (dd_frequency dm) e + int k * dd_step dm" by (auto simp: on_grid_def)
      then have "position (dd_frequency dm) c = position (dd_frequency dm) d + int (Suc k) * dd_step dm"
        using e(2) by (simp add: algebra_simps)
      with c show ?thesis unfolding on_grid_def by blast
    qed
  qed
qed

text \<open>What both loops return from an anchor on.\<close>

definition loop_result :: "date_domain \<Rightarrow> pdate \<Rightarrow> pdate list \<Rightarrow> bool \<Rightarrow> bool" where
  "loop_result dm d ds raised =
     (dates_from dm d = Some (ds, raised) \<and> sorted_wrt (<) ds \<and> set ds = on_grid dm d
      \<and> (\<forall>v. scan_dates dm v d = Some (if v \<in> set ds then Inr True else if raised then Inl () else Inr False)))"

lemma loops_return:
  assumes "0 < dd_step dm" "anchored (dd_frequency dm) d"
  shows "\<exists>ds raised. loop_result dm d ds raised"
  using assms(2)
proof (induction "nat (4000000 - position (dd_frequency dm) d)" arbitrary: d rule: less_induct)
  case less
  note unfold = dates_from.simps [of dm d] scan_dates.simps [of dm _ d]
  consider (past) "\<not> d \<le> dd_end dm" | (last) "d \<le> dd_end dm" "advance dm d = None"
    | (step) e where "d \<le> dd_end dm" "advance dm d = Some e" by blast
  then show ?case
  proof cases
    case past
    with on_grid_past [OF assms(1) less.prems] have "loop_result dm d [] False" by (simp add: loop_result_def unfold)
    then show ?thesis by blast
  next
    case last
    with on_grid_last [OF assms(1) less.prems] have "loop_result dm d [d] True" by (auto simp: loop_result_def unfold)
    then show ?thesis by blast
  next
    case step
    note e = advance_anchored [OF assms(1) less.prems step(2)]
    have "position (dd_frequency dm) d < 4000000" using less.prems by (intro position_bound) (simp add: anchored_def)
    with e(2) assms(1) less.hyps [OF _ e(1)] obtain ds r where r: "loop_result dm e ds r" by auto
    with on_grid_step [OF assms(1) less.prems step] step have "loop_result dm d (d # ds) r"
      by (auto simp: loop_result_def unfold)
    then show ?thesis by blast
  qed
qed

section \<open>The properties\<close>

lemma made_domain:
  assumes "make_date_range start until freq step = Inr dm"
  shows "dd_start dm = start" "dd_end dm = until" "dd_step dm = step" "0 < step" "start \<le> until"
    "frequency_of freq = Some (dd_frequency dm)"
  using assms by (auto simp: make_date_range_def split: if_splits option.splits)

text \<open>C34: a date range that the constructor accepts always finishes its enumeration, in strictly increasing
  order. It yields exactly the anchors of its frequency that are not after the end and lie a whole
  number of steps after the first anchor, for every frequency and every step; nothing is skipped at
  month ends, in leap years or at the turn of a year.
\<close>

theorem date_range_exact:
  assumes "make_date_range start until freq step = Inr dm" "valid_date start"
    and "anchor (dd_frequency dm) start = Some a"
  shows "\<exists>ds raised. domain_dates dm = Some (ds, raised) \<and> sorted_wrt (<) ds \<and>
    set ds = {c. anchored (dd_frequency dm) c \<and> c \<le> until
      \<and> (\<exists>k. position (dd_frequency dm) c = position (dd_frequency dm) a + int k * step)}"
proof -
  note m = made_domain [OF assms(1)]
  from loops_return [of dm a] anchor_anchored [OF assms(2,3)] m(3,4) obtain ds r where "loop_result dm a ds r" by auto
  with assms(3) m show ?thesis by (auto simp: loop_result_def domain_dates_def on_grid_def)
qed

definition demo_range :: date_domain where
  "demo_range = \<lparr>dd_start = PDate 2024 1 15, dd_end = PDate 2024 4 30, dd_frequency = FMonthEnd, dd_step = 1\<rparr>"

theorem date_range_exact_witness:
  "\<exists>ds raised. domain_dates demo_range = Some (ds, raised) \<and> PDate 2024 2 29 \<in> set ds"
proof -
  have "make_date_range (PDate 2024 1 15) (PDate 2024 4 30) ''month_end'' 1 = Inr demo_range"
    "valid_date (PDate 2024 1 15)" "anchor (dd_frequency demo_range) (PDate 2024 1 15) = Some (PDate 2024 1 31)"
    by code_simp+
  from date_range_exact [OF this] obtain ds r where d: "domain_dates demo_range = Some (ds, r)"
    "set ds = {c. anchored (dd_frequency demo_range) c \<and> c \<le> PDate 2024 4 30
      \<and> (\<exists>k. position (dd_frequency demo_range) c = position (dd_frequency demo_range) (PDate 2024 1 31) + int k * 1)}"
    by blast
  have "anchored FMonthEnd (PDate 2024 2 29)" "PDate 2024 2 29 \<le> PDate 2024 4 30" by code_simp+
  moreover have "position FMonthEnd (PDate 2024 2 29) = position FMonthEnd (PDate 2024 1 31) + int 1 * 1"
    by (simp add: position_def)
  ultimately have "PDate 2024 2 29 \<in> set ds" unfolding d(2) by (auto simp: demo_range_def)
  with d(1) show ?thesis by blast
qed

text \<open>C38: the membership test agrees with the enumeration: a date is accepted exactly if its anchor is one of
  the enumerated dates. The test always returns; it raises only if the anchor of the date lies beyond
  the calendar, or if the enumeration itself runs into the end of the calendar without meeting it.
\<close>

theorem date_range_membership:
  assumes "make_date_range start until freq step = Inr dm" "valid_date start" "valid_date v"
    and "domain_dates dm = Some (ds, raised)" "anchor (dd_frequency dm) start = Some a" "anchor (dd_frequency dm) v = Some n"
  shows "domain_has dm v = Some (if n \<in> set ds then Inr True else if raised \<and> n \<le> until then Inl () else Inr False)
    \<and> domain_contains dm v = domain_has dm v"
proof
  note m = made_domain [OF assms(1)]
  from loops_return [of dm a] anchor_anchored [OF assms(2,5)] m(3,4) obtain ds' r where l: "loop_result dm a ds' r" by auto
  with assms(4,5) m have r: "ds' = ds" "r = raised" by (auto simp: loop_result_def domain_dates_def)
  have "n \<le> until" if "n \<in> set ds" using that l r m by (auto simp: loop_result_def on_grid_def)
  with l r m assms(5,6) show "domain_has dm v =
      Some (if n \<in> set ds then Inr True else if raised \<and> n \<le> until then Inl () else Inr False)"
    by (auto simp: loop_result_def domain_has_def)
  have "anchor (dd_frequency dm) n = Some n" using anchor_anchored [OF assms(3,6)] by (simp add: anchored_def)
  with assms(6) show "domain_contains dm v = domain_has dm v"
    by (simp add: domain_contains_def domain_has_def)
qed

theorem date_range_membership_witness:
  "domain_has demo_range (PDate 2024 3 7) = Some (Inr True) \<and> domain_contains demo_range (PDate 2024 3 7) = Some (Inr True)"
proof -
  have f: "make_date_range (PDate 2024 1 15) (PDate 2024 4 30) ''month_end'' 1 = Inr demo_range"
    "valid_date (PDate 2024 1 15)" "valid_date (PDate 2024 3 7)"
    "domain_dates demo_range = Some ([PDate 2024 1 31, PDate 2024 2 29, PDate 2024 3 31, PDate 2024 4 30], False)"
    "anchor (dd_frequency demo_range) (PDate 2024 1 15) = Some (PDate 2024 1 31)"
    "anchor (dd_frequency demo_range) (PDate 2024 3 7) = Some (PDate 2024 3 31)"
    by code_simp+
  from date_range_membership [OF f] show ?thesis by simp
qed

text \<open>The constructor accepts a range that ends with the calendar, and its enumeration raises after the last
  date, although every date of the range exists; the test for an earlier date then raises too.\<close>

lemma range_to_calendar_end_raises:
  "make_date_range (PDate 9999 12 30) (PDate 9999 12 31) ''day'' 1 = Inr dm \<Longrightarrow>
   domain_dates dm = Some ([PDate 9999 12 30, PDate 9999 12 31], True) \<and> domain_has dm (PDate 9999 12 29) = Some (Inl ())"
proof -
  assume "make_date_range (PDate 9999 12 30) (PDate 9999 12 31) ''day'' 1 = Inr dm"
  then have "dm = \<lparr>dd_start = PDate 9999 12 30, dd_end = PDate 9999 12 31, dd_frequency = FDay, dd_step = 1\<rparr>"
    by (auto simp: make_date_range_def frequency_of_def split: if_splits)
  moreover have "domain_dates \<lparr>dd_start = PDate 9999 12 30, dd_end = PDate 9999 12 31, dd_frequency = FDay, dd_step = 1\<rparr>
      = Some ([PDate 9999 12 30, PDate 9999 12 31], True)" by code_simp
  moreover have "domain_has \<lparr>dd_start = PDate 9999 12 30, dd_end = PDate 9999 12 31, dd_frequency = FDay, dd_step = 1\<rparr>
      (PDate 9999 12 29) = Some (Inl ())" by code_simp
  ultimately show ?thesis by simp
qed

end
