(* ===== verification/UpIntent.thy ===== *)
theory UpIntent
  imports WfConfig "HOL-Library.List_Lexorder" "HOL-Library.Char_ord"
begin

text \<open>
  Upload intents (\<open>src/general_manager/uploads/models.py\<close>, \<open>uploads/types.py\<close>) and the service
  layer of \<open>uploads/services.py\<close>: validation of a request, admission under the quotas, and the
  preflight that exchanges the tokens of a mutation for candidates.

  The intents table is an ordered dictionary from intent ids in the order of creation. Time is an
  integer number of seconds. A JSON column that holds the dict of an \<open>ObjectVersion\<close> is an
  \<open>object_version option\<close>; \<open>None\<close> is the empty dict. \<open>sha\<close> is the hexadecimal SHA-256 digest of a
  token. Characters are the 256 of \<^typ>\<open>char\<close>, all of which are their own NFC form. What depends
  on Django models and storage adapters (fields, policies, adapters) is the record \<open>upload_site\<close>.
\<close>

section \<open>Values and errors\<close>

datatype upload_state =
  UPending | UTransferring | UUploaded | UFinalizing | UConsumed | USuperseded | URejected | UExpired

definition terminal_states :: "upload_state list" where
  "terminal_states = [UConsumed, USuperseded, URejected, UExpired]"

datatype upload_error =
  UploadExpired | UploadTokenInvalid | UploadIncomplete | UploadAlreadyConsumed | UploadIsSuperseded
  | UploadBindingMismatch | UploadSizeMismatch | UploadChecksumMismatch | InvalidFileType | InvalidImage
  | UploadBackendUnsupported | UploadStorageChanged | UploadStorageFailure | UploadObjectMissing
  | UploadUnauthenticated | UploadOperationInvalid | InvalidUploadFilename | InvalidUploadSize
  | InvalidUploadChecksum | UploadQuotaExceeded | UploadDatabaseMismatch | UploadFieldInvalid
  | UploadManagerInvalid | UploadTargetUnavailable | UploadRateLimited | UploadTransferConflict | UploadFinalizationFailed

fun error_code :: "upload_error \<Rightarrow> string" where
  "error_code UploadExpired = ''UPLOAD_EXPIRED''"
| "error_code UploadTokenInvalid = ''UPLOAD_TOKEN_INVALID''"
| "error_code UploadIncomplete = ''UPLOAD_INCOMPLETE''"
| "error_code UploadAlreadyConsumed = ''UPLOAD_ALREADY_CONSUMED''"
| "error_code UploadIsSuperseded = ''UPLOAD_SUPERSEDED''"
| "error_code UploadBindingMismatch = ''UPLOAD_BINDING_MISMATCH''"
| "error_code UploadSizeMismatch = ''UPLOAD_SIZE_MISMATCH''"
| "error_code UploadChecksumMismatch = ''UPLOAD_CHECKSUM_MISMATCH''"
| "error_code InvalidFileType = ''INVALID_FILE_TYPE''"
| "error_code InvalidImage = ''INVALID_IMAGE''"
| "error_code UploadBackendUnsupported = ''UPLOAD_BACKEND_UNSUPPORTED''"
| "error_code UploadStorageChanged = ''UPLOAD_STORAGE_CHANGED''"
| "error_code UploadStorageFailure = ''UPLOAD_STORAGE_ERROR''"
| "error_code UploadObjectMissing = ''UPLOAD_STORAGE_ERROR''"
| "error_code UploadUnauthenticated = ''UNAUTHENTICATED''"
| "error_code UploadOperationInvalid = ''UPLOAD_OPERATION_INVALID''"
| "error_code InvalidUploadFilename = ''INVALID_UPLOAD_FILENAME''"
| "error_code InvalidUploadSize = ''INVALID_UPLOAD_SIZE''"
| "error_code InvalidUploadChecksum = ''INVALID_UPLOAD_CHECKSUM''"
| "error_code UploadQuotaExceeded = ''UPLOAD_QUOTA_EXCEEDED''"
| "error_code UploadDatabaseMismatch = ''UPLOAD_DATABASE_MISMATCH''"
| "error_code UploadFieldInvalid = ''UPLOAD_FIELD_INVALID''"
| "error_code UploadManagerInvalid = ''UPLOAD_MANAGER_INVALID''"
| "error_code UploadTargetUnavailable = ''UPLOAD_TARGET_UNAVAILABLE''"
| "error_code UploadRateLimited = ''UPLOAD_RATE_LIMITED''"
| "error_code UploadTransferConflict = ''UPLOAD_TRANSFER_CONFLICT''"
| "error_code UploadFinalizationFailed = ''UPLOAD_FINALIZATION_FAILED''"

record object_version =
  ov_version_id :: "string option"
  ov_etag :: "string option"
  ov_checksum :: string
  ov_size :: int
  ov_content_type :: "string option"

text \<open>\<open>__post_init__\<close> accepts the metadata.\<close>

definition object_version_ok :: "object_version \<Rightarrow> bool" where
  "object_version_ok v = (0 \<le> ov_size v
     \<and> (ov_version_id v \<notin> {None, Some []} \<or> ov_checksum v \<noteq> []))"

record candidate =
  ca_intent :: string
  ca_filename :: string
  ca_size :: int
  ca_content_type :: string
  ca_checksum :: string

record upload_intent =
  ui_user :: "string option"
  ui_token_digest :: string
  ui_manager :: string
  ui_field :: string
  ui_operation :: string
  ui_target :: "string option"
  ui_final_target :: "string option"
  ui_adapter_id :: string
  ui_adapter_version :: string
  ui_fingerprint :: string
  ui_staging_key :: string
  ui_attempts :: int
  ui_final_key :: "string option"
  ui_old_key :: "string option"
  ui_filename :: string
  ui_declared_size :: int
  ui_declared_type :: string
  ui_declared_checksum :: string
  ui_verified_size :: "int option"
  ui_verified_type :: "string option"
  ui_verified_checksum :: "string option"
  ui_dimensions :: "int option \<times> int option"
  ui_version :: "object_version option"
  ui_final_version :: "object_version option"
  ui_old_version :: "object_version option"
  ui_old_cleanup :: "(string \<times> object_version option) option"
  ui_old_cleanup_completed :: "int option"
  ui_cleanup_completed :: "int option"
  ui_cleanup_error :: string
  ui_lease_until :: "int option"
  ui_lease_token :: string
  ui_state :: upload_state
  ui_transfer_until :: "int option"
  ui_expires :: int
  ui_uploaded :: "int option"
  ui_consumed :: "int option"
  ui_error :: string
  ui_finalizations :: int
  ui_created :: int
  ui_updated :: int

type_synonym intents = "(string, upload_intent) odict"

definition is_expired :: "upload_intent \<Rightarrow> int \<Rightarrow> bool" where
  "is_expired it at = (ui_expires it \<le> at)"

definition matches_token :: "(string \<Rightarrow> string) \<Rightarrow> upload_intent \<Rightarrow> string \<Rightarrow> bool" where
  "matches_token sha it token = (sha token = ui_token_digest it)"

record upload_settings =
  us_enabled :: bool
  us_staging_prefix :: string
  us_max_bytes :: int
  us_intents_per_user :: int
  us_bytes_per_user :: int
  us_intents_global :: int
  us_bytes_global :: int
  us_transfer_lease :: int
  us_attempts_per_intent :: int
  us_token_ttl :: int
  us_cleanup_batch :: int
  us_cleanup_age :: int
  us_cleanup_lease :: int
  us_cooldown :: int
  us_retention :: int
  us_delete_replaced :: bool

record upload_policy =
  up_max_bytes :: "int option"
  up_types :: "string list option"
  up_extensions :: "string list option"

section \<open>Normalising a request\<close>

definition control_char :: "char \<Rightarrow> bool" where
  "control_char c = (let n = of_char c :: nat in n < 32 \<or> (127 \<le> n \<and> n \<le> 159) \<or> n = 173)"

definition normalize_filename :: "string \<Rightarrow> upload_error + string" where
  "normalize_filename name =
     (if CHR ''/'' \<in> set name \<or> CHR 0x5C \<in> set name \<or> (1 < length name \<and> name ! 1 = CHR '':'')
         \<or> name \<in> {''.'', ''..''} \<or> list_ex control_char name \<or> name = [] \<or> 255 < length name
      then Inl InvalidUploadFilename else Inr name)"

definition normalize_size :: "int \<Rightarrow> upload_policy \<Rightarrow> upload_error + int" where
  "normalize_size n policy =
     (if n < 0 then Inl InvalidUploadSize
      else case up_max_bytes policy of
        Some m \<Rightarrow> if m < n then Inl InvalidUploadSize else Inr n
      | None \<Rightarrow> Inr n)"

definition alnum :: "char \<Rightarrow> bool" where
  "alnum c = (let n = of_char c :: nat in (48 \<le> n \<and> n \<le> 57) \<or> (65 \<le> n \<and> n \<le> 90) \<or> (97 \<le> n \<and> n \<le> 122))"

definition type_char :: "char \<Rightarrow> bool" where
  "type_char c = (alnum c \<or> c \<in> set ''!#$&^_.+-'')"

definition type_part :: "string \<Rightarrow> bool" where
  "type_part s = (s \<noteq> [] \<and> alnum (hd s) \<and> list_all type_char s)"

definition content_type_shape :: "string \<Rightarrow> bool" where
  "content_type_shape s =
     (case split_char CHR ''/'' s of [a, b] \<Rightarrow> type_part a \<and> type_part b | _ \<Rightarrow> False)"

definition normalize_content_type :: "string \<Rightarrow> upload_policy \<Rightarrow> upload_error + string" where
  "normalize_content_type s policy =
     (if 255 < length s \<or> \<not> content_type_shape s then Inl InvalidFileType
      else let n = py_lower s in
        case up_types policy of
          Some allowed \<Rightarrow> if n \<in> set (map (\<lambda>a. py_lower (py_strip a)) allowed) then Inr n else Inl InvalidFileType
        | None \<Rightarrow> Inr n)"

definition extension_of :: "string \<Rightarrow> string" where
  "extension_of name =
     (if CHR ''.'' \<in> set name then CHR ''.'' # py_lower (last (split_char CHR ''.'' name)) else [])"

definition normalized_extension :: "string \<Rightarrow> string" where
  "normalized_extension e =
     (let s = py_strip e in if take 1 s = ''.'' then py_lower s else CHR ''.'' # py_lower s)"

definition validate_extension :: "string \<Rightarrow> upload_policy \<Rightarrow> upload_error + unit" where
  "validate_extension name policy =
     (case up_extensions policy of
        None \<Rightarrow> Inr ()
      | Some allowed \<Rightarrow>
          if extension_of name \<in> set (map normalized_extension allowed) then Inr () else Inl InvalidFileType)"

definition hex_lower :: "char \<Rightarrow> bool" where
  "hex_lower c = (c \<in> set ''0123456789abcdef'')"

definition hex_any :: "char \<Rightarrow> bool" where
  "hex_any c = (hex_lower c \<or> c \<in> set ''ABCDEF'')"

definition hex_sha256 :: "string \<Rightarrow> bool" where
  "hex_sha256 s = (length s = 64 \<and> list_all hex_lower s)"

text \<open>A checksum as algorithm and digest; \<open>b64\<close> decodes strict base64 to the hexadecimal text of
  its bytes.\<close>

definition normalize_checksum ::
  "(string \<Rightarrow> string option) \<Rightarrow> string \<Rightarrow> string \<Rightarrow> upload_error + string" where
  "normalize_checksum b64 algorithm digest =
     (if py_lower algorithm \<noteq> ''sha256'' then Inl InvalidUploadChecksum
      else if length digest = 64 \<and> list_all hex_any digest then Inr (py_lower digest)
      else case b64 digest of
          None \<Rightarrow> Inl InvalidUploadChecksum
        | Some h \<Rightarrow> if length h \<noteq> 64 then Inl InvalidUploadChecksum else Inr h)"

section \<open>Versions and bindings\<close>

definition identity_ok :: "string option \<Rightarrow> bool" where
  "identity_ok i = (case i of None \<Rightarrow> True
     | Some s \<Rightarrow> s \<noteq> [] \<and> length s \<le> 1024 \<and> list_all (\<lambda>c. 32 \<le> (of_char c :: nat) \<and> of_char c \<noteq> (127 :: nat)) s)"

definition validate_preflight_version :: "object_version \<Rightarrow> upload_intent \<Rightarrow> upload_error + object_version" where
  "validate_preflight_version v it =
     (if \<not> (identity_ok (ov_version_id v) \<and> identity_ok (ov_etag v)) then Inl UploadStorageChanged
      else if ov_size v \<noteq> ui_declared_size it then Inl UploadSizeMismatch
      else if ov_checksum v \<noteq> ui_declared_checksum it then Inl UploadChecksumMismatch
      else if ov_content_type v \<noteq> Some (ui_declared_type it) then Inl InvalidFileType
      else Inr v)"

definition stored_object_version :: "upload_intent \<Rightarrow> upload_error + object_version" where
  "stored_object_version it =
     (case ui_version it of
        None \<Rightarrow> Inl UploadStorageChanged
      | Some v \<Rightarrow>
          if \<not> object_version_ok v then Inl UploadStorageChanged
          else sbind (validate_preflight_version v it) (\<lambda>v.
            if ui_verified_size it \<noteq> Some (ov_size v) \<or> ui_verified_type it \<noteq> ov_content_type v
               \<or> ui_verified_checksum it \<noteq> Some (ov_checksum v)
            then Inl UploadStorageChanged else Inr v))"

definition unusable_state :: "upload_intent \<Rightarrow> upload_error" where
  "unusable_state it =
     (case ui_state it of
        UFinalizing \<Rightarrow> UploadAlreadyConsumed
      | UConsumed \<Rightarrow> UploadAlreadyConsumed
      | USuperseded \<Rightarrow> UploadIsSuperseded
      | UExpired \<Rightarrow> UploadExpired
      | UPending \<Rightarrow> UploadIncomplete
      | UTransferring \<Rightarrow> UploadIncomplete
      | _ \<Rightarrow> UploadTokenInvalid)"

record binding =
  bi_owner :: string
  bi_manager :: string
  bi_operation :: string
  bi_target :: "string option"

definition validate_intent_binding ::
  "(string \<Rightarrow> string) \<Rightarrow> upload_intent \<Rightarrow> string \<Rightarrow> binding \<Rightarrow> string \<Rightarrow> int \<Rightarrow> upload_error + unit" where
  "validate_intent_binding sha it token b field at =
     (if \<not> matches_token sha it token \<or> ui_user it \<noteq> Some (bi_owner b) then Inl UploadTokenInvalid
      else if ui_expires it \<le> at \<or> ui_state it = UExpired then Inl UploadExpired
      else if ui_manager it \<noteq> bi_manager b \<or> ui_field it \<noteq> field \<or> ui_operation it \<noteq> bi_operation b
           \<or> ui_target it \<noteq> bi_target b
        then Inl UploadBindingMismatch else Inr ())"

definition intent_for_token :: "(string \<Rightarrow> string) \<Rightarrow> intents \<Rightarrow> string \<Rightarrow> upload_error + (string \<times> upload_intent)" where
  "intent_for_token sha db token =
     (case filter (\<lambda>(i, it). ui_token_digest it = sha token) db of
        [] \<Rightarrow> Inl UploadTokenInvalid
      | [(i, it)] \<Rightarrow> if \<not> matches_token sha it token then Inl UploadTokenInvalid else Inr (i, it)
      | _ \<Rightarrow> Inl UploadStorageFailure)"

end
