(* ===== verification/UpAdmit.thy ===== *)
theory UpAdmit
  imports UpIntent
begin

text \<open>
  Admission of upload intents and the preflight of upload tokens (\<open>uploads/services.py\<close>).

  A storage adapter is a record of what it does with a storage of any type \<open>'w\<close>; it may fail with
  one of the framework's errors, with a not-found error of its own, or with any other exception
  (\<open>Crashed\<close>). The record \<open>site\<close> holds what the manager classes declare: the file fields with
  their \<open>blank\<close> flag, their policies and the registered adapters. A read of an adapter leaves the
  storage as it is.
\<close>

section \<open>Adapters\<close>

datatype adapter_failure = Refused upload_error | NotFound | Crashed

record 'w adapter =
  ad_id :: string
  ad_version :: int
  ad_fingerprint :: string
  ad_direct :: "bool option"
  ad_finalizes :: bool
  ad_inspect_staged :: "string \<Rightarrow> 'w \<Rightarrow> adapter_failure + object_version"
  ad_delete_stage :: "string \<Rightarrow> object_version \<Rightarrow> 'w \<Rightarrow> (adapter_failure + unit) \<times> 'w"
  ad_delete_markers :: "(string \<Rightarrow> 'w \<Rightarrow> (adapter_failure + unit) \<times> 'w) option"
  ad_materialize :: "string \<Rightarrow> object_version \<Rightarrow> string \<Rightarrow> string \<Rightarrow> 'w \<Rightarrow> (adapter_failure + string) \<times> 'w"
  ad_inspect_final :: "string \<Rightarrow> object_version \<Rightarrow> string \<Rightarrow> 'w \<Rightarrow> adapter_failure + object_version"
  ad_delete_final :: "string \<Rightarrow> object_version \<Rightarrow> string \<Rightarrow> 'w \<Rightarrow> (adapter_failure + unit) \<times> 'w"
  ad_inspect_replaced :: "string \<Rightarrow> 'w \<Rightarrow> adapter_failure + object_version"
  ad_plan_claim :: "string \<Rightarrow> object_version \<Rightarrow> string \<Rightarrow> adapter_failure + (string \<times> object_version)"
  ad_claim_replaced :: "string \<Rightarrow> string \<times> object_version \<Rightarrow> string \<Rightarrow> 'w \<Rightarrow> (adapter_failure + unit) \<times> 'w"
  ad_delete_claimed :: "string \<times> object_version \<Rightarrow> string \<Rightarrow> 'w \<Rightarrow> (adapter_failure + unit) \<times> 'w"

record 'w site =
  si_registry :: "string \<Rightarrow> string \<Rightarrow> string \<Rightarrow> int \<Rightarrow> 'w adapter option"
  si_blank :: "string \<Rightarrow> string \<Rightarrow> upload_error + bool"
  si_policy :: "string \<Rightarrow> string \<Rightarrow> upload_policy"

definition adapter_id_ok :: "string \<Rightarrow> bool" where
  "adapter_id_ok s = (s \<noteq> [] \<and> length s \<le> 128 \<and> alnum (hd s) \<and> list_all (\<lambda>c. alnum c \<or> c \<in> set ''._-'') s)"

definition fingerprint_ok :: "string \<Rightarrow> bool" where
  "fingerprint_ok s = (s \<noteq> [] \<and> length s \<le> 255 \<and> list_all (\<lambda>c. 33 \<le> (of_char c :: nat) \<and> of_char c \<le> (126 :: nat)) s)"

definition adapter_identity_ok :: "'w adapter \<Rightarrow> bool" where
  "adapter_identity_ok a = (adapter_id_ok (ad_id a) \<and> 0 < ad_version a \<and> length (int_str (ad_version a)) \<le> 64)"

definition resolve_intent_adapter :: "'w site \<Rightarrow> upload_intent \<Rightarrow> upload_error + 'w adapter" where
  "resolve_intent_adapter site it =
     (case py_int (SStr (ui_adapter_version it)) of
        None \<Rightarrow> Inl UploadStorageChanged
      | Some v \<Rightarrow>
          (case si_registry site (ui_manager it) (ui_field it) (ui_adapter_id it) v of
             None \<Rightarrow> Inl UploadStorageChanged
           | Some a \<Rightarrow>
               if \<not> adapter_identity_ok a \<or> \<not> fingerprint_ok (ad_fingerprint a)
                  \<or> int_str v \<noteq> ui_adapter_version it \<or> (ad_id a, ad_version a) \<noteq> (ui_adapter_id it, v)
                  \<or> ad_fingerprint a \<noteq> ui_fingerprint it
               then Inl UploadStorageChanged else Inr a))"

section \<open>Preflight\<close>

datatype token_value = Text string | NotText

datatype field_value = FNull | FToken token_value | FCandidate candidate

record plan =
  pl_field :: string
  pl_id :: string
  pl_intent :: upload_intent
  pl_token :: string
  pl_version :: object_version
  pl_direct :: bool

definition inspect_pending :: "'w adapter \<Rightarrow> upload_intent \<Rightarrow> 'w \<Rightarrow> upload_error + object_version" where
  "inspect_pending a it w =
     (if ad_direct a = None then Inl UploadStorageChanged
      else if ad_direct a \<noteq> Some True then Inl UploadIncomplete
      else case ad_inspect_staged a (ui_staging_key it) w of
          Inl (Refused UploadObjectMissing) \<Rightarrow> Inl UploadIncomplete
        | Inl NotFound \<Rightarrow> Inl UploadIncomplete
        | Inl (Refused e) \<Rightarrow> Inl e
        | Inl Crashed \<Rightarrow> Inl UploadStorageFailure
        | Inr v \<Rightarrow> validate_preflight_version v it)"

definition preflight_version :: "'w adapter \<Rightarrow> upload_intent \<Rightarrow> 'w \<Rightarrow> upload_error + (object_version \<times> bool)" where
  "preflight_version a it w =
     (if ui_state it = UUploaded then sbind (stored_object_version it) (\<lambda>v. Inr (v, False))
      else if ui_state it = UPending then sbind (inspect_pending a it w) (\<lambda>v. Inr (v, True))
      else Inl (unusable_state it))"

definition preflight_plan ::
  "(string \<Rightarrow> string) \<Rightarrow> 'w site \<Rightarrow> intents \<Rightarrow> 'w \<Rightarrow> binding \<Rightarrow> int \<Rightarrow> string \<times> token_value \<Rightarrow> upload_error + plan" where
  "preflight_plan sha site db w b now raw =
     (case raw of
        (field, Text token) \<Rightarrow>
          if token = [] then Inl UploadTokenInvalid
          else sbind (intent_for_token sha db token) (\<lambda>(i, it).
            sbind (validate_intent_binding sha it token b field now) (\<lambda>_.
            sbind (si_blank site (bi_manager b) field) (\<lambda>_.
            sbind (resolve_intent_adapter site it) (\<lambda>a.
            sbind (preflight_version a it w) (\<lambda>(v, direct).
              Inr \<lparr>pl_field = field, pl_id = i, pl_intent = it, pl_token = token, pl_version = v,
                   pl_direct = direct\<rparr>)))))
      | (field, NotText) \<Rightarrow> Inl UploadTokenInvalid)"

definition candidate_from_plan :: "plan \<Rightarrow> upload_error + candidate" where
  "candidate_from_plan p =
     (case normalize_filename (ui_filename (pl_intent p)) of
        Inl _ \<Rightarrow> Inl UploadStorageChanged
      | Inr name \<Rightarrow>
          Inr \<lparr>ca_intent = pl_id p, ca_filename = name, ca_size = ov_size (pl_version p),
             ca_content_type = (case ov_content_type (pl_version p) of
                 Some t \<Rightarrow> if t = [] then ui_declared_type (pl_intent p) else t
               | None \<Rightarrow> ui_declared_type (pl_intent p)),
             ca_checksum = ov_checksum (pl_version p)\<rparr>)"

definition mark_uploaded :: "object_version \<Rightarrow> int \<Rightarrow> upload_intent \<Rightarrow> upload_intent" where
  "mark_uploaded v now it =
     it\<lparr>ui_state := UUploaded, ui_verified_size := Some (ov_size v), ui_verified_type := ov_content_type v,
        ui_verified_checksum := Some (ov_checksum v), ui_version := Some v, ui_uploaded := Some now,
        ui_updated := now\<rparr>"

text \<open>One plan of \<open>_persist_direct_preflight\<close> on the locked row.\<close>

definition persist_plan ::
  "(string \<Rightarrow> string) \<Rightarrow> binding \<Rightarrow> int \<Rightarrow> plan \<Rightarrow> intents \<Rightarrow> upload_error + intents" where
  "persist_plan sha b now p db =
     (case od_get db (pl_id p) of
        None \<Rightarrow> Inl UploadTokenInvalid
      | Some it \<Rightarrow>
          sbind (validate_intent_binding sha it (pl_token p) b (pl_field p) now) (\<lambda>_.
            if pl_direct p then
              if ui_state it = UUploaded then
                sbind (stored_object_version it) (\<lambda>v.
                  if v \<noteq> pl_version p then Inl UploadStorageChanged else Inr db)
              else if ui_state it \<noteq> UPending then Inl (unusable_state it)
              else Inr (od_set (pl_id p) (mark_uploaded (pl_version p) now it) db)
            else if ui_state it \<noteq> UUploaded then Inl (unusable_state it)
            else sbind (stored_object_version it) (\<lambda>v.
              if v \<noteq> pl_version p then Inl UploadStorageChanged else Inr db)))"

fun persist_plans ::
  "(string \<Rightarrow> string) \<Rightarrow> binding \<Rightarrow> int \<Rightarrow> plan list \<Rightarrow> intents \<Rightarrow> upload_error + intents" where
  "persist_plans sha b now [] db = Inr db"
| "persist_plans sha b now (p # ps) db = sbind (persist_plan sha b now p db) (persist_plans sha b now ps)"

text \<open>\<open>_persist_direct_preflight\<close>: one transaction, rolled back by an error.\<close>

definition persist_direct_preflight ::
  "(string \<Rightarrow> string) \<Rightarrow> binding \<Rightarrow> int \<Rightarrow> plan list \<Rightarrow> intents \<Rightarrow> (upload_error + unit) \<times> intents" where
  "persist_direct_preflight sha b now plans db =
     (if list_ex (\<lambda>p. od_get db (pl_id p) = None) plans then (Inl UploadTokenInvalid, db)
      else case persist_plans sha b now plans db of
          Inl e \<Rightarrow> (Inl e, db)
        | Inr db' \<Rightarrow> (Inr (), db'))"

text \<open>The destination of a mutation: \<open>pf_target\<close> is the identification of the target it names, or
  none when the object cannot be built.\<close>

record destination =
  pf_enabled :: bool
  pf_registered :: bool
  pf_owner :: "string option"
  pf_same_database :: bool
  pf_manager :: string
  pf_operation :: string
  pf_target :: "string option option"

definition canonical_target_id :: "destination \<Rightarrow> upload_error + string option" where
  "canonical_target_id d =
     (if pf_operation d = ''create'' then (if pf_target d \<noteq> None then Inl UploadBindingMismatch else Inr None)
      else if pf_operation d \<noteq> ''update'' then Inl UploadBindingMismatch
      else case pf_target d of
          None \<Rightarrow> Inl UploadBindingMismatch
        | Some None \<Rightarrow> Inl UploadBindingMismatch
        | Some (Some t) \<Rightarrow> Inr (Some t))"

definition preflight_binding :: "destination \<Rightarrow> upload_error + binding" where
  "preflight_binding d =
     (if \<not> pf_enabled d then Inl UploadBackendUnsupported
      else if \<not> pf_registered d then Inl UploadBindingMismatch
      else case pf_owner d of
          None \<Rightarrow> Inl UploadUnauthenticated
        | Some owner \<Rightarrow>
            if \<not> pf_same_database d then Inl UploadDatabaseMismatch
            else sbind (canonical_target_id d) (\<lambda>t.
              Inr \<lparr>bi_owner = owner, bi_manager = pf_manager d, bi_operation = pf_operation d, bi_target = t\<rparr>))"

definition preflight_tokens ::
  "(string \<Rightarrow> string) \<Rightarrow> 'w site \<Rightarrow> 'w \<Rightarrow> destination \<Rightarrow> int \<Rightarrow> int \<Rightarrow> (string \<times> token_value) list \<Rightarrow> intents
     \<Rightarrow> (upload_error + (string \<times> candidate) list) \<times> intents" where
  "preflight_tokens sha site w d now now' raw db =
     (case preflight_binding d of
        Inl e \<Rightarrow> (Inl e, db)
      | Inr b \<Rightarrow>
          (case collect_until (preflight_plan sha site db w b now) raw of
             Inl e \<Rightarrow> (Inl e, db)
           | Inr plans \<Rightarrow>
               (case collect_until (\<lambda>p. sbind (candidate_from_plan p) (\<lambda>c. Inr (pl_field p, c))) plans of
                  Inl e \<Rightarrow> (Inl e, db)
                | Inr cs \<Rightarrow>
                    if list_ex pl_direct plans
                    then (case persist_direct_preflight sha b now' plans db of
                        (Inl e, db') \<Rightarrow> (Inl e, db') | (Inr _, db') \<Rightarrow> (Inr cs, db'))
                    else (Inr cs, db))))"

text \<open>\<open>preflight_upload_tokens\<close> on the mapping of values: tokens leave it before anything else.\<close>

definition token_of :: "field_value \<Rightarrow> token_value" where
  "token_of v = (case v of FToken t \<Rightarrow> t | _ \<Rightarrow> NotText)"

definition preflight_upload_tokens ::
  "(string \<Rightarrow> string) \<Rightarrow> 'w site \<Rightarrow> 'w \<Rightarrow> destination \<Rightarrow> int \<Rightarrow> int \<Rightarrow> string list \<Rightarrow> (string, field_value) odict
     \<Rightarrow> intents \<Rightarrow> (upload_error + unit) \<times> (string, field_value) odict \<times> intents" where
  "preflight_upload_tokens sha site w d now now' file_fields values db =
     (let names = sort (remdups file_fields);
          tokens = filter (\<lambda>n. od_get values n \<notin> {None, Some FNull}) names;
          raw = map (\<lambda>n. (n, token_of (the (od_get values n)))) tokens;
          nulls = filter (\<lambda>n. od_get values n = Some FNull) names;
          scrubbed = fold od_pop tokens values
      in if raw = [] \<and> nulls = [] then (Inr (), scrubbed, db)
         else case collect_until (\<lambda>n. sbind (si_blank site (pf_manager d) n)
                (\<lambda>blank. if blank then Inr () else Inl UploadTokenInvalid)) nulls of
             Inl e \<Rightarrow> (Inl e, scrubbed, db)
           | Inr _ \<Rightarrow>
               if raw = [] then (Inr (), scrubbed, db)
               else (case preflight_tokens sha site w d now now' raw db of
                   (Inl e, db') \<Rightarrow> (Inl e, scrubbed, db')
                 | (Inr cs, db') \<Rightarrow> (Inr (), fold (\<lambda>(n, c). od_set n (FCandidate c)) cs scrubbed, db')))"

section \<open>Admission\<close>

definition quota_states :: "upload_state list" where
  "quota_states = [UPending, UTransferring, UUploaded]"

definition counts_for_quota :: "int \<Rightarrow> upload_intent \<Rightarrow> bool" where
  "counts_for_quota now it = (ui_state it = UFinalizing \<or> ui_state it \<in> set quota_states \<and> now < ui_expires it)"

definition active_intents :: "int \<Rightarrow> intents \<Rightarrow> intents" where
  "active_intents now db = filter (\<lambda>(i, it). counts_for_quota now it) db"

definition total_bytes :: "intents \<Rightarrow> int" where
  "total_bytes db = od_sum ui_declared_size db"

definition owned_by :: "string \<Rightarrow> intents \<Rightarrow> intents" where
  "owned_by owner db = filter (\<lambda>(i, it). ui_user it = Some owner) db"

definition enforce_pending_quotas :: "upload_settings \<Rightarrow> string \<Rightarrow> int \<Rightarrow> int \<Rightarrow> intents \<Rightarrow> upload_error + unit" where
  "enforce_pending_quotas st owner bytes now db =
     (let active = active_intents now db; mine = owned_by owner active in
      if us_intents_global st \<le> int (length active) then Inl UploadQuotaExceeded
      else if us_bytes_global st < total_bytes active + bytes then Inl UploadQuotaExceeded
      else if us_intents_per_user st \<le> int (length mine) then Inl UploadQuotaExceeded
      else if us_bytes_per_user st < total_bytes mine + bytes then Inl UploadQuotaExceeded
      else Inr ())"

record upload_request =
  rq_manager :: string
  rq_field :: string
  rq_operation :: string
  rq_target :: "string option"
  rq_filename :: string
  rq_size :: int
  rq_content_type :: string
  rq_algorithm :: string
  rq_digest :: string

text \<open>The last part of \<open>_begin_file_upload\<close>: normalisation, then the admission transaction.
  \<open>instructions\<close> says whether the adapter produced valid upload instructions.\<close>

definition new_intent ::
  "upload_settings \<Rightarrow> 'w adapter \<Rightarrow> string \<Rightarrow> string \<Rightarrow> string \<Rightarrow> upload_request \<Rightarrow> string \<Rightarrow> string \<Rightarrow> string
     \<Rightarrow> int \<Rightarrow> upload_intent" where
  "new_intent st a owner digest stage_key rq name content_type checksum now =
     \<lparr>ui_user = Some owner, ui_token_digest = digest, ui_manager = rq_manager rq, ui_field = rq_field rq,
      ui_operation = rq_operation rq, ui_target = rq_target rq, ui_final_target = None,
      ui_adapter_id = ad_id a, ui_adapter_version = int_str (ad_version a), ui_fingerprint = ad_fingerprint a,
      ui_staging_key = stage_key, ui_attempts = 0, ui_final_key = None, ui_old_key = None,
      ui_filename = name, ui_declared_size = rq_size rq, ui_declared_type = content_type,
      ui_declared_checksum = checksum, ui_verified_size = None, ui_verified_type = None,
      ui_verified_checksum = None, ui_dimensions = (None, None), ui_version = None, ui_final_version = None,
      ui_old_version = None, ui_old_cleanup = None, ui_old_cleanup_completed = None,
      ui_cleanup_completed = None, ui_cleanup_error = [], ui_lease_until = None, ui_lease_token = [],
      ui_state = UPending, ui_transfer_until = None, ui_expires = now + us_token_ttl st, ui_uploaded = None,
      ui_consumed = None, ui_error = [], ui_finalizations = 0, ui_created = now, ui_updated = now\<rparr>"

definition normalize_request ::
  "(string \<Rightarrow> string option) \<Rightarrow> upload_policy \<Rightarrow> upload_request \<Rightarrow> upload_error + (string \<times> string \<times> string)" where
  "normalize_request b64 policy rq =
     sbind (normalize_filename (rq_filename rq)) (\<lambda>name.
     sbind (normalize_size (rq_size rq) policy) (\<lambda>_.
     sbind (normalize_content_type (rq_content_type rq) policy) (\<lambda>content_type.
     sbind (validate_extension name policy) (\<lambda>_.
     sbind (normalize_checksum b64 (rq_algorithm rq) (rq_digest rq)) (\<lambda>checksum.
       Inr (name, content_type, checksum))))))"

definition admit ::
  "upload_settings \<Rightarrow> 'w adapter \<Rightarrow> bool \<Rightarrow> bool \<Rightarrow> string \<Rightarrow> string \<Rightarrow> string \<Rightarrow> string \<Rightarrow> upload_request
     \<Rightarrow> string \<times> string \<times> string \<Rightarrow> int \<Rightarrow> intents \<Rightarrow> (upload_error + unit) \<times> intents" where
  "admit st a user_exists instructions owner i digest stage_key rq norm now db =
     (case norm of (name, content_type, checksum) \<Rightarrow>
        if \<not> user_exists then (Inl UploadUnauthenticated, db)
        else case enforce_pending_quotas st owner (rq_size rq) now db of
            Inl e \<Rightarrow> (Inl e, db)
          | Inr _ \<Rightarrow>
              if \<not> instructions then (Inl UploadStorageFailure, db)
              else if od_get db i \<noteq> None then (Inl UploadStorageFailure, db)
              else (Inr (), od_set i (new_intent st a owner digest stage_key rq name content_type checksum now) db))"

definition begin_file_upload ::
  "(string \<Rightarrow> string option) \<Rightarrow> upload_settings \<Rightarrow> 'w site \<Rightarrow> 'w adapter \<Rightarrow> bool \<Rightarrow> bool \<Rightarrow> string \<Rightarrow> string \<Rightarrow> string
     \<Rightarrow> string \<Rightarrow> upload_request \<Rightarrow> int \<Rightarrow> intents \<Rightarrow> (upload_error + unit) \<times> intents" where
  "begin_file_upload b64 st site a user_exists instructions owner i digest tail rq now db =
     (case normalize_request b64 (si_policy site (rq_manager rq) (rq_field rq)) rq of
        Inl e \<Rightarrow> (Inl e, db)
      | Inr norm \<Rightarrow>
          if \<not> adapter_identity_ok a \<or> \<not> fingerprint_ok (ad_fingerprint a) then (Inl UploadStorageFailure, db)
          else admit st a user_exists instructions owner i digest (us_staging_prefix st @ tail) rq norm now db)"

end
