(* ===== verification/UpTransfer.thy ===== *)
theory UpTransfer
  imports UpAdmit
begin

text \<open>
  The proxy transfer of an upload (\<open>src/general_manager/uploads/views.py\<close>): one finite lease per
  attempt, claimed, renewed, released and completed by conditional updates of the intent row, each
  attempt with a staging key of its own.

  Each conditional update is one step; the reads of the clock are arguments. The HTTP request is
  the record \<open>transfer_request\<close>: its credential check, its content type and length, and the
  chunks of its body (\<open>None\<close> when reading fails).
\<close>

section \<open>Errors and claims\<close>

datatype transfer_error =
  TransferUnauthenticated | TransferNotFound | TransferCredential | TransferExpired | TransferConflict
  | TransferTooLarge | TransferSizeMismatch | TransferType | TransferChecksum | TransferStorageChanged
  | TransferStorage | TransferRate

fun transfer_status :: "transfer_error \<Rightarrow> nat" where
  "transfer_status TransferUnauthenticated = 401"
| "transfer_status TransferNotFound = 404"
| "transfer_status TransferCredential = 401"
| "transfer_status TransferExpired = 410"
| "transfer_status TransferConflict = 409"
| "transfer_status TransferTooLarge = 413"
| "transfer_status TransferSizeMismatch = 422"
| "transfer_status TransferType = 415"
| "transfer_status TransferChecksum = 422"
| "transfer_status TransferStorageChanged = 503"
| "transfer_status TransferStorage = 503"
| "transfer_status TransferRate = 429"

record transfer_claim =
  tc_intent :: string
  tc_owner :: string
  tc_lease_until :: int
  tc_expires :: int
  tc_base_key :: string
  tc_stage_key :: string
  tc_attempt :: int

definition attempt_marker :: string where "attempt_marker = ''.proxy-attempt-''"

definition attempt_staging_key :: "string \<Rightarrow> int \<Rightarrow> transfer_error + string" where
  "attempt_staging_key base n =
     (let key = base @ attempt_marker @ int_str n in
      if base = [] \<or> 1024 < length key then Inl TransferStorage else Inr key)"

section \<open>Conditional updates of the intent row\<close>

definition owned_row :: "intents \<Rightarrow> string \<Rightarrow> string \<Rightarrow> upload_intent option" where
  "owned_row db i owner =
     (case od_get db i of Some it \<Rightarrow> if ui_user it = Some owner then Some it else None | None \<Rightarrow> None)"

text \<open>\<open>filter(\<dots>).update(\<dots>)\<close>: the row changes if it still satisfies the condition.\<close>

definition update_where ::
  "intents \<Rightarrow> string \<Rightarrow> (upload_intent \<Rightarrow> bool) \<Rightarrow> (upload_intent \<Rightarrow> upload_intent) \<Rightarrow> bool \<times> intents" where
  "update_where db i cond upd =
     (case od_get db i of
        Some it \<Rightarrow> if cond it then (True, od_set i (upd it) db) else (False, db)
      | None \<Rightarrow> (False, db))"

definition mark_expired :: "string \<Rightarrow> string \<Rightarrow> int \<Rightarrow> intents \<Rightarrow> intents" where
  "mark_expired i owner at db =
     snd (update_where db i
       (\<lambda>it. ui_user it = Some owner \<and> ui_expires it \<le> at \<and> ui_state it \<in> {UPending, UTransferring})
       (\<lambda>it. it\<lparr>ui_state := UExpired, ui_transfer_until := None\<rparr>))"

definition claim_transfer ::
  "upload_settings \<Rightarrow> string \<Rightarrow> string \<Rightarrow> int \<Rightarrow> intents \<Rightarrow> (transfer_error + transfer_claim) \<times> intents" where
  "claim_transfer st i owner now db =
     (case owned_row db i owner of
        None \<Rightarrow> (Inl TransferNotFound, db)
      | Some it \<Rightarrow>
          if ui_expires it \<le> now then (Inl TransferExpired, mark_expired i owner now db)
          else if us_attempts_per_intent st \<le> ui_attempts it then (Inl TransferRate, db)
          else case attempt_staging_key (ui_staging_key it) (ui_attempts it + 1) of
              Inl e \<Rightarrow> (Inl e, db)
            | Inr key \<Rightarrow>
                let until = min (ui_expires it) (now + us_transfer_lease st) in
                (case update_where db i
                    (\<lambda>it'. ui_user it' = Some owner \<and> now < ui_expires it' \<and> ui_staging_key it' = ui_staging_key it
                       \<and> ui_attempts it' = ui_attempts it
                       \<and> (ui_state it' = UPending
                          \<or> ui_state it' = UTransferring \<and> (case ui_transfer_until it' of Some t \<Rightarrow> t \<le> now | None \<Rightarrow> False)))
                    (\<lambda>it'. it'\<lparr>ui_state := UTransferring, ui_transfer_until := Some until,
                              ui_attempts := ui_attempts it + 1\<rparr>) of
                   (False, db') \<Rightarrow> (Inl TransferConflict, db')
                 | (True, db') \<Rightarrow>
                     (Inr \<lparr>tc_intent = i, tc_owner = owner, tc_lease_until = until, tc_expires = ui_expires it,
                           tc_base_key = ui_staging_key it, tc_stage_key = key, tc_attempt = ui_attempts it + 1\<rparr>,
                      db')))"

text \<open>The row is still held by exactly this claim.\<close>

definition holds_transfer :: "transfer_claim \<Rightarrow> upload_intent \<Rightarrow> bool" where
  "holds_transfer c it = (ui_user it = Some (tc_owner c) \<and> ui_state it = UTransferring
     \<and> ui_transfer_until it = Some (tc_lease_until c) \<and> ui_staging_key it = tc_base_key c
     \<and> ui_attempts it = tc_attempt c)"

definition renew_transfer_lease ::
  "upload_settings \<Rightarrow> transfer_claim \<Rightarrow> int \<Rightarrow> intents \<Rightarrow> transfer_claim option \<times> intents" where
  "renew_transfer_lease st c now db =
     (if tc_expires c \<le> now then (None, db)
      else let until = min (tc_expires c) (now + us_transfer_lease st) in
        if until \<le> tc_lease_until c then (Some c, db)
        else (case update_where db (tc_intent c) (\<lambda>it. holds_transfer c it \<and> now < ui_expires it)
                (\<lambda>it. it\<lparr>ui_transfer_until := Some until\<rparr>) of
            (True, db') \<Rightarrow> (Some (c\<lparr>tc_lease_until := until\<rparr>), db')
          | (False, db') \<Rightarrow> (None, db')))"

definition release_transfer :: "transfer_claim \<Rightarrow> int \<Rightarrow> intents \<Rightarrow> intents" where
  "release_transfer c now db =
     snd (update_where db (tc_intent c) (holds_transfer c)
       (\<lambda>it. it\<lparr>ui_state := (if tc_expires c \<le> now then UExpired else UPending), ui_transfer_until := None\<rparr>))"

definition complete_transfer ::
  "transfer_claim \<Rightarrow> object_version \<Rightarrow> int \<Rightarrow> intents \<Rightarrow> (transfer_error + unit) \<times> intents" where
  "complete_transfer c v at db =
     (case update_where db (tc_intent c) (\<lambda>it. holds_transfer c it \<and> at < ui_expires it)
         (\<lambda>it. it\<lparr>ui_state := UUploaded, ui_transfer_until := None, ui_staging_key := tc_stage_key c,
                 ui_verified_size := Some (ov_size v), ui_verified_type := ov_content_type v,
                 ui_verified_checksum := Some (ov_checksum v), ui_version := Some v, ui_uploaded := Some at\<rparr>) of
        (True, db') \<Rightarrow> (Inr (), db')
      | (False, db') \<Rightarrow> (Inl TransferConflict, db'))"

section \<open>Reading the request\<close>

text \<open>\<open>sink\<close> is the digest of the chunks read, as the iterator computes it. The loop renews the
  lease before every chunk it hands over; \<open>clock\<close> gives the time of each renewal.\<close>

fun read_chunks ::
  "upload_settings \<Rightarrow> (string \<Rightarrow> string) \<Rightarrow> int \<Rightarrow> int \<Rightarrow> string option list \<Rightarrow> int list \<Rightarrow> string
     \<Rightarrow> transfer_claim \<Rightarrow> intents \<Rightarrow> (transfer_error + string) \<times> transfer_claim \<times> intents" where
  "read_chunks st sha expected maximum [] clock body c db =
     ((if int (length body) \<noteq> expected then Inl TransferSizeMismatch else Inr (sha body)), c, db)"
| "read_chunks st sha expected maximum (None # chunks) clock body c db = (Inl TransferStorage, c, db)"
| "read_chunks st sha expected maximum (Some chunk # chunks) clock body c db =
     (let size = int (length body + length chunk) in
      if maximum < size \<or> expected < size then (Inl TransferTooLarge, c, db)
      else case clock of
          [] \<Rightarrow> (Inl TransferStorage, c, db)
        | now # clock' \<Rightarrow>
            (case renew_transfer_lease st c now db of
               (None, db') \<Rightarrow> (Inl TransferConflict, c, db')
             | (Some c', db') \<Rightarrow>
                 read_chunks st sha expected maximum chunks clock' (body @ chunk) c' db'))"

definition validate_transfer_version ::
  "object_version \<Rightarrow> int \<Rightarrow> string \<Rightarrow> string \<Rightarrow> transfer_error + object_version" where
  "validate_transfer_version v bytes content_type checksum =
     (if ov_size v < 0 then Inl TransferStorage
      else if ov_size v \<noteq> bytes then Inl TransferSizeMismatch
      else if ov_checksum v \<noteq> checksum then Inl TransferChecksum
      else if ov_content_type v \<noteq> Some content_type then Inl TransferType
      else if \<not> (identity_ok (ov_version_id v) \<and> identity_ok (ov_etag v)) then Inl TransferStorage
      else if \<not> hex_sha256 (ov_checksum v) then Inl TransferStorage
      else Inr v)"

record transfer_request =
  tr_owner :: "string option"
  tr_rate_ok :: bool
  tr_credential_ok :: bool
  tr_content_type :: string
  tr_length :: "int option"
  tr_chunks :: "string option list"

text \<open>The checks between claim and streaming.\<close>

definition check_request :: "upload_settings \<Rightarrow> upload_intent \<Rightarrow> transfer_request \<Rightarrow> transfer_error + int" where
  "check_request st it rq =
     (if py_lower (tr_content_type rq) \<noteq> ui_declared_type it then Inl TransferType
      else if (case tr_length rq of Some n \<Rightarrow> n < 0 | None \<Rightarrow> False) then Inl TransferSizeMismatch
      else let maximum = min (us_max_bytes st) (ui_declared_size it) in
        if us_max_bytes st < ui_declared_size it then Inl TransferTooLarge
        else case tr_length rq of
            None \<Rightarrow> Inr maximum
          | Some n \<Rightarrow> if maximum < n then Inl TransferTooLarge
              else if n \<noteq> ui_declared_size it then Inl TransferSizeMismatch else Inr maximum)"

text \<open>\<open>_transfer\<close> without interleaving. The sink \<open>save\<close> receives the whole body and returns the
  version it stored; \<open>now\<close> is the clock before streaming, \<open>clock\<close> its readings during streaming
  and \<open>done\<close> the reading at the end.\<close>

definition stream_body ::
  "upload_settings \<Rightarrow> (string \<Rightarrow> string) \<Rightarrow> (string \<Rightarrow> string \<Rightarrow> adapter_failure + object_version) \<Rightarrow> upload_intent
     \<Rightarrow> int \<Rightarrow> transfer_request \<Rightarrow> int list \<Rightarrow> int \<Rightarrow> transfer_claim \<Rightarrow> intents
     \<Rightarrow> (transfer_error + unit) \<times> transfer_claim \<times> intents" where
  "stream_body st sha save it maximum rq clock at c db =
     (case read_chunks st sha (ui_declared_size it) maximum (tr_chunks rq) clock [] c db of
        (Inl e, c', db') \<Rightarrow> (Inl e, c', db')
      | (Inr digest, c', db') \<Rightarrow>
          (case save (tc_stage_key c') (concat (map (\<lambda>x. case x of Some s \<Rightarrow> s | None \<Rightarrow> []) (tr_chunks rq))) of
             Inl _ \<Rightarrow> (Inl TransferStorage, c', db')
           | Inr v \<Rightarrow>
               if digest \<noteq> ui_declared_checksum it then (Inl TransferChecksum, c', db')
               else (case validate_transfer_version v (ui_declared_size it) (ui_declared_type it) digest of
                   Inl e \<Rightarrow> (Inl e, c', db')
                 | Inr v' \<Rightarrow> (case complete_transfer c' v' at db' of (r, db'') \<Rightarrow> (r, c', db'')))))"

definition transfer ::
  "upload_settings \<Rightarrow> (string \<Rightarrow> string) \<Rightarrow> (upload_intent \<Rightarrow> transfer_error + unit)
     \<Rightarrow> (string \<Rightarrow> string \<Rightarrow> adapter_failure + object_version) \<Rightarrow> transfer_request \<Rightarrow> string
     \<Rightarrow> int \<Rightarrow> int list \<Rightarrow> int \<Rightarrow> intents \<Rightarrow> (transfer_error + unit) \<times> intents" where
  "transfer st sha adapter save rq i now clock at db =
     (if \<not> us_enabled st then (Inl TransferNotFound, db)
      else case tr_owner rq of
        None \<Rightarrow> (Inl TransferUnauthenticated, db)
      | Some owner \<Rightarrow>
          if \<not> tr_rate_ok rq then (Inl TransferRate, db)
          else case owned_row db i owner of
            None \<Rightarrow> (Inl TransferNotFound, db)
          | Some it \<Rightarrow>
              if ui_expires it \<le> now then (Inl TransferExpired, mark_expired i owner now db)
              else if \<not> tr_credential_ok rq then (Inl TransferCredential, db)
              else (case claim_transfer st i owner now db of
                  (Inl e, db') \<Rightarrow> (Inl e, db')
                | (Inr c, db') \<Rightarrow>
                    (case sbind (check_request st it rq) (\<lambda>m. sbind (adapter it) (\<lambda>_. Inr m)) of
                       Inl e \<Rightarrow> (Inl e, release_transfer c now db')
                     | Inr maximum \<Rightarrow>
                         (case stream_body st sha save it maximum rq clock at c db' of
                            (Inl e, c', db'') \<Rightarrow> (Inl e, release_transfer c' at db'')
                          | (Inr _, c', db'') \<Rightarrow> (Inr (), db'')))))"

section \<open>The staging keys of an intent\<close>

text \<open>\<open>_PROXY_ATTEMPT_KEY\<close>: a staging key that ends in the marker and a positive number.\<close>

fun split_marker :: "string \<Rightarrow> (string \<times> string) option" where
  "split_marker [] = None"
| "split_marker (c # s) =
     (case split_marker s of
        Some (base, n) \<Rightarrow> Some (c # base, n)
      | None \<Rightarrow>
          if take (length attempt_marker) (c # s) = attempt_marker
          then Some ([], drop (length attempt_marker) (c # s)) else None)"

definition attempt_suffix :: "string \<Rightarrow> int option" where
  "attempt_suffix n =
     (if n \<noteq> [] \<and> hd n \<in> set ''123456789'' \<and> list_all (\<lambda>c. c \<in> set ''0123456789'') n then parse_digits False 0 n else None)"

definition attempt_base :: "upload_intent \<Rightarrow> transfer_error + string" where
  "attempt_base it =
     (case split_marker (ui_staging_key it) of
        Some (base, n) \<Rightarrow>
          (case (base, attempt_suffix n) of
             (_ # _, Some k) \<Rightarrow> if k \<noteq> ui_attempts it then Inl TransferStorage else Inr base
           | _ \<Rightarrow> Inr (ui_staging_key it))
      | None \<Rightarrow> Inr (ui_staging_key it))"

definition proxy_attempt_stage_keys :: "upload_intent \<Rightarrow> transfer_error + string list" where
  "proxy_attempt_stage_keys it =
     (if ui_attempts it < 0 then Inl TransferStorage
      else sbind (attempt_base it) (\<lambda>base.
        collect_until (attempt_staging_key base) [1..ui_attempts it]))"

end
