(* ===== verification/UpFinal.thy ===== *)
theory UpFinal
  imports UpTransfer
begin

text \<open>
  From an uploaded stage to a stored file (\<open>uploads/finalization.py\<close>, called by the create and
  update capabilities of \<open>interface/capabilities/orm/mutations.py\<close>): the mutation claims its
  candidates and writes the reserved names into the row in one transaction; a finalization attempt,
  under a lease with a random token, then materialises the file and marks the intent consumed, or
  superseded when the row no longer names the file.

  \<open>rows\<close> gives for a manager and a primary key the file names of the row's fields, \<open>''''\<close> for an empty
  one. Every \<open>transaction.atomic()\<close> block is one function; its clock readings are one argument. A
  primary key is its text. Validation of content (images, configured inspectors) is a parameter,
  as are \<open>upload_to\<close> (\<open>None\<close> when it raises) and the saving of the row. The retries after
  \<open>SQLITE_BUSY\<close> repeat a transaction that had no effect and are left out.
\<close>

section \<open>Preparing and claiming\<close>

record 'w upload_world =
  intents :: intents
  rows :: "string \<Rightarrow> string \<Rightarrow> (string \<Rightarrow> string) option"
  storage :: 'w

record claim_target =
  ct_enabled :: bool
  ct_same_database :: bool
  ct_actor :: "string option"
  ct_manager :: string
  ct_operation :: string
  ct_target :: "string option"
  ct_pk :: "string option"

record prepared_candidate =
  pc_field :: string
  pc_candidate :: candidate
  pc_adapter :: "string \<times> int"
  pc_version :: object_version
  pc_old_key :: "string option"
  pc_old_version :: "object_version option"
  pc_dimensions :: "int option \<times> int option"

definition validate_candidate_binding ::
  "claim_target \<Rightarrow> string \<Rightarrow> upload_intent \<Rightarrow> candidate \<Rightarrow> string \<Rightarrow> int \<Rightarrow> upload_error + unit" where
  "validate_candidate_binding ct i it ca field at =
     (if ui_state it \<noteq> UUploaded then Inl (unusable_state it)
      else if ui_expires it \<le> at then Inl UploadExpired
      else if ui_user it \<noteq> ct_actor ct \<or> ui_manager it \<noteq> ct_manager ct \<or> ui_field it \<noteq> field
           \<or> ui_operation it \<noteq> ct_operation ct \<or> ui_target it \<noteq> ct_target ct then Inl UploadBindingMismatch
      else sbind (stored_object_version it) (\<lambda>v.
        if ca_intent ca \<noteq> i \<or> ca_filename ca \<noteq> ui_filename it \<or> ca_size ca \<noteq> ov_size v
           \<or> ca_content_type ca \<noteq> (case ov_content_type v of
               Some t \<Rightarrow> if t = [] then ui_declared_type it else t | None \<Rightarrow> ui_declared_type it)
           \<or> ca_checksum ca \<noteq> ov_checksum v
        then Inl UploadStorageChanged else Inr ()))"

definition version_is_safe :: "object_version \<Rightarrow> bool" where
  "version_is_safe v =
     (0 \<le> ov_size v \<and> hex_sha256 (ov_checksum v)
      \<and> (\<forall>i\<in>{ov_version_id v, ov_etag v}. case i of None \<Rightarrow> True
           | Some s \<Rightarrow> s \<noteq> [] \<and> length s \<le> 1024 \<and> \<not> list_ex control_char s)
      \<and> (case ov_content_type v of None \<Rightarrow> True
           | Some t \<Rightarrow> t \<noteq> [] \<and> length t \<le> 255 \<and> \<not> list_ex control_char t))"

definition version_from_metadata :: "object_version option \<Rightarrow> object_version option" where
  "version_from_metadata m =
     (case m of None \<Rightarrow> None
      | Some v \<Rightarrow> if object_version_ok v \<and> version_is_safe v then Some v else None)"

definition inspect_old_object ::
  "upload_settings \<Rightarrow> 'w adapter \<Rightarrow> claim_target \<Rightarrow> string \<Rightarrow> 'w upload_world
     \<Rightarrow> upload_error + (string option \<times> object_version option)" where
  "inspect_old_object st a ct field w =
     (if ct_operation ct = ''create'' then Inr (None, None)
      else case ct_pk ct of
          None \<Rightarrow> Inl UploadBindingMismatch
        | Some pk \<Rightarrow>
            (case rows w (ct_manager ct) pk of
               None \<Rightarrow> Inl UploadBindingMismatch
             | Some f \<Rightarrow>
                 let old = (if f field = [] then None else Some (f field)) in
                 if old = None \<or> \<not> us_delete_replaced st \<or> \<not> ad_finalizes a then Inr (old, None)
                 else (case ad_inspect_replaced a (f field) (storage w) of
                     Inl _ \<Rightarrow> Inr (old, None)
                   | Inr v \<Rightarrow> Inr (old, if version_is_safe v then Some v else None))))"

text \<open>\<open>_reject_content_intent\<close>: only while the intent is still what was inspected.\<close>

definition reject_content_intent :: "string \<Rightarrow> upload_intent \<Rightarrow> upload_error \<Rightarrow> int \<Rightarrow> intents \<Rightarrow> intents" where
  "reject_content_intent i it e now db =
     snd (update_where db i
       (\<lambda>cur. ui_state cur = UUploaded \<and> ui_user cur = ui_user it \<and> ui_manager cur = ui_manager it
          \<and> ui_field cur = ui_field it \<and> ui_operation cur = ui_operation it \<and> ui_target cur = ui_target it
          \<and> ui_version cur = ui_version it)
       (\<lambda>cur. cur\<lparr>ui_state := URejected, ui_error := error_code e, ui_updated := now\<rparr>))"

definition policy_check :: "'w site \<Rightarrow> upload_intent \<Rightarrow> object_version \<Rightarrow> upload_error + unit" where
  "policy_check site it v =
     (let policy = si_policy site (ui_manager it) (ui_field it) in
      sbind (normalize_size (ov_size v) policy) (\<lambda>_.
      sbind (normalize_content_type (case ov_content_type v of
           Some t \<Rightarrow> if t = [] then ui_declared_type it else t | None \<Rightarrow> ui_declared_type it) policy) (\<lambda>_.
      validate_extension (ui_filename it) policy)))"

text \<open>One candidate of \<open>prepare_upload_claims\<close>. \<open>content\<close> is the verdict of the content
  validation with the dimensions of an image.\<close>

definition prepare_candidate ::
  "upload_settings \<Rightarrow> 'w site \<Rightarrow> (upload_intent \<Rightarrow> upload_error + (int option \<times> int option)) \<Rightarrow> claim_target \<Rightarrow> int
     \<Rightarrow> string \<times> candidate \<Rightarrow> 'w upload_world \<Rightarrow> (upload_error + prepared_candidate) \<times> 'w upload_world" where
  "prepare_candidate st site content ct now fc w =
     (case fc of (field, ca) \<Rightarrow>
        (case od_get (intents w) (ca_intent ca) of
           None \<Rightarrow> (Inl UploadBindingMismatch, w)
         | Some it \<Rightarrow>
             let i = ca_intent ca;
                 reject = (\<lambda>e. (Inl e, w\<lparr>intents := reject_content_intent i it e now (intents w)\<rparr>)) in
             (case sbind (si_blank site (ct_manager ct) field) (\<lambda>_.
                   sbind (validate_candidate_binding ct i it ca field now) (\<lambda>_. resolve_intent_adapter site it)) of
                Inl e \<Rightarrow> (Inl e, w)
              | Inr a \<Rightarrow>
                  if \<not> ad_finalizes a then (Inl UploadBackendUnsupported, w)
                  else case stored_object_version it of
                    Inl e \<Rightarrow> (Inl e, w)
                  | Inr v \<Rightarrow>
                      (case policy_check site it v of
                         Inl e \<Rightarrow> reject e
                       | Inr _ \<Rightarrow>
                           (case ad_inspect_staged a (ui_staging_key it) (storage w) of
                              Inl (Refused e) \<Rightarrow> (Inl e, w)
                            | Inl _ \<Rightarrow> (Inl UploadStorageFailure, w)
                            | Inr seen \<Rightarrow>
                                if seen \<noteq> v then (Inl UploadStorageChanged, w)
                                else (case content it of
                                    Inl e \<Rightarrow> if e \<in> {InvalidImage, InvalidFileType} then reject e else (Inl e, w)
                                  | Inr dims \<Rightarrow>
                                      (case inspect_old_object st a ct field w of
                                         Inl e \<Rightarrow> (Inl e, w)
                                       | Inr (old, old_version) \<Rightarrow>
                                           (Inr \<lparr>pc_field = field, pc_candidate = ca, pc_adapter = (ad_id a, ad_version a),
                                                 pc_version = v, pc_old_key = old, pc_old_version = old_version,
                                                 pc_dimensions = dims\<rparr>, w))))))))"

fun prepare_candidates ::
  "upload_settings \<Rightarrow> 'w site \<Rightarrow> (upload_intent \<Rightarrow> upload_error + (int option \<times> int option)) \<Rightarrow> claim_target \<Rightarrow> int
     \<Rightarrow> (string \<times> candidate) list \<Rightarrow> 'w upload_world
     \<Rightarrow> (upload_error + prepared_candidate list) \<times> 'w upload_world" where
  "prepare_candidates st site content ct now [] w = (Inr [], w)"
| "prepare_candidates st site content ct now (fc # fcs) w =
     (case prepare_candidate st site content ct now fc w of
        (Inl e, w') \<Rightarrow> (Inl e, w')
      | (Inr p, w') \<Rightarrow>
          (case prepare_candidates st site content ct now fcs w' of
             (Inl e, w'') \<Rightarrow> (Inl e, w'') | (Inr ps, w'') \<Rightarrow> (Inr (p # ps), w'')))"

definition prepare_upload_claims ::
  "upload_settings \<Rightarrow> 'w site \<Rightarrow> (upload_intent \<Rightarrow> upload_error + (int option \<times> int option)) \<Rightarrow> claim_target \<Rightarrow> int
     \<Rightarrow> (string \<times> candidate) list \<Rightarrow> 'w upload_world
     \<Rightarrow> (upload_error + prepared_candidate list) \<times> 'w upload_world" where
  "prepare_upload_claims st site content ct now fcs w =
     (if fcs = [] \<or> \<not> distinct (map (ca_intent \<circ> snd) fcs) then (Inl UploadBindingMismatch, w)
      else if \<not> ct_enabled ct then (Inl UploadStorageFailure, w)
      else if \<not> ct_same_database ct then (Inl UploadBindingMismatch, w)
      else if (ct_operation ct = ''create'') \<noteq> (ct_pk ct = None) then (Inl UploadBindingMismatch, w)
      else prepare_candidates st site content ct now (sort_key fst fcs) w)"

section \<open>The claiming transaction\<close>

definition revalidate :: "'w site \<Rightarrow> claim_target \<Rightarrow> int \<Rightarrow> intents \<Rightarrow> prepared_candidate \<Rightarrow> upload_error + upload_intent" where
  "revalidate site ct now db pc =
     (case od_get db (ca_intent (pc_candidate pc)) of
        None \<Rightarrow> Inl UploadBindingMismatch
      | Some it \<Rightarrow>
          sbind (validate_candidate_binding ct (ca_intent (pc_candidate pc)) it (pc_candidate pc) (pc_field pc) now) (\<lambda>_.
          sbind (stored_object_version it) (\<lambda>v.
            if v \<noteq> pc_version pc then Inl UploadStorageChanged
            else sbind (resolve_intent_adapter site it) (\<lambda>a.
              if \<not> ad_finalizes a \<or> (ad_id a, ad_version a) \<noteq> pc_adapter pc then Inl UploadStorageChanged
              else Inr it))))"

text \<open>\<open>os.path.splitext\<close>: the last dot that is not among the leading dots.\<close>

definition split_extension :: "string \<Rightarrow> string \<times> string" where
  "split_extension name =
     (let tail = takeWhile (\<lambda>c. c \<noteq> CHR ''.'') (rev name);
          stem = take (length name - length tail - 1) name
      in if CHR ''.'' \<in> set name \<and> list_ex (\<lambda>c. c \<noteq> CHR ''.'') stem
         then (stem, drop (length stem) name) else (name, []))"

definition qualified_basename :: "string \<Rightarrow> string \<Rightarrow> string" where
  "qualified_basename filename i =
     (case split_extension filename of (stem, suffix) \<Rightarrow>
        take (nat (max 1 (255 - int (length suffix) - int (length i) - 2))) stem @ ''__'' @ i @ suffix)"

fun occurs_in :: "string \<Rightarrow> string \<Rightarrow> bool" where
  "occurs_in p [] = (p = [])"
| "occurs_in p (c # s) = (take (length p) (c # s) = p \<or> occurs_in p s)"

definition starts_with :: "string \<Rightarrow> string \<Rightarrow> bool" where
  "starts_with p s = (take (length p) s = p)"

definition framework_prefixes :: "string list" where
  "framework_prefixes = [''gm-upload-old-claims/'', ''gm-upload-claim/'', ''gm-upload-meta/'',
     ''gm-upload-stage-claim/'', ''gm-upload-stage-meta/'']"

definition final_key_ok :: "int option \<Rightarrow> string \<Rightarrow> string \<Rightarrow> string \<Rightarrow> bool" where
  "final_key_ok max_length staging_prefix i key =
     (key \<noteq> [] \<and> int (length key) \<le> (case max_length of Some m \<Rightarrow> min 1024 m | None \<Rightarrow> 1024)
      \<and> \<not> starts_with ''/'' key \<and> CHR 0x5C \<notin> set key
      \<and> \<not> list_ex (\<lambda>part. part \<in> {[], ''.'', ''..''}) (split_char CHR ''/'' key)
      \<and> \<not> list_ex control_char key
      \<and> key \<noteq> rev (dropWhile (\<lambda>c. c = CHR ''/'') (rev staging_prefix)) \<and> \<not> starts_with staging_prefix key
      \<and> \<not> list_ex (\<lambda>p. starts_with p key) framework_prefixes \<and> occurs_in i key)"

record field_env =
  fe_upload_to :: "string \<Rightarrow> string \<Rightarrow> string option"
  fe_max_length :: "string \<Rightarrow> int option"

text \<open>\<open>reserve_upload_names\<close> for one candidate: the intent with its reserved name. \<open>current\<close> is the
  file name the locked row has in the field.\<close>

definition reserve_name ::
  "upload_settings \<Rightarrow> field_env \<Rightarrow> (string \<Rightarrow> string) \<Rightarrow> prepared_candidate \<Rightarrow> upload_intent
     \<Rightarrow> upload_error + upload_intent" where
  "reserve_name st env current pc it =
     (let old = (if current (pc_field pc) = [] then None else Some (current (pc_field pc)));
          i = ca_intent (pc_candidate pc) in
      if old \<noteq> pc_old_key pc then Inl UploadBindingMismatch
      else case fe_upload_to env (pc_field pc) (qualified_basename (ca_filename (pc_candidate pc)) i) of
          None \<Rightarrow> Inl UploadStorageFailure
        | Some key \<Rightarrow>
            if \<not> final_key_ok (fe_max_length env (pc_field pc)) (us_staging_prefix st) i key then Inl UploadStorageChanged
            else Inr (it\<lparr>ui_final_key := Some key, ui_old_key := old, ui_old_version := pc_old_version pc\<rparr>))"

definition mark_finalizing :: "string \<Rightarrow> int \<Rightarrow> prepared_candidate \<Rightarrow> upload_intent \<Rightarrow> upload_intent" where
  "mark_finalizing pk now pc it =
     it\<lparr>ui_final_target := Some pk, ui_state := UFinalizing, ui_error := [], ui_dimensions := pc_dimensions pc,
        ui_updated := now\<rparr>"

datatype claim_error = ClaimRefused upload_error | SaveFailed

definition claimed_intents ::
  "upload_settings \<Rightarrow> 'w site \<Rightarrow> field_env \<Rightarrow> claim_target \<Rightarrow> int \<Rightarrow> (string \<Rightarrow> string) \<Rightarrow> prepared_candidate list
     \<Rightarrow> intents \<Rightarrow> upload_error + (prepared_candidate \<times> upload_intent) list" where
  "claimed_intents st site env ct now current pcs db =
     sbind (collect_until (revalidate site ct now db) pcs) (\<lambda>its.
       collect_until (\<lambda>(pc, it). sbind (reserve_name st env current pc it) (\<lambda>it'. Inr (pc, it'))) (zip pcs its))"

text \<open>The transaction of \<open>_create_claimed\<close> and \<open>_update_claimed\<close>; \<open>saved\<close> is the primary key the
  row was saved under, or none when validation or saving raises.\<close>

definition claim_uploads ::
  "upload_settings \<Rightarrow> 'w site \<Rightarrow> field_env \<Rightarrow> claim_target \<Rightarrow> int \<Rightarrow> string option \<Rightarrow> prepared_candidate list
     \<Rightarrow> 'w upload_world \<Rightarrow> (claim_error + string) \<times> 'w upload_world" where
  "claim_uploads st site env ct now saved pcs w =
     (let current = (case ct_pk ct of None \<Rightarrow> Some (\<lambda>f. []) | Some pk \<Rightarrow> rows w (ct_manager ct) pk) in
      case current of
        None \<Rightarrow>
          (case collect_until (revalidate site ct now (intents w)) pcs of
             Inl e \<Rightarrow> (Inl (ClaimRefused e), w) | Inr _ \<Rightarrow> (Inl SaveFailed, w))
      | Some f \<Rightarrow>
          (case claimed_intents st site env ct now f pcs (intents w) of
             Inl e \<Rightarrow> (Inl (ClaimRefused e), w)
           | Inr claimed \<Rightarrow>
               (case saved of
                  None \<Rightarrow> (Inl SaveFailed, w)
                | Some pk \<Rightarrow>
                    let f' = fold (\<lambda>(pc, it) g. g(pc_field pc := the (ui_final_key it))) claimed f in
                    (Inr pk,
                     w\<lparr>intents := fold (\<lambda>(pc, it). od_set (ca_intent (pc_candidate pc)) (mark_finalizing pk now pc it))
                                  claimed (intents w),
                       rows := (rows w)(ct_manager ct := (rows w (ct_manager ct))(pk \<mapsto> f'))\<rparr>))))"

section \<open>Finalization attempts\<close>

text \<open>What a finalization can raise: an upload error, the loss of the lease, or anything else.\<close>

datatype fin_error = FinUpload upload_error | FinLeaseLost | FinOther

definition fin_code :: "fin_error \<Rightarrow> string" where
  "fin_code e = (case e of FinUpload u \<Rightarrow> error_code u | _ \<Rightarrow> error_code UploadStorageFailure)"

datatype fin_outcome = FinConsumed | FinSuperseded | FinFailed | FinSkipped

definition lease_free :: "int \<Rightarrow> upload_intent \<Rightarrow> bool" where
  "lease_free now it = (case ui_lease_until it of None \<Rightarrow> True | Some t \<Rightarrow> t \<le> now)"

definition holds_lease :: "string \<Rightarrow> int \<Rightarrow> upload_intent \<Rightarrow> bool" where
  "holds_lease token now it = (ui_lease_token it = token
     \<and> (case ui_lease_until it of None \<Rightarrow> False | Some t \<Rightarrow> now < t))"

text \<open>\<open>_start_finalization_attempt\<close>; \<open>fresh\<close> is the new random token. A missing row is \<open>None\<close> of the
  outer option (\<open>DoesNotExist\<close>).\<close>

definition start_finalization ::
  "upload_settings \<Rightarrow> string \<Rightarrow> int \<Rightarrow> string \<Rightarrow> int option \<Rightarrow> string option \<Rightarrow> intents
     \<Rightarrow> (int \<times> string) option option \<times> intents" where
  "start_finalization st i now fresh expected_until expected_token db =
     (case od_get db i of
        None \<Rightarrow> (None, db)
      | Some it \<Rightarrow>
          if ui_state it \<noteq> UFinalizing then (Some None, db)
          else if expected_until = None \<and> expected_token = None then
            (if \<not> lease_free now it then (Some None, db)
             else (Some (Some (now + us_cleanup_lease st, fresh)),
                   od_set i (it\<lparr>ui_lease_until := Some (now + us_cleanup_lease st), ui_lease_token := fresh,
                                ui_finalizations := ui_finalizations it + 1, ui_error := [], ui_updated := now\<rparr>) db))
          else
            (case (expected_until, expected_token) of
               (Some u, Some t) \<Rightarrow>
                 if t = [] \<or> ui_lease_until it \<noteq> Some u \<or> ui_lease_token it \<noteq> t \<or> u \<le> now then (Some None, db)
                 else (Some (Some (u, t)), od_set i (it\<lparr>ui_error := [], ui_updated := now\<rparr>) db)
             | _ \<Rightarrow> (Some None, db)))"

definition file_bound :: "'w upload_world \<Rightarrow> upload_intent \<Rightarrow> bool" where
  "file_bound w it =
     (case ui_final_target it of
        None \<Rightarrow> False
      | Some pk \<Rightarrow> (case rows w (ui_manager it) pk of
            None \<Rightarrow> False | Some f \<Rightarrow> Some (f (ui_field it)) = ui_final_key it))"

definition supersede :: "int \<Rightarrow> upload_intent \<Rightarrow> upload_intent" where
  "supersede now it = it\<lparr>ui_state := USuperseded, ui_lease_until := None, ui_lease_token := [], ui_updated := now\<rparr>"

datatype attempt_state = AttemptDone | AttemptSuperseded | AttemptProceed

definition begin_finalization ::
  "string \<Rightarrow> int \<Rightarrow> string \<Rightarrow> 'w upload_world \<Rightarrow> attempt_state option \<times> 'w upload_world" where
  "begin_finalization i now token w =
     (case od_get (intents w) i of
        None \<Rightarrow> (None, w)
      | Some it \<Rightarrow>
          if ui_state it \<noteq> UFinalizing \<or> \<not> holds_lease token now it then (Some AttemptDone, w)
          else if \<not> file_bound w it
            then (Some AttemptSuperseded, w\<lparr>intents := od_set i (supersede now it) (intents w)\<rparr>)
          else (Some AttemptProceed, w\<lparr>intents := od_set i (it\<lparr>ui_error := [], ui_updated := now\<rparr>) (intents w)\<rparr>))"

definition renew_finalization_lease :: "upload_settings \<Rightarrow> string \<Rightarrow> int \<Rightarrow> string \<Rightarrow> intents \<Rightarrow> int option \<times> intents" where
  "renew_finalization_lease st i now token db =
     (case update_where db i (\<lambda>it. ui_state it = UFinalizing \<and> holds_lease token now it)
         (\<lambda>it. it\<lparr>ui_lease_until := Some (now + us_cleanup_lease st), ui_updated := now\<rparr>) of
        (True, db') \<Rightarrow> (Some (now + us_cleanup_lease st), db')
      | (False, db') \<Rightarrow> (None, db'))"

datatype completion = CompletedNow | CompletedSuperseded | CompletedStale

definition complete_finalization ::
  "string \<Rightarrow> int \<Rightarrow> string \<Rightarrow> object_version \<Rightarrow> 'w upload_world \<Rightarrow> completion option \<times> 'w upload_world" where
  "complete_finalization i now token final_version w =
     (case od_get (intents w) i of
        None \<Rightarrow> (None, w)
      | Some it \<Rightarrow>
          if ui_state it = UConsumed then (Some CompletedNow, w)
          else if ui_state it \<noteq> UFinalizing \<or> \<not> holds_lease token now it then (Some CompletedStale, w)
          else if \<not> file_bound w it
            then (Some CompletedSuperseded, w\<lparr>intents := od_set i (supersede now it) (intents w)\<rparr>)
          else (Some CompletedNow,
                w\<lparr>intents := od_set i (it\<lparr>ui_state := UConsumed, ui_consumed := Some now, ui_error := [],
                      ui_lease_until := None, ui_lease_token := [], ui_final_version := Some final_version,
                      ui_updated := now\<rparr>) (intents w)\<rparr>))"

text \<open>\<open>_record_finalization_failure\<close>: puts the intent on a cooldown that no token owns.\<close>

definition record_failure ::
  "upload_settings \<Rightarrow> string \<Rightarrow> fin_error \<Rightarrow> int \<Rightarrow> (int \<times> string) option \<Rightarrow> intents \<Rightarrow> bool \<times> intents" where
  "record_failure st i e now lease db =
     update_where db i
       (\<lambda>it. ui_state it = UFinalizing
          \<and> (case lease of
               Some (u, t) \<Rightarrow> if t \<noteq> [] then ui_lease_token it = t else lease_free now it \<and> ui_lease_token it = []
             | None \<Rightarrow> lease_free now it \<and> ui_lease_token it = []))
       (\<lambda>it. it\<lparr>ui_error := fin_code e, ui_lease_until := Some (now + us_cooldown st), ui_lease_token := [],
               ui_updated := now\<rparr>)"

definition failure_outcome ::
  "upload_settings \<Rightarrow> string \<Rightarrow> fin_error \<Rightarrow> int \<Rightarrow> (int \<times> string) option \<Rightarrow> 'w upload_world
     \<Rightarrow> fin_outcome \<times> 'w upload_world" where
  "failure_outcome st i e now lease w =
     (case record_failure st i e now lease (intents w) of
        (True, db) \<Rightarrow> (FinFailed, w\<lparr>intents := db\<rparr>)
      | (False, db) \<Rightarrow> (FinSkipped, w\<lparr>intents := db\<rparr>))"

text \<open>The storage work of an attempt: materialise, check the key and the version.\<close>

definition fin_failure :: "adapter_failure \<Rightarrow> fin_error" where
  "fin_failure f = (case f of Refused e \<Rightarrow> FinUpload e | _ \<Rightarrow> FinOther)"

definition same_content :: "object_version \<Rightarrow> object_version \<Rightarrow> bool" where
  "same_content a b = (ov_checksum a = ov_checksum b \<and> ov_size a = ov_size b \<and> ov_content_type a = ov_content_type b)"

definition materialize_file ::
  "upload_settings \<Rightarrow> field_env \<Rightarrow> 'w adapter \<Rightarrow> string \<Rightarrow> upload_intent \<Rightarrow> object_version \<Rightarrow> 'w
     \<Rightarrow> (fin_error + object_version) \<times> 'w" where
  "materialize_file st env a i it v w =
     (case ad_materialize a (ui_staging_key it) v (the (ui_final_key it)) i w of
        (Inl f, w') \<Rightarrow> (Inl (fin_failure f), w')
      | (Inr key, w') \<Rightarrow>
          if \<not> final_key_ok (fe_max_length env (ui_field it)) (us_staging_prefix st) i key
             \<or> Some key \<noteq> ui_final_key it \<or> \<not> ad_finalizes a
          then (Inl (FinUpload UploadStorageChanged), w')
          else (case ad_inspect_final a key v i w' of
              Inl f \<Rightarrow> (Inl (fin_failure f), w')
            | Inr fv \<Rightarrow>
                if version_is_safe fv \<and> same_content fv v then (Inr fv, w')
                else (Inl (FinUpload UploadStorageChanged), w')))"

end
