(* ===== verification/UpCleanup.thy ===== *)
theory UpCleanup
  imports UpFinal
begin

text \<open>
  Cleanup of finished upload intents, the whole finalization attempt, and the batch command
  \<open>run_upload_cleanup\<close> (\<open>uploads/finalization.py\<close>).

  Deleting is done by the adapter outside any transaction, under a lease with a random token. The
  composed functions run without interference and read the clock once (\<open>now\<close>); \<open>fresh\<close> are the
  random tokens they draw. Failing databases and metrics are left out.
\<close>

section \<open>Deleting what an intent owns\<close>

definition staging_keys :: "upload_intent \<Rightarrow> transfer_error + string list" where
  "staging_keys it =
     sbind (proxy_attempt_stage_keys it) (\<lambda>attempts.
       Inr (rev (remdups (rev ([ui_staging_key it]
         @ (case split_marker (ui_staging_key it) of Some (base, n) \<Rightarrow> [base] | None \<Rightarrow> [])
         @ attempts)))))"

text \<open>An exact object that is already gone counts as deleted.\<close>

definition missing_is_fine :: "(adapter_failure + unit) \<times> 'w \<Rightarrow> (fin_error + unit) \<times> 'w" where
  "missing_is_fine r =
     (case r of
        (Inl (Refused UploadObjectMissing), w) \<Rightarrow> (Inr (), w)
      | (Inl f, w) \<Rightarrow> (Inl (fin_failure f), w)
      | (Inr _, w) \<Rightarrow> (Inr (), w))"

definition storage_call :: "(adapter_failure + unit) \<times> 'w \<Rightarrow> (fin_error + unit) \<times> 'w" where
  "storage_call r = (case r of (Inl f, w) \<Rightarrow> (Inl (fin_failure f), w) | (Inr _, w) \<Rightarrow> (Inr (), w))"

definition delete_staging_key ::
  "'w adapter \<Rightarrow> upload_intent \<Rightarrow> object_version option \<Rightarrow> string \<Rightarrow> 'w \<Rightarrow> (fin_error + unit) \<times> 'w" where
  "delete_staging_key a it source key w =
     (case (if key = ui_staging_key it then source else None) of
        Some v \<Rightarrow> missing_is_fine (ad_delete_stage a key v w)
      | None \<Rightarrow>
          (case ad_inspect_staged a key w of
             Inl (Refused UploadObjectMissing) \<Rightarrow>
               (case ad_delete_markers a of None \<Rightarrow> (Inr (), w) | Some f \<Rightarrow> storage_call (f key w))
           | Inl f \<Rightarrow> (Inl (fin_failure f), w)
           | Inr v \<Rightarrow>
               if \<not> version_is_safe v then (Inl (FinUpload UploadStorageChanged), w)
               else missing_is_fine (ad_delete_stage a key v w)))"

fun delete_staging_keys ::
  "'w adapter \<Rightarrow> upload_intent \<Rightarrow> object_version option \<Rightarrow> string list \<Rightarrow> 'w \<Rightarrow> (fin_error + unit) \<times> 'w" where
  "delete_staging_keys a it source [] w = (Inr (), w)"
| "delete_staging_keys a it source (key # keys) w =
     (case delete_staging_key a it source key w of
        (Inl e, w') \<Rightarrow> (Inl e, w') | (Inr _, w') \<Rightarrow> delete_staging_keys a it source keys w')"

definition delete_staging_objects ::
  "'w adapter \<Rightarrow> upload_intent \<Rightarrow> object_version option \<Rightarrow> 'w \<Rightarrow> (fin_error + unit) \<times> 'w" where
  "delete_staging_objects a it source w =
     (case staging_keys it of
        Inl _ \<Rightarrow> (Inl FinOther, w) | Inr keys \<Rightarrow> delete_staging_keys a it source keys w)"

definition delete_superseded_final ::
  "'w adapter \<Rightarrow> string \<Rightarrow> upload_intent \<Rightarrow> object_version option \<Rightarrow> 'w \<Rightarrow> (fin_error + unit) \<times> 'w" where
  "delete_superseded_final a i it source w =
     (case ui_final_key it of
        None \<Rightarrow> (Inr (), w)
      | Some key \<Rightarrow>
          if key = [] then (Inr (), w)
          else (case source of
              None \<Rightarrow> (Inl (FinUpload UploadStorageChanged), w)
            | Some v \<Rightarrow>
                if \<not> ad_finalizes a then (Inl (FinUpload UploadStorageChanged), w)
                else (case (case version_from_metadata (ui_final_version it) of
                        Some fv \<Rightarrow> Inr fv | None \<Rightarrow> ad_inspect_final a key v i w) of
                    Inl (Refused UploadObjectMissing) \<Rightarrow> (Inr (), w)
                  | Inl f \<Rightarrow> (Inl (fin_failure f), w)
                  | Inr fv \<Rightarrow> missing_is_fine (ad_delete_final a key fv i w))))"

section \<open>The replaced file\<close>

definition mark_old_completed :: "string \<Rightarrow> int \<Rightarrow> intents \<Rightarrow> intents" where
  "mark_old_completed i now db =
     snd (update_where db i
       (\<lambda>it. ui_state it = UConsumed \<and> ui_old_cleanup it \<noteq> None \<and> ui_old_cleanup_completed it = None)
       (\<lambda>it. it\<lparr>ui_old_cleanup_completed := Some now, ui_updated := now\<rparr>))"

definition mark_old_resolved :: "string \<Rightarrow> int \<Rightarrow> intents \<Rightarrow> intents" where
  "mark_old_resolved i now db =
     snd (update_where db i
       (\<lambda>it. ui_state it = UConsumed \<and> ui_old_key it \<noteq> None \<and> ui_old_cleanup_completed it = None)
       (\<lambda>it. it\<lparr>ui_old_cleanup_completed := Some now, ui_updated := now\<rparr>))"

definition has_text :: "string option \<Rightarrow> bool" where
  "has_text s = (s \<notin> {None, Some []})"

definition claimed_old_object :: "upload_intent \<Rightarrow> upload_error + (string \<times> object_version) option" where
  "claimed_old_object it =
     (case ui_old_cleanup it of
        None \<Rightarrow> Inr None
      | Some (key, m) \<Rightarrow>
          if key = [] then Inr None
          else (case version_from_metadata m of None \<Rightarrow> Inl UploadStorageChanged | Some v \<Rightarrow> Inr (Some (key, v))))"

definition plan_old_cleanup_claim ::
  "'w adapter \<Rightarrow> string \<Rightarrow> int \<Rightarrow> bool \<Rightarrow> intents
     \<Rightarrow> (fin_error + (string \<times> string \<times> object_version) option) \<times> intents" where
  "plan_old_cleanup_claim a i now allow_new db =
     (case od_get db i of
        None \<Rightarrow> (Inl FinOther, db)
      | Some it \<Rightarrow>
          if ui_state it \<noteq> UConsumed then (Inl (FinUpload UploadStorageChanged), db)
          else if ui_old_cleanup_completed it \<noteq> None \<or> \<not> has_text (ui_old_key it) then (Inr None, db)
          else case claimed_old_object it of
              Inl e \<Rightarrow> (Inl (FinUpload e), db)
            | Inr (Some claimed) \<Rightarrow> (Inr (Some (the (ui_old_key it), claimed)), db)
            | Inr None \<Rightarrow>
                if \<not> allow_new then (Inr None, db)
                else (case version_from_metadata (ui_old_version it) of
                    None \<Rightarrow> (Inr None, db)
                  | Some old_version \<Rightarrow>
                      (case ad_plan_claim a (the (ui_old_key it)) old_version i of
                         Inl f \<Rightarrow> (Inl (fin_failure f), db)
                       | Inr (key, v) \<Rightarrow>
                           (Inr (Some (the (ui_old_key it), key, v)),
                            od_set i (it\<lparr>ui_old_cleanup := Some (key, Some v), ui_updated := now\<rparr>) db))))"

definition delete_claimed ::
  "'w adapter \<Rightarrow> string \<Rightarrow> int \<Rightarrow> string \<times> string \<times> object_version \<Rightarrow> 'w upload_world
     \<Rightarrow> (fin_error + unit) \<times> 'w upload_world" where
  "delete_claimed a i now planned w =
     (case planned of (old_key, claimed) \<Rightarrow>
        (case ad_claim_replaced a old_key claimed i (storage w) of
           (Inl f, s) \<Rightarrow> (Inl (fin_failure f), w\<lparr>storage := s\<rparr>)
         | (Inr _, s) \<Rightarrow>
             (case ad_delete_claimed a claimed i s of
                (Inl f, s') \<Rightarrow> (Inl (fin_failure f), w\<lparr>storage := s'\<rparr>)
              | (Inr _, s') \<Rightarrow>
                  (Inr (), w\<lparr>storage := s', intents := mark_old_completed i now (intents w)\<rparr>))))"

definition delete_consumed_old_object ::
  "upload_settings \<Rightarrow> 'w adapter \<Rightarrow> string \<Rightarrow> int \<Rightarrow> upload_intent \<Rightarrow> 'w upload_world
     \<Rightarrow> (fin_error + unit) \<times> 'w upload_world" where
  "delete_consumed_old_object st a i now it w =
     (if \<not> has_text (ui_old_key it) \<or> ui_old_cleanup_completed it \<noteq> None then (Inr (), w)
      else if \<not> ad_finalizes a then (Inl (FinUpload UploadBackendUnsupported), w)
      else case claimed_old_object it of
          Inl e \<Rightarrow> (Inl (FinUpload e), w)
        | Inr (Some claimed) \<Rightarrow> delete_claimed a i now (the (ui_old_key it), claimed) w
        | Inr None \<Rightarrow>
            if \<not> us_delete_replaced st then (Inr (), w)
            else if ui_final_target it = None then (Inl (FinUpload UploadStorageChanged), w)
            else if \<not> file_bound w it then (Inr (), w\<lparr>intents := mark_old_resolved i now (intents w)\<rparr>)
            else (case plan_old_cleanup_claim a i now True (intents w) of
                (Inl e, db) \<Rightarrow> (Inl e, w\<lparr>intents := db\<rparr>)
              | (Inr None, db) \<Rightarrow> (Inr (), w\<lparr>intents := mark_old_resolved i now db\<rparr>)
              | (Inr (Some planned), db) \<Rightarrow> delete_claimed a i now planned (w\<lparr>intents := db\<rparr>)))"

definition delete_intent_owned_objects ::
  "upload_settings \<Rightarrow> 'w site \<Rightarrow> string \<Rightarrow> int \<Rightarrow> upload_intent \<Rightarrow> 'w upload_world
     \<Rightarrow> (fin_error + unit) \<times> 'w upload_world" where
  "delete_intent_owned_objects st site i now it w =
     (case sbind (si_blank site (ui_manager it) (ui_field it)) (\<lambda>_. resolve_intent_adapter site it) of
        Inl e \<Rightarrow> (Inl (FinUpload e), w)
      | Inr a \<Rightarrow>
          let source = version_from_metadata (ui_version it) in
          (case delete_staging_objects a it source (storage w) of
             (Inl e, s) \<Rightarrow> (Inl e, w\<lparr>storage := s\<rparr>)
           | (Inr _, s) \<Rightarrow>
               if ui_state it = USuperseded
               then (case delete_superseded_final a i it source s of (r, s') \<Rightarrow> (r, w\<lparr>storage := s'\<rparr>))
               else if ui_state it = UConsumed then delete_consumed_old_object st a i now it (w\<lparr>storage := s\<rparr>)
               else (Inr (), w\<lparr>storage := s\<rparr>)))"

section \<open>Cleanup of one intent\<close>

datatype cleanup_claim = RowGone | AlreadyClean | NotClaimable | CleanupClaim upload_intent int string

definition claim_terminal_cleanup ::
  "upload_settings \<Rightarrow> string \<Rightarrow> int \<Rightarrow> string \<Rightarrow> intents \<Rightarrow> cleanup_claim \<times> intents" where
  "claim_terminal_cleanup st i now fresh db =
     (case od_get db i of
        None \<Rightarrow> (RowGone, db)
      | Some it \<Rightarrow>
          if ui_state it \<notin> set terminal_states then (NotClaimable, db)
          else if ui_cleanup_completed it \<noteq> None then (AlreadyClean, db)
          else if \<not> lease_free now it then (NotClaimable, db)
          else let it' = it\<lparr>ui_lease_until := Some (now + us_cleanup_lease st), ui_lease_token := fresh,
                            ui_cleanup_error := [], ui_updated := now\<rparr>
               in (CleanupClaim it' (now + us_cleanup_lease st) fresh, od_set i it' db))"

definition cleanup_held :: "int \<Rightarrow> string \<Rightarrow> upload_intent \<Rightarrow> bool" where
  "cleanup_held until token it = (ui_cleanup_completed it = None \<and> ui_lease_until it = Some until \<and> ui_lease_token it = token)"

definition fail_cleanup :: "string \<Rightarrow> int \<Rightarrow> string \<Rightarrow> fin_error \<Rightarrow> int \<Rightarrow> intents \<Rightarrow> intents" where
  "fail_cleanup i until token e now db =
     snd (update_where db i (cleanup_held until token)
       (\<lambda>it. it\<lparr>ui_cleanup_error := fin_code e, ui_lease_until := None, ui_lease_token := [], ui_updated := now\<rparr>))"

definition finish_cleanup :: "string \<Rightarrow> int \<Rightarrow> string \<Rightarrow> int \<Rightarrow> intents \<Rightarrow> bool \<times> intents" where
  "finish_cleanup i until token now db =
     update_where db i (cleanup_held until token)
       (\<lambda>it. it\<lparr>ui_cleanup_completed := Some now, ui_cleanup_error := [], ui_lease_until := None,
               ui_lease_token := [], ui_updated := now\<rparr>)"

definition cleanup_terminal_intent ::
  "upload_settings \<Rightarrow> 'w site \<Rightarrow> string \<Rightarrow> int \<Rightarrow> string \<Rightarrow> 'w upload_world \<Rightarrow> bool \<times> 'w upload_world" where
  "cleanup_terminal_intent st site i now fresh w =
     (case claim_terminal_cleanup st i now fresh (intents w) of
        (AlreadyClean, db) \<Rightarrow> (True, w\<lparr>intents := db\<rparr>)
      | (CleanupClaim it until token, db) \<Rightarrow>
          (case delete_intent_owned_objects st site i now it (w\<lparr>intents := db\<rparr>) of
             (Inl e, w') \<Rightarrow> (False, w'\<lparr>intents := fail_cleanup i until token e now (intents w')\<rparr>)
           | (Inr _, w') \<Rightarrow>
               (case finish_cleanup i until token now (intents w') of
                  (completed, db') \<Rightarrow> (completed, w'\<lparr>intents := db'\<rparr>)))
      | (_, db) \<Rightarrow> (False, w\<lparr>intents := db\<rparr>))"

section \<open>One finalization attempt\<close>

text \<open>What the attempt needs from the row: adapter, stored version, target. Errors end it.\<close>

definition attempt_inputs :: "'w site \<Rightarrow> upload_intent \<Rightarrow> fin_error + ('w adapter \<times> object_version)" where
  "attempt_inputs site it =
     (case sbind (si_blank site (ui_manager it) (ui_field it)) (\<lambda>_.
           sbind (resolve_intent_adapter site it) (\<lambda>a.
           sbind (stored_object_version it) (\<lambda>v.
             if ui_final_target it = None then Inl UploadStorageChanged else Inr (a, v)))) of
        Inl e \<Rightarrow> Inl (FinUpload e) | Inr r \<Rightarrow> Inr r)"

definition conclude ::
  "upload_settings \<Rightarrow> 'w site \<Rightarrow> string \<Rightarrow> int \<Rightarrow> string \<Rightarrow> fin_outcome \<Rightarrow> 'w upload_world \<Rightarrow> fin_outcome \<times> 'w upload_world" where
  "conclude st site i now fresh outcome w = (outcome, snd (cleanup_terminal_intent st site i now fresh w))"

definition finish_attempt ::
  "upload_settings \<Rightarrow> 'w site \<Rightarrow> field_env \<Rightarrow> 'w adapter \<Rightarrow> object_version \<Rightarrow> upload_intent \<Rightarrow> string \<Rightarrow> int \<Rightarrow> string
     \<Rightarrow> (int \<times> string) \<Rightarrow> 'w upload_world \<Rightarrow> fin_outcome \<times> 'w upload_world" where
  "finish_attempt st site env a v it i now fresh' lease w =
     (case lease of (until, token) \<Rightarrow>
       (case renew_finalization_lease st i now token (intents w) of
          (None, db) \<Rightarrow> failure_outcome st i FinLeaseLost now (Some (until, token)) (w\<lparr>intents := db\<rparr>)
        | (Some until', db) \<Rightarrow>
            (case materialize_file st env a i it v (storage w) of
               (Inl e, s) \<Rightarrow> failure_outcome st i e now (Some (until', token)) (w\<lparr>intents := db, storage := s\<rparr>)
             | (Inr fv, s) \<Rightarrow>
                 (case renew_finalization_lease st i now token db of
                    (None, db') \<Rightarrow>
                      failure_outcome st i FinLeaseLost now (Some (until', token)) (w\<lparr>intents := db', storage := s\<rparr>)
                  | (Some until'', db') \<Rightarrow>
                      (case complete_finalization i now token fv (w\<lparr>intents := db', storage := s\<rparr>) of
                         (None, w') \<Rightarrow> failure_outcome st i FinOther now (Some (until'', token)) w'
                       | (Some CompletedStale, w') \<Rightarrow> (FinSkipped, w')
                       | (Some CompletedSuperseded, w') \<Rightarrow> conclude st site i now fresh' FinSuperseded w'
                       | (Some CompletedNow, w') \<Rightarrow> conclude st site i now fresh' FinConsumed w')))))"

text \<open>\<open>_finalize_upload_intent\<close>; \<open>fresh\<close> becomes the token of the finalization lease, \<open>fresh'\<close> that of
  the cleanup lease.\<close>

definition finalize_upload_intent ::
  "upload_settings \<Rightarrow> 'w site \<Rightarrow> field_env \<Rightarrow> string \<Rightarrow> int \<Rightarrow> string \<Rightarrow> string \<Rightarrow> int option \<Rightarrow> string option
     \<Rightarrow> 'w upload_world \<Rightarrow> fin_outcome \<times> 'w upload_world" where
  "finalize_upload_intent st site env i now fresh fresh' expected_until expected_token w =
     (let given = (case (expected_until, expected_token) of (Some u, Some t) \<Rightarrow> Some (u, t) | _ \<Rightarrow> None) in
      case od_get (intents w) i of
        None \<Rightarrow> failure_outcome st i FinOther now given w
      | Some initial \<Rightarrow>
          if ui_state initial = UConsumed then conclude st site i now fresh' FinConsumed w
          else if ui_state initial = USuperseded then conclude st site i now fresh' FinSuperseded w
          else if ui_state initial \<noteq> UFinalizing then (FinSkipped, w)
          else (case start_finalization st i now fresh expected_until expected_token (intents w) of
              (None, db) \<Rightarrow> failure_outcome st i FinOther now given (w\<lparr>intents := db\<rparr>)
            | (Some None, db) \<Rightarrow> (FinSkipped, w\<lparr>intents := db\<rparr>)
            | (Some (Some lease), db) \<Rightarrow>
                let w1 = w\<lparr>intents := db\<rparr>; it = the (od_get db i) in
                (case attempt_inputs site it of
                   Inl e \<Rightarrow> failure_outcome st i e now (Some lease) w1
                 | Inr (a, v) \<Rightarrow>
                     (case begin_finalization i now (snd lease) w1 of
                        (None, w2) \<Rightarrow> failure_outcome st i FinOther now (Some lease) w2
                      | (Some AttemptDone, w2) \<Rightarrow> (FinSkipped, w2)
                      | (Some AttemptSuperseded, w2) \<Rightarrow> conclude st site i now fresh' FinSuperseded w2
                      | (Some AttemptProceed, w2) \<Rightarrow>
                          finish_attempt st site env a v it i now fresh' lease w2))))"

section \<open>Expiry and retention\<close>

definition expire_upload_intent :: "string \<Rightarrow> int \<Rightarrow> int \<Rightarrow> intents \<Rightarrow> bool \<times> intents" where
  "expire_upload_intent i at now db =
     update_where db i
       (\<lambda>it. ui_expires it \<le> at \<and> ui_state it \<in> {UPending, UTransferring, UUploaded}
          \<and> \<not> (ui_state it = UTransferring \<and> (case ui_transfer_until it of None \<Rightarrow> False | Some t \<Rightarrow> at < t)))
       (\<lambda>it. it\<lparr>ui_state := UExpired, ui_transfer_until := None, ui_updated := now\<rparr>)"

datatype retention = RetentionDeleted | RetentionSkipped | RetentionFailed

definition delete_retained_intent ::
  "'w site \<Rightarrow> string \<Rightarrow> int \<Rightarrow> bool \<Rightarrow> 'w upload_world \<Rightarrow> retention \<times> 'w upload_world" where
  "delete_retained_intent site i cutoff dry_run w =
     (case od_get (intents w) i of
        None \<Rightarrow> (RetentionFailed, w)
      | Some it \<Rightarrow>
          if ui_state it \<notin> set terminal_states
             \<or> (case ui_cleanup_completed it of None \<Rightarrow> True | Some t \<Rightarrow> cutoff < t) then (RetentionSkipped, w)
          else if ui_state it = UConsumed
                  \<and> (case si_blank site (ui_manager it) (ui_field it) of Inl _ \<Rightarrow> True | Inr _ \<Rightarrow> ui_final_target it = None)
            then (RetentionFailed, w)
          else if ui_state it = UConsumed \<and> file_bound w it then (RetentionSkipped, w)
          else (RetentionDeleted, if dry_run then w else w\<lparr>intents := od_pop i (intents w)\<rparr>))"

section \<open>The batch command\<close>

record cleanup_counts =
  cc_reconciled :: nat
  cc_expired :: nat
  cc_cleaned :: nat
  cc_deleted :: nat
  cc_failed :: nat
  cc_skipped :: nat

definition no_counts :: cleanup_counts where
  "no_counts = \<lparr>cc_reconciled = 0, cc_expired = 0, cc_cleaned = 0, cc_deleted = 0, cc_failed = 0, cc_skipped = 0\<rparr>"

definition candidate_ids :: "(upload_intent \<Rightarrow> bool) \<Rightarrow> nat \<Rightarrow> intents \<Rightarrow> string list" where
  "candidate_ids cond limit db =
     map fst (take limit (sort_key (\<lambda>(i, it). ui_created it) (sort_key fst (filter (\<lambda>(i, it). cond it) db))))"

definition share :: "nat \<Rightarrow> nat \<Rightarrow> nat" where
  "share remaining parts = (if remaining \<le> 1 then remaining else max 1 (remaining div parts))"

definition cleanup_miss :: "string \<Rightarrow> int \<Rightarrow> intents \<Rightarrow> cleanup_counts \<Rightarrow> cleanup_counts" where
  "cleanup_miss i at db c =
     (case od_get db i of
        None \<Rightarrow> c\<lparr>cc_skipped := cc_skipped c + 1\<rparr>
      | Some it \<Rightarrow>
          if ui_cleanup_completed it \<noteq> None \<or> \<not> lease_free at it then c\<lparr>cc_skipped := cc_skipped c + 1\<rparr>
          else c\<lparr>cc_failed := cc_failed c + 1\<rparr>)"

definition reconcile_one ::
  "upload_settings \<Rightarrow> 'w site \<Rightarrow> field_env \<Rightarrow> int \<Rightarrow> (string \<Rightarrow> string \<times> string) \<Rightarrow> string
     \<Rightarrow> cleanup_counts \<times> 'w upload_world \<Rightarrow> cleanup_counts \<times> 'w upload_world" where
  "reconcile_one st site env now fresh i cw =
     (case cw of (c, w) \<Rightarrow>
       (case finalize_upload_intent st site env i now (fst (fresh i)) (snd (fresh i)) None None w of
          (FinFailed, w') \<Rightarrow> (c\<lparr>cc_failed := cc_failed c + 1\<rparr>, w')
        | (FinSkipped, w') \<Rightarrow> (c\<lparr>cc_skipped := cc_skipped c + 1\<rparr>, w')
        | (_, w') \<Rightarrow> (c\<lparr>cc_reconciled := cc_reconciled c + 1\<rparr>, w')))"

definition clean_one ::
  "upload_settings \<Rightarrow> 'w site \<Rightarrow> int \<Rightarrow> (string \<Rightarrow> string \<times> string) \<Rightarrow> string
     \<Rightarrow> cleanup_counts \<times> 'w upload_world \<Rightarrow> cleanup_counts \<times> 'w upload_world" where
  "clean_one st site now fresh i cw =
     (case cw of (c, w) \<Rightarrow>
       (case cleanup_terminal_intent st site i now (snd (fresh i)) w of
          (True, w') \<Rightarrow> (c\<lparr>cc_cleaned := cc_cleaned c + 1\<rparr>, w')
        | (False, w') \<Rightarrow> (cleanup_miss i now (intents w') c, w')))"

definition expire_one ::
  "upload_settings \<Rightarrow> 'w site \<Rightarrow> int \<Rightarrow> (string \<Rightarrow> string \<times> string) \<Rightarrow> string
     \<Rightarrow> cleanup_counts \<times> 'w upload_world \<Rightarrow> cleanup_counts \<times> 'w upload_world" where
  "expire_one st site now fresh i cw =
     (case cw of (c, w) \<Rightarrow>
       (case expire_upload_intent i now now (intents w) of
          (False, db) \<Rightarrow> (c\<lparr>cc_skipped := cc_skipped c + 1\<rparr>, w\<lparr>intents := db\<rparr>)
        | (True, db) \<Rightarrow> clean_one st site now fresh i (c\<lparr>cc_expired := cc_expired c + 1\<rparr>, w\<lparr>intents := db\<rparr>)))"

definition retain_one ::
  "'w site \<Rightarrow> int \<Rightarrow> bool \<Rightarrow> string \<Rightarrow> cleanup_counts \<times> 'w upload_world \<Rightarrow> cleanup_counts \<times> 'w upload_world" where
  "retain_one site cutoff dry_run i cw =
     (case cw of (c, w) \<Rightarrow>
       (case delete_retained_intent site i cutoff dry_run w of
          (RetentionDeleted, w') \<Rightarrow> (c\<lparr>cc_deleted := cc_deleted c + 1\<rparr>, w')
        | (RetentionFailed, w') \<Rightarrow> (c\<lparr>cc_failed := cc_failed c + 1\<rparr>, w')
        | (RetentionSkipped, w') \<Rightarrow> (c\<lparr>cc_skipped := cc_skipped c + 1\<rparr>, w')))"

definition finalizable :: "int \<Rightarrow> upload_intent \<Rightarrow> bool" where
  "finalizable now it = (ui_state it = UFinalizing \<and> lease_free now it)"

definition expirable :: "int \<Rightarrow> int \<Rightarrow> upload_intent \<Rightarrow> bool" where
  "expirable cutoff now it =
     (ui_expires it \<le> cutoff \<and> ui_state it \<in> {UPending, UTransferring, UUploaded}
      \<and> (ui_state it \<noteq> UTransferring \<or> (case ui_transfer_until it of None \<Rightarrow> True | Some t \<Rightarrow> t \<le> now)))"

definition cleanable :: "int \<Rightarrow> int \<Rightarrow> upload_intent \<Rightarrow> bool" where
  "cleanable cutoff now it =
     (ui_state it \<in> set terminal_states \<and> ui_cleanup_completed it = None \<and> ui_updated it \<le> cutoff \<and> lease_free now it)"

definition deletable :: "int \<Rightarrow> upload_intent \<Rightarrow> bool" where
  "deletable cutoff it =
     (ui_state it \<in> set terminal_states \<and> (case ui_cleanup_completed it of None \<Rightarrow> False | Some t \<Rightarrow> t \<le> cutoff))"

text \<open>\<open>run_upload_cleanup\<close>: four phases share one budget. The result also lists the ids each phase
  worked on. \<open>None\<close> is the \<open>ValueError\<close> for a non-positive limit or age.\<close>

definition run_phase ::
  "bool \<Rightarrow> (string list \<Rightarrow> cleanup_counts \<Rightarrow> cleanup_counts)
     \<Rightarrow> (string \<Rightarrow> cleanup_counts \<times> 'w upload_world \<Rightarrow> cleanup_counts \<times> 'w upload_world)
     \<Rightarrow> string list \<Rightarrow> cleanup_counts \<times> 'w upload_world \<Rightarrow> cleanup_counts \<times> 'w upload_world" where
  "run_phase dry_run count work ids cw =
     (if dry_run then (count ids (fst cw), snd cw) else fold work ids cw)"

definition run_upload_cleanup ::
  "upload_settings \<Rightarrow> 'w site \<Rightarrow> field_env \<Rightarrow> int option \<Rightarrow> int option \<Rightarrow> bool \<Rightarrow> int \<Rightarrow> (string \<Rightarrow> string \<times> string)
     \<Rightarrow> 'w upload_world \<Rightarrow> (cleanup_counts \<times> string list list \<times> 'w upload_world) option" where
  "run_upload_cleanup st site env batch older dry_run now fresh w =
     (let limit = (case batch of None \<Rightarrow> us_cleanup_batch st | Some b \<Rightarrow> b);
          age = (case older of None \<Rightarrow> us_cleanup_age st | Some a \<Rightarrow> a) in
      if limit \<le> 0 \<or> age \<le> 0 then None
      else
        let r0 = nat limit;
            ids1 = candidate_ids (finalizable now) (share r0 4) (intents w);
            cw1 = run_phase dry_run (\<lambda>ids c. c\<lparr>cc_reconciled := cc_reconciled c + length ids\<rparr>)
                    (reconcile_one st site env now fresh) ids1 (no_counts, w);
            r1 = r0 - length ids1;
            ids2 = (if r1 = 0 then [] else candidate_ids (expirable (now - age) now) (share r1 3) (intents (snd cw1)));
            cw2 = run_phase dry_run (\<lambda>ids c. c\<lparr>cc_expired := cc_expired c + length ids\<rparr>)
                    (expire_one st site now fresh) ids2 cw1;
            r2 = r1 - length ids2;
            ids3 = (if r2 = 0 then [] else candidate_ids (cleanable (now - age) now) (share r2 2) (intents (snd cw2)));
            cw3 = run_phase dry_run (\<lambda>ids c. c\<lparr>cc_cleaned := cc_cleaned c + length ids\<rparr>)
                    (clean_one st site now fresh) ids3 cw2;
            r3 = r2 - length ids3;
            cutoff = now - us_retention st;
            ids4 = (if r3 = 0 then [] else candidate_ids (deletable cutoff) r3 (intents (snd cw3)));
            cw4 = fold (retain_one site cutoff dry_run) ids4 cw3
        in Some (fst cw4, [ids1, ids2, ids3, ids4], snd cw4))"

end
