(* ===== verification/UpMachine.thy ===== *)
theory UpMachine
  imports UpCleanup Json
begin

text \<open>
  The state machine of one upload intent: \<open>intent_step\<close> is the abstract specification of everything
  the requests, the mutations and the cleanup may do to a row, with the guards that the later proofs
  need; \<open>intent_ok\<close> is the invariant of a row. \<open>UpStep\<close> shows that each transaction of the code makes
  only such steps.
\<close>

section \<open>Declared data and staging keys\<close>

definition same_declaration :: "upload_intent \<Rightarrow> upload_intent \<Rightarrow> bool" where
  "same_declaration a b =
     (ui_user a = ui_user b \<and> ui_token_digest a = ui_token_digest b \<and> ui_manager a = ui_manager b
      \<and> ui_field a = ui_field b \<and> ui_operation a = ui_operation b \<and> ui_target a = ui_target b
      \<and> ui_adapter_id a = ui_adapter_id b \<and> ui_adapter_version a = ui_adapter_version b
      \<and> ui_fingerprint a = ui_fingerprint b \<and> ui_filename a = ui_filename b
      \<and> ui_declared_size a = ui_declared_size b \<and> ui_declared_type a = ui_declared_type b
      \<and> ui_declared_checksum a = ui_declared_checksum b \<and> ui_expires a = ui_expires b
      \<and> ui_created a = ui_created b)"

lemma same_declaration_refl [simp]: "same_declaration a a"
  by (simp add: same_declaration_def)

lemma same_declaration_trans: "same_declaration a b \<Longrightarrow> same_declaration b c \<Longrightarrow> same_declaration a c"
  by (simp add: same_declaration_def)

text \<open>A key that does not look like the key of a transfer attempt.\<close>

definition plain_key :: "string \<Rightarrow> bool" where
  "plain_key s = (s \<noteq> [] \<and> (case split_marker s of Some (base, n) \<Rightarrow> attempt_suffix n = None | None \<Rightarrow> True))"

definition version_matches :: "object_version \<Rightarrow> upload_intent \<Rightarrow> bool" where
  "version_matches v it = (validate_preflight_version v it = Inr v)"

section \<open>The row machine\<close>

inductive intent_step :: "upload_settings \<Rightarrow> int \<Rightarrow> upload_intent \<Rightarrow> upload_intent \<Rightarrow> bool"
  for st now where
  claim_transfer: "ui_state it \<in> {UPending, UTransferring} \<Longrightarrow> now < ui_expires it \<Longrightarrow>
    ui_attempts it < us_attempts_per_intent st \<Longrightarrow>
    attempt_staging_key (ui_staging_key it) (ui_attempts it + 1) = Inr key \<Longrightarrow>
    intent_step st now it (it\<lparr>ui_state := UTransferring, ui_transfer_until := Some u,
      ui_attempts := ui_attempts it + 1\<rparr>)"
| renew_transfer: "ui_state it = UTransferring \<Longrightarrow> intent_step st now it (it\<lparr>ui_transfer_until := Some u\<rparr>)"
| release_transfer: "ui_state it = UTransferring \<Longrightarrow>
    intent_step st now it (it\<lparr>ui_state := (if late then UExpired else UPending), ui_transfer_until := None\<rparr>)"
| complete_transfer: "ui_state it = UTransferring \<Longrightarrow> now < ui_expires it \<Longrightarrow> version_matches v it \<Longrightarrow>
    attempt_staging_key (ui_staging_key it) (ui_attempts it) = Inr key \<Longrightarrow>
    intent_step st now it (it\<lparr>ui_state := UUploaded, ui_transfer_until := None, ui_staging_key := key,
      ui_verified_size := Some (ov_size v), ui_verified_type := ov_content_type v,
      ui_verified_checksum := Some (ov_checksum v), ui_version := Some v, ui_uploaded := Some now\<rparr>)"
| direct: "ui_state it = UPending \<Longrightarrow> now < ui_expires it \<Longrightarrow> version_matches v it \<Longrightarrow>
    intent_step st now it (mark_uploaded v now it)"
| reject: "ui_state it = UUploaded \<Longrightarrow>
    intent_step st now it (it\<lparr>ui_state := URejected, ui_error := e, ui_updated := now\<rparr>)"
| expire: "ui_state it \<in> {UPending, UTransferring, UUploaded} \<Longrightarrow> ui_expires it \<le> now \<Longrightarrow>
    intent_step st now it (it\<lparr>ui_state := UExpired, ui_transfer_until := None, ui_updated := u\<rparr>)"
| claim: "ui_state it = UUploaded \<Longrightarrow> now < ui_expires it \<Longrightarrow> key \<noteq> [] \<Longrightarrow> old \<noteq> Some [] \<Longrightarrow>
    intent_step st now it (it\<lparr>ui_final_key := Some key, ui_old_key := old, ui_old_version := ov,
      ui_final_target := Some pk, ui_state := UFinalizing, ui_error := [], ui_dimensions := d, ui_updated := now\<rparr>)"
| attempt: "ui_state it = UFinalizing \<Longrightarrow> (l = None \<Longrightarrow> t = []) \<Longrightarrow>
    intent_step st now it (it\<lparr>ui_lease_until := l, ui_lease_token := t, ui_finalizations := n, ui_error := e,
      ui_updated := now\<rparr>)"
| supersede: "ui_state it = UFinalizing \<Longrightarrow> intent_step st now it (supersede now it)"
| consume: "ui_state it = UFinalizing \<Longrightarrow>
    intent_step st now it (it\<lparr>ui_state := UConsumed, ui_consumed := Some now, ui_error := [], ui_lease_until := None,
      ui_lease_token := [], ui_final_version := Some fv, ui_updated := now\<rparr>)"
| old: "ui_state it = UConsumed \<Longrightarrow>
    intent_step st now it (it\<lparr>ui_old_cleanup := oc, ui_old_cleanup_completed := od, ui_updated := now\<rparr>)"
| cleaning: "ui_state it \<in> set terminal_states \<Longrightarrow> ui_cleanup_completed it = None \<Longrightarrow> (l = None \<Longrightarrow> t = []) \<Longrightarrow>
    intent_step st now it (it\<lparr>ui_lease_until := l, ui_lease_token := t, ui_cleanup_error := e, ui_updated := now\<rparr>)"
| cleaned: "ui_state it \<in> set terminal_states \<Longrightarrow> ui_cleanup_completed it = None \<Longrightarrow>
    intent_step st now it (it\<lparr>ui_cleanup_completed := Some now, ui_cleanup_error := [], ui_lease_until := None,
      ui_lease_token := [], ui_updated := now\<rparr>)"

abbreviation intent_steps :: "upload_settings \<Rightarrow> int \<Rightarrow> upload_intent \<Rightarrow> upload_intent \<Rightarrow> bool" where
  "intent_steps st now \<equiv> (intent_step st now)\<^sup>*\<^sup>*"

section \<open>Transitions of the state\<close>

text \<open>The successors of each state; the four terminal ones have none.\<close>

fun successors :: "upload_state \<Rightarrow> upload_state set" where
  "successors UPending = {UTransferring, UUploaded, UExpired}"
| "successors UTransferring = {UPending, UUploaded, UExpired}"
| "successors UUploaded = {UFinalizing, URejected, UExpired}"
| "successors UFinalizing = {UConsumed, USuperseded}"
| "successors UConsumed = {}"
| "successors USuperseded = {}"
| "successors URejected = {}"
| "successors UExpired = {}"

definition moves :: "upload_state \<Rightarrow> upload_state \<Rightarrow> bool" where
  "moves = (\<lambda>a b. b \<in> successors a)\<^sup>*\<^sup>*"

lemma moves_refl [simp]: "moves a a"
  by (simp add: moves_def)

lemma moves_trans: "moves a b \<Longrightarrow> moves b c \<Longrightarrow> moves a c"
  by (auto simp: moves_def)

lemma moves_terminal: "moves a b \<Longrightarrow> a \<in> set terminal_states \<Longrightarrow> b = a"
proof (unfold moves_def, induction rule: rtranclp_induct)
  case base
  then show ?case by simp
next
  case (step y z)
  then show ?case by (auto simp: terminal_states_def)
qed

lemma intent_step_state: "intent_step st now it it' \<Longrightarrow> ui_state it' = ui_state it \<or> ui_state it' \<in> successors (ui_state it)"
  by (induction rule: intent_step.induct) (auto simp: mark_uploaded_def supersede_def)

lemma intent_step_declaration: "intent_step st now it it' \<Longrightarrow> same_declaration it it'"
  by (induction rule: intent_step.induct) (simp_all add: same_declaration_def mark_uploaded_def supersede_def)

lemma intent_steps_moves: "intent_steps st now it it' \<Longrightarrow> moves (ui_state it) (ui_state it')"
proof (induction rule: rtranclp_induct)
  case base
  then show ?case by simp
next
  case (step y z)
  have "moves (ui_state y) (ui_state z)"
    using intent_step_state [OF step.hyps(2)] by (auto simp: moves_def)
  with step.IH show ?case by (rule moves_trans)
qed

lemma intent_steps_declaration: "intent_steps st now it it' \<Longrightarrow> same_declaration it it'"
  by (induction rule: rtranclp_induct) (auto intro: same_declaration_trans intent_step_declaration)

text \<open>Once reserved, the names and the target of the file stay; in a terminal state so does the stage.\<close>

lemma intent_step_reserved:
  "intent_step st now it it' \<Longrightarrow> ui_state it \<in> {UFinalizing, UConsumed, USuperseded} \<Longrightarrow>
   ui_final_key it' = ui_final_key it \<and> ui_old_key it' = ui_old_key it \<and> ui_final_target it' = ui_final_target it"
  by (induction rule: intent_step.induct) (simp_all add: mark_uploaded_def supersede_def)

definition same_objects :: "upload_intent \<Rightarrow> upload_intent \<Rightarrow> bool" where
  "same_objects a b =
     (ui_state a = ui_state b \<and> ui_staging_key a = ui_staging_key b \<and> ui_attempts a = ui_attempts b
      \<and> ui_version a = ui_version b \<and> ui_final_key a = ui_final_key b \<and> ui_old_key a = ui_old_key b
      \<and> ui_final_target a = ui_final_target b)"

lemma intent_step_terminal: "intent_step st now it it' \<Longrightarrow> ui_state it \<in> set terminal_states \<Longrightarrow> same_objects it it'"
  by (induction rule: intent_step.induct) (auto simp: same_objects_def mark_uploaded_def supersede_def terminal_states_def)

lemma intent_steps_terminal: "intent_steps st now it it' \<Longrightarrow> ui_state it \<in> set terminal_states \<Longrightarrow> same_objects it it'"
proof (induction rule: rtranclp_induct)
  case base
  then show ?case by (simp add: same_objects_def)
next
  case (step y z)
  then show ?case using intent_step_terminal [OF step.hyps(2)] by (simp add: same_objects_def)
qed

lemma intent_steps_reserved:
  "intent_steps st now it it' \<Longrightarrow> ui_state it \<in> {UFinalizing, UConsumed, USuperseded} \<Longrightarrow>
   ui_state it' \<in> {UFinalizing, UConsumed, USuperseded} \<and> ui_final_key it' = ui_final_key it
   \<and> ui_old_key it' = ui_old_key it \<and> ui_final_target it' = ui_final_target it"
proof (induction rule: rtranclp_induct)
  case base
  then show ?case by simp
next
  case (step y z)
  then show ?case
    using intent_step_reserved [OF step.hyps(2)] intent_step_state [OF step.hyps(2)] by auto
qed

section \<open>The keys of transfer attempts\<close>

lemma split_marker_Some: "split_marker s = Some (b, n) \<Longrightarrow> s = b @ attempt_marker @ n"
proof (induction s arbitrary: b)
  case Nil
  then show ?case by simp
next
  case (Cons c s)
  show ?case
  proof (cases "split_marker s")
    case (Some p)
    with Cons show ?thesis by (cases p) auto
  next
    case None
    with Cons.prems have t: "take (length attempt_marker) (c # s) = attempt_marker" "b = []"
      "n = drop (length attempt_marker) (c # s)"
      by (auto split: if_splits)
    have "attempt_marker @ drop (length attempt_marker) (c # s) = c # s"
      using append_take_drop_id [of "length attempt_marker" "c # s"] t(1) by simp
    with t show ?thesis by simp
  qed
qed

lemma split_marker_no_dot: "CHR ''.'' \<notin> set s \<Longrightarrow> split_marker s = None"
proof (cases "split_marker s")
  case (Some p)
  assume "CHR ''.'' \<notin> set s"
  moreover have "s = fst p @ attempt_marker @ snd p" using Some by (intro split_marker_Some) simp
  ultimately show ?thesis by (auto simp: attempt_marker_def)
qed simp

lemma split_marker_tail: "split_marker s = Some (b, n) \<Longrightarrow> split_marker (p @ s) = Some (p @ b, n)"
  by (induction p) auto

lemma split_marker_digits:
  assumes "CHR ''.'' \<notin> set n"
  shows "split_marker (base @ attempt_marker @ n) = Some (base, n)"
proof -
  have m: "attempt_marker = CHR ''.'' # tl attempt_marker" by (simp add: attempt_marker_def)
  have "CHR ''.'' \<notin> set (tl attempt_marker @ n)" using assms by (simp add: attempt_marker_def)
  then have "split_marker (tl attempt_marker @ n) = None" by (rule split_marker_no_dot)
  moreover have "take (length attempt_marker) (CHR ''.'' # tl attempt_marker @ n) = attempt_marker"
    by (simp add: attempt_marker_def)
  moreover have "drop (length attempt_marker) (CHR ''.'' # tl attempt_marker @ n) = n"
    by (simp add: attempt_marker_def)
  ultimately have "split_marker (CHR ''.'' # tl attempt_marker @ n) = Some ([], n)" by simp
  then have "split_marker (attempt_marker @ n) = Some ([], n)" by (subst m) simp
  from split_marker_tail [OF this, of base] show ?thesis by simp
qed

lemma digit_char_listed: "c \<in> digit_chars \<Longrightarrow> c \<in> set ''0123456789''"
proof -
  assume c: "c \<in> digit_chars"
  define n :: nat where "n = of_char c"
  have e: "c = char_of n" by (simp add: n_def)
  from c have "48 \<le> n" "n \<le> 57" by (simp_all add: n_def)
  then have "n = 48 \<or> n = 49 \<or> n = 50 \<or> n = 51 \<or> n = 52 \<or> n = 53 \<or> n = 54 \<or> n = 55 \<or> n = 56 \<or> n = 57"
    by presburger
  then show ?thesis unfolding e by (elim disjE) (simp_all add: char_of_def bit_0)
qed

lemma attempt_suffix_int_str: "0 < n \<Longrightarrow> attempt_suffix (int_str n) = Some n"
proof -
  assume n: "0 < n"
  let ?s = "decimal (nat n)"
  have s: "int_str n = ?s" using n by (simp add: int_str_def)
  have "set ?s \<subseteq> digit_chars" using decimal_digits_chars [of "nat n" "[]"] by (simp add: decimal_def)
  then have d: "list_all (\<lambda>c. c \<in> set ''0123456789'') ?s"
    using digit_char_listed by (auto simp: list_all_iff simp del: list.set)
  have ne: "?s \<noteq> []" using decimal_digits_nonempty by (simp add: decimal_def)
  have "hd ?s \<noteq> CHR ''0''" using n decimal_digits_head [of "nat n" "[]"] by (simp add: decimal_def)
  moreover have "hd ?s \<in> set ''0123456789''" using d ne by (cases ?s) auto
  ultimately have "hd ?s \<in> set ''123456789''" by auto
  moreover have "parse_digits False 0 ?s = Some n"
    using n by (simp add: decimal_def parse_decimal_digits)
  ultimately show ?thesis using s d ne by (simp add: attempt_suffix_def)
qed

lemma int_str_no_dot: "0 < n \<Longrightarrow> CHR ''.'' \<notin> set (int_str n)"
  using decimal_digits_chars [of "nat n" "[]"] by (auto simp: int_str_def decimal_def)

text \<open>The keys the framework makes are plain: the prefix, 32 hexadecimal digits, a slash and 32 more.\<close>

lemma generated_key_plain:
  assumes "list_all hex_lower h" "h \<noteq> []"
  shows "plain_key (prefix @ CHR ''/'' # h)"
proof -
  have "attempt_suffix n = None" if "split_marker (prefix @ CHR ''/'' # h) = Some (b, n)" for b n
  proof -
    have e: "prefix @ CHR ''/'' # h = (b @ attempt_marker) @ n" using split_marker_Some [OF that] by simp
    show ?thesis
    proof (cases "length n \<le> length h")
      case True
      have "(CHR ''/'' # h) = drop (length prefix) ((b @ attempt_marker) @ n)"
        by (subst e [symmetric]) simp
      moreover have "length prefix + Suc (length h) = length (b @ attempt_marker) + length n"
        using arg_cong [OF e, of length] by simp
      then have l: "length prefix < length (b @ attempt_marker)" using True by simp
      ultimately have "CHR ''/'' # h = drop (length prefix) (b @ attempt_marker) @ n" by simp
      moreover from l have "last (drop (length prefix) (b @ attempt_marker)) = CHR ''-''"
        "drop (length prefix) (b @ attempt_marker) \<noteq> []"
        by (simp_all only: last_drop drop_eq_Nil not_le) (simp add: attempt_marker_def)
      ultimately have "CHR ''-'' \<in> set (CHR ''/'' # h)"
        by (metis Un_iff last_in_set set_append)
      then have "CHR ''-'' \<in> set h" by simp
      with assms(1) have "hex_lower CHR ''-''" by (simp only: list_all_iff)
      then show ?thesis by (simp add: hex_lower_def)
    next
      case False
      have "length prefix + Suc (length h) = length (b @ attempt_marker) + length n"
        using arg_cong [OF e, of length] by simp
      with False have l: "length (b @ attempt_marker) \<le> length prefix" by simp
      have "n = drop (length (b @ attempt_marker)) (prefix @ CHR ''/'' # h)" by (subst e) simp
      also have "\<dots> = drop (length (b @ attempt_marker)) prefix @ CHR ''/'' # h" using l by simp
      finally have "CHR ''/'' \<in> set n" by simp
      then show ?thesis by (auto simp: attempt_suffix_def list_all_iff)
    qed
  qed
  then show ?thesis by (auto simp: plain_key_def split: option.splits)
qed

section \<open>The invariant of a row\<close>

text \<open>\<open>stage_ok b it\<close>: the staging key is the base \<open>b\<close> until an attempt completes; all attempts so far
  had keys that fit the column.\<close>

definition stage_ok :: "string \<Rightarrow> upload_intent \<Rightarrow> bool" where
  "stage_ok b it =
     (plain_key b \<and> 0 \<le> ui_attempts it
      \<and> (\<forall>n\<in>{1..ui_attempts it}. attempt_staging_key b n = Inr (b @ attempt_marker @ int_str n))
      \<and> (ui_staging_key it = b
         \<or> 0 < ui_attempts it \<and> ui_staging_key it = b @ attempt_marker @ int_str (ui_attempts it)
           \<and> ui_state it \<notin> {UPending, UTransferring})
      \<and> (ui_state it = UTransferring \<longrightarrow> 0 < ui_attempts it))"

definition intent_ok :: "upload_settings \<Rightarrow> upload_intent \<Rightarrow> bool" where
  "intent_ok st it =
     (0 \<le> ui_declared_size it \<and> ui_declared_checksum it \<noteq> []
      \<and> ui_attempts it \<le> max 0 (us_attempts_per_intent st)
      \<and> ((ui_transfer_until it \<noteq> None) = (ui_state it = UTransferring))
      \<and> (ui_state it \<in> {UUploaded, UFinalizing, UConsumed, USuperseded, URejected} \<longrightarrow>
           (\<exists>v. stored_object_version it = Inr v))
      \<and> ((ui_final_key it \<noteq> None) = (ui_state it \<in> {UFinalizing, UConsumed, USuperseded}))
      \<and> ((ui_final_target it \<noteq> None) = (ui_state it \<in> {UFinalizing, UConsumed, USuperseded}))
      \<and> ui_final_key it \<noteq> Some [] \<and> ui_old_key it \<noteq> Some []
      \<and> (ui_state it = UConsumed \<longrightarrow> ui_final_version it \<noteq> None \<and> ui_consumed it \<noteq> None)
      \<and> (ui_lease_until it = None \<longrightarrow> ui_lease_token it = [])
      \<and> (ui_lease_until it \<noteq> None \<longrightarrow> ui_state it = UFinalizing \<or> ui_state it \<in> set terminal_states)
      \<and> (ui_cleanup_completed it \<noteq> None \<longrightarrow> ui_state it \<in> set terminal_states \<and> ui_lease_until it = None))"

lemma attempt_key_eq: "attempt_staging_key b n = Inr k \<Longrightarrow> k = b @ attempt_marker @ int_str n"
  by (auto simp: attempt_staging_key_def Let_def split: if_splits)

lemma stage_ok_base: "stage_ok b it \<Longrightarrow> attempt_base it = Inr b"
proof -
  assume ok: "stage_ok b it"
  then consider "ui_staging_key it = b"
    | "0 < ui_attempts it" "ui_staging_key it = b @ attempt_marker @ int_str (ui_attempts it)"
    by (auto simp: stage_ok_def)
  then show ?thesis
  proof cases
    case 1
    with ok show ?thesis
      by (auto simp: stage_ok_def plain_key_def attempt_base_def split: option.splits list.splits)
  next
    case 2
    from ok have b: "b \<noteq> []" by (simp add: stage_ok_def plain_key_def)
    have "split_marker (ui_staging_key it) = Some (b, int_str (ui_attempts it))"
      using split_marker_digits [OF int_str_no_dot [OF 2(1)]] 2(2) by simp
    with b attempt_suffix_int_str [OF 2(1)] show ?thesis
      by (cases b) (simp_all add: attempt_base_def)
  qed
qed

lemma stage_ok_unique: "stage_ok b it \<Longrightarrow> stage_ok b' it \<Longrightarrow> b = b'"
  using stage_ok_base [of b it] stage_ok_base [of b' it] by simp

text \<open>Cleanup finds the key of every attempt.\<close>

lemma staging_keys_complete:
  assumes "stage_ok b it"
  shows "\<exists>keys. staging_keys it = Inr keys \<and> ui_staging_key it \<in> set keys \<and> b \<in> set keys
    \<and> (\<forall>n\<in>{1..ui_attempts it}. b @ attempt_marker @ int_str n \<in> set keys)"
proof -
  let ?key = "\<lambda>n. b @ attempt_marker @ int_str n"
  have "collect_until (attempt_staging_key b) ns = Inr (map ?key ns)"
    if "set ns \<subseteq> {1..ui_attempts it}" for ns
    using that assms unfolding stage_ok_def by (induction ns) auto
  from this [of "[1..ui_attempts it]"]
  have "proxy_attempt_stage_keys it = Inr (map ?key [1..ui_attempts it])"
    using assms stage_ok_base [OF assms] by (simp add: proxy_attempt_stage_keys_def stage_ok_def)
  then have "staging_keys it = Inr (rev (remdups (rev ([ui_staging_key it]
      @ (case split_marker (ui_staging_key it) of Some (base, n) \<Rightarrow> [base] | None \<Rightarrow> [])
      @ map ?key [1..ui_attempts it]))))" (is "_ = Inr ?keys")
    by (simp add: staging_keys_def)
  moreover have "b \<in> set ?keys"
  proof (cases "ui_staging_key it = b")
    case False
    with assms have "0 < ui_attempts it" "ui_staging_key it = ?key (ui_attempts it)"
      by (auto simp: stage_ok_def)
    then have "split_marker (ui_staging_key it) = Some (b, int_str (ui_attempts it))"
      using split_marker_digits [OF int_str_no_dot] by simp
    then show ?thesis by simp
  qed simp
  ultimately show ?thesis by auto
qed

lemma stored_version_matches:
  "version_matches v it \<Longrightarrow> 0 \<le> ui_declared_size it \<Longrightarrow> ui_declared_checksum it \<noteq> [] \<Longrightarrow>
   ui_version it' = Some v \<Longrightarrow> ui_verified_size it' = Some (ov_size v) \<Longrightarrow> ui_verified_type it' = ov_content_type v \<Longrightarrow>
   ui_verified_checksum it' = Some (ov_checksum v) \<Longrightarrow> same_declaration it it' \<Longrightarrow>
   stored_object_version it' = Inr v"
  by (auto simp: version_matches_def stored_object_version_def validate_preflight_version_def
      object_version_ok_def same_declaration_def split: if_splits)

lemma stored_version_cong:
  "ui_version it' = ui_version it \<Longrightarrow> ui_verified_size it' = ui_verified_size it \<Longrightarrow>
   ui_verified_type it' = ui_verified_type it \<Longrightarrow> ui_verified_checksum it' = ui_verified_checksum it \<Longrightarrow>
   same_declaration it it' \<Longrightarrow> stored_object_version it' = stored_object_version it"
  by (simp add: stored_object_version_def validate_preflight_version_def same_declaration_def split: option.splits)

section \<open>Every step keeps the invariant\<close>

lemma stage_ok_cong:
  "stage_ok b it \<Longrightarrow> ui_staging_key it' = ui_staging_key it \<Longrightarrow> ui_attempts it' = ui_attempts it \<Longrightarrow>
   (ui_state it' \<in> {UPending, UTransferring} \<Longrightarrow> ui_state it \<in> {UPending, UTransferring}) \<Longrightarrow>
   (ui_state it' = UTransferring \<Longrightarrow> ui_state it = UTransferring) \<Longrightarrow> stage_ok b it'"
  by (auto simp: stage_ok_def)

lemma intent_step_stage_ok: "intent_step st now it it' \<Longrightarrow> stage_ok b it \<Longrightarrow> stage_ok b it'"
proof (induction rule: intent_step.induct)
  case (claim_transfer it key u)
  then have base: "ui_staging_key it = b" and n: "0 \<le> ui_attempts it" by (auto simp: stage_ok_def)
  from claim_transfer.hyps(4) have key: "attempt_staging_key b (ui_attempts it + 1) =
      Inr (b @ attempt_marker @ int_str (ui_attempts it + 1))"
    using attempt_key_eq by (simp add: base)
  have split: "n \<in> {1..ui_attempts it} \<or> n = ui_attempts it + 1" if "n \<in> {1..ui_attempts it + 1}" for n
    using that by auto
  have "\<forall>n\<in>{1..ui_attempts it + 1}. attempt_staging_key b n = Inr (b @ attempt_marker @ int_str n)"
  proof
    fix n assume "n \<in> {1..ui_attempts it + 1}"
    from split [OF this] show "attempt_staging_key b n = Inr (b @ attempt_marker @ int_str n)"
      using claim_transfer.prems key unfolding stage_ok_def by blast
  qed
  with claim_transfer.prems base n show ?case by (simp add: stage_ok_def)
next
  case (complete_transfer it v key)
  then have "ui_staging_key it = b" "0 < ui_attempts it" by (auto simp: stage_ok_def)
  with complete_transfer.prems attempt_key_eq [OF complete_transfer.hyps(4)]
  show ?case by (simp add: stage_ok_def)
qed (erule stage_ok_cong; simp add: mark_uploaded_def supersede_def terminal_states_def split: if_splits; fail)+

lemma intent_ok_cong:
  assumes "intent_ok st it" "same_declaration it it'" "ui_state it' = ui_state it" "ui_attempts it' = ui_attempts it"
    "ui_transfer_until it' = ui_transfer_until it" "stored_object_version it' = stored_object_version it"
    "ui_final_key it' = ui_final_key it" "ui_final_target it' = ui_final_target it" "ui_old_key it' = ui_old_key it"
    "ui_final_version it' = ui_final_version it" "ui_consumed it' = ui_consumed it"
    "ui_lease_until it' = None \<longrightarrow> ui_lease_token it' = []"
    "ui_lease_until it' \<noteq> None \<longrightarrow> ui_state it = UFinalizing \<or> ui_state it \<in> set terminal_states"
    "ui_cleanup_completed it' \<noteq> None \<longrightarrow> ui_state it \<in> set terminal_states \<and> ui_lease_until it' = None"
  shows "intent_ok st it'"
  using assms by (simp add: intent_ok_def same_declaration_def)

lemma intent_ok_lease:
  "intent_ok st it \<Longrightarrow> (ui_lease_until it = None \<longrightarrow> ui_lease_token it = [])
     \<and> (ui_lease_until it \<noteq> None \<longrightarrow> ui_state it = UFinalizing \<or> ui_state it \<in> set terminal_states)
     \<and> (ui_cleanup_completed it \<noteq> None \<longrightarrow> ui_state it \<in> set terminal_states \<and> ui_lease_until it = None)"
  by (simp add: intent_ok_def)

lemma intent_step_ok: "intent_step st now it it' \<Longrightarrow> intent_ok st it \<Longrightarrow> intent_ok st it'"
proof (induction rule: intent_step.induct)
  case (complete_transfer it v key)
  let ?it = "it\<lparr>ui_state := UUploaded, ui_transfer_until := None, ui_staging_key := key,
      ui_verified_size := Some (ov_size v), ui_verified_type := ov_content_type v,
      ui_verified_checksum := Some (ov_checksum v), ui_version := Some v, ui_uploaded := Some now\<rparr>"
  from complete_transfer have "stored_object_version ?it = Inr v"
    by (intro stored_version_matches [of v it]) (simp_all add: intent_ok_def same_declaration_def)
  with complete_transfer show ?case by (simp add: intent_ok_def terminal_states_def)
next
  case (direct it v)
  then have "stored_object_version (mark_uploaded v now it) = Inr v"
    by (intro stored_version_matches [of v it]) (simp_all add: intent_ok_def same_declaration_def mark_uploaded_def)
  with direct show ?case by (simp add: intent_ok_def terminal_states_def mark_uploaded_def)
next
  case (reject it e)
  then have "stored_object_version (it\<lparr>ui_state := URejected, ui_error := e, ui_updated := now\<rparr>) = stored_object_version it"
    by (intro stored_version_cong) (simp_all add: same_declaration_def)
  with reject show ?case by (simp add: intent_ok_def terminal_states_def)
next
  case (claim it key old d pk ov)
  let ?it = "it\<lparr>ui_final_key := Some key, ui_old_key := old, ui_old_version := ov, ui_final_target := Some pk,
    ui_state := UFinalizing, ui_error := [], ui_dimensions := d, ui_updated := now\<rparr>"
  have "stored_object_version ?it = stored_object_version it"
    by (intro stored_version_cong) (simp_all add: same_declaration_def)
  with claim show ?case by (simp add: intent_ok_def terminal_states_def)
next
  case (supersede it)
  then have "stored_object_version (supersede now it) = stored_object_version it"
    by (intro stored_version_cong) (simp_all add: same_declaration_def supersede_def)
  with supersede show ?case by (simp add: intent_ok_def terminal_states_def supersede_def)
next
  case (consume it fv)
  let ?it = "it\<lparr>ui_state := UConsumed, ui_consumed := Some now, ui_error := [], ui_lease_until := None,
      ui_lease_token := [], ui_final_version := Some fv, ui_updated := now\<rparr>"
  have "stored_object_version ?it = stored_object_version it"
    by (intro stored_version_cong) (simp_all add: same_declaration_def)
  with consume show ?case by (simp add: intent_ok_def terminal_states_def)
next
  case (attempt it l t e n)
  have "stored_object_version (it\<lparr>ui_lease_until := l, ui_lease_token := t, ui_finalizations := n, ui_error := e,
      ui_updated := now\<rparr>) = stored_object_version it"
    by (intro stored_version_cong) (simp_all add: same_declaration_def)
  with attempt intent_ok_lease [of st it] show ?case
    by - (rule intent_ok_cong [of st it], simp_all add: same_declaration_def terminal_states_def)
next
  case (old it od oc)
  have "stored_object_version (it\<lparr>ui_old_cleanup := oc, ui_old_cleanup_completed := od, ui_updated := now\<rparr>)
      = stored_object_version it"
    by (intro stored_version_cong) (simp_all add: same_declaration_def)
  with old intent_ok_lease [of st it] show ?case
    by - (rule intent_ok_cong [of st it], simp_all add: same_declaration_def)
next
  case (cleaning it l t e)
  have "stored_object_version (it\<lparr>ui_lease_until := l, ui_lease_token := t, ui_cleanup_error := e, ui_updated := now\<rparr>)
      = stored_object_version it"
    by (intro stored_version_cong) (simp_all add: same_declaration_def)
  with cleaning intent_ok_lease [of st it] show ?case
    by - (rule intent_ok_cong [of st it], simp_all add: same_declaration_def)
next
  case (cleaned it)
  have "stored_object_version (it\<lparr>ui_cleanup_completed := Some now, ui_cleanup_error := [], ui_lease_until := None,
      ui_lease_token := [], ui_updated := now\<rparr>) = stored_object_version it"
    by (intro stored_version_cong) (simp_all add: same_declaration_def)
  with cleaned intent_ok_lease [of st it] show ?case
    by - (rule intent_ok_cong [of st it], simp_all add: same_declaration_def)
next
  case (claim_transfer it key u)
  then have "ui_state it = UPending \<or> ui_state it = UTransferring"
    "ui_attempts it + 1 \<le> max 0 (us_attempts_per_intent st)" by auto
  then show ?case using claim_transfer.prems
    by (elim disjE) (simp_all add: intent_ok_def terminal_states_def)
next
  case (renew_transfer it u)
  then have "stored_object_version (it\<lparr>ui_transfer_until := Some u\<rparr>) = stored_object_version it"
    by (intro stored_version_cong) (simp_all add: same_declaration_def)
  with renew_transfer show ?case by (simp add: intent_ok_def terminal_states_def)
next
  case (release_transfer it late)
  then show ?case by (cases late) (simp_all add: intent_ok_def terminal_states_def)
next
  case (expire it u)
  then have "ui_state it = UPending \<or> ui_state it = UTransferring \<or> ui_state it = UUploaded" by blast
  then show ?case using expire.prems
    by (elim disjE) (simp_all add: intent_ok_def terminal_states_def)
qed

lemma intent_steps_ok: "intent_steps st now it it' \<Longrightarrow> intent_ok st it \<Longrightarrow> intent_ok st it'"
  by (induction rule: rtranclp_induct) (auto intro: intent_step_ok)

lemma intent_steps_stage_ok: "intent_steps st now it it' \<Longrightarrow> stage_ok b it \<Longrightarrow> stage_ok b it'"
  by (induction rule: rtranclp_induct) (auto intro: intent_step_stage_ok)

lemma intent_step_attempts: "intent_step st now it it' \<Longrightarrow> ui_attempts it \<le> ui_attempts it'"
  by (induction rule: intent_step.induct) (simp_all add: mark_uploaded_def supersede_def)

lemma intent_steps_attempts: "intent_steps st now it it' \<Longrightarrow> ui_attempts it \<le> ui_attempts it'"
  by (induction rule: rtranclp_induct) (auto dest: intent_step_attempts)

section \<open>What counts for the quotas\<close>

lemma intent_step_counts: "intent_step st now it it' \<Longrightarrow> counts_for_quota now it' \<Longrightarrow> counts_for_quota now it"
  by (induction rule: intent_step.induct)
     (auto simp: counts_for_quota_def quota_states_def mark_uploaded_def supersede_def terminal_states_def
       split: if_splits)

lemma intent_steps_counts: "intent_steps st now it it' \<Longrightarrow> counts_for_quota now it' \<Longrightarrow> counts_for_quota now it"
  by (induction rule: rtranclp_induct) (auto dest: intent_step_counts)

lemma counts_later: "now \<le> now' \<Longrightarrow> counts_for_quota now' it \<Longrightarrow> counts_for_quota now it"
  by (auto simp: counts_for_quota_def)

lemma od_sum_dominated:
  "od_wf d' \<Longrightarrow> od_wf d \<Longrightarrow> (\<And>v. 0 \<le> f v) \<Longrightarrow>
   (\<And>k v'. od_get d' k = Some v' \<Longrightarrow> \<exists>v. od_get d k = Some v \<and> g v' \<le> f v) \<Longrightarrow> od_sum g d' \<le> od_sum f d"
proof (induction d' arbitrary: d)
  case Nil
  then show ?case by (simp add: od_sum_nonneg)
next
  case (Cons p d')
  obtain k v' where p: "p = (k, v')" by (cases p)
  from Cons.prems(4) [of k v'] p obtain v where v: "od_get d k = Some v" "g v' \<le> f v" by auto
  have absent: "od_get d' k = None" using Cons.prems(1) p by (simp add: od_get_None_iff)
  have "od_sum g d' \<le> od_sum f (od_pop k d)"
  proof (rule Cons.IH)
    fix k2 v2 assume g: "od_get d' k2 = Some v2"
    with absent have "k2 \<noteq> k" by auto
    with g Cons.prems(4) [of k2 v2] p show "\<exists>v. od_get (od_pop k d) k2 = Some v \<and> g v2 \<le> f v"
      by (simp add: od_get_pop)
  qed (use Cons.prems p in \<open>simp_all add: od_wf_pop\<close>)
  with v p Cons.prems(2) show ?case by (simp add: od_sum_pop)
qed

lemma od_sum_filter: "od_sum f (filter (\<lambda>(i, it). P it) db) = od_sum (\<lambda>it. if P it then f it else 0) db"
  by (induction db) auto

lemma length_filter_sum: "int (length (filter (\<lambda>(i, it). P it) db)) = od_sum (\<lambda>it. if P it then 1 else 0) db"
  by (induction db) auto

definition quota_load :: "int \<Rightarrow> string option \<Rightarrow> intents \<Rightarrow> int \<times> int" where
  "quota_load now owner db =
     (let active = filter (\<lambda>(i, it). counts_for_quota now it \<and> (owner = None \<or> ui_user it = owner)) db
      in (int (length active), total_bytes active))"

lemma quota_load_sums:
  "quota_load now owner db =
     (od_sum (\<lambda>it. if counts_for_quota now it \<and> (owner = None \<or> ui_user it = owner) then 1 else 0) db,
      od_sum (\<lambda>it. if counts_for_quota now it \<and> (owner = None \<or> ui_user it = owner) then ui_declared_size it else 0) db)"
  by (simp add: quota_load_def Let_def total_bytes_def od_sum_filter length_filter_sum)

lemma quota_load_active: "quota_load now None db = (int (length (active_intents now db)), total_bytes (active_intents now db))"
  by (simp add: quota_load_def active_intents_def Let_def)

lemma quota_load_owner:
  "quota_load now (Some owner) db =
     (int (length (owned_by owner (active_intents now db))), total_bytes (owned_by owner (active_intents now db)))"
proof -
  have "filter (\<lambda>(i, it). counts_for_quota now it \<and> (Some owner = None \<or> ui_user it = Some owner)) db =
      owned_by owner (active_intents now db)"
    by (induction db) (auto simp: owned_by_def active_intents_def)
  then show ?thesis by (simp only: quota_load_def Let_def)
qed

text \<open>The load never grows by the passing of time and by steps of rows that exist.\<close>

lemma quota_load_antimono:
  assumes "od_wf db" "od_wf db'" "now \<le> now'"
    and sizes: "\<And>i it. od_get db i = Some it \<Longrightarrow> 0 \<le> ui_declared_size it"
    and rows: "\<And>i it'. od_get db' i = Some it' \<Longrightarrow> \<exists>it. od_get db i = Some it \<and> intent_steps st now it it'"
  shows "fst (quota_load now' owner db') \<le> fst (quota_load now owner db)"
    and "snd (quota_load now' owner db') \<le> snd (quota_load now owner db)"
proof -
  let ?on = "\<lambda>t it. counts_for_quota t it \<and> (owner = None \<or> ui_user it = owner)"
  have step: "?on now' it' \<Longrightarrow> ?on now it" if "intent_steps st now it it'" for it it'
    using intent_steps_counts [OF that] counts_later [OF assms(3)] intent_steps_declaration [OF that]
    by (auto simp: same_declaration_def)
  have row: "\<exists>it. od_get db i = Some it \<and> (?on now' it' \<longrightarrow> ?on now it) \<and> ui_declared_size it' = ui_declared_size it
      \<and> 0 \<le> ui_declared_size it" if "od_get db' i = Some it'" for i it'
  proof -
    from rows [OF that] obtain it where it: "od_get db i = Some it" "intent_steps st now it it'" by blast
    with step [OF it(2)] sizes [OF it(1)] intent_steps_declaration [OF it(2)] show ?thesis
      by (auto simp: same_declaration_def)
  qed
  have "od_sum (\<lambda>it. if ?on now' it then 1 else 0) db' \<le> od_sum (\<lambda>it. if ?on now it then 1 else 0) db"
  proof (rule od_sum_dominated [OF assms(2,1)])
    fix i it' assume "od_get db' i = Some it'"
    from row [OF this] show "\<exists>v. od_get db i = Some v \<and> (if ?on now' it' then 1 else 0) \<le> (if ?on now v then (1 :: int) else 0)"
      by auto
  qed simp
  then show "fst (quota_load now' owner db') \<le> fst (quota_load now owner db)"
    by (simp only: quota_load_sums fst_conv)
  have "od_sum (\<lambda>it. if ?on now' it then ui_declared_size it else 0) db'
      \<le> od_sum (\<lambda>it. if ?on now it then max 0 (ui_declared_size it) else 0) db"
  proof (rule od_sum_dominated [OF assms(2,1)])
    fix i it' assume "od_get db' i = Some it'"
    from row [OF this] show "\<exists>v. od_get db i = Some v \<and>
        (if ?on now' it' then ui_declared_size it' else 0) \<le> (if ?on now v then max 0 (ui_declared_size v) else 0)"
      by auto
  qed simp
  also have "\<dots> = od_sum (\<lambda>it. if ?on now it then ui_declared_size it else 0) db"
  proof -
    have "map (\<lambda>(i, it). if ?on now it then max 0 (ui_declared_size it) else 0) db =
        map (\<lambda>(i, it). if ?on now it then ui_declared_size it else 0) db"
    proof (rule map_cong [OF refl])
      fix p assume p: "p \<in> set db"
      obtain i it where q: "p = (i, it)" by (cases p)
      from p have "od_get db i = Some it" unfolding q by (rule iffD1 [OF od_set_iff [OF assms(1)]])
      from sizes [OF this] q show "(case p of (i, it) \<Rightarrow> if ?on now it then max 0 (ui_declared_size it) else 0) =
          (case p of (i, it) \<Rightarrow> if ?on now it then ui_declared_size it else 0)"
        by simp
    qed
    then show ?thesis unfolding od_sum_def by (rule arg_cong)
  qed
  finally show "snd (quota_load now' owner db') \<le> snd (quota_load now owner db)"
    by (simp only: quota_load_sums snd_conv)
qed

end
