(* ===== verification/UpStep.thy ===== *)
theory UpStep
  imports UpMachine
begin

text \<open>
  The upload subsystem under any interleaving of requests, mutations, finalization attempts and
  cleanup runs. Every transaction or conditional update of the code is one step of \<open>up_step\<close>, with any
  parameters (adapters, tokens, versions, errors), at the current time. What is outside the database
  only constrains the steps: a worker uses a transfer claim, a plan or a cleanup claim it was given
  before, possibly long ago (\<open>sy_claims\<close>, \<open>sy_plans\<close>, \<open>sy_cleaners\<close>; nothing is ever taken back, so
  workers may crash or be overtaken). The application may write its rows at any time, but never puts a
  name that an upload reserved into a field that does not hold it.

  \<open>sy_ids\<close> are the ids ever used: a new intent has a new random id. \<open>sy_names\<close> are the file names that
  rows ever held: a reserved name, which contains the random id, is not among them. \<open>sy_home\<close> is the
  field a name was reserved for, \<open>sy_deleted\<close> the names whose objects cleanup has deleted.
\<close>

section \<open>Systems and steps\<close>

record 'w upload_sys =
  sy_world :: "'w upload_world"
  sy_now :: int
  sy_ids :: "string set"
  sy_plans :: "plan set"
  sy_claims :: "(transfer_claim \<times> upload_intent) set"
  sy_names :: "string set"
  sy_home :: "string \<Rightarrow> (string \<times> string \<times> string) option"
  sy_cleaners :: "(string \<times> upload_intent) set"
  sy_deleted :: "string set"

abbreviation sy_intents :: "'w upload_sys \<Rightarrow> intents" where
  "sy_intents s \<equiv> intents (sy_world s)"

abbreviation sy_rows :: "'w upload_sys \<Rightarrow> string \<Rightarrow> string \<Rightarrow> (string \<Rightarrow> string) option" where
  "sy_rows s \<equiv> rows (sy_world s)"

definition set_intents :: "intents \<Rightarrow> 'w upload_sys \<Rightarrow> 'w upload_sys" where
  "set_intents db s = s\<lparr>sy_world := (sy_world s)\<lparr>intents := db\<rparr>\<rparr>"

definition row_names :: "(string \<Rightarrow> string \<Rightarrow> (string \<Rightarrow> string) option) \<Rightarrow> string set" where
  "row_names r = {f field |m pk f field. r m pk = Some f}"

definition reserved_names :: "(prepared_candidate \<times> upload_intent) list \<Rightarrow> string list" where
  "reserved_names claimed = map (\<lambda>(pc, it). the (ui_final_key it)) claimed"

definition reserve_home ::
  "string \<Rightarrow> string \<Rightarrow> (prepared_candidate \<times> upload_intent) list
     \<Rightarrow> (string \<Rightarrow> (string \<times> string \<times> string) option) \<Rightarrow> (string \<Rightarrow> (string \<times> string \<times> string) option)" where
  "reserve_home m pk claimed home =
     fold (\<lambda>(pc, it) h. h(the (ui_final_key it) \<mapsto> (m, pk, pc_field pc))) claimed home"

definition row_before :: "'w upload_world \<Rightarrow> claim_target \<Rightarrow> (string \<Rightarrow> string) option" where
  "row_before w ct = (case ct_pk ct of None \<Rightarrow> Some (\<lambda>field. []) | Some pk \<Rightarrow> rows w (ct_manager ct) pk)"

inductive up_step :: "upload_settings \<Rightarrow> (string \<Rightarrow> string) \<Rightarrow> 'w upload_sys \<Rightarrow> 'w upload_sys \<Rightarrow> bool"
  for st sha where
  tick: "sy_now s \<le> t \<Longrightarrow> up_step st sha s (s\<lparr>sy_now := t\<rparr>)"
| adapter: "up_step st sha s (s\<lparr>sy_world := (sy_world s)\<lparr>storage := x\<rparr>\<rparr>)"
| app_write: "(\<And>m pk f field. r m pk = Some f \<Longrightarrow> sy_home s (f field) \<noteq> None \<Longrightarrow>
      \<exists>f0. sy_rows s m pk = Some f0 \<and> f0 field = f field) \<Longrightarrow>
    up_step st sha s (s\<lparr>sy_world := (sy_world s)\<lparr>rows := r\<rparr>, sy_names := sy_names s \<union> row_names r\<rparr>)"
| admit: "begin_file_upload b64 st (site :: 'w site) a user_exists instructions owner i digest (h1 @ CHR ''/'' # h2) rq
      (sy_now s) (sy_intents s) = (res, db') \<Longrightarrow> list_all hex_lower h2 \<Longrightarrow> h2 \<noteq> [] \<Longrightarrow> i \<notin> sy_ids s \<Longrightarrow>
    up_step st sha s (set_intents db' (s\<lparr>sy_ids := insert i (sy_ids s)\<rparr>))"
| plan: "preflight_plan sha site (sy_intents s) (storage (sy_world s)) b (sy_now s) raw = Inr p \<Longrightarrow>
    up_step st sha s (s\<lparr>sy_plans := insert p (sy_plans s)\<rparr>)"
| persist: "set ps \<subseteq> sy_plans s \<Longrightarrow> persist_direct_preflight sha b (sy_now s) ps (sy_intents s) = (r, db') \<Longrightarrow>
    up_step st sha s (set_intents db' s)"
| transfer_claimed: "claim_transfer st i owner (sy_now s) (sy_intents s) = (Inr c, db') \<Longrightarrow>
    owned_row (sy_intents s) i owner = Some it \<Longrightarrow>
    up_step st sha s (set_intents db' (s\<lparr>sy_claims := insert (c, it) (sy_claims s)\<rparr>))"
| transfer_refused: "claim_transfer st i owner (sy_now s) (sy_intents s) = (Inl e, db') \<Longrightarrow>
    up_step st sha s (set_intents db' s)"
| transfer_renewed: "(c, it) \<in> sy_claims s \<Longrightarrow> renew_transfer_lease st c (sy_now s) (sy_intents s) = (Some c', db') \<Longrightarrow>
    up_step st sha s (set_intents db' (s\<lparr>sy_claims := insert (c', it) (sy_claims s)\<rparr>))"
| transfer_released: "(c, it) \<in> sy_claims s \<Longrightarrow>
    up_step st sha s (set_intents (release_transfer c (sy_now s) (sy_intents s)) s)"
| transfer_completed: "(c, it) \<in> sy_claims s \<Longrightarrow>
    validate_transfer_version v (ui_declared_size it) (ui_declared_type it) (ui_declared_checksum it) = Inr v \<Longrightarrow>
    complete_transfer c v (sy_now s) (sy_intents s) = (r, db') \<Longrightarrow> up_step st sha s (set_intents db' s)"
| transfer_expired: "up_step st sha s (set_intents (mark_expired i owner (sy_now s) (sy_intents s)) s)"
| content_rejected: "up_step st sha s (set_intents (reject_content_intent i it e (sy_now s) (sy_intents s)) s)"
| claim: "claim_uploads st site env ct (sy_now s) (Some pk) pcs (sy_world s) = (Inr pk, w') \<Longrightarrow>
    row_before (sy_world s) ct = Some f \<Longrightarrow>
    claimed_intents st site env ct (sy_now s) f pcs (sy_intents s) = Inr claimed \<Longrightarrow>
    (case ct_pk ct of None \<Rightarrow> sy_rows s (ct_manager ct) pk = None | Some p \<Rightarrow> pk = p) \<Longrightarrow>
    distinct (map (ca_intent \<circ> pc_candidate) pcs) \<Longrightarrow> distinct (reserved_names claimed) \<Longrightarrow>
    set (reserved_names claimed) \<inter> sy_names s = {} \<Longrightarrow>
    up_step st sha s (s\<lparr>sy_world := w', sy_names := sy_names s \<union> set (reserved_names claimed),
      sy_home := reserve_home (ct_manager ct) pk claimed (sy_home s)\<rparr>)"
| attempt_started: "start_finalization st i (sy_now s) fresh u t (sy_intents s) = (r, db') \<Longrightarrow> fresh \<noteq> [] \<Longrightarrow>
    up_step st sha s (set_intents db' s)"
| attempt_begun: "begin_finalization i (sy_now s) t (sy_world s) = (r, w') \<Longrightarrow> up_step st sha s (s\<lparr>sy_world := w'\<rparr>)"
| attempt_renewed: "renew_finalization_lease st i (sy_now s) t (sy_intents s) = (r, db') \<Longrightarrow>
    up_step st sha s (set_intents db' s)"
| attempt_completed: "complete_finalization i (sy_now s) t fv (sy_world s) = (r, w') \<Longrightarrow>
    up_step st sha s (s\<lparr>sy_world := w'\<rparr>)"
| attempt_failed: "record_failure st i e (sy_now s) lease (sy_intents s) = (r, db') \<Longrightarrow>
    up_step st sha s (set_intents db' s)"
| expire: "expire_upload_intent i at (sy_now s) (sy_intents s) = (r, db') \<Longrightarrow> at \<le> sy_now s \<Longrightarrow>
    up_step st sha s (set_intents db' s)"
| cleanup_claimed: "claim_terminal_cleanup st i (sy_now s) fresh (sy_intents s) = (CleanupClaim it u t, db') \<Longrightarrow>
    fresh \<noteq> [] \<Longrightarrow> up_step st sha s (set_intents db' (s\<lparr>sy_cleaners := insert (i, it) (sy_cleaners s)\<rparr>))"
| final_deleted: "(i, it) \<in> sy_cleaners s \<Longrightarrow> ui_state it = USuperseded \<Longrightarrow> ui_final_key it = Some k \<Longrightarrow>
    up_step st sha s (s\<lparr>sy_deleted := insert k (sy_deleted s)\<rparr>)"
| old_planned: "plan_old_cleanup_claim (a :: 'w adapter) i (sy_now s) allow (sy_intents s) = (r, db') \<Longrightarrow>
    up_step st sha s (set_intents db' s)"
| old_deleted: "(i, it) \<in> sy_cleaners s \<Longrightarrow> ui_state it = UConsumed \<Longrightarrow> ui_old_key it = Some k \<Longrightarrow>
    up_step st sha s (s\<lparr>sy_deleted := insert k (sy_deleted s)\<rparr>)"
| old_completed: "up_step st sha s (set_intents (mark_old_completed i (sy_now s) (sy_intents s)) s)"
| old_resolved: "up_step st sha s (set_intents (mark_old_resolved i (sy_now s) (sy_intents s)) s)"
| cleanup_failed: "(i, it) \<in> sy_cleaners s \<Longrightarrow> up_step st sha s (set_intents (fail_cleanup i u t e (sy_now s) (sy_intents s)) s)"
| cleanup_finished: "(i, it) \<in> sy_cleaners s \<Longrightarrow> finish_cleanup i u t (sy_now s) (sy_intents s) = (r, db') \<Longrightarrow> up_step st sha s (set_intents db' s)"
| retained: "delete_retained_intent site i cutoff False (sy_world s) = (r, w') \<Longrightarrow>
    up_step st sha s (s\<lparr>sy_world := w'\<rparr>)"

abbreviation up_steps :: "upload_settings \<Rightarrow> (string \<Rightarrow> string) \<Rightarrow> 'w upload_sys \<Rightarrow> 'w upload_sys \<Rightarrow> bool" where
  "up_steps st sha \<equiv> (up_step st sha)\<^sup>*\<^sup>*"

text \<open>A system before any upload: an application with rows, and an empty intents table.\<close>

definition fresh_sys :: "int \<Rightarrow> (string \<Rightarrow> string \<Rightarrow> (string \<Rightarrow> string) option) \<Rightarrow> 'w \<Rightarrow> 'w upload_sys" where
  "fresh_sys now r x =
     \<lparr>sy_world = \<lparr>intents = [], rows = r, storage = x\<rparr>, sy_now = now, sy_ids = {}, sy_plans = {}, sy_claims = {},
      sy_names = row_names r, sy_home = Map.empty, sy_cleaners = {}, sy_deleted = {}\<rparr>"

definition up_reachable :: "upload_settings \<Rightarrow> (string \<Rightarrow> string) \<Rightarrow> 'w upload_sys \<Rightarrow> bool" where
  "up_reachable st sha s = (\<exists>now r x. up_steps st sha (fresh_sys now r x) s)"

section \<open>Each transaction makes steps of the row machine\<close>

text \<open>\<open>changes\<close>: rows move by steps of the machine, none appears, and only terminal ones go.\<close>

definition changes :: "upload_settings \<Rightarrow> int \<Rightarrow> intents \<Rightarrow> intents \<Rightarrow> bool" where
  "changes st now db db' =
     ((od_wf db \<longrightarrow> od_wf db')
      \<and> (\<forall>i it'. od_get db' i = Some it' \<longrightarrow> (\<exists>it. od_get db i = Some it \<and> intent_steps st now it it'))
      \<and> (\<forall>i it. od_get db i = Some it \<longrightarrow> od_get db' i = None \<longrightarrow> ui_state it \<in> set terminal_states))"

lemma changes_refl [simp, intro]: "changes st now db db"
  by (simp add: changes_def)

lemma changes_set:
  "od_get db i = Some it \<Longrightarrow> intent_steps st now it it' \<Longrightarrow> changes st now db (od_set i it' db)"
  by (auto simp: changes_def od_get_set od_wf_set)

lemma changes_step:
  "od_get db i = Some it \<Longrightarrow> intent_step st now it it' \<Longrightarrow> changes st now db (od_set i it' db)"
  by (rule changes_set) auto

lemma changes_pop: "od_get db i = Some it \<Longrightarrow> ui_state it \<in> set terminal_states \<Longrightarrow> changes st now db (od_pop i db)"
  by (auto simp: changes_def od_get_pop od_wf_pop)

lemma changes_trans:
  assumes "changes st now a b" "changes st now b c" "\<And>i. od_get b i \<noteq> None \<Longrightarrow> od_get c i \<noteq> None"
  shows "changes st now a c"
proof -
  have "\<exists>it. od_get a i = Some it \<and> intent_steps st now it it''" if "od_get c i = Some it''" for i it''
  proof -
    from assms(2) that obtain it' where "od_get b i = Some it'" "intent_steps st now it' it''"
      unfolding changes_def by blast
    moreover from assms(1) this(1) obtain it where "od_get a i = Some it" "intent_steps st now it it'"
      unfolding changes_def by blast
    ultimately show ?thesis by (meson rtranclp_trans)
  qed
  moreover have "ui_state it \<in> set terminal_states" if "od_get a i = Some it" "od_get c i = None" for i it
    using assms(1,3) that unfolding changes_def by metis
  ultimately show ?thesis using assms(1,2) unfolding changes_def by blast
qed

lemma update_where_changes:
  assumes "\<And>it. od_get db i = Some it \<Longrightarrow> cond it \<Longrightarrow> intent_step st now it (upd it)"
  shows "changes st now db (snd (update_where db i cond upd))"
  using assms by (auto simp: update_where_def split: option.splits intro: changes_step)

lemma update_where_result:
  "update_where db i cond upd = (b, db') \<Longrightarrow> db' = snd (update_where db i cond upd)"
  by simp

lemma update_where_keeps: "od_get db k \<noteq> None \<Longrightarrow> od_get (snd (update_where db i cond upd)) k \<noteq> None"
  by (auto simp: update_where_def od_get_set split: option.splits)

subsection \<open>Transfers\<close>

lemma mark_expired_changes: "changes st now db (mark_expired i owner now db)"
  unfolding mark_expired_def
proof (rule update_where_changes)
  fix it :: upload_intent
  assume c: "ui_user it = Some owner \<and> ui_expires it \<le> now \<and> ui_state it \<in> {UPending, UTransferring}"
  have "intent_step st now it (it\<lparr>ui_state := UExpired, ui_transfer_until := None, ui_updated := ui_updated it\<rparr>)"
    using c by (intro intent_step.expire) auto
  then show "intent_step st now it (it\<lparr>ui_state := UExpired, ui_transfer_until := None\<rparr>)" by simp
qed

lemma claim_transfer_effect:
  assumes "claim_transfer st i owner now db = (r, db')"
  shows "changes st now db db'"
    and "r = Inr c \<Longrightarrow> \<exists>it it'. od_get db i = Some it \<and> od_get db' i = Some it' \<and> tc_intent c = i
       \<and> intent_step st now it it' \<and> ui_state it \<in> {UPending, UTransferring}
       \<and> tc_base_key c = ui_staging_key it \<and> tc_attempt c = ui_attempts it + 1 \<and> ui_attempts it' = tc_attempt c
       \<and> attempt_staging_key (tc_base_key c) (tc_attempt c) = Inr (tc_stage_key c)"
proof -
  show "changes st now db db'"
  proof (cases "owned_row db i owner")
    case None
    with assms show ?thesis by (simp add: claim_transfer_def)
  next
    case (Some it)
    then have it: "od_get db i = Some it" by (auto simp: owned_row_def split: option.splits if_splits)
    show ?thesis
    proof (cases "ui_expires it \<le> now \<or> us_attempts_per_intent st \<le> ui_attempts it")
      case True
      with assms Some show ?thesis by (auto simp: claim_transfer_def mark_expired_changes split: if_splits)
    next
      case False
      show ?thesis
      proof (cases "attempt_staging_key (ui_staging_key it) (ui_attempts it + 1)")
        case (Inl e)
        with assms Some False show ?thesis by (simp add: claim_transfer_def)
      next
        case (Inr key)
        let ?u = "min (ui_expires it) (now + us_transfer_lease st)"
        have st: "intent_step st now it (it\<lparr>ui_state := UTransferring, ui_transfer_until := Some ?u,
            ui_attempts := ui_attempts it + 1\<rparr>)" if "ui_state it \<in> {UPending, UTransferring}"
          using that False Inr by (intro intent_step.claim_transfer) auto
        from assms Some False Inr it show ?thesis
          by (auto simp: claim_transfer_def update_where_def Let_def split: if_splits intro!: changes_step [OF it st])
      qed
    qed
  qed
  assume r: "r = Inr c"
  from assms r obtain it where it: "od_get db i = Some it" "ui_user it = Some owner" "\<not> ui_expires it \<le> now"
      "\<not> us_attempts_per_intent st \<le> ui_attempts it"
    by (auto simp: claim_transfer_def owned_row_def split: option.splits if_splits)
  then have own: "owned_row db i owner = Some it" by (simp add: owned_row_def)
  from assms r it own obtain key where key: "attempt_staging_key (ui_staging_key it) (ui_attempts it + 1) = Inr key"
    by (auto simp: claim_transfer_def split: sum.splits)
  let ?u = "min (ui_expires it) (now + us_transfer_lease st)"
  let ?it = "it\<lparr>ui_state := UTransferring, ui_transfer_until := Some ?u, ui_attempts := ui_attempts it + 1\<rparr>"
  from assms r it own key have s: "ui_state it \<in> {UPending, UTransferring}" and db': "db' = od_set i ?it db"
    and c: "c = \<lparr>tc_intent = i, tc_owner = owner, tc_lease_until = ?u, tc_expires = ui_expires it,
      tc_base_key = ui_staging_key it, tc_stage_key = key, tc_attempt = ui_attempts it + 1\<rparr>"
    by (auto simp: claim_transfer_def update_where_def Let_def split: if_splits)
  have "intent_step st now it ?it" using s it key by (intro intent_step.claim_transfer) auto
  with it s db' c key show "\<exists>it it'. od_get db i = Some it \<and> od_get db' i = Some it' \<and> tc_intent c = i
       \<and> intent_step st now it it' \<and> ui_state it \<in> {UPending, UTransferring}
       \<and> tc_base_key c = ui_staging_key it \<and> tc_attempt c = ui_attempts it + 1 \<and> ui_attempts it' = tc_attempt c
       \<and> attempt_staging_key (tc_base_key c) (tc_attempt c) = Inr (tc_stage_key c)"
    by (simp add: od_get_set)
qed

lemma renew_transfer_effect:
  "renew_transfer_lease st c now db = (r, db') \<Longrightarrow> changes st now db db'"
proof (cases "tc_expires c \<le> now \<or> min (tc_expires c) (now + us_transfer_lease st) \<le> tc_lease_until c")
  case True
  then show "renew_transfer_lease st c now db = (r, db') \<Longrightarrow> changes st now db db'"
    by (auto simp: renew_transfer_lease_def Let_def split: if_splits)
next
  case False
  let ?u = "min (tc_expires c) (now + us_transfer_lease st)"
  let ?w = "update_where db (tc_intent c) (\<lambda>it. holds_transfer c it \<and> now < ui_expires it)
      (\<lambda>it. it\<lparr>ui_transfer_until := Some ?u\<rparr>)"
  assume "renew_transfer_lease st c now db = (r, db')"
  with False have "db' = snd ?w"
    by (auto simp: renew_transfer_lease_def Let_def split: bool.splits prod.splits)
  moreover have "changes st now db (snd ?w)"
    by (intro update_where_changes intent_step.renew_transfer) (simp add: holds_transfer_def)
  ultimately show "changes st now db db'" by simp
qed

lemma renewed_claim:
  "renew_transfer_lease st c now db = (Some c', db') \<Longrightarrow> \<exists>u. c' = c\<lparr>tc_lease_until := u\<rparr>"
proof -
  assume r: "renew_transfer_lease st c now db = (Some c', db')"
  then have "c' = c\<lparr>tc_lease_until := tc_lease_until c'\<rparr>"
    by (auto simp: renew_transfer_lease_def Let_def split: if_splits bool.splits prod.splits)
  then show ?thesis by blast
qed

lemma release_transfer_effect: "changes st now db (release_transfer c now db)"
  unfolding release_transfer_def
  by (intro update_where_changes intent_step.release_transfer) (simp add: holds_transfer_def)

lemma transfer_version_matches:
  "validate_transfer_version v (ui_declared_size it) (ui_declared_type it) (ui_declared_checksum it) = Inr v \<Longrightarrow>
   same_declaration it it' \<Longrightarrow> version_matches v it'"
  by (auto simp: validate_transfer_version_def version_matches_def validate_preflight_version_def
      same_declaration_def split: if_splits)

lemma complete_transfer_effect:
  assumes "complete_transfer c v now db = (r, db')"
    "attempt_staging_key (tc_base_key c) (tc_attempt c) = Inr (tc_stage_key c)"
    "\<And>it. od_get db (tc_intent c) = Some it \<Longrightarrow> version_matches v it"
  shows "changes st now db db'"
proof -
  let ?w = "update_where db (tc_intent c) (\<lambda>it. holds_transfer c it \<and> now < ui_expires it)
      (\<lambda>it. it\<lparr>ui_state := UUploaded, ui_transfer_until := None, ui_staging_key := tc_stage_key c,
         ui_verified_size := Some (ov_size v), ui_verified_type := ov_content_type v,
         ui_verified_checksum := Some (ov_checksum v), ui_version := Some v, ui_uploaded := Some now\<rparr>)"
  from assms(1) have "db' = snd ?w" by (auto simp: complete_transfer_def split: bool.splits prod.splits)
  moreover have "changes st now db (snd ?w)"
    using assms(2,3) by (intro update_where_changes intent_step.complete_transfer) (auto simp: holds_transfer_def)
  ultimately show ?thesis by simp
qed

subsection \<open>Finalization\<close>

lemma reject_effect: "changes st now db (reject_content_intent i it e now db)"
  unfolding reject_content_intent_def by (intro update_where_changes intent_step.reject) simp

lemma attempt_noted:
  assumes "ui_state it = UFinalizing" "ui_lease_until it \<noteq> None"
  shows "intent_step st now it (it\<lparr>ui_error := [], ui_updated := now\<rparr>)"
proof -
  have "intent_step st now it (it\<lparr>ui_lease_until := ui_lease_until it, ui_lease_token := ui_lease_token it,
      ui_finalizations := ui_finalizations it, ui_error := [], ui_updated := now\<rparr>)"
    using assms by (intro intent_step.attempt) simp_all
  then show ?thesis by simp
qed

lemma start_finalization_effect:
  assumes "start_finalization st i now fresh u t db = (r, db')"
  shows "changes st now db db'"
proof (cases "od_get db i")
  case None
  with assms show ?thesis by (simp add: start_finalization_def)
next
  case (Some it)
  show ?thesis
  proof (cases "ui_state it = UFinalizing")
    case False
    with Some assms show ?thesis by (simp add: start_finalization_def)
  next
    case True
    have a: "intent_step st now it (it\<lparr>ui_lease_until := Some (now + us_cleanup_lease st), ui_lease_token := fresh,
        ui_finalizations := ui_finalizations it + 1, ui_error := [], ui_updated := now\<rparr>)"
      using True by (intro intent_step.attempt) simp_all
    have b: "intent_step st now it (it\<lparr>ui_error := [], ui_updated := now\<rparr>)" if "ui_lease_until it \<noteq> None"
      by (rule attempt_noted [OF True that])
    from assms Some True show ?thesis
      by (auto simp: start_finalization_def split: if_splits option.splits
          intro: changes_step [OF Some a] changes_step [OF Some b])
  qed
qed

lemma holds_lease_not_none: "holds_lease t now it \<Longrightarrow> ui_lease_until it \<noteq> None"
  by (auto simp: holds_lease_def split: option.splits)

lemma begin_finalization_effect:
  assumes "begin_finalization i now t w = (r, w')"
  shows "changes st now (intents w) (intents w')" and "rows w' = rows w"
    and "od_get (intents w') k = Some it' \<Longrightarrow> ui_state it' = USuperseded \<Longrightarrow>
      (\<exists>it. od_get (intents w) k = Some it \<and> (it' = it \<or> \<not> file_bound w it \<and> ui_state it = UFinalizing
         \<and> it' = supersede now it))"
  using assms
  by (auto simp: begin_finalization_def od_get_set supersede_def split: option.splits if_splits
      intro!: changes_step intent_step.supersede [unfolded supersede_def] attempt_noted dest: holds_lease_not_none)

lemma complete_finalization_effect:
  assumes "complete_finalization i now t fv w = (r, w')"
  shows "changes st now (intents w) (intents w')" and "rows w' = rows w"
    and "od_get (intents w') k = Some it' \<Longrightarrow> ui_state it' = USuperseded \<Longrightarrow>
      (\<exists>it. od_get (intents w) k = Some it \<and> (it' = it \<or> \<not> file_bound w it \<and> ui_state it = UFinalizing
         \<and> it' = supersede now it))"
  using assms
  by (auto simp: complete_finalization_def od_get_set supersede_def split: option.splits if_splits
      intro!: changes_step intent_step.supersede [unfolded supersede_def] intent_step.consume)

lemma renew_finalization_effect:
  assumes "renew_finalization_lease st i now t db = (r, db')"
  shows "changes st now db db'"
proof -
  let ?w = "update_where db i (\<lambda>it. ui_state it = UFinalizing \<and> holds_lease t now it)
      (\<lambda>it. it\<lparr>ui_lease_until := Some (now + us_cleanup_lease st), ui_updated := now\<rparr>)"
  from assms have "db' = snd ?w" by (auto simp: renew_finalization_lease_def split: bool.splits prod.splits)
  moreover have "changes st now db (snd ?w)"
  proof (rule update_where_changes)
    fix it :: upload_intent
    assume c: "ui_state it = UFinalizing \<and> holds_lease t now it"
    have "intent_step st now it (it\<lparr>ui_lease_until := Some (now + us_cleanup_lease st),
        ui_lease_token := ui_lease_token it, ui_finalizations := ui_finalizations it, ui_error := ui_error it,
        ui_updated := now\<rparr>)"
      using c by (intro intent_step.attempt) simp_all
    then show "intent_step st now it (it\<lparr>ui_lease_until := Some (now + us_cleanup_lease st), ui_updated := now\<rparr>)"
      by simp
  qed
  ultimately show ?thesis by simp
qed

lemma record_failure_effect: "record_failure st i e now lease db = (r, db') \<Longrightarrow> changes st now db db'"
proof (unfold record_failure_def, drule update_where_result, erule ssubst, rule update_where_changes)
  fix it :: upload_intent
  assume c: "ui_state it = UFinalizing \<and> (case lease of
      None \<Rightarrow> lease_free now it \<and> ui_lease_token it = []
    | Some (u, t) \<Rightarrow> if t \<noteq> [] then ui_lease_token it = t else lease_free now it \<and> ui_lease_token it = [])"
  have "intent_step st now it (it\<lparr>ui_lease_until := Some (now + us_cooldown st), ui_lease_token := [],
      ui_finalizations := ui_finalizations it, ui_error := fin_code e, ui_updated := now\<rparr>)"
    using c by (intro intent_step.attempt) simp_all
  moreover have "it\<lparr>ui_lease_until := Some (now + us_cooldown st), ui_lease_token := [],
      ui_finalizations := ui_finalizations it, ui_error := fin_code e, ui_updated := now\<rparr> =
      it\<lparr>ui_error := fin_code e, ui_lease_until := Some (now + us_cooldown st), ui_lease_token := [], ui_updated := now\<rparr>"
    by simp
  ultimately show "intent_step st now it (it\<lparr>ui_error := fin_code e, ui_lease_until := Some (now + us_cooldown st),
      ui_lease_token := [], ui_updated := now\<rparr>)" by (simp only:)
qed

subsection \<open>Expiry and cleanup\<close>

lemma expire_effect:
  "expire_upload_intent i at now db = (r, db') \<Longrightarrow> at \<le> now \<Longrightarrow> changes st now db db'"
  by (unfold expire_upload_intent_def, drule update_where_result, erule ssubst, rule update_where_changes,
      rule intent_step.expire) auto

lemma terminal_claim_effect:
  assumes "claim_terminal_cleanup st i now fresh db = (CleanupClaim it u t, db')"
  shows "changes st now db db'" and "od_get db' i = Some it" and "ui_state it \<in> set terminal_states"
proof -
  from assms obtain it0 where it0: "od_get db i = Some it0" "ui_state it0 \<in> set terminal_states"
      "ui_cleanup_completed it0 = None"
    and it: "it = it0\<lparr>ui_lease_until := Some (now + us_cleanup_lease st), ui_lease_token := fresh,
      ui_cleanup_error := [], ui_updated := now\<rparr>" "db' = od_set i it db"
    by (auto simp: claim_terminal_cleanup_def Let_def split: option.splits if_splits)
  from it0 have "intent_step st now it0 it" unfolding it(1) by (intro intent_step.cleaning) simp_all
  with it0 it show "changes st now db db'" "od_get db' i = Some it" "ui_state it \<in> set terminal_states"
    by (simp_all add: changes_step od_get_set)
qed

lemma old_planned_effect:
  assumes "plan_old_cleanup_claim a i now allow db = (r, db')"
  shows "changes st now db db'"
proof -
  have s: "intent_step st now it (it\<lparr>ui_old_cleanup := oc, ui_updated := now\<rparr>)" if "ui_state it = UConsumed" for it oc
  proof -
    have "intent_step st now it (it\<lparr>ui_old_cleanup := oc, ui_old_cleanup_completed := ui_old_cleanup_completed it,
        ui_updated := now\<rparr>)" by (rule intent_step.old [OF that])
    then show ?thesis by simp
  qed
  from assms show ?thesis
    by (auto simp: plan_old_cleanup_claim_def split: option.splits if_splits sum.splits prod.splits
        intro!: changes_step s)
qed

lemma mark_old_effect:
  "changes st now db (mark_old_completed i now db)" "changes st now db (mark_old_resolved i now db)"
proof -
  have s: "intent_step st now it (it\<lparr>ui_old_cleanup_completed := oc, ui_updated := now\<rparr>)" if "ui_state it = UConsumed" for it oc
  proof -
    have "intent_step st now it (it\<lparr>ui_old_cleanup := ui_old_cleanup it, ui_old_cleanup_completed := oc,
        ui_updated := now\<rparr>)" by (rule intent_step.old [OF that])
    then show ?thesis by simp
  qed
  show "changes st now db (mark_old_completed i now db)" "changes st now db (mark_old_resolved i now db)"
    unfolding mark_old_completed_def mark_old_resolved_def by (intro update_where_changes s; simp)+
qed

lemma retained_effect:
  assumes "delete_retained_intent site i cutoff dry w = (r, w')"
  shows "changes st now (intents w) (intents w')" and "rows w' = rows w"
  using assms by (auto simp: delete_retained_intent_def split: option.splits if_splits sum.splits intro!: changes_pop)

lemma cleanup_end_effect:
  assumes "\<And>it. od_get db i = Some it \<Longrightarrow> ui_state it \<in> set terminal_states"
  shows "changes st now db (fail_cleanup i u t e now db)"
    and "finish_cleanup i u t now db = (r, db') \<Longrightarrow> changes st now db db'"
proof -
  have s: "intent_step st now it (it\<lparr>ui_cleanup_error := e, ui_lease_until := None, ui_lease_token := [], ui_updated := now\<rparr>)"
    if "ui_state it \<in> set terminal_states" "ui_cleanup_completed it = None" for it e
  proof -
    have "intent_step st now it (it\<lparr>ui_lease_until := None, ui_lease_token := [], ui_cleanup_error := e, ui_updated := now\<rparr>)"
      using that by (intro intent_step.cleaning) simp_all
    moreover have "it\<lparr>ui_lease_until := None, ui_lease_token := [], ui_cleanup_error := e, ui_updated := now\<rparr> =
        it\<lparr>ui_cleanup_error := e, ui_lease_until := None, ui_lease_token := [], ui_updated := now\<rparr>" by simp
    ultimately show ?thesis by (simp only:)
  qed
  show "changes st now db (fail_cleanup i u t e now db)"
    using assms unfolding fail_cleanup_def by (intro update_where_changes s) (simp_all add: cleanup_held_def)
  have "changes st now db (snd (update_where db i (cleanup_held u t) (\<lambda>it. it\<lparr>ui_cleanup_completed := Some now,
      ui_cleanup_error := [], ui_lease_until := None, ui_lease_token := [], ui_updated := now\<rparr>)))"
    using assms by (intro update_where_changes intent_step.cleaned) (simp_all add: cleanup_held_def)
  then show "finish_cleanup i u t now db = (r, db') \<Longrightarrow> changes st now db db'"
    unfolding finish_cleanup_def using update_where_result by metis
qed

subsection \<open>Preflight\<close>

lemma persist_plan_effect:
  assumes "persist_plan sha b now p db = Inr db'"
    "\<And>it. od_get db (pl_id p) = Some it \<Longrightarrow> pl_direct p \<Longrightarrow> version_matches (pl_version p) it"
  shows "changes st now db db'" "od_get db k \<noteq> None \<Longrightarrow> od_get db' k \<noteq> None"
proof -
  from assms(1) obtain it where it: "od_get db (pl_id p) = Some it"
    by (auto simp: persist_plan_def split: option.splits)
  with assms(1) have e: "now < ui_expires it"
    by (auto simp: persist_plan_def sbind_Inr_iff validate_intent_binding_def split: if_splits)
  have "db' = db \<or> db' = od_set (pl_id p) (mark_uploaded (pl_version p) now it) db \<and> pl_direct p \<and> ui_state it = UPending"
    using assms(1) it by (auto simp: persist_plan_def sbind_Inr_iff split: if_splits)
  then show "changes st now db db'" "od_get db k \<noteq> None \<Longrightarrow> od_get db' k \<noteq> None"
    using it e assms(2) by (auto simp: od_get_set intro: changes_step intent_step.direct)
qed

lemma version_matches_declaration: "version_matches v it \<Longrightarrow> same_declaration it it' \<Longrightarrow> version_matches v it'"
  by (auto simp: version_matches_def validate_preflight_version_def same_declaration_def split: if_splits)

lemma persist_plans_effect:
  "persist_plans sha b now ps db = Inr db' \<Longrightarrow>
   (\<And>p it. p \<in> set ps \<Longrightarrow> od_get db (pl_id p) = Some it \<Longrightarrow> pl_direct p \<Longrightarrow> version_matches (pl_version p) it) \<Longrightarrow>
   changes st now db db' \<and> (\<forall>k. od_get db k \<noteq> None \<longrightarrow> od_get db' k \<noteq> None)"
proof (induction ps arbitrary: db)
  case Nil
  then show ?case by simp
next
  case (Cons p ps)
  then obtain db1 where db1: "persist_plan sha b now p db = Inr db1" "persist_plans sha b now ps db1 = Inr db'"
    by (auto simp: sbind_Inr_iff)
  from persist_plan_effect [OF db1(1)] Cons.prems(2) [of p]
  have c1: "changes st now db db1" and k1: "\<And>k. od_get db k \<noteq> None \<Longrightarrow> od_get db1 k \<noteq> None" by auto
  have "changes st now db1 db' \<and> (\<forall>k. od_get db1 k \<noteq> None \<longrightarrow> od_get db' k \<noteq> None)"
  proof (rule Cons.IH [OF db1(2)])
    fix q it assume q: "q \<in> set ps" "od_get db1 (pl_id q) = Some it" "pl_direct q"
    from c1 q(2) obtain it0 where "od_get db (pl_id q) = Some it0" "intent_steps st now it0 it"
      unfolding changes_def by blast
    with Cons.prems(2) [of q it0] q show "version_matches (pl_version q) it"
      by (auto intro: version_matches_declaration intent_steps_declaration)
  qed
  with c1 k1 show ?case using changes_trans [OF c1] by blast
qed

lemma persist_effect:
  assumes "persist_direct_preflight sha b now ps db = (r, db')"
    "\<And>p it. p \<in> set ps \<Longrightarrow> od_get db (pl_id p) = Some it \<Longrightarrow> pl_direct p \<Longrightarrow> version_matches (pl_version p) it"
  shows "changes st now db db'"
  using assms(1) persist_plans_effect [OF _ assms(2)]
  by (auto simp: persist_direct_preflight_def split: if_splits sum.splits)

subsection \<open>The claiming transaction\<close>

lemma fold_set_other: "k \<notin> g ` set xs \<Longrightarrow> od_get (fold (\<lambda>x. od_set (g x) (h x)) xs db) k = od_get db k"
  by (induction xs arbitrary: db) (auto simp: od_get_set)

lemma fold_set_this:
  "distinct (map g xs) \<Longrightarrow> x \<in> set xs \<Longrightarrow> od_get (fold (\<lambda>x. od_set (g x) (h x)) xs db) (g x) = Some (h x)"
proof (induction xs arbitrary: db)
  case (Cons y ys)
  show ?case
  proof (cases "x = y")
    case True
    with Cons.prems have "g x \<notin> g ` set ys" by simp
    with True show ?thesis by (simp add: fold_set_other od_get_set)
  qed (use Cons in simp)
qed simp

lemma fold_set_wf: "od_wf db \<Longrightarrow> od_wf (fold (\<lambda>x. od_set (g x) (h x)) xs db)"
  by (induction xs arbitrary: db) (auto intro: od_wf_set)

lemma fold_upd_other: "k \<notin> g ` set xs \<Longrightarrow> fold (\<lambda>x m. m(g x := h x)) xs m k = m k"
  by (induction xs arbitrary: m) auto

lemma fold_upd_some: "k \<in> g ` set xs \<Longrightarrow> \<exists>x\<in>set xs. g x = k \<and> fold (\<lambda>x m. m(g x := h x)) xs m k = h x"
proof (induction xs arbitrary: m)
  case (Cons y ys)
  show ?case
  proof (cases "k \<in> g ` set ys")
    case True
    from Cons.IH [OF this, of "m(g y := h y)"] show ?thesis by auto
  next
    case False
    with Cons.prems have "g y = k" by simp
    with fold_upd_other [OF False, of h "m(g y := h y)"] show ?thesis
      by (intro bexI [of _ y]) (simp_all del: fun_upd_apply, simp)
  qed
qed simp

definition reserved_row :: "prepared_candidate \<Rightarrow> (string \<Rightarrow> string) \<Rightarrow> upload_intent \<Rightarrow> upload_intent \<Rightarrow> bool" where
  "reserved_row pc f it it' =
     (\<exists>key. key \<noteq> [] \<and> it' = it\<lparr>ui_final_key := Some key,
        ui_old_key := (if f (pc_field pc) = [] then None else Some (f (pc_field pc))),
        ui_old_version := pc_old_version pc\<rparr>)"

lemma revalidated:
  "revalidate site ct now db pc = Inr it \<Longrightarrow>
   od_get db (ca_intent (pc_candidate pc)) = Some it \<and> ui_state it = UUploaded \<and> now < ui_expires it
   \<and> ui_manager it = ct_manager ct \<and> ui_field it = pc_field pc"
  by (auto simp: revalidate_def validate_candidate_binding_def sbind_Inr_iff split: option.splits if_splits)

lemma name_reserved: "reserve_name st env f pc it = Inr it' \<Longrightarrow> reserved_row pc f it it'"
  by (auto simp: reserve_name_def reserved_row_def final_key_ok_def Let_def split: option.splits if_splits)

lemma claimed_facts:
  assumes "claimed_intents st site env ct now f pcs db = Inr claimed"
  shows "map fst claimed = pcs"
    and "(pc, it') \<in> set claimed \<Longrightarrow> \<exists>it. od_get db (ca_intent (pc_candidate pc)) = Some it \<and> ui_state it = UUploaded
      \<and> now < ui_expires it \<and> ui_manager it = ct_manager ct \<and> ui_field it = pc_field pc \<and> reserved_row pc f it it'"
proof -
  from assms obtain its where a: "collect_until (revalidate site ct now db) pcs = Inr its"
    and b: "collect_until (\<lambda>(pc, it). sbind (reserve_name st env f pc it) (\<lambda>it'. Inr (pc, it'))) (zip pcs its) = Inr claimed"
    by (auto simp: claimed_intents_def sbind_Inr_iff)
  note its = a [unfolded collect_until_Inr] and c = b [unfolded collect_until_Inr]
  have l: "length its = length pcs" "length claimed = length pcs"
    using list_all2_lengthD [OF its] list_all2_lengthD [OF c] by simp_all
  have n: "fst (claimed ! k) = pcs ! k \<and> revalidate site ct now db (pcs ! k) = Inr (its ! k)
      \<and> reserve_name st env f (pcs ! k) (its ! k) = Inr (snd (claimed ! k))" if "k < length pcs" for k
    using list_all2_nthD [OF its that] list_all2_nthD [OF c, of k] that l
    by (auto simp: sbind_Inr_iff prod_eq_iff)
  show "map fst claimed = pcs"
    using n l by (intro nth_equalityI) auto
  assume "(pc, it') \<in> set claimed"
  then obtain k where k: "k < length pcs" "claimed ! k = (pc, it')" by (metis in_set_conv_nth l(2))
  with n [OF k(1)] have "revalidate site ct now db pc = Inr (its ! k)" "reserve_name st env f pc (its ! k) = Inr it'"
    by simp_all
  with revalidated name_reserved
  show "\<exists>it. od_get db (ca_intent (pc_candidate pc)) = Some it \<and> ui_state it = UUploaded
      \<and> now < ui_expires it \<and> ui_manager it = ct_manager ct \<and> ui_field it = pc_field pc \<and> reserved_row pc f it it'"
    by blast
qed

text \<open>What a successful claim does: the rows of the intents and the row of the target.\<close>

lemma claim_result:
  assumes "claim_uploads st site env ct now (Some pk) pcs w = (Inr pk, w')" "row_before w ct = Some f"
    "claimed_intents st site env ct now f pcs (intents w) = Inr claimed"
  shows "intents w' = fold (\<lambda>x. od_set (ca_intent (pc_candidate (fst x))) (mark_finalizing pk now (fst x) (snd x)))
      claimed (intents w)"
    and "rows w' = (rows w)(ct_manager ct := (rows w (ct_manager ct))
      (pk \<mapsto> fold (\<lambda>x g. g(pc_field (fst x) := the (ui_final_key (snd x)))) claimed f))"
  using assms
  by (auto simp: claim_uploads_def row_before_def Let_def split_def split: option.splits)

lemma claimed_row:
  assumes "reserved_row pc f it it'" "ui_state it = UUploaded" "now < ui_expires it"
  shows "intent_step st now it (mark_finalizing pk now pc it')"
proof -
  from assms(1) obtain key where key: "key \<noteq> []" "it' = it\<lparr>ui_final_key := Some key,
      ui_old_key := (if f (pc_field pc) = [] then None else Some (f (pc_field pc))), ui_old_version := pc_old_version pc\<rparr>"
    by (auto simp: reserved_row_def)
  have "intent_step st now it (it\<lparr>ui_final_key := Some key,
      ui_old_key := (if f (pc_field pc) = [] then None else Some (f (pc_field pc))), ui_old_version := pc_old_version pc,
      ui_final_target := Some pk, ui_state := UFinalizing, ui_error := [], ui_dimensions := pc_dimensions pc,
      ui_updated := now\<rparr>)"
    using assms(2,3) key(1) by (intro intent_step.claim) simp_all
  then show ?thesis by (simp add: key(2) mark_finalizing_def)
qed

lemma claim_rows:
  assumes "claim_uploads st site env ct now (Some pk) pcs w = (Inr pk, w')" "row_before w ct = Some f"
    "claimed_intents st site env ct now f pcs (intents w) = Inr claimed" "distinct (map (ca_intent \<circ> pc_candidate) pcs)"
  shows "changes st now (intents w) (intents w')"
    and "od_get (intents w') i = Some it' \<Longrightarrow> od_get (intents w) i = Some it' \<or>
      (\<exists>pc it0 it. (pc, it0) \<in> set claimed \<and> i = ca_intent (pc_candidate pc) \<and> it' = mark_finalizing pk now pc it0
         \<and> reserved_row pc f it it0 \<and> ui_manager it = ct_manager ct \<and> ui_field it = pc_field pc)"
proof -
  let ?g = "\<lambda>x. ca_intent (pc_candidate (fst x))" and ?h = "\<lambda>x. mark_finalizing pk now (fst x) (snd x)"
  note db' = claim_result(1) [OF assms(1-3)] and facts = claimed_facts [OF assms(3)]
  have d: "distinct (map ?g claimed)" using assms(4) by (simp add: comp_def flip: facts(1))
  have row: "(\<exists>pc it0 it. (pc, it0) \<in> set claimed \<and> i = ca_intent (pc_candidate pc) \<and> od_get (intents w) i = Some it
      \<and> od_get (intents w') i = Some (mark_finalizing pk now pc it0) \<and> intent_step st now it (mark_finalizing pk now pc it0)
      \<and> reserved_row pc f it it0 \<and> ui_manager it = ct_manager ct \<and> ui_field it = pc_field pc)
    \<or> od_get (intents w') i = od_get (intents w) i" for i
  proof (cases "i \<in> ?g ` set claimed")
    case False
    then show ?thesis unfolding db' by (simp add: fold_set_other)
  next
    case True
    then obtain pc it0 where m: "(pc, it0) \<in> set claimed" "i = ca_intent (pc_candidate pc)" by auto
    from fold_set_this [OF d m(1), of ?h "intents w"] m(2)
    have "od_get (intents w') i = Some (mark_finalizing pk now pc it0)" unfolding db' by simp
    with facts(2) [OF m(1)] m claimed_row show ?thesis by blast
  qed
  have "od_wf (intents w) \<Longrightarrow> od_wf (intents w')" unfolding db' by (rule fold_set_wf)
  moreover have "\<exists>it. od_get (intents w) i = Some it \<and> intent_steps st now it it'" if "od_get (intents w') i = Some it'" for i it'
    using row [of i] unfolding that by (elim disjE exE conjE) (auto simp: eq_commute [of "Some it'"])
  moreover have "od_get (intents w') i \<noteq> None" if "od_get (intents w) i = Some it" for i it
    using row [of i] that by auto
  ultimately show "changes st now (intents w) (intents w')" unfolding changes_def by blast
  assume i: "od_get (intents w') i = Some it'"
  from row [of i] i show "od_get (intents w) i = Some it' \<or>
      (\<exists>pc it0 it. (pc, it0) \<in> set claimed \<and> i = ca_intent (pc_candidate pc) \<and> it' = mark_finalizing pk now pc it0
         \<and> reserved_row pc f it it0 \<and> ui_manager it = ct_manager ct \<and> ui_field it = pc_field pc)"
    by fastforce
qed

subsection \<open>Admission\<close>

lemma sha_text_nonempty: "normalize_checksum b64 al d = Inr c \<Longrightarrow> c \<noteq> []"
  by (auto simp: normalize_checksum_def py_lower_def split: if_splits option.splits)

text \<open>An admission adds a row that is within the quotas, or does nothing.\<close>

lemma admission_effect:
  assumes "begin_file_upload b64 st site a user_exists instructions owner i digest tail rq now db = (r, db')"
  shows "db' = db \<or> (\<exists>it. od_get db i = None \<and> db' = db @ [(i, it)]
      \<and> enforce_pending_quotas st owner (ui_declared_size it) now db = Inr ()
      \<and> ui_user it = Some owner \<and> ui_state it = UPending \<and> ui_attempts it = 0
      \<and> ui_staging_key it = us_staging_prefix st @ tail \<and> intent_ok st it \<and> ui_old_key it = None)"
proof (cases "normalize_request b64 (si_policy site (rq_manager rq) (rq_field rq)) rq")
  case (Inl e)
  with assms show ?thesis by (simp add: begin_file_upload_def)
next
  case (Inr norm)
  obtain name ty ck where norm: "norm = (name, ty, ck)" by (cases norm)
  from Inr norm have ok: "0 \<le> rq_size rq" "ck \<noteq> []"
    by (auto simp: normalize_request_def sbind_Inr_iff normalize_size_def dest: sha_text_nonempty
        split: if_splits option.splits)
  let ?it = "new_intent st a owner digest (us_staging_prefix st @ tail) rq name ty ck now"
  from assms Inr norm have "db' = db \<or> od_get db i = None \<and> db' = od_set i ?it db
      \<and> enforce_pending_quotas st owner (rq_size rq) now db = Inr ()"
    by (auto simp: begin_file_upload_def admit_def split: if_splits sum.splits)
  moreover have "intent_ok st ?it"
    using ok by (simp add: intent_ok_def new_intent_def terminal_states_def)
  moreover have "ui_declared_size ?it = rq_size rq" "ui_user ?it = Some owner" "ui_state ?it = UPending"
    "ui_attempts ?it = 0" "ui_staging_key ?it = us_staging_prefix st @ tail" "ui_old_key ?it = None"
    by (simp_all add: new_intent_def)
  ultimately show ?thesis using od_set_fresh by metis
qed

end
