(* ===== verification/UpRuns.thy ===== *)
theory UpRuns
  imports UpStep
begin

text \<open>
  What holds in every run of the upload subsystem: the rows stay consistent and move only along the
  allowed transitions, the quotas are never exceeded, cleanup finds the key of every transfer attempt,
  and no object is deleted while a row of the application refers to it.
\<close>

section \<open>The rows and what workers remember of them\<close>

definition claim_ok :: "intents \<Rightarrow> string set \<Rightarrow> transfer_claim \<times> upload_intent \<Rightarrow> bool" where
  "claim_ok db I ci =
     (case ci of (c, it0) \<Rightarrow> tc_intent c \<in> I
        \<and> attempt_staging_key (tc_base_key c) (tc_attempt c) = Inr (tc_stage_key c)
        \<and> (\<forall>it. od_get db (tc_intent c) = Some it \<longrightarrow>
             same_declaration it0 it \<and> stage_ok (tc_base_key c) it \<and> tc_attempt c \<in> {1..ui_attempts it}))"

definition plan_ok :: "intents \<Rightarrow> string set \<Rightarrow> plan \<Rightarrow> bool" where
  "plan_ok db I p =
     (pl_id p \<in> I \<and> (pl_direct p \<longrightarrow> version_matches (pl_version p) (pl_intent p))
        \<and> (\<forall>it. od_get db (pl_id p) = Some it \<longrightarrow> same_declaration (pl_intent p) it))"

definition cleaner_ok :: "intents \<Rightarrow> string set \<Rightarrow> string \<times> upload_intent \<Rightarrow> bool" where
  "cleaner_ok db I ki =
     (case ki of (i, it0) \<Rightarrow> i \<in> I \<and> ui_state it0 \<in> set terminal_states
        \<and> (\<forall>it. od_get db i = Some it \<longrightarrow> same_objects it0 it))"

definition rows_inv :: "upload_settings \<Rightarrow> 'w upload_sys \<Rightarrow> bool" where
  "rows_inv st s =
     (od_wf (sy_intents s)
      \<and> (\<forall>i it. od_get (sy_intents s) i = Some it \<longrightarrow> i \<in> sy_ids s \<and> intent_ok st it \<and> (\<exists>b. stage_ok b it))
      \<and> (\<forall>c\<in>sy_claims s. claim_ok (sy_intents s) (sy_ids s) c)
      \<and> (\<forall>p\<in>sy_plans s. plan_ok (sy_intents s) (sy_ids s) p)
      \<and> (\<forall>k\<in>sy_cleaners s. cleaner_ok (sy_intents s) (sy_ids s) k))"

lemma changes_row:
  "changes st now db db' \<Longrightarrow> od_get db' i = Some it' \<Longrightarrow> \<exists>it. od_get db i = Some it \<and> intent_steps st now it it'"
  unfolding changes_def by blast

lemma claim_ok_changes: "claim_ok db I c \<Longrightarrow> changes st now db db' \<Longrightarrow> I \<subseteq> I' \<Longrightarrow> claim_ok db' I' c"
proof -
  assume c: "claim_ok db I c" and ch: "changes st now db db'" and I: "I \<subseteq> I'"
  obtain tc it0 where p: "c = (tc, it0)" by (cases c)
  have "same_declaration it0 it' \<and> stage_ok (tc_base_key tc) it' \<and> tc_attempt tc \<in> {1..ui_attempts it'}"
    if "od_get db' (tc_intent tc) = Some it'" for it'
  proof -
    from changes_row [OF ch that] obtain it where it: "od_get db (tc_intent tc) = Some it" "intent_steps st now it it'"
      by blast
    with c p have "same_declaration it0 it" "stage_ok (tc_base_key tc) it" "tc_attempt tc \<in> {1..ui_attempts it}"
      by (auto simp: claim_ok_def)
    with intent_steps_declaration [OF it(2)] intent_steps_stage_ok [OF it(2)] intent_steps_attempts [OF it(2)]
    show ?thesis by (auto intro: same_declaration_trans)
  qed
  with c p I show "claim_ok db' I' c" by (auto simp: claim_ok_def)
qed

lemma plan_ok_changes: "plan_ok db I p \<Longrightarrow> changes st now db db' \<Longrightarrow> I \<subseteq> I' \<Longrightarrow> plan_ok db' I' p"
proof -
  assume p: "plan_ok db I p" and ch: "changes st now db db'" and I: "I \<subseteq> I'"
  have "same_declaration (pl_intent p) it'" if "od_get db' (pl_id p) = Some it'" for it'
  proof -
    from changes_row [OF ch that] obtain it where it: "od_get db (pl_id p) = Some it" "intent_steps st now it it'"
      by blast
    with p intent_steps_declaration [OF it(2)] show ?thesis
      by (auto simp: plan_ok_def intro: same_declaration_trans)
  qed
  with p I show "plan_ok db' I' p" by (auto simp: plan_ok_def)
qed

lemma cleaner_ok_changes: "cleaner_ok db I k \<Longrightarrow> changes st now db db' \<Longrightarrow> I \<subseteq> I' \<Longrightarrow> cleaner_ok db' I' k"
proof -
  assume c: "cleaner_ok db I k" and ch: "changes st now db db'" and I: "I \<subseteq> I'"
  obtain i it0 where p: "k = (i, it0)" by (cases k)
  have "same_objects it0 it'" if "od_get db' i = Some it'" for it'
  proof -
    from changes_row [OF ch that] obtain it where it: "od_get db i = Some it" "intent_steps st now it it'" by blast
    with c p have s: "same_objects it0 it" "ui_state it0 \<in> set terminal_states" by (auto simp: cleaner_ok_def)
    then have "ui_state it \<in> set terminal_states" by (simp add: same_objects_def)
    from intent_steps_terminal [OF it(2) this] s(1) show ?thesis by (simp add: same_objects_def)
  qed
  with c p I show "cleaner_ok db' I' k" by (auto simp: cleaner_ok_def)
qed

lemma rows_inv_changes:
  assumes inv: "rows_inv st s" and ch: "changes st now (sy_intents s) (sy_intents s')"
    and sub: "sy_ids s \<subseteq> sy_ids s'"
    and new: "\<And>c. c \<in> sy_claims s' \<Longrightarrow> c \<in> sy_claims s \<or> claim_ok (sy_intents s') (sy_ids s') c"
      "\<And>p. p \<in> sy_plans s' \<Longrightarrow> p \<in> sy_plans s \<or> plan_ok (sy_intents s') (sy_ids s') p"
      "\<And>k. k \<in> sy_cleaners s' \<Longrightarrow> k \<in> sy_cleaners s \<or> cleaner_ok (sy_intents s') (sy_ids s') k"
  shows "rows_inv st s'"
proof -
  have "i \<in> sy_ids s \<and> intent_ok st it' \<and> (\<exists>b. stage_ok b it')" if "od_get (sy_intents s') i = Some it'" for i it'
  proof -
    from changes_row [OF ch that] obtain it where it: "od_get (sy_intents s) i = Some it" "intent_steps st now it it'"
      by blast
    with inv have "i \<in> sy_ids s" "intent_ok st it" "\<exists>b. stage_ok b it" by (auto simp: rows_inv_def)
    with intent_steps_ok [OF it(2)] intent_steps_stage_ok [OF it(2)] show ?thesis by blast
  qed
  moreover have "od_wf (sy_intents s')" using inv ch by (simp add: rows_inv_def changes_def)
  moreover have "\<forall>c\<in>sy_claims s'. claim_ok (sy_intents s') (sy_ids s') c"
    using new(1) inv claim_ok_changes [OF _ ch sub] unfolding rows_inv_def by blast
  moreover have "\<forall>p\<in>sy_plans s'. plan_ok (sy_intents s') (sy_ids s') p"
    using new(2) inv plan_ok_changes [OF _ ch sub] unfolding rows_inv_def by blast
  moreover have "\<forall>k\<in>sy_cleaners s'. cleaner_ok (sy_intents s') (sy_ids s') k"
    using new(3) inv cleaner_ok_changes [OF _ ch sub] unfolding rows_inv_def by blast
  ultimately show ?thesis using sub unfolding rows_inv_def by blast
qed

lemma set_intents_sel [simp]:
  "sy_intents (set_intents db s) = db" "sy_rows (set_intents db s) = sy_rows s" "sy_now (set_intents db s) = sy_now s"
  "sy_ids (set_intents db s) = sy_ids s" "sy_plans (set_intents db s) = sy_plans s"
  "sy_claims (set_intents db s) = sy_claims s" "sy_names (set_intents db s) = sy_names s"
  "sy_home (set_intents db s) = sy_home s" "sy_cleaners (set_intents db s) = sy_cleaners s"
  "sy_deleted (set_intents db s) = sy_deleted s"
  by (simp_all add: set_intents_def)

section \<open>The effect of a step on the rows\<close>

definition admitted :: "upload_settings \<Rightarrow> 'w upload_sys \<Rightarrow> 'w upload_sys \<Rightarrow> bool" where
  "admitted st s s' =
     (\<exists>i it owner. i \<notin> sy_ids s
        \<and> s' = set_intents (sy_intents s @ [(i, it)]) (s\<lparr>sy_ids := insert i (sy_ids s)\<rparr>)
        \<and> enforce_pending_quotas st owner (ui_declared_size it) (sy_now s) (sy_intents s) = Inr ()
        \<and> ui_user it = Some owner \<and> ui_state it = UPending \<and> intent_ok st it \<and> stage_ok (ui_staging_key it) it
        \<and> ui_old_key it = None)"

lemma admittedI:
  "i \<notin> sy_ids s \<Longrightarrow> s' = set_intents (sy_intents s @ [(i, it)]) (s\<lparr>sy_ids := insert i (sy_ids s)\<rparr>) \<Longrightarrow>
   enforce_pending_quotas st owner (ui_declared_size it) (sy_now s) (sy_intents s) = Inr () \<Longrightarrow>
   ui_user it = Some owner \<Longrightarrow> ui_state it = UPending \<Longrightarrow> intent_ok st it \<Longrightarrow> stage_ok (ui_staging_key it) it \<Longrightarrow>
   ui_old_key it = None \<Longrightarrow> admitted st s s'"
  unfolding admitted_def by blast

lemma new_row_stage_ok:
  "list_all hex_lower h \<Longrightarrow> h \<noteq> [] \<Longrightarrow> ui_staging_key it = us_staging_prefix st @ h1 @ CHR ''/'' # h \<Longrightarrow>
   ui_attempts it = 0 \<Longrightarrow> ui_state it = UPending \<Longrightarrow> stage_ok (ui_staging_key it) it"
  using generated_key_plain [of h "us_staging_prefix st @ h1"] by (simp add: stage_ok_def)

lemma cleaner_row_terminal:
  "rows_inv st s \<Longrightarrow> (i, it0) \<in> sy_cleaners s \<Longrightarrow> od_get (sy_intents s) i = Some it \<Longrightarrow> ui_state it \<in> set terminal_states"
  by (fastforce simp: rows_inv_def cleaner_ok_def same_objects_def)

text \<open>The rows move by the row machine, or one row is admitted; workers only learn what is true.\<close>

lemma step_rows:
  assumes "up_step st sha s s'" "rows_inv st s"
  shows "admitted st s s' \<or> changes st (sy_now s) (sy_intents s) (sy_intents s') \<and> sy_ids s \<subseteq> sy_ids s'"
  using assms
proof (induction rule: up_step.induct)
  case (admit b64 site a user_exists instructions owner i digest h1 h2 rq s res db')
  from admission_effect [OF admit.hyps(1)] show ?case
  proof (elim disjE exE conjE)
    fix it assume it: "db' = sy_intents s @ [(i, it)]" "ui_staging_key it = us_staging_prefix st @ h1 @ CHR ''/'' # h2"
      "ui_attempts it = 0" "ui_state it = UPending" "intent_ok st it" "ui_user it = Some owner" "ui_old_key it = None"
      "enforce_pending_quotas st owner (ui_declared_size it) (sy_now s) (sy_intents s) = Inr ()"
    have "admitted st s (set_intents db' (s\<lparr>sy_ids := insert i (sy_ids s)\<rparr>))"
      by (rule admittedI [OF admit.hyps(4) _ it(8,6,4,5) new_row_stage_ok [OF admit.hyps(2,3) it(2,3,4)] it(7)])
         (simp only: it(1))
    then show ?case ..
  qed (simp add: subset_insertI)
next
  case (persist ps s b r db')
  have "version_matches (pl_version p) it"
    if "p \<in> set ps" "od_get (sy_intents s) (pl_id p) = Some it" "pl_direct p" for p it
  proof -
    from that(1) persist.hyps(1) have "p \<in> sy_plans s" by blast
    with persist.prems have "plan_ok (sy_intents s) (sy_ids s) p" by (simp add: rows_inv_def)
    with that(2,3) show ?thesis by (auto simp: plan_ok_def intro: version_matches_declaration)
  qed
  from persist_effect [OF persist.hyps(2) this] have "changes st (sy_now s) (sy_intents s) db'" .
  then show ?case by simp
next
  case (transfer_completed c it s v r db')
  from transfer_completed.prems transfer_completed.hyps(1) have c: "claim_ok (sy_intents s) (sy_ids s) (c, it)"
    by (simp add: rows_inv_def)
  have "changes st (sy_now s) (sy_intents s) db'"
  proof (rule complete_transfer_effect [OF transfer_completed.hyps(3)])
    fix it' assume "od_get (sy_intents s) (tc_intent c) = Some it'"
    with c transfer_version_matches [OF transfer_completed.hyps(2)] show "version_matches v it'"
      by (simp add: claim_ok_def)
  qed (use c in \<open>simp add: claim_ok_def\<close>)
  then show ?case by simp
next
  case (claim site env ct s pk pcs w' f claimed)
  from claim_rows(1) [OF claim.hyps(1-3,5)] show ?case by simp
next
  case (cleanup_failed i it s u t e)
  then show ?case by (simp add: cleanup_end_effect(1) cleaner_row_terminal)
next
  case (cleanup_finished i it s u t r db')
  from cleanup_end_effect(2) [OF cleaner_row_terminal [OF cleanup_finished.prems cleanup_finished.hyps(1)]
      cleanup_finished.hyps(2)] show ?case by simp
qed (simp_all add: claim_transfer_effect(1) renew_transfer_effect release_transfer_effect mark_expired_changes reject_effect
    start_finalization_effect begin_finalization_effect(1) renew_finalization_effect complete_finalization_effect(1)
    record_failure_effect expire_effect terminal_claim_effect(1) old_planned_effect mark_old_effect retained_effect(1))

lemma rows_inv_admitted:
  assumes "rows_inv st s" "admitted st s s'"
  shows "rows_inv st s'"
proof -
  from assms(2) obtain i it owner where new: "i \<notin> sy_ids s"
      "s' = set_intents (sy_intents s @ [(i, it)]) (s\<lparr>sy_ids := insert i (sy_ids s)\<rparr>)"
      "intent_ok st it" "stage_ok (ui_staging_key it) it"
    unfolding admitted_def by blast
  then have i: "i \<notin> sy_ids s" "sy_intents s' = sy_intents s @ [(i, it)]" "sy_ids s' = insert i (sy_ids s)"
      "intent_ok st it" "stage_ok (ui_staging_key it) it"
    and same: "sy_claims s' = sy_claims s" "sy_plans s' = sy_plans s" "sy_cleaners s' = sy_cleaners s"
    by simp_all
  have none: "od_get (sy_intents s) i = None"
    using assms(1) i(1) unfolding rows_inv_def by (metis option.exhaust)
  have get: "od_get (sy_intents s') k = (if k = i then Some it else od_get (sy_intents s) k)" for k
    using none by (auto simp: i(2) map_add_def split: option.splits)
  have other: "od_get (sy_intents s') k = od_get (sy_intents s) k" if "k \<in> sy_ids s" for k
    using that i(1) get by auto
  have "od_wf (sy_intents s')" using assms(1) none by (simp add: i(2) rows_inv_def od_wf_append_fresh del: map_append)
  moreover have "\<forall>k it'. od_get (sy_intents s') k = Some it' \<longrightarrow>
      k \<in> sy_ids s' \<and> intent_ok st it' \<and> (\<exists>b. stage_ok b it')"
    using assms(1) i(3-5) unfolding get rows_inv_def by auto
  moreover have "\<forall>c\<in>sy_claims s'. claim_ok (sy_intents s') (sy_ids s') c"
    using assms(1) same other i(3) by (fastforce simp: rows_inv_def claim_ok_def)
  moreover have "\<forall>c\<in>sy_plans s'. plan_ok (sy_intents s') (sy_ids s') c"
    using assms(1) same other i(3) by (fastforce simp: rows_inv_def plan_ok_def)
  moreover have "\<forall>c\<in>sy_cleaners s'. cleaner_ok (sy_intents s') (sy_ids s') c"
    using assms(1) same other i(3) by (fastforce simp: rows_inv_def cleaner_ok_def)
  ultimately show ?thesis unfolding rows_inv_def by blast
qed

text \<open>What a worker newly learns in a step.\<close>

lemma new_claim:
  assumes "rows_inv st s" "claim_transfer st i owner (sy_now s) (sy_intents s) = (Inr c, db')"
    "owned_row (sy_intents s) i owner = Some it0"
  shows "claim_ok db' (sy_ids s) (c, it0)"
proof -
  from claim_transfer_effect(2) [OF assms(2) refl] obtain it it' where
    it: "od_get (sy_intents s) i = Some it" "od_get db' i = Some it'" "tc_intent c = i" "intent_step st (sy_now s) it it'"
      "ui_state it \<in> {UPending, UTransferring}" "tc_base_key c = ui_staging_key it" "tc_attempt c = ui_attempts it + 1"
      "ui_attempts it' = tc_attempt c" "attempt_staging_key (tc_base_key c) (tc_attempt c) = Inr (tc_stage_key c)"
    by blast
  with assms(3) have it0: "it0 = it" by (auto simp: owned_row_def split: if_splits)
  from assms(1) it(1) obtain b where b: "stage_ok b it" and i: "i \<in> sy_ids s" unfolding rows_inv_def by blast
  with it(5,6) have base: "tc_base_key c = b" "0 \<le> ui_attempts it" by (auto simp: stage_ok_def)
  show ?thesis
    using it it0 i base intent_step_stage_ok [OF it(4) b] intent_step_declaration [OF it(4)]
    by (simp add: claim_ok_def)
qed

lemma renewed_claim_ok: "claim_ok db I (c, it) \<Longrightarrow> claim_ok db I (c\<lparr>tc_lease_until := u\<rparr>, it)"
  by (simp add: claim_ok_def)

lemma intent_for_token_row:
  assumes "od_wf db" "intent_for_token sha db token = Inr (i, it)"
  shows "od_get db i = Some it"
proof -
  from assms(2) have "filter (\<lambda>(i, it). ui_token_digest it = sha token) db = [(i, it)]"
    by (auto simp: intent_for_token_def split: list.splits prod.splits if_splits)
  then have "(i, it) \<in> set (filter (\<lambda>(i, it). ui_token_digest it = sha token) db)" by simp
  then have "(i, it) \<in> set db" by (simp only: set_filter) blast
  with od_set_iff [OF assms(1)] show ?thesis by blast
qed

lemma new_plan:
  assumes "rows_inv st s" "preflight_plan sha site (sy_intents s) x b now raw = Inr p"
  shows "plan_ok (sy_intents s) (sy_ids s) p"
proof -
  obtain field token where raw: "raw = (field, Text token)"
    using assms(2) by (auto simp: preflight_plan_def split: prod.splits token_value.splits)
  with assms(2) obtain i it a where it: "intent_for_token sha (sy_intents s) token = Inr (i, it)"
      "pl_id p = i" "pl_intent p = it" "preflight_version a it x = Inr (pl_version p, pl_direct p)"
    by (auto simp: preflight_plan_def sbind_Inr_iff split: if_splits)
  from assms(1) have wf: "od_wf (sy_intents s)" by (simp add: rows_inv_def)
  from intent_for_token_row [OF wf it(1)] have get: "od_get (sy_intents s) i = Some it" .
  with assms(1) have "i \<in> sy_ids s" unfolding rows_inv_def by blast
  moreover have "version_matches (pl_version p) it" if "pl_direct p"
    using it(4) that
    by (auto simp: preflight_version_def inspect_pending_def sbind_Inr_iff version_matches_def validate_preflight_version_def
        split: if_splits sum.splits adapter_failure.splits upload_error.splits)
  ultimately show ?thesis using it get by (simp add: plan_ok_def)
qed

definition learns :: "'w upload_sys \<Rightarrow> 'w upload_sys \<Rightarrow> bool" where
  "learns s s' =
     ((\<forall>c\<in>sy_claims s'. c \<in> sy_claims s \<or> claim_ok (sy_intents s') (sy_ids s') c)
      \<and> (\<forall>p\<in>sy_plans s'. p \<in> sy_plans s \<or> plan_ok (sy_intents s') (sy_ids s') p)
      \<and> (\<forall>k\<in>sy_cleaners s'. k \<in> sy_cleaners s \<or> cleaner_ok (sy_intents s') (sy_ids s') k))"

lemma step_learns: "up_step st sha s s' \<Longrightarrow> rows_inv st s \<Longrightarrow> learns s s'"
proof (induction rule: up_step.induct)
  case (plan site s b raw p)
  with new_plan [OF plan.prems plan.hyps] show ?case by (simp add: learns_def)
next
  case (transfer_claimed i owner s c db' it)
  with new_claim [OF transfer_claimed.prems transfer_claimed.hyps(1,2)] show ?case by (simp add: learns_def)
next
  case (transfer_renewed c it s c' db')
  then have "claim_ok (sy_intents s) (sy_ids s) (c, it)" by (simp add: rows_inv_def)
  from claim_ok_changes [OF this renew_transfer_effect [OF transfer_renewed.hyps(2)] subset_refl]
    renewed_claim [OF transfer_renewed.hyps(2)]
  have "claim_ok db' (sy_ids s) (c', it)" by (auto intro: renewed_claim_ok)
  then show ?case by (simp add: learns_def)
next
  case (cleanup_claimed i s fresh it u t db')
  note e = terminal_claim_effect [OF cleanup_claimed.hyps(1)]
  from changes_row [OF e(1,2)] cleanup_claimed.prems have "i \<in> sy_ids s" unfolding rows_inv_def by blast
  with e have "cleaner_ok db' (sy_ids s) (i, it)" by (simp add: cleaner_ok_def same_objects_def)
  then show ?case by (simp add: learns_def)
qed (simp_all add: learns_def)

lemma rows_inv_step: "up_step st sha s s' \<Longrightarrow> rows_inv st s \<Longrightarrow> rows_inv st s'"
proof -
  assume step: "up_step st sha s s'" and inv: "rows_inv st s"
  from step_learns [OF step inv] have l: "learns s s'" .
  from step_rows [OF step inv] show "rows_inv st s'"
  proof (elim disjE conjE)
    assume "admitted st s s'"
    with inv show ?thesis by (rule rows_inv_admitted)
  next
    assume "changes st (sy_now s) (sy_intents s) (sy_intents s')" "sy_ids s \<subseteq> sy_ids s'"
    from rows_inv_changes [OF inv this] l show ?thesis unfolding learns_def by blast
  qed
qed

lemma rows_inv_steps: "up_steps st sha s s' \<Longrightarrow> rows_inv st s \<Longrightarrow> rows_inv st s'"
  by (induction rule: rtranclp_induct) (auto intro: rows_inv_step)

lemma rows_inv_fresh: "rows_inv st (fresh_sys now r x)"
  by (simp add: rows_inv_def fresh_sys_def)

lemma rows_inv_reachable: "up_reachable st sha s \<Longrightarrow> rows_inv st s"
  unfolding up_reachable_def by (elim exE) (rule rows_inv_steps [OF _ rows_inv_fresh])

section \<open>The quotas\<close>

definition quota_ok :: "upload_settings \<Rightarrow> 'w upload_sys \<Rightarrow> bool" where
  "quota_ok st s =
     (\<forall>owner. fst (quota_load (sy_now s) (Some owner) (sy_intents s)) \<le> max 0 (us_intents_per_user st)
        \<and> snd (quota_load (sy_now s) (Some owner) (sy_intents s)) \<le> max 0 (us_bytes_per_user st)
        \<and> fst (quota_load (sy_now s) None (sy_intents s)) \<le> max 0 (us_intents_global st)
        \<and> snd (quota_load (sy_now s) None (sy_intents s)) \<le> max 0 (us_bytes_global st))"

lemma quota_load_append:
  "quota_load now owner (db @ [(i, it)]) =
     (if counts_for_quota now it \<and> (owner = None \<or> ui_user it = owner)
      then (fst (quota_load now owner db) + 1, snd (quota_load now owner db) + ui_declared_size it)
      else quota_load now owner db)"
  by (auto simp: quota_load_sums)

lemma quota_admitted:
  assumes "quota_ok st s" "admitted st s s'"
  shows "quota_ok st s'"
proof -
  from assms(2) obtain i it owner where new: "s' = set_intents (sy_intents s @ [(i, it)]) (s\<lparr>sy_ids := insert i (sy_ids s)\<rparr>)"
      "enforce_pending_quotas st owner (ui_declared_size it) (sy_now s) (sy_intents s) = Inr ()" "ui_user it = Some owner"
    unfolding admitted_def by blast
  let ?db = "sy_intents s"
  from new(2) have room: "fst (quota_load (sy_now s) None ?db) < us_intents_global st"
    "snd (quota_load (sy_now s) None ?db) + ui_declared_size it \<le> us_bytes_global st"
    "fst (quota_load (sy_now s) (Some owner) ?db) < us_intents_per_user st"
    "snd (quota_load (sy_now s) (Some owner) ?db) + ui_declared_size it \<le> us_bytes_per_user st"
    by (simp_all add: enforce_pending_quotas_def quota_load_active quota_load_owner Let_def split: if_splits)
  have now: "sy_now s' = sy_now s" "sy_intents s' = ?db @ [(i, it)]" using new(1) by simp_all
  have "fst (quota_load (sy_now s) (Some other) (?db @ [(i, it)])) \<le> max 0 (us_intents_per_user st)
      \<and> snd (quota_load (sy_now s) (Some other) (?db @ [(i, it)])) \<le> max 0 (us_bytes_per_user st)
      \<and> fst (quota_load (sy_now s) None (?db @ [(i, it)])) \<le> max 0 (us_intents_global st)
      \<and> snd (quota_load (sy_now s) None (?db @ [(i, it)])) \<le> max 0 (us_bytes_global st)" for other
    using assms(1) room new(3) unfolding quota_ok_def quota_load_append
    by (cases "other = owner") (auto split: if_splits)
  then show ?thesis unfolding quota_ok_def now by blast
qed

lemma step_time: "up_step st sha s s' \<Longrightarrow> sy_now s \<le> sy_now s'"
  by (induction rule: up_step.induct) simp_all

lemma quota_step:
  assumes "up_step st sha s s'" "rows_inv st s" "quota_ok st s"
  shows "quota_ok st s'"
  using step_rows [OF assms(1,2)]
proof (elim disjE conjE)
  assume "admitted st s s'"
  with assms(3) show ?thesis by (rule quota_admitted)
next
  assume ch: "changes st (sy_now s) (sy_intents s) (sy_intents s')"
  have wf: "od_wf (sy_intents s)" "od_wf (sy_intents s')"
    using assms(2) ch by (simp_all add: rows_inv_def changes_def)
  have sizes: "0 \<le> ui_declared_size it" if "od_get (sy_intents s) i = Some it" for i it
    using assms(2) that by (auto simp: rows_inv_def intent_ok_def)
  note le = quota_load_antimono [OF wf step_time [OF assms(1)] sizes changes_row [OF ch]]
  from assms(3) show ?thesis unfolding quota_ok_def by (meson le order_trans)
qed

lemma quota_reachable:
  assumes "up_reachable st sha s"
  shows "quota_ok st s"
proof -
  from assms obtain now r x where run: "up_steps st sha (fresh_sys now r x) s" unfolding up_reachable_def by blast
  have "rows_inv st s \<and> quota_ok st s" using run
  proof (induction rule: rtranclp_induct)
    case base
    have "quota_ok st (fresh_sys now r x)" by (simp add: quota_ok_def fresh_sys_def quota_load_def total_bytes_def)
    then show ?case by (intro conjI rows_inv_fresh)
  next
    case (step y z)
    then show ?case using rows_inv_step quota_step by blast
  qed
  then show ?thesis ..
qed

section \<open>The history of a row\<close>

definition follows :: "upload_intent \<Rightarrow> upload_intent \<Rightarrow> bool" where
  "follows it it' =
     (moves (ui_state it) (ui_state it') \<and> same_declaration it it'
      \<and> (ui_state it \<in> set terminal_states \<longrightarrow> same_objects it it'))"

lemma follows_refl: "follows it it"
  by (simp add: follows_def same_objects_def)

lemma follows_steps:
  assumes "follows a b" "intent_steps st now b c"
  shows "follows a c"
proof -
  have "same_objects a c" if t: "ui_state a \<in> set terminal_states"
  proof -
    from assms(1) t have ab: "same_objects a b" by (simp add: follows_def)
    with t have "ui_state b \<in> set terminal_states" by (simp add: same_objects_def)
    from intent_steps_terminal [OF assms(2) this] ab show ?thesis by (simp add: same_objects_def)
  qed
  moreover have "moves (ui_state a) (ui_state c)"
    using assms(1) intent_steps_moves [OF assms(2)] unfolding follows_def by (blast intro: moves_trans)
  moreover have "same_declaration a c"
    using assms(1) intent_steps_declaration [OF assms(2)] unfolding follows_def by (blast intro: same_declaration_trans)
  ultimately show ?thesis by (simp add: follows_def)
qed

text \<open>An id is never used twice, so a row that is gone never comes back as another one.\<close>

lemma row_history:
  assumes "up_steps st sha s s'" "rows_inv st s" "od_get (sy_intents s) i = Some it"
  shows "rows_inv st s' \<and> i \<in> sy_ids s' \<and> (\<forall>it'. od_get (sy_intents s') i = Some it' \<longrightarrow> follows it it')"
  using assms(1)
proof (induction rule: rtranclp_induct)
  case base
  have "i \<in> sy_ids s" using assms(2,3) unfolding rows_inv_def by blast
  then show ?case using assms(2,3) by (simp add: follows_refl)
next
  case (step y z)
  then have y: "rows_inv st y" "i \<in> sy_ids y" by blast+
  from step_rows [OF step.hyps(2) y(1)] have "i \<in> sy_ids z \<and>
      (\<forall>it'. od_get (sy_intents z) i = Some it' \<longrightarrow> (\<exists>it0 now. od_get (sy_intents y) i = Some it0 \<and> intent_steps st now it0 it'))"
  proof (elim disjE conjE)
    assume "admitted st y z"
    then obtain j jt where "j \<notin> sy_ids y" "z = set_intents (sy_intents y @ [(j, jt)]) (y\<lparr>sy_ids := insert j (sy_ids y)\<rparr>)"
      unfolding admitted_def by blast
    with y(2) show ?thesis by (auto simp: map_add_def split: option.splits)
  next
    assume "changes st (sy_now y) (sy_intents y) (sy_intents z)" "sy_ids y \<subseteq> sy_ids z"
    with y(2) changes_row show ?thesis by blast
  qed
  with step.IH rows_inv_step [OF step.hyps(2) y(1)] show ?case by (blast intro: follows_steps)
qed

end
