(* ===== verification/UpNames.thy ===== *)
theory UpNames
  imports UpRuns
begin

text \<open>
  Which file names the rows of the application hold, and why cleanup never deletes an object that a
  row refers to. A name is spent when no row holds it although an upload reserved it; rows never pick
  a spent name up again. Superseded intents and replaced files have spent names.
\<close>

section \<open>Spent names\<close>

definition spent :: "'w upload_sys \<Rightarrow> string \<Rightarrow> bool" where
  "spent s k = (k \<in> sy_names s \<and> (sy_home s k \<noteq> None \<longrightarrow> k \<notin> row_names (sy_rows s)))"

definition homes_ok :: "'w upload_sys \<Rightarrow> bool" where
  "homes_ok s =
     (sy_home s [] = None \<and> dom (sy_home s) \<subseteq> sy_names s \<and> row_names (sy_rows s) \<subseteq> insert [] (sy_names s)
      \<and> (\<forall>m pk f field h. sy_rows s m pk = Some f \<longrightarrow> sy_home s (f field) = Some h \<longrightarrow> h = (m, pk, field)))"

definition final_ok :: "'w upload_sys \<Rightarrow> upload_intent \<Rightarrow> bool" where
  "final_ok s it =
     ((\<forall>k. ui_final_key it = Some k \<longrightarrow>
         (\<exists>pk. ui_final_target it = Some pk \<and> sy_home s k = Some (ui_manager it, pk, ui_field it)))
      \<and> (\<forall>k. ui_state it = USuperseded \<longrightarrow> ui_final_key it = Some k \<longrightarrow> spent s k)
      \<and> (\<forall>k. ui_old_key it = Some k \<longrightarrow> spent s k))"

definition cleaner_names_ok :: "'w upload_sys \<Rightarrow> upload_intent \<Rightarrow> bool" where
  "cleaner_names_ok s it =
     ((\<forall>k. ui_state it = USuperseded \<longrightarrow> ui_final_key it = Some k \<longrightarrow> spent s k)
      \<and> (\<forall>k. ui_old_key it = Some k \<longrightarrow> spent s k))"

definition names_inv :: "'w upload_sys \<Rightarrow> bool" where
  "names_inv s =
     (homes_ok s
      \<and> (\<forall>i it. od_get (sy_intents s) i = Some it \<longrightarrow> final_ok s it)
      \<and> (\<forall>i it. (i, it) \<in> sy_cleaners s \<longrightarrow> cleaner_names_ok s it)
      \<and> (\<forall>k\<in>sy_deleted s. spent s k))"

section \<open>Steps that leave the names alone\<close>

definition quiet :: "upload_intent \<Rightarrow> upload_intent \<Rightarrow> bool" where
  "quiet it it' =
     (ui_final_key it' = ui_final_key it \<and> ui_final_target it' = ui_final_target it \<and> ui_old_key it' = ui_old_key it
      \<and> ui_manager it' = ui_manager it \<and> ui_field it' = ui_field it
      \<and> (ui_state it' = USuperseded \<longrightarrow> ui_state it = USuperseded))"

definition quiet_db :: "intents \<Rightarrow> intents \<Rightarrow> bool" where
  "quiet_db db db' = (\<forall>i it'. od_get db' i = Some it' \<longrightarrow> (\<exists>it. od_get db i = Some it \<and> quiet it it'))"

named_theorems quiet_intros

lemma quiet_refl [simp]: "quiet it it"
  by (simp add: quiet_def)

lemma quiet_trans: "quiet a b \<Longrightarrow> quiet b c \<Longrightarrow> quiet a c"
  by (auto simp: quiet_def)

lemma quiet_db_refl [simp, quiet_intros]: "quiet_db db db"
  by (simp add: quiet_db_def)

lemma quiet_db_set [quiet_intros]: "od_get db i = Some it \<Longrightarrow> quiet it it' \<Longrightarrow> quiet_db db (od_set i it' db)"
  by (auto simp: quiet_db_def od_get_set)

lemma quiet_db_pop [quiet_intros]: "quiet_db db (od_pop i db)"
  by (auto simp: quiet_db_def od_get_pop)

lemma quiet_db_trans: "quiet_db a b \<Longrightarrow> quiet_db b c \<Longrightarrow> quiet_db a c"
  unfolding quiet_db_def by (meson quiet_trans)

lemma quiet_db_update:
  "(\<And>it. cond it \<Longrightarrow> quiet it (upd it)) \<Longrightarrow> update_where db i cond upd = (b, db') \<Longrightarrow> quiet_db db db'"
  by (auto simp: update_where_def split: option.splits if_splits intro: quiet_intros)

lemma quiet_db_update_snd: "(\<And>it. cond it \<Longrightarrow> quiet it (upd it)) \<Longrightarrow> quiet_db db (snd (update_where db i cond upd))"
  by (rule quiet_db_update [where b = "fst (update_where db i cond upd)"]) auto

lemma claim_transfer_quiet: "claim_transfer st i owner now db = (r, db') \<Longrightarrow> quiet_db db db'"
  by (auto simp: claim_transfer_def mark_expired_def update_where_def Let_def quiet_def
      split: option.splits if_splits sum.splits intro!: quiet_intros)

lemma renew_transfer_quiet: "renew_transfer_lease st c now db = (r, db') \<Longrightarrow> quiet_db db db'"
  by (auto simp: renew_transfer_lease_def update_where_def Let_def quiet_def
      split: option.splits if_splits intro!: quiet_intros)

lemma release_transfer_quiet: "quiet_db db (release_transfer c now db)"
  unfolding release_transfer_def by (rule quiet_db_update_snd) (simp add: quiet_def)

lemma complete_transfer_quiet: "complete_transfer c v now db = (r, db') \<Longrightarrow> quiet_db db db'"
  by (auto simp: complete_transfer_def update_where_def quiet_def split: option.splits if_splits intro!: quiet_intros)

lemma mark_expired_quiet: "quiet_db db (mark_expired i owner now db)"
  unfolding mark_expired_def by (rule quiet_db_update_snd) (simp add: quiet_def)

lemma reject_quiet: "quiet_db db (reject_content_intent i it e now db)"
  unfolding reject_content_intent_def by (rule quiet_db_update_snd) (simp add: quiet_def)

lemma start_finalization_quiet: "start_finalization st i now fresh u t db = (r, db') \<Longrightarrow> quiet_db db db'"
  by (auto simp: start_finalization_def quiet_def split: option.splits if_splits intro!: quiet_intros)

lemma renew_finalization_quiet: "renew_finalization_lease st i now t db = (r, db') \<Longrightarrow> quiet_db db db'"
  by (auto simp: renew_finalization_lease_def update_where_def quiet_def split: option.splits if_splits intro!: quiet_intros)

lemma record_failure_quiet: "record_failure st i e now lease db = (r, db') \<Longrightarrow> quiet_db db db'"
  unfolding record_failure_def by (erule quiet_db_update [rotated]) (simp add: quiet_def)

lemma expire_quiet: "expire_upload_intent i at now db = (r, db') \<Longrightarrow> quiet_db db db'"
  unfolding expire_upload_intent_def by (erule quiet_db_update [rotated]) (simp add: quiet_def)

lemma terminal_claim_quiet: "claim_terminal_cleanup st i now fresh db = (r, db') \<Longrightarrow> quiet_db db db'"
  by (auto simp: claim_terminal_cleanup_def Let_def quiet_def split: option.splits if_splits intro!: quiet_intros)

lemma old_planned_quiet: "plan_old_cleanup_claim a i now allow db = (r, db') \<Longrightarrow> quiet_db db db'"
  by (auto simp: plan_old_cleanup_claim_def quiet_def split: option.splits if_splits sum.splits prod.splits
      intro!: quiet_intros)

lemma mark_old_quiet: "quiet_db db (mark_old_completed i now db)" "quiet_db db (mark_old_resolved i now db)"
  unfolding mark_old_completed_def mark_old_resolved_def by (rule quiet_db_update_snd, simp add: quiet_def)+

lemma cleanup_end_quiet: "quiet_db db (fail_cleanup i u t e now db)"
  "finish_cleanup i u t now db = (r, db') \<Longrightarrow> quiet_db db db'"
  unfolding fail_cleanup_def finish_cleanup_def
  by (rule quiet_db_update_snd, simp add: quiet_def) (erule quiet_db_update [rotated], simp add: quiet_def)

lemma retained_quiet: "delete_retained_intent site i cutoff dry w = (r, w') \<Longrightarrow> quiet_db (intents w) (intents w')"
  by (auto simp: delete_retained_intent_def split: option.splits if_splits sum.splits intro!: quiet_intros)

lemma persist_plan_quiet: "persist_plan sha b now p db = Inr db' \<Longrightarrow> quiet_db db db'"
  by (auto simp: persist_plan_def sbind_Inr_iff quiet_def mark_uploaded_def split: option.splits if_splits intro!: quiet_intros)

lemma persist_plans_quiet: "persist_plans sha b now ps db = Inr db' \<Longrightarrow> quiet_db db db'"
  by (induction ps arbitrary: db) (auto simp: sbind_Inr_iff dest: persist_plan_quiet intro: quiet_db_trans)

lemma persist_quiet: "persist_direct_preflight sha b now ps db = (r, db') \<Longrightarrow> quiet_db db db'"
  by (auto simp: persist_direct_preflight_def split: if_splits sum.splits dest: persist_plans_quiet)

section \<open>The invariant on names\<close>

text \<open>A name that is spent or reserved stays so.\<close>

definition names_later :: "'w upload_sys \<Rightarrow> 'w upload_sys \<Rightarrow> bool" where
  "names_later s s' =
     ((\<forall>k. spent s k \<longrightarrow> spent s' k) \<and> (\<forall>k h. sy_home s k = Some h \<longrightarrow> sy_home s' k = Some h))"

lemma names_later_same:
  "sy_names s' = sy_names s \<Longrightarrow> sy_home s' = sy_home s \<Longrightarrow> sy_rows s' = sy_rows s \<Longrightarrow> names_later s s'"
  by (simp add: names_later_def spent_def)

lemma final_ok_later: "final_ok s it \<Longrightarrow> names_later s s' \<Longrightarrow> quiet it it' \<Longrightarrow> final_ok s' it'"
  unfolding final_ok_def names_later_def quiet_def by (metis (no_types, lifting))

lemma cleaner_names_later: "cleaner_names_ok s it \<Longrightarrow> names_later s s' \<Longrightarrow> cleaner_names_ok s' it"
  unfolding cleaner_names_ok_def names_later_def by blast

lemma names_inv_later:
  assumes "names_inv s" "names_later s s'" "homes_ok s'"
    and "\<And>i it'. od_get (sy_intents s') i = Some it' \<Longrightarrow>
      (\<exists>it. od_get (sy_intents s) i = Some it \<and> quiet it it') \<or> final_ok s' it'"
    and "\<And>i it. (i, it) \<in> sy_cleaners s' \<Longrightarrow> (i, it) \<in> sy_cleaners s \<or> cleaner_names_ok s' it"
    and "\<And>k. k \<in> sy_deleted s' \<Longrightarrow> k \<in> sy_deleted s \<or> spent s' k"
  shows "names_inv s'"
proof -
  have "final_ok s' it'" if "od_get (sy_intents s') i = Some it'" for i it'
    using assms(1,2) assms(4) [OF that] final_ok_later unfolding names_inv_def by blast
  moreover have "cleaner_names_ok s' it" if "(i, it) \<in> sy_cleaners s'" for i it
    using assms(1,2) assms(5) [OF that] cleaner_names_later unfolding names_inv_def by blast
  moreover have "spent s' k" if "k \<in> sy_deleted s'" for k
    using assms(1,2) assms(6) [OF that] unfolding names_inv_def names_later_def by blast
  ultimately show ?thesis using assms(3) unfolding names_inv_def by blast
qed

lemma names_inv_quiet:
  fixes s s' :: "'w upload_sys"
  assumes "names_inv s" "quiet_db (sy_intents s) (sy_intents s')" "sy_names s' = sy_names s" "sy_home s' = sy_home s"
    "sy_rows s' = sy_rows s" "sy_cleaners s' = sy_cleaners s" "sy_deleted s' = sy_deleted s"
  shows "names_inv s'"
proof (rule names_inv_later [OF assms(1) names_later_same [OF assms(3-5)]])
  show "homes_ok s'" using assms(1,3-5) by (simp add: names_inv_def homes_ok_def)
qed (use assms(2,6,7) in \<open>auto simp: quiet_db_def\<close>)

lemma homes_ok_same:
  "homes_ok s \<Longrightarrow> sy_names s' = sy_names s \<Longrightarrow> sy_home s' = sy_home s \<Longrightarrow> sy_rows s' = sy_rows s \<Longrightarrow> homes_ok s'"
  by (simp add: homes_ok_def)

text \<open>An intent is superseded only when its target does not hold its name, and then no row does.\<close>

lemma unbound_spent:
  assumes "names_inv s" "od_get (sy_intents s) i = Some it" "\<not> file_bound (sy_world s) it" "ui_final_key it = Some k"
  shows "spent s k"
proof -
  from assms obtain pk where pk: "ui_final_target it = Some pk" "sy_home s k = Some (ui_manager it, pk, ui_field it)"
    unfolding names_inv_def final_ok_def by blast
  from assms(1) have h: "homes_ok s" by (simp add: names_inv_def)
  have "k \<notin> row_names (sy_rows s)"
  proof
    assume "k \<in> row_names (sy_rows s)"
    then obtain m pk' f field where r: "sy_rows s m pk' = Some f" "f field = k" by (auto simp: row_names_def)
    with h pk(2) have "(ui_manager it, pk, ui_field it) = (m, pk', field)" unfolding homes_ok_def by blast
    with r pk(1) assms(3,4) show False by (simp add: file_bound_def)
  qed
  moreover have "k \<in> sy_names s" using h pk(2) by (auto simp: homes_ok_def)
  ultimately show ?thesis by (simp add: spent_def)
qed

lemma superseding_names:
  assumes "names_inv s" "rows w' = sy_rows s"
    and rows: "\<And>k it'. od_get (intents w') k = Some it' \<Longrightarrow>
      (\<exists>it. od_get (sy_intents s) k = Some it \<and> (quiet it it' \<or> \<not> file_bound (sy_world s) it \<and> it' = supersede now it))"
  shows "names_inv (s\<lparr>sy_world := w'\<rparr>)"
proof (rule names_inv_later [OF assms(1)])
  let ?s = "s\<lparr>sy_world := w'\<rparr>"
  have same: "sy_names ?s = sy_names s" "sy_home ?s = sy_home s" "sy_rows ?s = sy_rows s" using assms(2) by simp_all
  then show later: "names_later s ?s" by (rule names_later_same)
  show "homes_ok ?s" using assms(1) same by (simp add: names_inv_def homes_ok_def)
  fix i it' assume "od_get (sy_intents ?s) i = Some it'"
  then have "od_get (intents w') i = Some it'" by simp
  from rows [OF this] obtain it where it: "od_get (sy_intents s) i = Some it"
    "quiet it it' \<or> \<not> file_bound (sy_world s) it \<and> it' = supersede now it" by blast
  show "(\<exists>it. od_get (sy_intents s) i = Some it \<and> quiet it it') \<or> final_ok ?s it'"
  proof (cases "quiet it it'")
    case False
    with it have u: "\<not> file_bound (sy_world s) it" "it' = supersede now it" by auto
    have "final_ok s it" using assms(1) it(1) unfolding names_inv_def by blast
    then have "final_ok s it'"
      using unbound_spent [OF assms(1) it(1) u(1)] by (simp add: final_ok_def u(2) supersede_def)
    then show ?thesis using final_ok_later [OF _ later quiet_refl] by blast
  qed (use it in blast)
qed simp_all

lemma begin_names:
  assumes "names_inv s" "begin_finalization i now t (sy_world s) = (r, w')"
  shows "names_inv (s\<lparr>sy_world := w'\<rparr>)"
proof (rule superseding_names [OF assms(1) begin_finalization_effect(2) [OF assms(2)]])
  fix k it' assume "od_get (intents w') k = Some it'"
  with assms(2) show "\<exists>it. od_get (sy_intents s) k = Some it \<and>
      (quiet it it' \<or> \<not> file_bound (sy_world s) it \<and> it' = supersede now it)"
    by (auto simp: begin_finalization_def od_get_set quiet_def split: option.splits if_splits)
qed

lemma complete_names:
  assumes "names_inv s" "complete_finalization i now t fv (sy_world s) = (r, w')"
  shows "names_inv (s\<lparr>sy_world := w'\<rparr>)"
proof (rule superseding_names [OF assms(1) complete_finalization_effect(2) [OF assms(2)]])
  fix k it' assume "od_get (intents w') k = Some it'"
  with assms(2) show "\<exists>it. od_get (sy_intents s) k = Some it \<and>
      (quiet it it' \<or> \<not> file_bound (sy_world s) it \<and> it' = supersede now it)"
    by (auto simp: complete_finalization_def od_get_set quiet_def split: option.splits if_splits)
qed

section \<open>The claiming transaction\<close>

lemma reserve_home_other: "k \<notin> set (reserved_names claimed) \<Longrightarrow> reserve_home m pk claimed home k = home k"
  using fold_upd_other [of k "\<lambda>x. the (ui_final_key (snd x))" claimed "\<lambda>x. Some (m, pk, pc_field (fst x))" home]
  by (simp add: reserve_home_def reserved_names_def split_def)

lemma reserve_home_known: "k \<in> set (reserved_names claimed) \<Longrightarrow> reserve_home m pk claimed home k \<noteq> None"
  using fold_upd_some [of k "\<lambda>x. the (ui_final_key (snd x))" claimed "\<lambda>x. Some (m, pk, pc_field (fst x))" home]
  by (auto simp: reserve_home_def reserved_names_def split_def)

lemma reserve_home_this:
  assumes "distinct (reserved_names claimed)" "(pc, it) \<in> set claimed"
  shows "reserve_home m pk claimed home (the (ui_final_key it)) = Some (m, pk, pc_field pc)"
proof -
  let ?g = "\<lambda>x. the (ui_final_key (snd x))"
  have "?g (pc, it) \<in> ?g ` set claimed" using assms(2) by blast
  from fold_upd_some [OF this, of "\<lambda>x. Some (m, pk, pc_field (fst x))" home]
  obtain x where x: "x \<in> set claimed" "?g x = the (ui_final_key it)"
    "fold (\<lambda>x h. h(?g x \<mapsto> (m, pk, pc_field (fst x)))) claimed home (the (ui_final_key it)) = Some (m, pk, pc_field (fst x))"
    by auto
  have "distinct (map ?g claimed)" using assms(1) by (simp add: reserved_names_def split_def)
  then have "inj_on ?g (set claimed)" by (simp add: distinct_map)
  with x(1,2) assms(2) have "x = (pc, it)" by (simp add: inj_on_def)
  with x(3) show ?thesis by (simp add: reserve_home_def split_def)
qed

lemma reserved_names_set: "k \<in> set (reserved_names claimed) \<longleftrightarrow> (\<exists>pc it. (pc, it) \<in> set claimed \<and> k = the (ui_final_key it))"
  by (force simp: reserved_names_def)

text \<open>The row of the target after the claim.\<close>

lemma claimed_fields:
  fixes f :: "string \<Rightarrow> string"
  defines "g \<equiv> \<lambda>claimed. fold (\<lambda>x h. h(pc_field (fst x) := the (ui_final_key (snd x)))) claimed f"
  shows "g claimed field = f field \<and> field \<notin> (pc_field \<circ> fst) ` set claimed
    \<or> (\<exists>pc it. (pc, it) \<in> set claimed \<and> pc_field pc = field \<and> g claimed field = the (ui_final_key it))"
proof (cases "field \<in> (\<lambda>x. pc_field (fst x)) ` set claimed")
  case False
  then show ?thesis
    using fold_upd_other [of field "\<lambda>x. pc_field (fst x)" claimed "\<lambda>x. the (ui_final_key (snd x))" f]
    by (auto simp: g_def)
next
  case True
  from fold_upd_some [OF True, of "\<lambda>x. the (ui_final_key (snd x))" f] show ?thesis
    unfolding g_def by fastforce
qed

text \<open>What the proofs use of a claiming step.\<close>

definition claiming ::
  "upload_settings \<Rightarrow> claim_target \<Rightarrow> string \<Rightarrow> (string \<Rightarrow> string) \<Rightarrow> (prepared_candidate \<times> upload_intent) list
     \<Rightarrow> 'w upload_sys \<Rightarrow> 'w upload_sys \<Rightarrow> bool" where
  "claiming st ct pk f claimed s s' =
     (names_inv s \<and> distinct (reserved_names claimed) \<and> set (reserved_names claimed) \<inter> sy_names s = {}
      \<and> [] \<notin> set (reserved_names claimed)
      \<and> (\<forall>field. f field \<noteq> [] \<longrightarrow> sy_rows s (ct_manager ct) pk = Some f)
      \<and> sy_names s' = sy_names s \<union> set (reserved_names claimed)
      \<and> sy_home s' = reserve_home (ct_manager ct) pk claimed (sy_home s)
      \<and> sy_rows s' = (sy_rows s)(ct_manager ct := (sy_rows s (ct_manager ct))
          (pk \<mapsto> fold (\<lambda>x g. g(pc_field (fst x) := the (ui_final_key (snd x)))) claimed f)))"

lemma claim_is_claiming:
  assumes "claim_uploads st site env ct (sy_now s) (Some pk) pcs (sy_world s) = (Inr pk, w')"
    "row_before (sy_world s) ct = Some f" "claimed_intents st site env ct (sy_now s) f pcs (sy_intents s) = Inr claimed"
    "case ct_pk ct of None \<Rightarrow> sy_rows s (ct_manager ct) pk = None | Some p \<Rightarrow> pk = p"
    "distinct (reserved_names claimed)" "set (reserved_names claimed) \<inter> sy_names s = {}" "names_inv s"
  shows "claiming st ct pk f claimed s (s\<lparr>sy_world := w', sy_names := sy_names s \<union> set (reserved_names claimed),
      sy_home := reserve_home (ct_manager ct) pk claimed (sy_home s)\<rparr>)"
proof -
  have "[] \<notin> set (reserved_names claimed)"
    using claimed_facts(2) [OF assms(3)] by (fastforce simp: reserved_names_set reserved_row_def)
  moreover have "sy_rows s (ct_manager ct) pk = Some f" if "f field \<noteq> []" for field
    using assms(2,4) that by (auto simp: row_before_def split: option.splits)
  ultimately show ?thesis using assms(5-7) claim_result(2) [OF assms(1-3)] by (simp add: claiming_def)
qed

lemma claim_homes: "claiming st ct pk f claimed s s' \<Longrightarrow> homes_ok s"
  by (simp add: claiming_def names_inv_def)

lemma claim_home_old: "claiming st ct pk f claimed s s' \<Longrightarrow> k \<in> sy_names s \<Longrightarrow> sy_home s' k = sy_home s k"
  using reserve_home_other [of k claimed] by (auto simp: claiming_def)

lemma claim_home_empty: "claiming st ct pk f claimed s s' \<Longrightarrow> sy_home s' [] = None"
  using claim_homes [of st ct pk f claimed s s'] reserve_home_other [of "[]" claimed]
  by (simp add: claiming_def homes_ok_def)

lemma claim_row_other:
  "claiming st ct pk f claimed s s' \<Longrightarrow> (m, p) \<noteq> (ct_manager ct, pk) \<Longrightarrow> sy_rows s' m p = sy_rows s m p"
  by (auto simp: claiming_def)

lemma claim_before_row:
  "claiming st ct pk f claimed s s' \<Longrightarrow> f field \<noteq> [] \<Longrightarrow> sy_rows s (ct_manager ct) pk = Some f"
  by (auto simp: claiming_def)

lemma row_name_known: "homes_ok s \<Longrightarrow> sy_rows s m p = Some g \<Longrightarrow> g field \<noteq> [] \<Longrightarrow> g field \<in> sy_names s"
  unfolding homes_ok_def row_names_def by blast

lemma row_home: "homes_ok s \<Longrightarrow> sy_rows s m p = Some g \<Longrightarrow> sy_home s (g field) = Some h \<Longrightarrow> h = (m, p, field)"
  unfolding homes_ok_def by blast

lemma claim_before_name:
  assumes "claiming st ct pk f claimed s s'" "f field \<noteq> []"
  shows "f field \<in> sy_names s"
  by (rule row_name_known [OF claim_homes [OF assms(1)] claim_before_row [OF assms] assms(2)])

lemma claim_target_value:
  assumes "claiming st ct pk f claimed s s'" "sy_rows s' (ct_manager ct) pk = Some g"
  shows "g field = f field \<and> field \<notin> (pc_field \<circ> fst) ` set claimed
    \<or> (\<exists>pc it. (pc, it) \<in> set claimed \<and> pc_field pc = field \<and> g field = the (ui_final_key it))"
proof -
  have "g = fold (\<lambda>x h. h(pc_field (fst x) := the (ui_final_key (snd x)))) claimed f"
    using assms by (simp add: claiming_def)
  with claimed_fields [of claimed f field] show ?thesis by blast
qed

lemma claim_value_home:
  assumes c: "claiming st ct pk f claimed s s'" and "sy_rows s' m p = Some g" "sy_home s' (g field) = Some h"
  shows "h = (m, p, field)"
proof (cases "(m, p) = (ct_manager ct, pk)")
  case False
  with assms(2) have r: "sy_rows s m p = Some g" by (simp add: claim_row_other [OF c])
  have "g field \<noteq> []" using assms(3) claim_home_empty [OF c] by auto
  from row_name_known [OF claim_homes [OF c] r this] assms(3)
  have "sy_home s (g field) = Some h" by (simp add: claim_home_old [OF c])
  with row_home [OF claim_homes [OF c] r] show ?thesis .
next
  case True
  with assms(2) have "sy_rows s' (ct_manager ct) pk = Some g" by simp
  from claim_target_value [OF c this, of field] show ?thesis
  proof (elim disjE exE conjE)
    assume g: "g field = f field"
    have ne: "f field \<noteq> []" using assms(3) claim_home_empty [OF c] g by auto
    from claim_home_old [OF c claim_before_name [OF c ne]] assms(3) g have "sy_home s (f field) = Some h" by simp
    with row_home [OF claim_homes [OF c] claim_before_row [OF c ne]] True show ?thesis by simp
  next
    fix pc it assume x: "(pc, it) \<in> set claimed" "pc_field pc = field" "g field = the (ui_final_key it)"
    have "distinct (reserved_names claimed)" using c by (simp add: claiming_def)
    from reserve_home_this [OF this x(1)] assms(3) x True c show ?thesis by (simp add: claiming_def)
  qed
qed

lemma claim_names_new:
  assumes c: "claiming st ct pk f claimed s s'" and v: "v \<in> row_names (sy_rows s')" "v \<noteq> []"
  shows "v \<in> row_names (sy_rows s) \<or> v \<in> set (reserved_names claimed)"
proof -
  from v(1) obtain m p g field where g: "sy_rows s' m p = Some g" "g field = v" by (auto simp: row_names_def)
  show ?thesis
  proof (cases "(m, p) = (ct_manager ct, pk)")
    case False
    with g show ?thesis unfolding claim_row_other [OF c False] row_names_def by blast
  next
    case True
    with g(1) have t: "sy_rows s' (ct_manager ct) pk = Some g" by simp
    from claim_target_value [OF c t, of field] show ?thesis
    proof (elim disjE exE conjE)
      assume e: "g field = f field"
      with claim_before_row [OF c, of field] g(2) v(2) show ?thesis unfolding row_names_def by auto
    qed (use g(2) in \<open>auto simp: reserved_names_set\<close>)
  qed
qed

lemma claim_homes_later:
  assumes c: "claiming st ct pk f claimed s s'"
  shows "homes_ok s'"
proof -
  note h = claim_homes [OF c, unfolded homes_ok_def]
  have n: "sy_names s' = sy_names s \<union> set (reserved_names claimed)" using c by (simp add: claiming_def)
  have "dom (sy_home s') \<subseteq> sy_names s'"
  proof
    fix k assume k: "k \<in> dom (sy_home s')"
    show "k \<in> sy_names s'"
    proof (cases "k \<in> set (reserved_names claimed)")
      case False
      with k c have "k \<in> dom (sy_home s)" using reserve_home_other [OF False] by (auto simp: claiming_def)
      with h n show ?thesis by blast
    qed (simp add: n)
  qed
  moreover have "row_names (sy_rows s') \<subseteq> insert [] (sy_names s')"
    using claim_names_new [OF c] h n by blast
  ultimately show ?thesis using claim_home_empty [OF c] claim_value_home [OF c] unfolding homes_ok_def by blast
qed

lemma claim_names_later:
  assumes c: "claiming st ct pk f claimed s s'"
  shows "names_later s s'"
proof -
  have un: "set (reserved_names claimed) \<inter> sy_names s = {}" and n: "sy_names s \<subseteq> sy_names s'"
    using c by (simp_all add: claiming_def)
  have "spent s' k" if sp: "spent s k" for k
  proof -
    from sp have k: "k \<in> sy_names s" by (simp add: spent_def)
    have "k \<notin> row_names (sy_rows s')" if h: "sy_home s' k \<noteq> None"
    proof
      assume r: "k \<in> row_names (sy_rows s')"
      have "k \<noteq> []" using h claim_home_empty [OF c] by auto
      from claim_names_new [OF c r this] k un have "k \<in> row_names (sy_rows s)" by blast
      with sp h claim_home_old [OF c k] show False by (simp add: spent_def)
    qed
    with k n show ?thesis by (auto simp: spent_def)
  qed
  moreover have "sy_home s' k = Some h" if "sy_home s k = Some h" for k h
    using that claim_homes [OF c] claim_home_old [OF c, of k] by (auto simp: homes_ok_def)
  ultimately show ?thesis by (simp add: names_later_def)
qed

lemma claim_old_spent:
  assumes c: "claiming st ct pk f claimed s s'" and "(pc, it) \<in> set claimed" "f (pc_field pc) \<noteq> []"
  shows "spent s' (f (pc_field pc))"
proof -
  let ?v = "f (pc_field pc)"
  from claim_before_name [OF c assms(3)] have v: "?v \<in> sy_names s" .
  have "?v \<notin> row_names (sy_rows s')" if h: "sy_home s' ?v = Some h" for h
  proof
    assume "?v \<in> row_names (sy_rows s')"
    then obtain m p g field where g: "sy_rows s' m p = Some g" "g field = ?v" by (auto simp: row_names_def)
    from h claim_home_old [OF c v] have "sy_home s ?v = Some h" by simp
    from row_home [OF claim_homes [OF c] claim_before_row [OF c assms(3)] this]
    have "h = (ct_manager ct, pk, pc_field pc)" .
    moreover from claim_value_home [OF c g(1), of field h] g(2) h have "h = (m, p, field)" by simp
    ultimately have e: "m = ct_manager ct" "p = pk" "field = pc_field pc" by simp_all
    with g(1) have t: "sy_rows s' (ct_manager ct) pk = Some g" by simp
    from claim_target_value [OF c t, of "pc_field pc"] assms(2)
    obtain pc' it' where "(pc', it') \<in> set claimed" "g (pc_field pc) = the (ui_final_key it')" by force
    with g(2) e(3) have "?v \<in> set (reserved_names claimed)" unfolding reserved_names_set by metis
    with v c show False by (auto simp: claiming_def)
  qed
  with v c show ?thesis by (auto simp: spent_def claiming_def)
qed

lemma claim_final_ok:
  assumes c: "claiming st ct pk f claimed s s'" and "(pc, it0) \<in> set claimed" "reserved_row pc f it it0"
    "ui_manager it = ct_manager ct" "ui_field it = pc_field pc"
  shows "final_ok s' (mark_finalizing pk now pc it0)"
proof -
  from assms(3) obtain key where key: "it0 = it\<lparr>ui_final_key := Some key,
      ui_old_key := (if f (pc_field pc) = [] then None else Some (f (pc_field pc))), ui_old_version := pc_old_version pc\<rparr>"
    by (auto simp: reserved_row_def)
  have "distinct (reserved_names claimed)" using c by (simp add: claiming_def)
  from reserve_home_this [OF this assms(2)] c have "sy_home s' key = Some (ct_manager ct, pk, pc_field pc)"
    by (simp add: claiming_def key)
  with assms(4,5) claim_old_spent [OF c assms(2)] show ?thesis by (simp add: final_ok_def mark_finalizing_def key)
qed

lemma claim_names_inv:
  assumes run: "claim_uploads st site env ct (sy_now s) (Some pk) pcs (sy_world s) = (Inr pk, w')"
      "row_before (sy_world s) ct = Some f" "claimed_intents st site env ct (sy_now s) f pcs (sy_intents s) = Inr claimed"
    and target: "case ct_pk ct of None \<Rightarrow> sy_rows s (ct_manager ct) pk = None | Some p \<Rightarrow> pk = p"
    and ids: "distinct (map (ca_intent \<circ> pc_candidate) pcs)"
    and names: "distinct (reserved_names claimed)" "set (reserved_names claimed) \<inter> sy_names s = {}" "names_inv s"
  shows "names_inv (s\<lparr>sy_world := w', sy_names := sy_names s \<union> set (reserved_names claimed),
      sy_home := reserve_home (ct_manager ct) pk claimed (sy_home s)\<rparr>)" (is "names_inv ?s")
proof -
  note c = claim_is_claiming [OF run target names]
  show ?thesis
  proof (rule names_inv_later [OF names(3) claim_names_later [OF c] claim_homes_later [OF c]])
    fix i it' assume "od_get (sy_intents ?s) i = Some it'"
    then have "od_get (intents w') i = Some it'" by simp
    from claim_rows(2) [OF run ids this]
    show "(\<exists>it. od_get (sy_intents s) i = Some it \<and> quiet it it') \<or> final_ok ?s it'"
    proof (elim disjE exE conjE)
      fix pc it0 it
      assume "(pc, it0) \<in> set claimed" "reserved_row pc f it it0" "ui_manager it = ct_manager ct"
        "ui_field it = pc_field pc" "it' = mark_finalizing pk (sy_now s) pc it0"
      with claim_final_ok [OF c] show ?thesis by blast
    qed (blast intro: quiet_refl)
  qed simp_all
qed

section \<open>Every step keeps the invariant on names\<close>

lemma app_write_names:
  assumes "names_inv s"
    and w: "\<And>m pk f field. r m pk = Some f \<Longrightarrow> sy_home s (f field) \<noteq> None \<Longrightarrow>
      \<exists>f0. sy_rows s m pk = Some f0 \<and> f0 field = f field"
  shows "names_inv (s\<lparr>sy_world := (sy_world s)\<lparr>rows := r\<rparr>, sy_names := sy_names s \<union> row_names r\<rparr>)" (is "names_inv ?s")
proof -
  have h: "homes_ok s" using assms(1) by (simp add: names_inv_def)
  have old: "k \<in> row_names (sy_rows s)" if "k \<in> row_names r" "sy_home s k \<noteq> None" for k
  proof -
    from that(1) obtain m pk f field where f: "r m pk = Some f" "k = f field" by (auto simp: row_names_def)
    with w [OF f(1), of field] that(2) obtain f0 where "sy_rows s m pk = Some f0" "f0 field = k" by auto
    then show ?thesis unfolding row_names_def by blast
  qed
  have "spent ?s k" if "spent s k" for k
    using that old unfolding spent_def by auto
  then have later: "names_later s ?s" by (simp add: names_later_def)
  have "homes_ok ?s"
    unfolding homes_ok_def
  proof (intro conjI allI impI)
    fix m pk f field x assume a: "sy_rows ?s m pk = Some f" "sy_home ?s (f field) = Some x"
    have "r m pk = Some f" "sy_home s (f field) \<noteq> None" using a by simp_all
    from w [OF this] obtain f0 where "sy_rows s m pk = Some f0" "f0 field = f field" by blast
    with row_home [OF h, of m pk f0 field x] a(2) show "x = (m, pk, field)" by simp
  qed (use h in \<open>auto simp: homes_ok_def\<close>)
  from names_inv_later [OF assms(1) later this] quiet_refl show ?thesis by simp
qed

lemma names_inv_admitted:
  assumes "names_inv s" "admitted st s s'" "rows_inv st s"
  shows "names_inv s'"
proof -
  from assms(2) obtain i it where new: "i \<notin> sy_ids s" "ui_old_key it = None" "ui_state it = UPending" "intent_ok st it"
    "s' = set_intents (sy_intents s @ [(i, it)]) (s\<lparr>sy_ids := insert i (sy_ids s)\<rparr>)"
    unfolding admitted_def by blast
  have none: "od_get (sy_intents s) i = None"
    using assms(3) new(1) unfolding rows_inv_def by (metis option.exhaust)
  have same: "sy_names s' = sy_names s" "sy_home s' = sy_home s" "sy_rows s' = sy_rows s" by (simp_all add: new(5))
  have key: "ui_final_key it = None" using new(3,4) by (auto simp: intent_ok_def)
  show ?thesis
  proof (rule names_inv_later [OF assms(1) names_later_same [OF same]])
    show "homes_ok s'" using assms(1) by (intro homes_ok_same [OF _ same]) (simp add: names_inv_def)
    fix k it' assume k: "od_get (sy_intents s') k = Some it'"
    show "(\<exists>it. od_get (sy_intents s) k = Some it \<and> quiet it it') \<or> final_ok s' it'"
    proof (cases "k = i")
      case True
      with k none have "it' = it" by (simp add: new(5) map_add_def)
      with key new(2) show ?thesis by (simp add: final_ok_def)
    next
      case False
      with k have "od_get (sy_intents s) k = Some it'" by (auto simp: new(5) map_add_def split: option.splits)
      then show ?thesis by (blast intro: quiet_refl)
    qed
  qed (simp_all add: new(5))
qed

lemma names_inv_step:
  assumes "up_step st sha s s'" "rows_inv st s" "names_inv s"
  shows "names_inv s'"
  using assms
proof (induction rule: up_step.induct)
  case (app_write r s)
  then show ?case by (intro app_write_names) blast+
next
  case (admit b64 site a user_exists instructions owner i digest h1 h2 rq s res db')
  from admission_effect [OF admit.hyps(1)] show ?case
  proof (elim disjE exE conjE)
    assume "db' = sy_intents s"
    then show ?case by (intro names_inv_quiet [OF admit.prems(2)]) simp_all
  next
    fix it assume it: "db' = sy_intents s @ [(i, it)]" "ui_staging_key it = us_staging_prefix st @ h1 @ CHR ''/'' # h2"
      "ui_attempts it = 0" "ui_state it = UPending" "intent_ok st it" "ui_user it = Some owner" "ui_old_key it = None"
      "enforce_pending_quotas st owner (ui_declared_size it) (sy_now s) (sy_intents s) = Inr ()"
    have "admitted st s (set_intents db' (s\<lparr>sy_ids := insert i (sy_ids s)\<rparr>))"
      by (rule admittedI [OF admit.hyps(4) _ it(8,6,4,5) new_row_stage_ok [OF admit.hyps(2,3) it(2,3,4)] it(7)])
         (simp only: it(1))
    from names_inv_admitted [OF admit.prems(2) this admit.prems(1)] show ?case .
  qed
next
  case (persist ps s b r db')
  then show ?case by (intro names_inv_quiet [OF persist.prems(2)]) (simp_all add: persist_quiet)
next
  case (transfer_claimed i owner s c db' it)
  then show ?case by (intro names_inv_quiet [OF transfer_claimed.prems(2)]) (simp_all add: claim_transfer_quiet)
next
  case (transfer_refused i owner s e db')
  then show ?case by (intro names_inv_quiet [OF transfer_refused.prems(2)]) (simp_all add: claim_transfer_quiet)
next
  case (transfer_renewed c it s c' db')
  then show ?case by (intro names_inv_quiet [OF transfer_renewed.prems(2)]) (simp_all add: renew_transfer_quiet)
next
  case (transfer_completed c it s v r db')
  then show ?case by (intro names_inv_quiet [OF transfer_completed.prems(2)]) (simp_all add: complete_transfer_quiet)
next
  case (claim site env ct s pk pcs w' f claimed)
  then show ?case by (intro claim_names_inv)
next
  case (attempt_started i s fresh u t r db')
  then show ?case by (intro names_inv_quiet [OF attempt_started.prems(2)]) (simp_all add: start_finalization_quiet)
next
  case (attempt_begun i s t r w')
  then show ?case by (intro begin_names)
next
  case (attempt_renewed i s t r db')
  then show ?case by (intro names_inv_quiet [OF attempt_renewed.prems(2)]) (simp_all add: renew_finalization_quiet)
next
  case (attempt_completed i s t fv r w')
  then show ?case by (intro complete_names)
next
  case (attempt_failed i e s lease r db')
  then show ?case by (intro names_inv_quiet [OF attempt_failed.prems(2)]) (simp_all add: record_failure_quiet)
next
  case (expire i at s r db')
  then show ?case by (intro names_inv_quiet [OF expire.prems(2)]) (simp_all add: expire_quiet)
next
  case (cleanup_claimed i s fresh it u t db')
  let ?s = "set_intents db' (s\<lparr>sy_cleaners := insert (i, it) (sy_cleaners s)\<rparr>)"
  note e = terminal_claim_effect [OF cleanup_claimed.hyps(1)] and q = terminal_claim_quiet [OF cleanup_claimed.hyps(1)]
  from q e(2) obtain it0 where it0: "od_get (sy_intents s) i = Some it0" "quiet it0 it" unfolding quiet_db_def by blast
  with cleanup_claimed.prems(2) have "final_ok s it0" unfolding names_inv_def by blast
  then have "final_ok ?s it" by (rule final_ok_later) (use it0(2) in \<open>simp_all add: names_later_def spent_def\<close>)
  then have "cleaner_names_ok ?s it" by (simp add: final_ok_def cleaner_names_ok_def)
  moreover have "homes_ok ?s" using cleanup_claimed.prems(2) by (simp add: names_inv_def homes_ok_def)
  ultimately show ?case
    using q by (intro names_inv_later [OF cleanup_claimed.prems(2)]) (auto simp: names_later_def spent_def quiet_db_def)
next
  case (final_deleted i it s k)
  then have k: "spent s k" unfolding names_inv_def cleaner_names_ok_def by blast
  have "homes_ok (s\<lparr>sy_deleted := insert k (sy_deleted s)\<rparr>)"
    using final_deleted.prems(2) by (simp add: names_inv_def homes_ok_def)
  with k show ?case
    by (intro names_inv_later [OF final_deleted.prems(2)]) (auto simp: names_later_def spent_def intro: quiet_refl)
next
  case (old_deleted i it s k)
  then have k: "spent s k" unfolding names_inv_def cleaner_names_ok_def by blast
  have "homes_ok (s\<lparr>sy_deleted := insert k (sy_deleted s)\<rparr>)"
    using old_deleted.prems(2) by (simp add: names_inv_def homes_ok_def)
  with k show ?case
    by (intro names_inv_later [OF old_deleted.prems(2)]) (auto simp: names_later_def spent_def intro: quiet_refl)
next
  case (old_planned a i s allow r db')
  then show ?case by (intro names_inv_quiet [OF old_planned.prems(2)]) (simp_all add: old_planned_quiet)
next
  case (cleanup_finished i it s u t r db')
  then show ?case by (intro names_inv_quiet [OF cleanup_finished.prems(2)]) (simp_all add: cleanup_end_quiet)
next
  case (retained site i cutoff s r w')
  then show ?case by (intro names_inv_quiet [OF retained.prems(2)]) (simp_all add: retained_quiet retained_effect(2))
qed (erule names_inv_quiet;
    simp add: release_transfer_quiet mark_expired_quiet reject_quiet mark_old_quiet cleanup_end_quiet)+

lemma names_inv_fresh: "names_inv (fresh_sys now r x)"
  by (auto simp: names_inv_def fresh_sys_def homes_ok_def)

lemma names_inv_reachable:
  assumes "up_reachable st sha s"
  shows "names_inv s"
proof -
  from assms obtain now r x where run: "up_steps st sha (fresh_sys now r x) s" unfolding up_reachable_def by blast
  have "rows_inv st s \<and> names_inv s" using run
  proof (induction rule: rtranclp_induct)
    case base
    show ?case by (intro conjI rows_inv_fresh names_inv_fresh)
  next
    case (step y z)
    then show ?case using rows_inv_step names_inv_step by blast
  qed
  then show ?thesis ..
qed

end
