(* ===== verification/UpProps.thy ===== *)
theory UpProps
  imports UpNames
begin

text \<open>
  The properties of the upload subsystem in every run, each applied to one run of eight steps: an upload
  is admitted and verified, a mutation claims it, the application deletes the row, and the attempt
  supersedes the intent, whose object cleanup then deletes.
\<close>

section \<open>A run\<close>

definition demo_settings :: upload_settings where
  "demo_settings = \<lparr>us_enabled = True, us_staging_prefix = ''up/'', us_max_bytes = 100, us_intents_per_user = 2,
     us_bytes_per_user = 50, us_intents_global = 5, us_bytes_global = 90, us_transfer_lease = 10,
     us_attempts_per_intent = 3, us_token_ttl = 60, us_cleanup_batch = 8, us_cleanup_age = 5, us_cleanup_lease = 20,
     us_cooldown = 15, us_retention = 100, us_delete_replaced = True\<rparr>"

definition demo_sum :: string where
  "demo_sum = replicate 64 CHR ''a''"

definition demo_version :: object_version where
  "demo_version = \<lparr>ov_version_id = None, ov_etag = Some ''e'', ov_checksum = demo_sum, ov_size = 30,
     ov_content_type = Some ''text/plain''\<rparr>"

definition demo_adapter :: "unit adapter" where
  "demo_adapter = \<lparr>ad_id = ''fs'', ad_version = 1, ad_fingerprint = ''f1'', ad_direct = Some True, ad_finalizes = True,
     ad_inspect_staged = (\<lambda>key w. Inr demo_version), ad_delete_stage = (\<lambda>key v w. (Inr (), w)),
     ad_delete_markers = None, ad_materialize = (\<lambda>stage v key i w. (Inr key, w)),
     ad_inspect_final = (\<lambda>key v i w. Inr demo_version), ad_delete_final = (\<lambda>key v i w. (Inr (), w)),
     ad_inspect_replaced = (\<lambda>key w. Inl NotFound), ad_plan_claim = (\<lambda>key v i. Inl NotFound),
     ad_claim_replaced = (\<lambda>key c i w. (Inr (), w)), ad_delete_claimed = (\<lambda>c i w. (Inr (), w))\<rparr>"

definition demo_site :: "unit site" where
  "demo_site = \<lparr>si_registry = (\<lambda>m f i v. Some demo_adapter), si_blank = (\<lambda>m f. Inr True),
     si_policy = (\<lambda>m f. \<lparr>up_max_bytes = None, up_types = None, up_extensions = None\<rparr>)\<rparr>"

definition demo_env :: field_env where
  "demo_env = \<lparr>fe_upload_to = (\<lambda>field name. Some (''files/'' @ name)), fe_max_length = (\<lambda>field. Some 100)\<rparr>"

definition demo_request :: upload_request where
  "demo_request = \<lparr>rq_manager = ''Doc'', rq_field = ''file'', rq_operation = ''create'', rq_target = None,
     rq_filename = ''a.txt'', rq_size = 30, rq_content_type = ''text/plain'', rq_algorithm = ''sha256'',
     rq_digest = demo_sum\<rparr>"

definition demo_binding :: binding where
  "demo_binding = \<lparr>bi_owner = ''u'', bi_manager = ''Doc'', bi_operation = ''create'', bi_target = None\<rparr>"

definition demo_target :: claim_target where
  "demo_target = \<lparr>ct_enabled = True, ct_same_database = True, ct_actor = Some ''u'', ct_manager = ''Doc'',
     ct_operation = ''create'', ct_target = None, ct_pk = None\<rparr>"

definition demo_candidate :: candidate where
  "demo_candidate = \<lparr>ca_intent = ''i1'', ca_filename = ''a.txt'', ca_size = 30, ca_content_type = ''text/plain'',
     ca_checksum = demo_sum\<rparr>"

definition demo_prepared :: prepared_candidate where
  "demo_prepared = \<lparr>pc_field = ''file'', pc_candidate = demo_candidate, pc_adapter = (''fs'', 1),
     pc_version = demo_version, pc_old_key = None, pc_old_version = None, pc_dimensions = (None, None)\<rparr>"

definition demo_sha :: "string \<Rightarrow> string" where
  "demo_sha s = CHR ''h'' # s"

definition demo_key :: string where "demo_key = ''files/a__i1.txt''"

definition demo0 :: "unit upload_sys" where
  "demo0 = fresh_sys 0 (\<lambda>m pk. None) ()"

definition demo_db1 :: intents where
  "demo_db1 = snd (begin_file_upload (\<lambda>s. None) demo_settings demo_site demo_adapter True True ''u'' ''i1'' ''ht''
     ([] @ CHR ''/'' # ''f'') demo_request 0 [])"

definition demo1 :: "unit upload_sys" where
  "demo1 = set_intents demo_db1 (demo0\<lparr>sy_ids := {''i1''}\<rparr>)"

definition demo_plan :: plan where
  "demo_plan = projr (preflight_plan demo_sha demo_site demo_db1 () demo_binding 0 (''file'', Text ''t''))"

definition demo2 :: "unit upload_sys" where
  "demo2 = demo1\<lparr>sy_plans := {demo_plan}\<rparr>"

definition demo_db3 :: intents where
  "demo_db3 = snd (persist_direct_preflight demo_sha demo_binding 0 [demo_plan] demo_db1)"

definition demo3 :: "unit upload_sys" where
  "demo3 = set_intents demo_db3 demo2"

definition demo_claimed :: "(prepared_candidate \<times> upload_intent) list" where
  "demo_claimed = projr (claimed_intents demo_settings demo_site demo_env demo_target 0 (\<lambda>f. []) [demo_prepared] demo_db3)"

definition demo_world4 :: "unit upload_world" where
  "demo_world4 = snd (claim_uploads demo_settings demo_site demo_env demo_target 0 (Some ''7'') [demo_prepared]
     \<lparr>intents = demo_db3, rows = (\<lambda>m pk. None), storage = ()\<rparr>)"

definition demo4 :: "unit upload_sys" where
  "demo4 = demo3\<lparr>sy_world := demo_world4, sy_names := sy_names demo3 \<union> set (reserved_names demo_claimed),
     sy_home := reserve_home ''Doc'' ''7'' demo_claimed (sy_home demo3)\<rparr>"

definition demo_rows :: "string \<Rightarrow> string \<Rightarrow> (string \<Rightarrow> string) option" where
  "demo_rows = (\<lambda>m pk. Some (\<lambda>field. ''files/other.txt''))"

definition demo5 :: "unit upload_sys" where
  "demo5 = demo4\<lparr>sy_world := (sy_world demo4)\<lparr>rows := demo_rows\<rparr>, sy_names := sy_names demo4 \<union> row_names demo_rows\<rparr>"

definition demo_db6 :: intents where
  "demo_db6 = snd (start_finalization demo_settings ''i1'' 0 ''k'' None None (intents demo_world4))"

definition demo6 :: "unit upload_sys" where
  "demo6 = set_intents demo_db6 demo5"

definition demo7 :: "unit upload_sys" where
  "demo7 = demo6\<lparr>sy_world := snd (begin_finalization ''i1'' 0 ''k'' (sy_world demo6))\<rparr>"

definition demo_row :: upload_intent where
  "demo_row = the (od_get (snd (claim_terminal_cleanup demo_settings ''i1'' 0 ''c'' (sy_intents demo7))) ''i1'')"

definition demo8 :: "unit upload_sys" where
  "demo8 = set_intents (snd (claim_terminal_cleanup demo_settings ''i1'' 0 ''c'' (sy_intents demo7)))
     (demo7\<lparr>sy_cleaners := insert (''i1'', demo_row) (sy_cleaners demo7)\<rparr>)"

definition demo9 :: "unit upload_sys" where
  "demo9 = demo8\<lparr>sy_deleted := insert demo_key (sy_deleted demo8)\<rparr>"

lemma demo_step1: "up_step demo_settings demo_sha demo0 demo1"
proof -
  let ?r = "begin_file_upload (\<lambda>s. None) demo_settings demo_site demo_adapter True True ''u'' ''i1'' ''ht''
     ([] @ CHR ''/'' # ''f'') demo_request (sy_now demo0) (sy_intents demo0)"
  have "?r = (fst ?r, demo_db1)" by (simp add: demo_db1_def demo0_def fresh_sys_def)
  from up_step.admit [OF this]
  have "up_step demo_settings demo_sha demo0 (set_intents demo_db1 (demo0\<lparr>sy_ids := insert ''i1'' (sy_ids demo0)\<rparr>))"
    by (simp add: demo0_def fresh_sys_def hex_lower_def)
  then show ?thesis by (simp add: demo1_def demo0_def fresh_sys_def)
qed

lemma demo_step2: "up_step demo_settings demo_sha demo1 demo2"
proof -
  have "isl (preflight_plan demo_sha demo_site demo_db1 () demo_binding 0 (''file'', Text ''t'')) = False" by code_simp
  then have "preflight_plan demo_sha demo_site demo_db1 () demo_binding 0 (''file'', Text ''t'') = Inr demo_plan"
    unfolding demo_plan_def by (simp add: sum.collapse(2))
  then have "up_step demo_settings demo_sha demo1 (demo1\<lparr>sy_plans := insert demo_plan (sy_plans demo1)\<rparr>)"
    by (intro up_step.plan) (simp add: demo1_def demo0_def fresh_sys_def set_intents_def)
  then show ?thesis by (simp add: demo2_def demo1_def demo0_def fresh_sys_def set_intents_def)
qed

lemma demo_step3: "up_step demo_settings demo_sha demo2 demo3"
  unfolding demo3_def
  by (rule up_step.persist [where ps = "[demo_plan]" and b = demo_binding])
     (simp_all add: demo2_def demo1_def demo0_def fresh_sys_def set_intents_def demo_db3_def prod_eq_iff)

lemma demo_world3: "sy_world demo3 = \<lparr>intents = demo_db3, rows = (\<lambda>m pk. None), storage = ()\<rparr>"
  "sy_now demo3 = 0" "sy_names demo3 = {}" "sy_home demo3 = Map.empty" "sy_cleaners demo3 = {}" "sy_deleted demo3 = {}"
  by (auto simp: demo3_def demo2_def demo1_def demo0_def fresh_sys_def set_intents_def row_names_def)

lemma demo_names: "reserved_names demo_claimed = [demo_key]"
  by code_simp

lemma demo_claims: "claimed_intents demo_settings demo_site demo_env demo_target 0 (\<lambda>f. []) [demo_prepared] demo_db3
   = Inr demo_claimed"
proof -
  let ?r = "claimed_intents demo_settings demo_site demo_env demo_target 0 (\<lambda>f. []) [demo_prepared] demo_db3"
  have "isl ?r = False" by code_simp
  then show ?thesis unfolding demo_claimed_def by (simp add: sum.collapse(2))
qed

lemma demo_claim: "claim_uploads demo_settings demo_site demo_env demo_target 0 (Some ''7'') [demo_prepared]
   \<lparr>intents = demo_db3, rows = (\<lambda>m pk. None), storage = ()\<rparr> = (Inr ''7'', demo_world4)"
  using demo_claims by (simp add: demo_world4_def demo_world3 claim_uploads_def demo_target_def Let_def)

lemma demo_target_sel: "ct_pk demo_target = None" "ct_manager demo_target = ''Doc''"
  by (simp_all add: demo_target_def)

lemma demo_step4: "up_step demo_settings demo_sha demo3 demo4"
proof -
  have "up_step demo_settings demo_sha demo3 (demo3\<lparr>sy_world := demo_world4,
      sy_names := sy_names demo3 \<union> set (reserved_names demo_claimed),
      sy_home := reserve_home (ct_manager demo_target) ''7'' demo_claimed (sy_home demo3)\<rparr>)"
    by (rule up_step.claim [where site = demo_site and env = demo_env and pcs = "[demo_prepared]" and f = "\<lambda>f. []"])
       (simp_all add: demo_world3 demo_claim demo_claims demo_names row_before_def demo_target_sel)
  then show ?thesis by (simp add: demo4_def demo_target_sel)
qed

lemma demo_step5: "up_step demo_settings demo_sha demo4 demo5"
proof -
  have "sy_home demo4 ''files/other.txt'' = None"
    using reserve_home_other [of "''files/other.txt''" demo_claimed]
    by (simp add: demo4_def demo_names demo_key_def demo3_def demo2_def demo1_def demo0_def fresh_sys_def set_intents_def)
  then show ?thesis unfolding demo5_def by (intro up_step.app_write) (auto simp: demo_rows_def)
qed

lemma demo_state5: "sy_world demo5 = \<lparr>intents = intents demo_world4, rows = demo_rows, storage = storage demo_world4\<rparr>"
  "sy_now demo5 = 0" "sy_cleaners demo5 = {}" "sy_deleted demo5 = {}"
  by (simp_all add: demo5_def demo4_def demo_world3)

lemma demo_step6: "up_step demo_settings demo_sha demo5 demo6"
  unfolding demo6_def
  by (rule up_step.attempt_started [where i = "''i1''" and fresh = "''k''" and u = None and t = None
        and r = "fst (start_finalization demo_settings ''i1'' 0 ''k'' None None (intents demo_world4))"])
     (simp_all add: demo_state5 demo_db6_def)

lemma demo_step7: "up_step demo_settings demo_sha demo6 demo7"
  unfolding demo7_def
  by (rule up_step.attempt_begun [where i = "''i1''" and t = "''k''"
        and r = "fst (begin_finalization ''i1'' 0 ''k'' (sy_world demo6))"])
     (simp add: demo6_def demo_state5)

lemma demo_state7: "sy_intents demo7 = intents (snd (begin_finalization ''i1'' 0 ''k''
     \<lparr>intents = demo_db6, rows = demo_rows, storage = storage demo_world4\<rparr>))"
  "sy_now demo7 = 0" "sy_cleaners demo7 = {}" "sy_deleted demo7 = {}"
  by (simp_all add: demo7_def demo6_def demo_state5 set_intents_def)

lemma demo_row_facts:
  "ui_state demo_row = USuperseded" "ui_final_key demo_row = Some demo_key"
  "claim_terminal_cleanup demo_settings ''i1'' 0 ''c'' (sy_intents demo7) =
     (CleanupClaim demo_row 20 ''c'', snd (claim_terminal_cleanup demo_settings ''i1'' 0 ''c'' (sy_intents demo7)))"
proof -
  let ?r = "claim_terminal_cleanup demo_settings ''i1'' 0 ''c'' (sy_intents demo7)"
  have c: "case fst ?r of CleanupClaim it u t \<Rightarrow> u = 20 \<and> t = ''c'' \<and> ui_state it = USuperseded \<and> ui_final_key it = Some demo_key
    | _ \<Rightarrow> False"
    unfolding demo_state7 by code_simp
  then obtain it where it: "fst ?r = CleanupClaim it 20 ''c''" "ui_state it = USuperseded" "ui_final_key it = Some demo_key"
    by (cases "fst ?r") auto
  have eq: "?r = (CleanupClaim it 20 ''c'', snd ?r)" using it(1) by (metis prod.collapse)
  from terminal_claim_effect(2) [OF eq] have "demo_row = it" by (simp add: demo_row_def)
  with it eq show "ui_state demo_row = USuperseded" "ui_final_key demo_row = Some demo_key"
    "?r = (CleanupClaim demo_row 20 ''c'', snd ?r)" by simp_all
qed

lemma demo_step8: "up_step demo_settings demo_sha demo7 demo8"
  unfolding demo8_def
  using up_step.cleanup_claimed [of demo_settings "''i1''" demo7 "''c''"] demo_row_facts(3) by (simp add: demo_state7(2))

lemma demo_step9: "up_step demo_settings demo_sha demo8 demo9"
  unfolding demo9_def
  by (rule up_step.final_deleted [where i = "''i1''", OF _ demo_row_facts(1,2)]) (simp add: demo8_def)

lemma upload_demo_run: "up_steps demo_settings demo_sha demo1 demo9" "up_reachable demo_settings demo_sha demo9"
proof -
  note steps = demo_step2 demo_step3 demo_step4 demo_step5 demo_step6 demo_step7 demo_step8 demo_step9
  show run: "up_steps demo_settings demo_sha demo1 demo9"
    using steps by (meson converse_rtranclp_into_rtranclp rtranclp.rtrancl_refl)
  then show "up_reachable demo_settings demo_sha demo9"
    unfolding up_reachable_def demo0_def [symmetric]
    using demo_step1 converse_rtranclp_into_rtranclp demo0_def by metis
qed

section \<open>The properties\<close>

lemma demo_row1: "\<exists>it. od_get (sy_intents demo1) ''i1'' = Some it \<and> ui_state it = UPending"
proof -
  have "(case od_get demo_db1 ''i1'' of Some it \<Rightarrow> ui_state it = UPending | None \<Rightarrow> False) = True" by code_simp
  then show ?thesis by (auto simp: demo1_def split: option.splits)
qed

lemma demo_row9: "od_get (sy_intents demo9) ''i1'' = Some demo_row"
  using terminal_claim_effect(2) [OF demo_row_facts(3)] by (simp add: demo9_def demo8_def)

lemma demo_reachable1: "up_reachable demo_settings demo_sha demo1"
  unfolding up_reachable_def demo0_def [symmetric] using demo_step1 r_into_rtranclp demo0_def by metis





text \<open>C28: the quotas hold in every reachable state: the live intents of a user and of all users, and the
  bytes they declare, never exceed the configured limits, whatever is admitted, verified, claimed,
  expired or cleaned up in between.
\<close>

theorem upload_quotas_hold:
  assumes "up_reachable st sha s"
  shows "int (length (active_intents (sy_now s) (sy_intents s))) \<le> max 0 (us_intents_global st)
    \<and> total_bytes (active_intents (sy_now s) (sy_intents s)) \<le> max 0 (us_bytes_global st)
    \<and> int (length (owned_by owner (active_intents (sy_now s) (sy_intents s)))) \<le> max 0 (us_intents_per_user st)
    \<and> total_bytes (owned_by owner (active_intents (sy_now s) (sy_intents s))) \<le> max 0 (us_bytes_per_user st)"
  using quota_reachable [OF assms] by (simp_all add: quota_ok_def quota_load_active quota_load_owner)

theorem upload_quotas_hold_witness:
  "int (length (active_intents (sy_now demo1) (sy_intents demo1))) \<le> 5"
  using upload_quotas_hold [OF demo_reachable1] by (simp add: demo_settings_def)



text \<open>C29: as long as the row of an intent exists, the list of keys that cleanup deletes contains the
  staging key of every transfer attempt that was ever claimed for it, completed, failed or abandoned.
\<close>

theorem cleanup_finds_every_attempt:
  assumes "up_reachable st sha s" "(c, it0) \<in> sy_claims s" "od_get (sy_intents s) (tc_intent c) = Some it"
  shows "\<exists>keys. staging_keys it = Inr keys \<and> tc_stage_key c \<in> set keys"
proof -
  from rows_inv_reachable [OF assms(1)] assms(2) have "claim_ok (sy_intents s) (sy_ids s) (c, it0)"
    by (simp add: rows_inv_def)
  with assms(3) have c: "stage_ok (tc_base_key c) it" "tc_attempt c \<in> {1..ui_attempts it}"
    "attempt_staging_key (tc_base_key c) (tc_attempt c) = Inr (tc_stage_key c)"
    by (auto simp: claim_ok_def)
  from staging_keys_complete [OF c(1)] obtain keys where "staging_keys it = Inr keys"
    "tc_base_key c @ attempt_marker @ int_str (tc_attempt c) \<in> set keys" using c(2) by blast
  with attempt_key_eq [OF c(3)] show ?thesis by simp
qed

section \<open>A claimed transfer\<close>

definition demo_transfer :: "(transfer_error + transfer_claim) \<times> intents" where
  "demo_transfer = claim_transfer demo_settings ''i1'' ''u'' 0 demo_db1"

definition demo_taken :: "unit upload_sys" where
  "demo_taken = set_intents (snd demo_transfer)
     (demo1\<lparr>sy_claims := {(projr (fst demo_transfer), the (od_get demo_db1 ''i1''))}\<rparr>)"

theorem cleanup_finds_every_attempt_witness:
  "\<exists>it keys. od_get (sy_intents demo_taken) ''i1'' = Some it \<and> staging_keys it = Inr keys
     \<and> ''up//f.proxy-attempt-1'' \<in> set keys"
proof -
  let ?c = "projr (fst demo_transfer)" and ?it = "the (od_get demo_db1 ''i1'')"
  have ok: "isl (fst demo_transfer) = False" and key: "tc_stage_key ?c = ''up//f.proxy-attempt-1''" and i: "tc_intent ?c = ''i1''"
    and row: "(od_get (snd demo_transfer) ''i1'' = None) = False"
    and own: "owned_row demo_db1 ''i1'' ''u'' = od_get demo_db1 ''i1''" "(od_get demo_db1 ''i1'' = None) = False"
    by code_simp+
  from ok have "claim_transfer demo_settings ''i1'' ''u'' 0 demo_db1 = (Inr ?c, snd demo_transfer)"
    by (simp add: prod_eq_iff demo_transfer_def sum.collapse(2))
  then have "up_step demo_settings demo_sha demo1 (set_intents (snd demo_transfer)
      (demo1\<lparr>sy_claims := insert (?c, ?it) (sy_claims demo1)\<rparr>))"
    using own by (intro up_step.transfer_claimed [where owner = "''u''"])
      (auto simp: demo1_def demo0_def fresh_sys_def set_intents_def)
  then have "up_step demo_settings demo_sha demo1 demo_taken"
    by (simp add: demo_taken_def demo1_def demo0_def fresh_sys_def)
  with demo_reachable1 have r: "up_reachable demo_settings demo_sha demo_taken"
    unfolding up_reachable_def using rtranclp.rtrancl_into_rtrancl by metis
  from row obtain it where it: "od_get (sy_intents demo_taken) (tc_intent ?c) = Some it"
    by (auto simp: demo_taken_def i)
  have "(?c, ?it) \<in> sy_claims demo_taken" by (simp add: demo_taken_def)
  from cleanup_finds_every_attempt [OF r this it] it show ?thesis unfolding key i by blast
qed

end
