(* ===== verification/UpFlow.thy ===== *)
theory UpFlow
  imports UpProps
begin

text \<open>
  The composed functions of the upload subsystem when nothing interferes: the preflight of tokens, one
  finalization attempt from its start to its end, and the batch command. \<open>runs\<close> ties them to the step
  relation: each is a sequence of steps, so what holds in every run holds for them.
\<close>

section \<open>Preflight: tokens leave the values\<close>

lemma lookup_fold_pop: "od_get (fold od_pop ks d) k = (if k \<in> set ks then None else od_get d k)"
  by (induction ks arbitrary: d) (auto simp: od_get_pop)

lemma lookup_fold_set:
  "od_get (fold (\<lambda>(n, c). od_set n (g c)) cs d) k \<noteq> od_get d k \<Longrightarrow>
   \<exists>c. (k, c) \<in> set cs \<and> od_get (fold (\<lambda>(n, c). od_set n (g c)) cs d) k = Some (g c)"
proof (induction cs arbitrary: d)
  case (Cons p cs)
  obtain n c where p: "p = (n, c)" by (cases p)
  show ?case
  proof (cases "od_get (fold (\<lambda>(n, c). od_set n (g c)) cs (od_set n (g c) d)) k = od_get (od_set n (g c) d) k")
    case True
    with Cons.prems p show ?thesis by (auto simp: od_get_set split: if_splits)
  next
    case False
    from Cons.IH [OF this] p show ?thesis by auto
  qed
qed simp

text \<open>What a successful preflight says of its candidates.\<close>

definition bound_candidate :: "destination \<Rightarrow> int \<Rightarrow> intents \<Rightarrow> string \<Rightarrow> candidate \<Rightarrow> bool" where
  "bound_candidate d now db n c =
     (\<exists>it. (ca_intent c, it) \<in> set db \<and> ui_state it \<in> {UPending, UUploaded} \<and> now < ui_expires it
        \<and> ui_user it = pf_owner d \<and> ui_manager it = pf_manager d \<and> ui_field it = n
        \<and> ui_operation it = pf_operation d \<and> ui_filename it = ca_filename c)"

lemma token_row: "intent_for_token sha db token = Inr (i, it) \<Longrightarrow> (i, it) \<in> set db"
proof -
  assume a: "intent_for_token sha db token = Inr (i, it)"
  then have "filter (\<lambda>(i, it). ui_token_digest it = sha token) db = [(i, it)]"
    by (auto simp: intent_for_token_def split: list.splits prod.splits if_splits)
  then have "(i, it) \<in> set (filter (\<lambda>(i, it). ui_token_digest it = sha token) db)" by simp
  then show ?thesis by simp
qed

lemma plan_bound:
  assumes "preflight_binding d = Inr b" "preflight_plan sha site db w b now (n, tv) = Inr p" "candidate_from_plan p = Inr c"
  shows "pl_field p = n \<and> bound_candidate d now db n c"
proof -
  obtain token where tv: "tv = Text token" using assms(2) by (auto simp: preflight_plan_def split: token_value.splits)
  with assms(2) obtain i it a v direct where it: "intent_for_token sha db token = Inr (i, it)"
      "validate_intent_binding sha it token b n now = Inr ()" "preflight_version a it w = Inr (v, direct)"
      "p = \<lparr>pl_field = n, pl_id = i, pl_intent = it, pl_token = token, pl_version = v, pl_direct = direct\<rparr>"
    by (auto simp: preflight_plan_def sbind_Inr_iff split: if_splits)
  from assms(1) obtain owner where b: "pf_owner d = Some owner" "bi_owner b = owner" "bi_manager b = pf_manager d"
      "bi_operation b = pf_operation d"
    by (auto simp: preflight_binding_def sbind_Inr_iff split: if_splits option.splits)
  from it(3) have "ui_state it \<in> {UPending, UUploaded}" by (auto simp: preflight_version_def split: if_splits)
  moreover from assms(3) it(4) have "ca_intent c = i" "ca_filename c = ui_filename it"
    by (auto simp: candidate_from_plan_def normalize_filename_def split: sum.splits if_splits)
  moreover from it(2) b have "ui_user it = pf_owner d" "now < ui_expires it" "ui_manager it = pf_manager d" "ui_field it = n"
      "ui_operation it = pf_operation d"
    by (auto simp: validate_intent_binding_def split: if_splits)
  ultimately show ?thesis using token_row [OF it(1)] it(4) unfolding bound_candidate_def by auto
qed

lemma preflight_tokens_bound:
  assumes "preflight_tokens sha site w d now now' raw db = (Inr cs, db')" "(n, c) \<in> set cs"
  shows "n \<in> fst ` set raw \<and> bound_candidate d now db n c"
proof -
  from assms(1) obtain b plans where b: "preflight_binding d = Inr b"
      "collect_until (preflight_plan sha site db w b now) raw = Inr plans"
      "collect_until (\<lambda>p. sbind (candidate_from_plan p) (\<lambda>c. Inr (pl_field p, c))) plans = Inr cs"
    by (auto simp: preflight_tokens_def split: sum.splits prod.splits if_splits)
  note p = b(2) [unfolded collect_until_Inr] and q = b(3) [unfolded collect_until_Inr]
  from assms(2) obtain k where k: "k < length cs" "cs ! k = (n, c)" by (auto simp: in_set_conv_nth)
  with list_all2_lengthD [OF q] list_all2_lengthD [OF p] have l: "k < length plans" "k < length raw" by simp_all
  from list_all2_nthD [OF p l(2)] have pk: "preflight_plan sha site db w b now (raw ! k) = Inr (plans ! k)" .
  from list_all2_nthD [OF q l(1)] k(2) have c: "candidate_from_plan (plans ! k) = Inr c" "pl_field (plans ! k) = n"
    by (auto simp: sbind_Inr_iff)
  obtain n' tv where raw: "raw ! k = (n', tv)" by (cases "raw ! k")
  from plan_bound [OF b(1) pk [unfolded raw] c(1)] c(2) have "n' = n" "bound_candidate d now db n c" by auto
  with raw l(2) show ?thesis by (metis fst_conv image_eqI nth_mem)
qed

lemma preflight_tokens_error: "preflight_tokens sha site w d now now' raw db = (Inl e, db') \<Longrightarrow> db' = db"
  by (auto simp: preflight_tokens_def persist_direct_preflight_def split: sum.splits prod.splits if_splits)

text \<open>C30: whatever the outcome, no raw token is left in the values of a mutation and no other value changes.
  After an error nothing is stored and the values hold no candidate; after a success every candidate
  stands in the field its intent was admitted for and belongs to the caller, the manager class and
  the operation, unexpired and in a usable state.
\<close>

theorem preflight_hides_tokens:
  assumes "preflight_upload_tokens sha site w d now now' file_fields values db = (r, values', db')"
  shows "(\<forall>n\<in>set file_fields. \<forall>t. od_get values' n \<noteq> Some (FToken t))
    \<and> (\<forall>n. n \<notin> set file_fields \<longrightarrow> od_get values' n = od_get values n)
    \<and> (\<forall>e. r = Inl e \<longrightarrow> db' = db \<and> (\<forall>n\<in>set file_fields. od_get values' n \<in> {None, Some FNull}))
    \<and> (\<forall>n\<in>set file_fields. \<forall>c. od_get values' n = Some (FCandidate c) \<longrightarrow> bound_candidate d now db n c)"
proof -
  define names where "names = sort (remdups file_fields)"
  define tokens where "tokens = filter (\<lambda>n. od_get values n \<notin> {None, Some FNull}) names"
  define raw where "raw = map (\<lambda>n. (n, token_of (the (od_get values n)))) tokens"
  define scrubbed where "scrubbed = fold od_pop tokens values"
  have sc: "od_get scrubbed n = (if n \<in> set tokens then None else od_get values n)" for n
    by (simp add: scrubbed_def lookup_fold_pop)
  have tk: "set tokens \<subseteq> set file_fields" by (auto simp: tokens_def names_def)
  have field: "od_get scrubbed n \<in> {None, Some FNull}" if "n \<in> set file_fields" for n
    using that by (auto simp: sc tokens_def names_def)
  have other: "od_get scrubbed n = od_get values n" if "n \<notin> set file_fields" for n
    using that tk by (auto simp: sc)
  consider (error) e where "r = Inl e" "values' = scrubbed" "db' = db" | (plain) "r = Inr ()" "values' = scrubbed" "db' = db"
    | (ok) cs where "r = Inr ()" "preflight_tokens sha site w d now now' raw db = (Inr cs, db')"
        "values' = fold (\<lambda>(n, c). od_set n (FCandidate c)) cs scrubbed"
    using assms
    unfolding preflight_upload_tokens_def names_def [symmetric] Let_def tokens_def [symmetric] raw_def [symmetric]
      scrubbed_def [symmetric]
    by (auto split: if_splits sum.splits prod.splits dest: preflight_tokens_error)
  then show ?thesis
  proof cases
    case (ok cs)
    have new: "od_get values' n = od_get scrubbed n \<or> (\<exists>c. (n, c) \<in> set cs \<and> od_get values' n = Some (FCandidate c))" for n
      using lookup_fold_set [of FCandidate cs scrubbed n] ok(3) by auto
    have cs: "n \<in> set file_fields \<and> bound_candidate d now db n c" if "(n, c) \<in> set cs" for n c
      using preflight_tokens_bound [OF ok(2) that] tk by (auto simp: raw_def)
    show ?thesis
    proof (intro conjI ballI allI impI)
      fix n t assume "n \<in> set file_fields" then show "od_get values' n \<noteq> Some (FToken t)" using new [of n] field [of n] by auto
    next
      fix n assume "n \<notin> set file_fields" then show "od_get values' n = od_get values n" using new [of n] cs other [of n] by auto
    next
      fix n c assume "n \<in> set file_fields" "od_get values' n = Some (FCandidate c)"
      then show "bound_candidate d now db n c" using new [of n] field [of n] cs by auto
    qed (use ok(1) in simp_all)
  qed (use field other in fastforce)+
qed

definition demo_destination :: destination where
  "demo_destination = \<lparr>pf_enabled = True, pf_registered = True, pf_owner = Some ''u'', pf_same_database = True,
     pf_manager = ''Doc'', pf_operation = ''create'', pf_target = None\<rparr>"

theorem preflight_hides_tokens_witness:
  "\<exists>values' db'. preflight_upload_tokens demo_sha demo_site () demo_destination 0 0 [''file'']
      [(''title'', FNull), (''file'', FToken (Text ''t''))] demo_db1 = (Inr (), values', db')
    \<and> od_get values' ''file'' = Some (FCandidate demo_candidate)
    \<and> bound_candidate demo_destination 0 demo_db1 ''file'' demo_candidate \<and> od_get values' ''title'' = Some FNull"
proof -
  let ?r = "preflight_upload_tokens demo_sha demo_site () demo_destination 0 0 [''file'']
      [(''title'', FNull), (''file'', FToken (Text ''t''))] demo_db1"
  obtain r values' db' where r: "?r = (r, values', db')" by (cases ?r) auto
  have "fst ?r = Inr ()" "od_get (fst (snd ?r)) ''file'' = Some (FCandidate demo_candidate)" by code_simp+
  with r have o: "r = Inr ()" "od_get values' ''file'' = Some (FCandidate demo_candidate)" by simp_all
  from preflight_hides_tokens [OF r] o(2) have "bound_candidate demo_destination 0 demo_db1 ''file'' demo_candidate"
      "od_get values' ''title'' = Some FNull" by simp_all
  with r o show ?thesis by blast
qed

section \<open>The batch command\<close>

lemma candidate_ids_length: "length (candidate_ids cond limit db) \<le> limit"
  by (simp add: candidate_ids_def)

lemma share_le: "share n p \<le> n"
  by (simp add: share_def)

definition handled :: "cleanup_counts \<Rightarrow> nat" where
  "handled c = cc_reconciled c + cc_cleaned c + cc_deleted c + cc_failed c + cc_skipped c"

lemma fold_handled:
  "(\<And>i cw. handled (fst (work i cw)) = Suc (handled (fst cw))) \<Longrightarrow>
   handled (fst (fold work ids cw)) = handled (fst cw) + length ids"
  by (induction ids arbitrary: cw) simp_all

lemma reconcile_handled: "handled (fst (reconcile_one st site env now fresh i cw)) = Suc (handled (fst cw))"
  by (auto simp: reconcile_one_def handled_def split: prod.splits fin_outcome.splits)

lemma cleanup_miss_handled: "handled (cleanup_miss i now db c) = Suc (handled c)"
  by (auto simp: cleanup_miss_def handled_def split: option.splits)

lemma clean_handled: "handled (fst (clean_one st site now fresh i cw)) = Suc (handled (fst cw))"
  by (auto simp: clean_one_def cleanup_miss_handled split: prod.splits bool.splits) (simp add: handled_def)

lemma expire_handled: "handled (fst (expire_one st site now fresh i cw)) = Suc (handled (fst cw))"
  by (auto simp: expire_one_def clean_handled split: prod.splits bool.splits) (simp_all add: handled_def)

lemma retain_handled: "handled (fst (retain_one site cutoff dry i cw)) = Suc (handled (fst cw))"
  by (auto simp: retain_one_def handled_def split: prod.splits retention.splits)

lemma retain_dry: "snd (retain_one site cutoff True i cw) = snd cw"
  by (auto simp: retain_one_def delete_retained_intent_def split: prod.splits retention.splits option.splits if_splits sum.splits)

lemma fold_retain_dry: "snd (fold (retain_one site cutoff True) ids cw) = snd cw"
  by (induction ids arbitrary: cw) (simp_all add: retain_dry)

lemma phase_dry: "snd (run_phase True count work ids cw) = snd cw"
  by (simp add: run_phase_def)

lemma phase_handled:
  "(\<And>i cw. handled (fst (work i cw)) = Suc (handled (fst cw))) \<Longrightarrow>
   handled (fst (run_phase False count work ids cw)) = handled (fst cw) + length ids"
  by (simp add: run_phase_def fold_handled)

lemma batch_work:
  assumes "cw1 = run_phase dry c1 (reconcile_one st site env now fresh) ids1 (no_counts, w)"
    and "cw2 = run_phase dry c2 (expire_one st site now fresh) ids2 cw1"
    and "cw3 = run_phase dry c3 (clean_one st site now fresh) ids3 cw2"
    and "cw4 = fold (retain_one site cutoff dry) ids4 cw3"
  shows "(dry \<longrightarrow> snd cw4 = w) \<and> (\<not> dry \<longrightarrow> handled (fst cw4) = length (concat [ids1, ids2, ids3, ids4]))"
proof (cases dry)
  case True
  with assms show ?thesis by (simp add: fold_retain_dry phase_dry)
next
  case False
  have "handled (fst cw4) = handled (fst cw3) + length ids4" unfolding assms(4) by (rule fold_handled [OF retain_handled])
  with False assms(1-3) show ?thesis
    by (simp add: phase_handled [OF clean_handled] phase_handled [OF expire_handled] phase_handled [OF reconcile_handled])
      (simp add: handled_def no_counts_def)
qed

lemma let_intro: "(\<And>x. x = a \<Longrightarrow> P (f x)) \<Longrightarrow> P (let x = a in f x)"
  by simp

text \<open>C35: one run of the cleanup command works on at most \<open>batch\<close> intents over its four phases together
  (which is what lets each phase take a share of the rest), counts each of them exactly once as
  reconciled, cleaned, deleted, failed or skipped, and with \<open>dry_run\<close> changes neither the database nor
  the storage. It refuses a batch or an age that is not positive.
\<close>

theorem cleanup_batch_bounded:
  fixes st older batch and w :: "'w upload_world" defines "limit \<equiv> (case batch of None \<Rightarrow> us_cleanup_batch st | Some b \<Rightarrow> b)"
    and "age \<equiv> (case older of None \<Rightarrow> us_cleanup_age st | Some a \<Rightarrow> a)"
  shows "case run_upload_cleanup st site env batch older dry_run now fresh w of
      None \<Rightarrow> limit \<le> 0 \<or> age \<le> 0
    | Some (c, ids, w') \<Rightarrow> 0 < limit \<and> 0 < age \<and> length ids = 4 \<and> int (length (concat ids)) \<le> limit
        \<and> (dry_run \<longrightarrow> w' = w) \<and> (\<not> dry_run \<longrightarrow> handled c = length (concat ids))"
proof -
  define P where "P = (\<lambda>r. case r of None \<Rightarrow> limit \<le> 0 \<or> age \<le> 0
    | Some (c, ids :: string list list, w' :: 'w upload_world) \<Rightarrow> 0 < limit \<and> 0 < age \<and> length ids = 4
        \<and> int (length (concat ids)) \<le> limit
        \<and> (dry_run \<longrightarrow> w' = w) \<and> (\<not> dry_run \<longrightarrow> handled c = length (concat ids)))"
  have "P (run_upload_cleanup st site env batch older dry_run now fresh w)"
    unfolding run_upload_cleanup_def
  proof (rule let_intro [where P = P], rule let_intro [where P = P], goal_cases)
    case (1 lim ag)
    then have la: "lim = limit" "ag = age" by (simp_all add: limit_def age_def)
    show ?case
    proof (cases "lim \<le> 0 \<or> ag \<le> 0")
      case True
      then show ?thesis by (simp add: P_def la)
    next
      case False
      show ?thesis
        unfolding if_not_P [OF False]
      proof (intro let_intro [where P = P], goal_cases)
        case (1 r0 ids1 cw1 r1 ids2 cw2 r2 ids3 cw3 r3 cutoff ids4 cw4)
        note [simp] = 1(1)
        have l1: "length ids1 \<le> nat limit"
          unfolding 1(2) by (rule le_trans [OF candidate_ids_length]) (simp add: share_le la)
        have l2: "length ids2 \<le> r1" unfolding 1(5) by (auto intro: le_trans [OF candidate_ids_length share_le])
        have l3: "length ids3 \<le> r2" unfolding 1(8) by (auto intro: le_trans [OF candidate_ids_length share_le])
        have l4: "length ids4 \<le> r3" unfolding 1(12) by (auto intro: candidate_ids_length)
        from l1 l2 l3 l4 have "length ids1 + (length ids2 + (length ids3 + length ids4)) \<le> nat limit"
          unfolding 1(10) 1(7) 1(4) 1(1) la by arith
        then have "length (concat [ids1, ids2, ids3, ids4]) \<le> nat limit" by simp
        moreover have "0 \<le> limit" using False la by simp
        ultimately have bound: "int (length (concat [ids1, ids2, ids3, ids4])) \<le> limit" by (simp only: le_nat_iff)
        from bound batch_work [OF 1(3) 1(6) 1(9) 1(13)] False la show ?case by (simp add: P_def del: concat.simps)
      qed
    qed
  qed
  then show ?thesis by (simp only: P_def)
qed

theorem cleanup_batch_bounded_witness:
  "\<exists>c ids w'. run_upload_cleanup demo_settings demo_site demo_env None None False 100 (\<lambda>i. (''f'', ''c''))
       \<lparr>intents = demo_db1, rows = (\<lambda>m pk. None), storage = ()\<rparr> = Some (c, ids, w')
     \<and> int (length (concat ids)) \<le> 8 \<and> handled c = length (concat ids)"
  using cleanup_batch_bounded [where st = demo_settings and site = demo_site and env = demo_env and batch = None
      and older = None and dry_run = False and now = 100 and fresh = "\<lambda>i. (''f'', ''c'')"
      and w = "\<lparr>intents = demo_db1, rows = (\<lambda>m pk. None), storage = ()\<rparr>"]
  by (auto simp: demo_settings_def split: option.splits)

section \<open>The composed functions as runs\<close>

text \<open>\<open>runs\<close>: from any system in the world \<open>w\<close> whose workers know the cleanup claims \<open>K\<close>, steps lead to
  the world \<open>w'\<close> and the claims \<open>K'\<close>, while the clock stands.\<close>

definition runs ::
  "upload_settings \<Rightarrow> (string \<Rightarrow> string) \<Rightarrow> int \<Rightarrow> (string \<times> upload_intent) set \<Rightarrow> 'w upload_world
     \<Rightarrow> (string \<times> upload_intent) set \<Rightarrow> 'w upload_world \<Rightarrow> bool" where
  "runs st sha now K w K' w' =
     (\<forall>s. sy_world s = w \<longrightarrow> sy_now s = now \<longrightarrow> K \<subseteq> sy_cleaners s \<longrightarrow>
        (\<exists>s'. up_steps st sha s s' \<and> sy_world s' = w' \<and> sy_now s' = now \<and> K' \<subseteq> sy_cleaners s'))"

named_theorems runs_intros

lemma runs_refl [runs_intros]: "runs st sha now K w K w"
  by (auto simp: runs_def)

lemma runsE:
  assumes "runs st sha now K w K' w'" "sy_world s = w" "sy_now s = now" "K \<subseteq> sy_cleaners s"
  obtains s' where "up_steps st sha s s'" "sy_world s' = w'" "sy_now s' = now" "K' \<subseteq> sy_cleaners s'"
  using assms unfolding runs_def by blast

lemma runs_less:
  assumes "runs st sha now K w K' w'" "L \<subseteq> K'"
  shows "runs st sha now K w L w'"
  unfolding runs_def
proof (intro allI impI)
  fix s :: "'a upload_sys" assume "sy_world s = w" "sy_now s = now" "K \<subseteq> sy_cleaners s"
  from runsE [OF assms(1) this] obtain s' where "up_steps st sha s s'" "sy_world s' = w'" "sy_now s' = now" "K' \<subseteq> sy_cleaners s'" .
  with assms(2) show "\<exists>s'. up_steps st sha s s' \<and> sy_world s' = w' \<and> sy_now s' = now \<and> L \<subseteq> sy_cleaners s'" by blast
qed

lemma runs_trans:
  assumes "runs st sha now K w K' w'" "runs st sha now K' w' K'' w''"
  shows "runs st sha now K w K'' w''"
  unfolding runs_def
proof (intro allI impI)
  fix s :: "'a upload_sys" assume "sy_world s = w" "sy_now s = now" "K \<subseteq> sy_cleaners s"
  from runsE [OF assms(1) this] obtain s1 where s1: "up_steps st sha s s1" "sy_world s1 = w'" "sy_now s1 = now"
    "K' \<subseteq> sy_cleaners s1" .
  from runsE [OF assms(2) s1(2-4)] obtain s2 where "up_steps st sha s1 s2" "sy_world s2 = w''" "sy_now s2 = now"
    "K'' \<subseteq> sy_cleaners s2" .
  with rtranclp_trans [OF s1(1)] show "\<exists>s'. up_steps st sha s s' \<and> sy_world s' = w'' \<and> sy_now s' = now \<and> K'' \<subseteq> sy_cleaners s'"
    by blast
qed

lemma runs_step:
  assumes "\<And>s. sy_world s = w \<Longrightarrow> sy_now s = now \<Longrightarrow> K \<subseteq> sy_cleaners s \<Longrightarrow>
    \<exists>s'. up_step st sha s s' \<and> sy_world s' = w' \<and> sy_now s' = now \<and> K' \<subseteq> sy_cleaners s'"
  shows "runs st sha now K w K' w'"
  unfolding runs_def using assms r_into_rtranclp by metis

lemma runs_intents:
  assumes "\<And>s. sy_world s = w \<Longrightarrow> sy_now s = now \<Longrightarrow> K \<subseteq> sy_cleaners s \<Longrightarrow> up_step st sha s (set_intents db s)"
  shows "runs st sha now K w K (w\<lparr>intents := db\<rparr>)"
proof (rule runs_step)
  fix s :: "'a upload_sys" assume s: "sy_world s = w" "sy_now s = now" "K \<subseteq> sy_cleaners s"
  from assms [OF s] s show "\<exists>s'. up_step st sha s s' \<and> sy_world s' = w\<lparr>intents := db\<rparr> \<and> sy_now s' = now \<and> K \<subseteq> sy_cleaners s'"
    by (intro exI [of _ "set_intents db s"]) (simp add: set_intents_def)
qed

lemma runs_world:
  assumes "\<And>s. sy_world s = w \<Longrightarrow> sy_now s = now \<Longrightarrow> up_step st sha s (s\<lparr>sy_world := w'\<rparr>)"
  shows "runs st sha now K w K w'"
proof (rule runs_step)
  fix s :: "'a upload_sys" assume s: "sy_world s = w" "sy_now s = now" "K \<subseteq> sy_cleaners s"
  from assms [OF s(1,2)] s show "\<exists>s'. up_step st sha s s' \<and> sy_world s' = w' \<and> sy_now s' = now \<and> K \<subseteq> sy_cleaners s'"
    by (intro exI [of _ "s\<lparr>sy_world := w'\<rparr>"]) simp
qed

lemma runs_storage [runs_intros]: "runs st sha now K w K (w\<lparr>storage := x\<rparr>)"
proof (rule runs_world)
  fix s :: "'a upload_sys" assume "sy_world s = w"
  with up_step.adapter [of st sha s x] show "up_step st sha s (s\<lparr>sy_world := w\<lparr>storage := x\<rparr>\<rparr>)" by simp
qed

lemma runs_after_storage: "runs st sha now K (w\<lparr>storage := x\<rparr>) K' w' \<Longrightarrow> runs st sha now K w K' w'"
  by (rule runs_trans [OF runs_storage])

lemma runs_mark_old [runs_intros]:
  "runs st sha now K w K (w\<lparr>intents := mark_old_completed i now (intents w)\<rparr>)"
  "runs st sha now K w K (w\<lparr>intents := mark_old_resolved i now (intents w)\<rparr>)"
  by (rule runs_intents, use up_step.old_completed in metis) (rule runs_intents, use up_step.old_resolved in metis)

lemma runs_old_planned:
  fixes a :: "'w adapter" and w :: "'w upload_world"
  shows "plan_old_cleanup_claim a i now allow (intents w) = (r, db) \<Longrightarrow> runs st sha now K w K (w\<lparr>intents := db\<rparr>)"
  by (rule runs_intents, rule up_step.old_planned [of a i _ allow r]) simp

lemma runs_delete_claimed: "delete_claimed a i now planned w = (r, w') \<Longrightarrow> runs st sha now K w K w'"
  using runs_after_storage [OF runs_mark_old(1)]
  by (auto simp: delete_claimed_def split: prod.splits sum.splits intro: runs_intros)

lemma runs_delete_old:
  assumes "delete_consumed_old_object st a i now it w = (r, w')"
  shows "runs st sha now K w K w'"
proof -
  have two: "runs st sha now K w K (w\<lparr>intents := mark_old_resolved i now db\<rparr>)"
    if "plan_old_cleanup_claim a i now True (intents w) = (x, db)" for x db
    using runs_trans [OF runs_old_planned [OF that] runs_mark_old(2) [of st sha now K "w\<lparr>intents := db\<rparr>" i]] by simp
  have three: "runs st sha now K w K w'"
    if "plan_old_cleanup_claim a i now True (intents w) = (x, db)" "delete_claimed a i now p (w\<lparr>intents := db\<rparr>) = (r, w')" for x db p
    by (rule runs_trans [OF runs_old_planned [OF that(1)] runs_delete_claimed [OF that(2)]])
  from assms show ?thesis
    by (auto simp: delete_consumed_old_object_def split: if_splits sum.splits option.splits prod.splits
        intro: runs_intros runs_delete_claimed runs_old_planned two three)
qed

lemma runs_delete_owned:
  "delete_intent_owned_objects st site i now it w = (r, w') \<Longrightarrow> runs st sha now K w K w'"
  by (auto simp: delete_intent_owned_objects_def Let_def split: sum.splits prod.splits if_splits
      intro: runs_intros runs_after_storage [OF runs_delete_old])

lemma runs_terminal_claim:
  assumes "claim_terminal_cleanup st i now fresh (intents w) = (CleanupClaim it u t, db)" "fresh \<noteq> []"
  shows "runs st sha now K w (insert (i, it) K) (w\<lparr>intents := db\<rparr>)"
proof (rule runs_step)
  fix s :: "'a upload_sys" assume s: "sy_world s = w" "sy_now s = now" "K \<subseteq> sy_cleaners s"
  have "up_step st sha s (set_intents db (s\<lparr>sy_cleaners := insert (i, it) (sy_cleaners s)\<rparr>))"
    by (rule up_step.cleanup_claimed [OF _ assms(2)]) (use assms(1) s in simp)
  with s show "\<exists>s'. up_step st sha s s' \<and> sy_world s' = w\<lparr>intents := db\<rparr> \<and> sy_now s' = now
      \<and> insert (i, it) K \<subseteq> sy_cleaners s'"
    by (intro exI [of _ "set_intents db (s\<lparr>sy_cleaners := insert (i, it) (sy_cleaners s)\<rparr>)"])
       (auto simp: set_intents_def)
qed

lemma runs_cleanup_end:
  assumes "(i, it) \<in> K"
  shows "runs st sha now K w K (w\<lparr>intents := fail_cleanup i u t e now (intents w)\<rparr>)"
    "finish_cleanup i u t now (intents w) = (r, db) \<Longrightarrow> runs st sha now K w K (w\<lparr>intents := db\<rparr>)"
proof -
  show "runs st sha now K w K (w\<lparr>intents := fail_cleanup i u t e now (intents w)\<rparr>)"
    by (rule runs_intents) (use up_step.cleanup_failed assms in blast)
  show "finish_cleanup i u t now (intents w) = (r, db) \<Longrightarrow> runs st sha now K w K (w\<lparr>intents := db\<rparr>)"
    by (rule runs_intents) (use up_step.cleanup_finished assms in blast)
qed

lemma runs_cleanup:
  assumes "cleanup_terminal_intent st site i now fresh w = (b, w')" "fresh \<noteq> []"
  shows "runs st sha now K w K w'"
proof (cases "\<exists>it u t. fst (claim_terminal_cleanup st i now fresh (intents w)) = CleanupClaim it u t")
  case False
  then have "snd (claim_terminal_cleanup st i now fresh (intents w)) = intents w"
    by (auto simp: claim_terminal_cleanup_def Let_def split: option.splits if_splits)
  with False assms(1) have "w' = w"
    by (auto simp: cleanup_terminal_intent_def split: prod.splits cleanup_claim.splits)
  then show ?thesis by (simp add: runs_refl)
next
  case True
  then obtain it u t db where c: "claim_terminal_cleanup st i now fresh (intents w) = (CleanupClaim it u t, db)"
    by (metis prod.collapse)
  let ?K = "insert (i, it) K"
  obtain x w1 where d: "delete_intent_owned_objects st site i now it (w\<lparr>intents := db\<rparr>) = (x, w1)"
    by (cases "delete_intent_owned_objects st site i now it (w\<lparr>intents := db\<rparr>)")
  have "runs st sha now ?K w1 ?K w'"
  proof (cases x)
    case (Inl e)
    with assms(1) c d have "w' = w1\<lparr>intents := fail_cleanup i u t e now (intents w1)\<rparr>"
      by (simp add: cleanup_terminal_intent_def)
    then show ?thesis by (simp add: runs_cleanup_end(1) [of i it])
  next
    case (Inr y)
    obtain r db' where f: "finish_cleanup i u t now (intents w1) = (r, db')"
      by (cases "finish_cleanup i u t now (intents w1)")
    with assms(1) c d Inr have "w' = w1\<lparr>intents := db'\<rparr>" by (simp add: cleanup_terminal_intent_def)
    with runs_cleanup_end(2) [OF _ f, of it ?K] show ?thesis by simp
  qed
  from runs_trans [OF runs_terminal_claim [OF c assms(2)] runs_trans [OF runs_delete_owned [OF d] this]]
  show ?thesis by (rule runs_less) blast
qed

lemma runs_conclude: "conclude st site i now fresh o' w = (r, w') \<Longrightarrow> fresh \<noteq> [] \<Longrightarrow> runs st sha now K w K w'"
  by (auto simp: conclude_def intro: runs_cleanup [OF prod.collapse [symmetric]])

lemma runs_failure:
  assumes "failure_outcome st i e now lease w = (r, w')"
  shows "runs st sha now K w K w'"
proof -
  obtain x db where f: "record_failure st i e now lease (intents w) = (x, db)"
    by (cases "record_failure st i e now lease (intents w)")
  have "runs st sha now K w K (w\<lparr>intents := db\<rparr>)"
    by (rule runs_intents, rule up_step.attempt_failed [of st i e _ lease]) (use f in simp)
  with assms f show ?thesis by (auto simp: failure_outcome_def split: bool.splits)
qed

lemma runs_renew:
  assumes "renew_finalization_lease st i now t (intents w) = (r, db)"
  shows "runs st sha now K w K (w\<lparr>intents := db\<rparr>)"
  by (rule runs_intents, rule up_step.attempt_renewed [of st i _ t]) (use assms in simp)

lemma runs_begin:
  assumes "begin_finalization i now t w = (r, w')"
  shows "runs st sha now K w K w'"
  by (rule runs_world, rule up_step.attempt_begun [of i _ t]) (use assms in simp)

lemma runs_complete:
  assumes "complete_finalization i now t fv w = (r, w')"
  shows "runs st sha now K w K w'"
  by (rule runs_world, rule up_step.attempt_completed [of i _ t fv]) (use assms in simp)

lemma runs_start:
  assumes "start_finalization st i now fresh u t (intents w) = (r, db)" "fresh \<noteq> []"
  shows "runs st sha now K w K (w\<lparr>intents := db\<rparr>)"
  by (rule runs_intents, rule up_step.attempt_started [of st i _ fresh u t]) (use assms in simp_all)

lemma runs_finish:
  assumes "finish_attempt st site env a v it i now fresh lease w = (o', w')" "fresh \<noteq> []"
  shows "runs st sha now K w K w'"
proof -
  obtain u t where lease: "lease = (u, t)" by (cases lease)
  obtain r db where r: "renew_finalization_lease st i now t (intents w) = (r, db)"
    by (cases "renew_finalization_lease st i now t (intents w)")
  let ?w1 = "w\<lparr>intents := db\<rparr>"
  have 1: "runs st sha now K w K ?w1" by (rule runs_renew [OF r])
  have "runs st sha now K ?w1 K w'"
  proof (cases r)
    case None
    with assms(1) r lease show ?thesis by (auto simp: finish_attempt_def intro: runs_failure)
  next
    case (Some u')
    obtain m x where m: "materialize_file st env a i it v (storage w) = (m, x)"
      by (cases "materialize_file st env a i it v (storage w)")
    show ?thesis
    proof (cases m)
      case (Inl e)
      with assms(1) r lease Some m have "failure_outcome st i e now (Some (u', t)) (?w1\<lparr>storage := x\<rparr>) = (o', w')"
        by (simp add: finish_attempt_def)
      from runs_after_storage [OF runs_failure [OF this]] show ?thesis .
    next
      case (Inr fv)
      obtain r2 db2 where r2: "renew_finalization_lease st i now t db = (r2, db2)"
        by (cases "renew_finalization_lease st i now t db")
      let ?w2 = "?w1\<lparr>storage := x\<rparr>" and ?w3 = "?w1\<lparr>storage := x, intents := db2\<rparr>"
      have 2: "runs st sha now K ?w2 K ?w3" using runs_renew [of st i now t ?w2] r2 by simp
      have w3: "?w3 = w\<lparr>intents := db2, storage := x\<rparr>" by simp
      have "runs st sha now K ?w3 K w'"
      proof (cases r2)
        case None
        with assms(1) r lease Some m Inr r2 have "failure_outcome st i FinLeaseLost now (Some (u', t)) ?w3 = (o', w')"
          by (simp add: finish_attempt_def w3)
        then show ?thesis by (rule runs_failure)
      next
        case (Some u'')
        obtain c w4 where c: "complete_finalization i now t fv ?w3 = (c, w4)"
          by (cases "complete_finalization i now t fv ?w3")
        have "runs st sha now K w4 K w'"
          using assms r lease \<open>r = Some u'\<close> m Inr r2 Some c
          by (auto simp: finish_attempt_def w3 split: option.splits completion.splits
              intro: runs_failure runs_conclude runs_refl)
        with runs_complete [OF c] show ?thesis by (rule runs_trans)
      qed
      from runs_after_storage [OF runs_trans [OF 2 this]] show ?thesis .
    qed
  qed
  with 1 show ?thesis by (rule runs_trans)
qed

lemma runs_finalize:
  assumes "finalize_upload_intent st site env i now fresh fresh' eu et w = (o', w')" "fresh \<noteq> []" "fresh' \<noteq> []"
  shows "runs st sha now K w K w'"
proof (cases "od_get (intents w) i")
  case None
  with assms(1) show ?thesis by (auto simp: finalize_upload_intent_def Let_def intro: runs_failure)
next
  case (Some initial)
  obtain r db where s: "start_finalization st i now fresh eu et (intents w) = (r, db)"
    by (cases "start_finalization st i now fresh eu et (intents w)")
  let ?w1 = "w\<lparr>intents := db\<rparr>"
  have 1: "runs st sha now K w K ?w1" by (rule runs_start [OF s assms(2)])
  show ?thesis
  proof (cases "ui_state initial = UFinalizing")
    case False
    with assms(1,3) Some show ?thesis
      by (auto simp: finalize_upload_intent_def Let_def split: if_splits intro: runs_conclude runs_refl)
  next
    case True
    have "runs st sha now K ?w1 K w'"
    proof (cases "\<exists>lease. r = Some (Some lease)")
      case False
      with assms(1) Some True s show ?thesis
        by (auto simp: finalize_upload_intent_def Let_def split: option.splits intro: runs_failure runs_refl)
    next
      case lease: True
      then obtain lease where r: "r = Some (Some lease)" by blast
      show ?thesis
      proof (cases "attempt_inputs site (the (od_get db i))")
        case (Inl e)
        with assms(1) Some True s r have "failure_outcome st i e now (Some lease) ?w1 = (o', w')"
          by (simp add: finalize_upload_intent_def Let_def)
        then show ?thesis by (rule runs_failure)
      next
        case (Inr av)
        obtain a v where av: "av = (a, v)" by (cases av)
        obtain b w2 where b: "begin_finalization i now (snd lease) ?w1 = (b, w2)"
          by (cases "begin_finalization i now (snd lease) ?w1")
        have "runs st sha now K w2 K w'"
          using assms Some True s r Inr av b
          by (auto simp: finalize_upload_intent_def Let_def split: option.splits attempt_state.splits
              intro: runs_failure runs_conclude runs_refl runs_finish)
        with runs_begin [OF b] show ?thesis by (rule runs_trans)
      qed
    qed
    with 1 show ?thesis by (rule runs_trans)
  qed
qed

lemma runs_expire:
  assumes "expire_upload_intent i now now (intents w) = (r, db)"
  shows "runs st sha now K w K (w\<lparr>intents := db\<rparr>)"
  by (rule runs_intents, rule up_step.expire [of i now _ r]) (use assms in simp_all)

lemma runs_retain: "delete_retained_intent site i cutoff False w = (r, w') \<Longrightarrow> runs st sha now K w K w'"
  by (rule runs_world) (rule up_step.retained [of site i cutoff _ r], simp)

lemma runs_clean_one:
  "clean_one st site now fresh i (c, w) = (c', w') \<Longrightarrow> snd (fresh i) \<noteq> [] \<Longrightarrow> runs st sha now K w K w'"
  by (auto simp: clean_one_def split: prod.splits bool.splits intro: runs_cleanup)

lemma runs_expire_one:
  assumes "expire_one st site now fresh i (c, w) = (c', w')" "snd (fresh i) \<noteq> []"
  shows "runs st sha now K w K w'"
proof -
  obtain r db where e: "expire_upload_intent i now now (intents w) = (r, db)"
    by (cases "expire_upload_intent i now now (intents w)")
  have "runs st sha now K (w\<lparr>intents := db\<rparr>) K w'"
    using assms e by (auto simp: expire_one_def split: bool.splits intro: runs_refl runs_clean_one)
  with runs_expire [OF e] show ?thesis by (rule runs_trans)
qed

lemma runs_reconcile_one:
  "reconcile_one st site env now fresh i (c, w) = (c', w') \<Longrightarrow> fst (fresh i) \<noteq> [] \<Longrightarrow> snd (fresh i) \<noteq> [] \<Longrightarrow>
   runs st sha now K w K w'"
  by (auto simp: reconcile_one_def split: prod.splits fin_outcome.splits intro: runs_finalize)

lemma runs_retain_one: "retain_one site cutoff False i (c, w) = (c', w') \<Longrightarrow> runs st sha now K w K w'"
  by (auto simp: retain_one_def split: prod.splits retention.splits intro: runs_retain)

lemma runs_fold:
  assumes "\<And>i cw. runs st sha now K (snd cw) K (snd (work i cw))"
  shows "runs st sha now K (snd cw) K (snd (fold work ids cw))"
proof (induction ids arbitrary: cw)
  case Nil
  then show ?case by (simp add: runs_refl)
next
  case (Cons i ids)
  from runs_trans [OF assms [of cw i] Cons.IH [of "work i cw"]] show ?case by simp
qed

lemma runs_phase:
  assumes "\<And>i cw. runs st sha now K (snd cw) K (snd (work i cw))"
  shows "runs st sha now K (snd cw) K (snd (run_phase dry count work ids cw))"
proof -
  have "runs st sha now K (snd cw) K (snd (fold work ids cw))" by (rule runs_fold) (rule assms)
  then show ?thesis by (simp add: run_phase_def runs_refl)
qed

lemma runs_batch:
  fixes w :: "'w upload_world"
  assumes "run_upload_cleanup st site env batch older dry now fresh w = Some (c, ids, w')"
    and fresh: "\<And>i. fst (fresh i) \<noteq> [] \<and> snd (fresh i) \<noteq> []"
  shows "runs st sha now K w K w'"
proof -
  define P where "P = (\<lambda>r. case r of None \<Rightarrow> True
    | Some (c :: cleanup_counts, ids :: string list list, w' :: 'w upload_world) \<Rightarrow> runs st sha now K w K w')"
  have "P (run_upload_cleanup st site env batch older dry now fresh w)"
    unfolding run_upload_cleanup_def
  proof (rule let_intro [where P = P], rule let_intro [where P = P], goal_cases)
    case (1 lim ag)
    show ?case
    proof (cases "lim \<le> 0 \<or> ag \<le> 0")
      case True
      then show ?thesis by (simp add: P_def)
    next
      case False
      show ?thesis
        unfolding if_not_P [OF False]
      proof (intro let_intro [where P = P], goal_cases)
        case (1 r0 ids1 cw1 r1 ids2 cw2 r2 ids3 cw3 r3 cutoff ids4 cw4)
        have 2: "runs st sha now K (snd cw) K (snd (reconcile_one st site env now fresh i cw))" for i cw
          by (rule runs_reconcile_one [of st site env now fresh i "fst cw" "snd cw" "fst (reconcile_one st site env now fresh i cw)"])
             (use fresh in simp_all)
        have 3: "runs st sha now K (snd cw) K (snd (expire_one st site now fresh i cw))" for i cw
          by (rule runs_expire_one [of st site now fresh i "fst cw" "snd cw" "fst (expire_one st site now fresh i cw)"])
             (use fresh in simp_all)
        have 4: "runs st sha now K (snd cw) K (snd (clean_one st site now fresh i cw))" for i cw
          by (rule runs_clean_one [of st site now fresh i "fst cw" "snd cw" "fst (clean_one st site now fresh i cw)"])
             (use fresh in simp_all)
        have 5: "runs st sha now K (snd cw) K (snd (retain_one site cutoff False i cw))" for i cw
          by (rule runs_retain_one [of site cutoff i "fst cw" "snd cw" "fst (retain_one site cutoff False i cw)"]) simp
        have "runs st sha now K w K (snd cw1)" unfolding 1(3) using runs_phase [of st sha now K "reconcile_one st site env now fresh" "(no_counts, w)", OF 2] by simp
        moreover have "runs st sha now K (snd cw1) K (snd cw2)" unfolding 1(6) by (rule runs_phase [OF 3])
        moreover have "runs st sha now K (snd cw2) K (snd cw3)" unfolding 1(9) by (rule runs_phase [OF 4])
        moreover have "runs st sha now K (snd cw3) K (snd cw4)"
        proof (cases dry)
          case True
          then show ?thesis unfolding 1(13) by (simp add: fold_retain_dry runs_refl)
        next
          case False
          have "runs st sha now K (snd cw3) K (snd (fold (retain_one site cutoff False) ids4 cw3))"
            by (rule runs_fold) (rule 5)
          with False show ?thesis unfolding 1(13) by simp
        qed
        ultimately have "runs st sha now K w K (snd cw4)" by (blast intro: runs_trans)
        then show ?case by (simp add: P_def)
      qed
    qed
  qed
  with assms(1) show ?thesis by (simp add: P_def)
qed

text \<open>C20: a whole finalization attempt and a whole run of the cleanup command, as the code composes them
  out of transactions, adapter calls and error handling, are sequences of steps of the system, whatever
  the adapters answer. So everything proved for runs holds for them and for any interleaving of them.
\<close>

theorem upload_jobs_are_runs:
  assumes "\<And>i. fst (fresh i) \<noteq> [] \<and> snd (fresh i) \<noteq> []"
  shows "(\<exists>s'. up_steps st sha s s' \<and> sy_world s' =
      snd (finalize_upload_intent st site env i (sy_now s) (fst (fresh i)) (snd (fresh i)) eu et (sy_world s)))
    \<and> (\<forall>c ids w'. run_upload_cleanup st site env batch older dry (sy_now s) fresh (sy_world s) = Some (c, ids, w') \<longrightarrow>
        (\<exists>s'. up_steps st sha s s' \<and> sy_world s' = w'))"
proof (intro conjI allI impI)
  have "runs st sha (sy_now s) {} (sy_world s) {}
      (snd (finalize_upload_intent st site env i (sy_now s) (fst (fresh i)) (snd (fresh i)) eu et (sy_world s)))"
    by (rule runs_finalize [OF prod.collapse [symmetric]]) (use assms in simp_all)
  then show "\<exists>s'. up_steps st sha s s' \<and> sy_world s' =
      snd (finalize_upload_intent st site env i (sy_now s) (fst (fresh i)) (snd (fresh i)) eu et (sy_world s))"
    by (auto elim: runsE)
next
  fix c ids w' assume r: "run_upload_cleanup st site env batch older dry (sy_now s) fresh (sy_world s) = Some (c, ids, w')"
  from runs_batch [OF r assms, of sha "{}"] show "\<exists>s'. up_steps st sha s s' \<and> sy_world s' = w'"
    by (auto elim: runsE)
qed

theorem upload_jobs_are_runs_witness:
  "\<exists>s'. up_steps demo_settings demo_sha demo4 s' \<and> sy_world s' =
     snd (finalize_upload_intent demo_settings demo_site demo_env ''i1'' (sy_now demo4) ''k'' ''c'' None None (sy_world demo4))"
  using upload_jobs_are_runs [of "\<lambda>i. (''k'', ''c'')" demo_settings demo_sha demo4 demo_site demo_env "''i1''" None None]
  by simp

section \<open>An attempt that nothing disturbs\<close>

text \<open>Cleanup keeps every row and its state.\<close>

definition keeps :: "intents \<Rightarrow> intents \<Rightarrow> bool" where
  "keeps db db' = (\<forall>k it. od_get db k = Some it \<longrightarrow> (\<exists>it'. od_get db' k = Some it' \<and> ui_state it' = ui_state it))"

lemma keeps_refl [simp]: "keeps db db"
  by (simp add: keeps_def)

lemma keeps_trans: "keeps a b \<Longrightarrow> keeps b c \<Longrightarrow> keeps a c"
  unfolding keeps_def by metis

lemma keeps_set: "od_get db i = Some it \<Longrightarrow> ui_state it' = ui_state it \<Longrightarrow> keeps db (od_set i it' db)"
  by (auto simp: keeps_def od_get_set)

lemma keeps_update: "(\<And>it. ui_state (upd it) = ui_state it) \<Longrightarrow> keeps db (snd (update_where db i cond upd))"
  by (auto simp: update_where_def split: option.splits intro: keeps_set)

lemma keeps_mark_old: "keeps db (mark_old_completed i now db)" "keeps db (mark_old_resolved i now db)"
  unfolding mark_old_completed_def mark_old_resolved_def by (rule keeps_update, simp)+

lemma keeps_old_planned: "plan_old_cleanup_claim a i now allow db = (r, db') \<Longrightarrow> keeps db db'"
  by (auto simp: plan_old_cleanup_claim_def split: option.splits if_splits sum.splits prod.splits intro!: keeps_set)

lemma keeps_delete_claimed: "delete_claimed a i now p w = (r, w') \<Longrightarrow> keeps (intents w) (intents w')"
  by (auto simp: delete_claimed_def keeps_mark_old split: prod.splits sum.splits)

lemma keeps_delete_old: "delete_consumed_old_object st a i now it w = (r, w') \<Longrightarrow> keeps (intents w) (intents w')"
  by (auto simp: delete_consumed_old_object_def keeps_mark_old split: if_splits sum.splits option.splits prod.splits
      dest!: keeps_old_planned keeps_delete_claimed intro: keeps_trans keeps_mark_old)

lemma keeps_cleanup: "cleanup_terminal_intent st site i now fresh w = (b, w') \<Longrightarrow> keeps (intents w) (intents w')"
proof -
  assume c: "cleanup_terminal_intent st site i now fresh w = (b, w')"
  obtain r db where k: "claim_terminal_cleanup st i now fresh (intents w) = (r, db)"
    by (cases "claim_terminal_cleanup st i now fresh (intents w)")
  then have 1: "keeps (intents w) db"
    by (auto simp: claim_terminal_cleanup_def Let_def split: option.splits if_splits intro!: keeps_set)
  have d: "keeps db (intents w1)" if "delete_intent_owned_objects st site i now it (w\<lparr>intents := db\<rparr>) = (x, w1)" for it x w1
    using that by (auto simp: delete_intent_owned_objects_def Let_def split: sum.splits prod.splits if_splits
        dest!: keeps_delete_old)
  have f: "keeps x (fail_cleanup i u t e now x)" "finish_cleanup i u t now x = (y, x') \<Longrightarrow> keeps x x'" for x u t e y x'
    using keeps_update [of "\<lambda>it. it\<lparr>ui_cleanup_completed := Some now, ui_cleanup_error := [], ui_lease_until := None,
               ui_lease_token := [], ui_updated := now\<rparr>" x i "cleanup_held u t"]
    unfolding fail_cleanup_def finish_cleanup_def by (simp_all add: keeps_update)
  from c k 1 show "keeps (intents w) (intents w')"
    by (auto simp: cleanup_terminal_intent_def split: cleanup_claim.splits prod.splits sum.splits
        dest!: d f(2) intro!: keeps_trans [OF _ f(1)] intro: keeps_trans)
qed

lemma keeps_conclude: "keeps (intents w) (intents (snd (conclude st site i now fresh o' w)))"
  using keeps_cleanup [OF prod.collapse [symmetric]] by (simp add: conclude_def)

lemma attempt_inputs_cong:
  "attempt_inputs site (it\<lparr>ui_lease_until := l, ui_lease_token := t, ui_finalizations := n, ui_error := e, ui_updated := u\<rparr>)
   = attempt_inputs site it" (is "attempt_inputs site ?it = _")
proof -
  have "resolve_intent_adapter site ?it = resolve_intent_adapter site it"
    by (simp add: resolve_intent_adapter_def cong: option.case_cong)
  moreover have "stored_object_version ?it = stored_object_version it"
    by (rule stored_version_cong) (simp_all add: same_declaration_def)
  ultimately show ?thesis by (simp add: attempt_inputs_def)
qed

lemma file_bound_cong:
  "ui_final_target it' = ui_final_target it \<Longrightarrow> ui_manager it' = ui_manager it \<Longrightarrow> ui_field it' = ui_field it \<Longrightarrow>
   ui_final_key it' = ui_final_key it \<Longrightarrow> rows w' = rows w \<Longrightarrow> file_bound w' it' = file_bound w it"
  by (simp add: file_bound_def cong: option.case_cong)

lemma materialize_cong:
  "materialize_file st env a i (it\<lparr>ui_lease_until := l, ui_lease_token := t, ui_finalizations := n, ui_error := e,
     ui_updated := u\<rparr>) v x = materialize_file st env a i it v x"
  by (simp add: materialize_file_def split_def cong: sum.case_cong option.case_cong)

lemma conclude_state:
  assumes "od_get (intents w) i = Some it"
  shows "\<exists>w' it'. conclude st site k now fresh o' w = (o', w') \<and> od_get (intents w') i = Some it' \<and> ui_state it' = ui_state it"
  using keeps_conclude [of w st site k now fresh o'] assms unfolding keeps_def by (auto simp: conclude_def)

lemma renew_held:
  assumes "od_get db i = Some it" "ui_state it = UFinalizing" "holds_lease token now it"
  shows "renew_finalization_lease st i now token db = (Some (now + us_cleanup_lease st),
    od_set i (it\<lparr>ui_lease_until := Some (now + us_cleanup_lease st), ui_updated := now\<rparr>) db)"
  using assms by (simp add: renew_finalization_lease_def update_where_def)

text \<open>An attempt that holds its lease, on a row that keeps the reserved name, consumes the intent.\<close>

lemma finish_attempt_consumes:
  assumes g: "od_get (intents w) i = Some it" and held: "ui_state it = UFinalizing" "holds_lease token now it"
    and "0 < us_cleanup_lease st" and b: "file_bound w it"
    and m: "materialize_file st env a i it0 v (storage w) = (Inr fv, x)"
  shows "\<exists>w' it'. finish_attempt st site env a v it0 i now fresh' (u, token) w = (FinConsumed, w')
    \<and> od_get (intents w') i = Some it' \<and> ui_state it' = UConsumed"
proof -
  let ?u = "now + us_cleanup_lease st"
  define it2 where "it2 = it\<lparr>ui_lease_until := Some ?u, ui_updated := now\<rparr>"
  let ?db = "od_set i it2 (intents w)"
  let ?w2 = "w\<lparr>intents := od_set i it2 ?db, storage := x\<rparr>"
  define it3 where "it3 = it2\<lparr>ui_state := UConsumed, ui_consumed := Some now, ui_error := [],
    ui_lease_until := None, ui_lease_token := [], ui_final_version := Some fv, ui_updated := now\<rparr>"
  let ?w3 = "w\<lparr>intents := od_set i it3 (od_set i it2 ?db), storage := x\<rparr>"
  have r1: "renew_finalization_lease st i now token (intents w) = (Some ?u, ?db)"
    using renew_held [OF g held] by (simp add: it2_def)
  have h2: "ui_state it2 = UFinalizing" "holds_lease token now it2"
    using held assms(4) by (simp_all add: it2_def holds_lease_def)
  have g2: "od_get ?db i = Some it2" by (simp add: od_get_set)
  have r2: "renew_finalization_lease st i now token ?db = (Some ?u, od_set i it2 ?db)"
    using renew_held [OF g2 h2] by (simp add: it2_def)
  have "file_bound ?w2 it2" using b by (subst file_bound_cong [where it = it and w = w]) (simp_all add: it2_def)
  with h2 have c: "complete_finalization i now token fv ?w2 = (Some CompletedNow, ?w3)"
    by (simp add: complete_finalization_def od_get_set it3_def)
  have "od_get (intents ?w3) i = Some it3" by (simp add: od_get_set)
  from conclude_state [OF this, of st site i now fresh' FinConsumed]
  obtain w' it' where "conclude st site i now fresh' FinConsumed ?w3 = (FinConsumed, w')"
    "od_get (intents w') i = Some it'" "ui_state it' = UConsumed" by (auto simp: it3_def)
  with r1 r2 m c show ?thesis by (simp add: finish_attempt_def)
qed

text \<open>C36: an attempt on an intent whose lease is free, whose inputs are intact and whose adapter produces
  the file ends: if the row still holds the reserved name the intent is consumed, otherwise it is
  superseded without any call of the adapter that could fail; a failing cleanup changes neither.
\<close>

theorem finalization_completes:
  assumes "od_get (intents w) i = Some it" "ui_state it = UFinalizing" "lease_free now it" "0 < us_cleanup_lease st"
    and "attempt_inputs site it = Inr (a, v)"
    and "file_bound w it \<Longrightarrow> materialize_file st env a i it v (storage w) = (Inr fv, x)"
  shows "\<exists>w' it'. finalize_upload_intent st site env i now fresh fresh' None None w =
      (if file_bound w it then FinConsumed else FinSuperseded, w')
    \<and> od_get (intents w') i = Some it' \<and> ui_state it' = (if file_bound w it then UConsumed else USuperseded)"
proof -
  let ?u = "now + us_cleanup_lease st"
  define it1 where "it1 = it\<lparr>ui_lease_until := Some ?u, ui_lease_token := fresh,
      ui_finalizations := ui_finalizations it + 1, ui_error := [], ui_updated := now\<rparr>"
  let ?w1 = "w\<lparr>intents := od_set i it1 (intents w)\<rparr>"
  have s: "start_finalization st i now fresh None None (intents w) = (Some (Some (?u, fresh)), od_set i it1 (intents w))"
    using assms(1-3) by (simp add: start_finalization_def it1_def)
  have inp: "attempt_inputs site it1 = Inr (a, v)" using assms(5) by (simp add: it1_def attempt_inputs_cong)
  have b1: "file_bound ?w1 it1 = file_bound w it" by (rule file_bound_cong) (simp_all add: it1_def)
  have lease: "holds_lease fresh now it1" using assms(4) by (simp add: holds_lease_def it1_def)
  have fin: "ui_state it1 = UFinalizing" using assms(2) by (simp add: it1_def)
  have g1: "od_get (od_set i it1 (intents w)) i = Some it1" by (simp add: od_get_set)
  have t: "the (od_get (od_set i it1 (intents w)) i) = it1" using g1 by simp
  have "finalize_upload_intent st site env i now fresh fresh' None None w =
      (case begin_finalization i now fresh ?w1 of
         (None, w2) \<Rightarrow> failure_outcome st i FinOther now (Some (?u, fresh)) w2
       | (Some AttemptDone, w2) \<Rightarrow> (FinSkipped, w2)
       | (Some AttemptSuperseded, w2) \<Rightarrow> conclude st site i now fresh' FinSuperseded w2
       | (Some AttemptProceed, w2) \<Rightarrow> finish_attempt st site env a v (the (od_get (od_set i it1 (intents w)) i)) i now fresh' (?u, fresh) w2)"
    using assms(1,2) s inp t by (simp add: finalize_upload_intent_def Let_def)
  note unfold = this [unfolded t]
  show ?thesis
  proof (cases "file_bound w it")
    case False
    let ?w2 = "w\<lparr>intents := od_set i (supersede now it1) (od_set i it1 (intents w))\<rparr>"
    have "begin_finalization i now fresh ?w1 = (Some AttemptSuperseded, ?w2)"
      using g1 fin lease b1 False by (simp add: begin_finalization_def)
    moreover have "od_get (intents ?w2) i = Some (supersede now it1)" by (simp add: od_get_set)
    from conclude_state [OF this, of st site i now fresh' FinSuperseded]
    obtain w' it' where "conclude st site i now fresh' FinSuperseded ?w2 = (FinSuperseded, w')"
      "od_get (intents w') i = Some it'" "ui_state it' = USuperseded" by (auto simp: supersede_def)
    ultimately show ?thesis using unfold False by simp
  next
    case True
    define it2 where "it2 = it1\<lparr>ui_error := [], ui_updated := now\<rparr>"
    let ?w2 = "w\<lparr>intents := od_set i it2 (od_set i it1 (intents w))\<rparr>"
    have b: "begin_finalization i now fresh ?w1 = (Some AttemptProceed, ?w2)"
      using g1 fin lease b1 True by (simp add: begin_finalization_def it2_def)
    have g2: "od_get (intents ?w2) i = Some it2" by (simp add: od_get_set)
    have h2: "ui_state it2 = UFinalizing" "holds_lease fresh now it2"
      using fin lease by (simp_all add: it2_def holds_lease_def)
    have b2: "file_bound ?w2 it2" using True
      by (subst file_bound_cong [where it = it and w = w]) (simp_all add: it1_def it2_def)
    have m: "materialize_file st env a i it1 v (storage ?w2) = (Inr fv, x)"
      using assms(6) True by (simp add: it1_def materialize_cong)
    from finish_attempt_consumes [OF g2 h2 assms(4) b2 m, of site fresh' ?u] obtain w' it' where
      "finish_attempt st site env a v it1 i now fresh' (?u, fresh) ?w2 = (FinConsumed, w')"
      "od_get (intents w') i = Some it'" "ui_state it' = UConsumed" by (elim exE conjE)
    with unfold b True show ?thesis by simp
  qed
qed

lemma attempt_adapter: "attempt_inputs demo_site it = Inr (a, v) \<Longrightarrow> a = demo_adapter"
  by (auto simp: attempt_inputs_def resolve_intent_adapter_def sbind_Inr_iff demo_site_def
      split: sum.splits option.splits if_splits)

theorem finalization_completes_witness:
  "\<exists>w' it'. finalize_upload_intent demo_settings demo_site demo_env ''i1'' 0 ''k'' ''c'' None None demo_world4 = (FinConsumed, w')
     \<and> od_get (intents w') ''i1'' = Some it' \<and> ui_state it' = UConsumed"
proof -
  have c: "case od_get (intents demo_world4) ''i1'' of None \<Rightarrow> False | Some it \<Rightarrow>
      ui_state it = UFinalizing \<and> lease_free 0 it \<and> file_bound demo_world4 it
      \<and> (case attempt_inputs demo_site it of Inr (a, v) \<Rightarrow> v = demo_version | _ \<Rightarrow> False)
      \<and> materialize_file demo_settings demo_env demo_adapter ''i1'' it demo_version () = (Inr demo_version, ())"
    by code_simp
  then obtain it where it: "od_get (intents demo_world4) ''i1'' = Some it" "ui_state it = UFinalizing" "lease_free 0 it"
      "file_bound demo_world4 it" "case attempt_inputs demo_site it of Inr (a, v) \<Rightarrow> v = demo_version | _ \<Rightarrow> False"
      "materialize_file demo_settings demo_env demo_adapter ''i1'' it demo_version () = (Inr demo_version, ())"
    by (auto split: option.splits)
  from it(5) obtain a where "attempt_inputs demo_site it = Inr (a, demo_version)" by (auto split: sum.splits prod.splits)
  with attempt_adapter have inp: "attempt_inputs demo_site it = Inr (demo_adapter, demo_version)" by blast
  have "0 < us_cleanup_lease demo_settings" by (simp add: demo_settings_def)
  from finalization_completes [OF it(1-3) this inp, of demo_env demo_version "()" "''k''" "''c''"] it(4,6)
  show ?thesis by auto
qed

end
