(* ===== verification/Spec2Isabelle.thy ===== *)
theory Spec2Isabelle
  imports RunCacheStep DepTracker DepBarrier PathMap StartupOrder PermRead PermChecks WfOutboxRuns WfEngineStep WfLocal CalDomain UpFlow
begin

text \<open>
  A verification development for General Manager, a Python framework that puts manager classes
  over a Django database (\<open>src/src/general_manager\<close>, the paths below are relative to it). A
  manager declares its data (\<open>interface/\<close>), its permissions (\<open>permission/\<close>) and its computed
  values; results of computations are cached with the dependencies they had (\<open>cache/\<close>), events go
  through a workflow registry with an outbox (\<open>workflow/\<close>), and a GraphQL layer (\<open>api/\<close>) reads and
  writes through all of them.

  The parts modelled here, with the theories and what they show.

  \<^bold>\<open>Shared vocabulary.\<close> \<open>Prelude\<close>: ordered dictionaries as association lists, splitting and
  joining of strings, and the locale \<open>kv_store\<close>. \<open>Results\<close>: values that may be an exception
  (\<open>sum\<close>) and the loops \<open>all\<close> and \<open>any\<close> that stop early. \<open>Json\<close>: \<open>json.dumps(sort_keys=True)\<close>
  and \<open>json.loads\<close> with their round trip.

  \<^bold>\<open>Dependency cache.\<close> A computation reads managers; the tracker records what it read, the
  result is stored together with that set, and a later change of a manager object deletes the
  results it can affect.
  \<^item> \<open>DepTracker\<close> (\<open>cache/cache_tracker.py\<close>): the stack of collectors with its shortcuts refines a
    plain stack of sets.
  \<^item> \<open>DepMatch\<close> (\<open>cache/dependency_matching.py\<close>): the canonical text of a dependency value, where
    the fast paths equal the generic encoder, and the comparison of runtime values with stored
    ones.
  \<^item> \<open>DepShards\<close> (\<open>cache/dependency_shards.py\<close>): the metadata is spread over shards, registries and
    reverse memberships; recording and removing refine one map from cache keys to dependency
    sets (locale \<open>dependency_metadata\<close>, interpreted by the shard operations).
  \<^item> \<open>DepIndex\<close> (\<open>cache/dependency_index.py\<close>): capture of old values, candidates, decision and
    deletion. Complete (every affected result is deleted), precise (nothing unrelated is), and
    end to end for a changed row.
  \<^item> \<open>DepCache\<close> (\<open>cache/dependency_cache.py\<close>): entry formats, single and bulk reads.
  \<^item> \<open>DepPublish\<close> (locks and barrier of \<open>dependency_index.py\<close>, \<open>cache/dependency_publish.py\<close>, the flush
    of \<open>cache/run_context.py\<close>): publication of a value only if no data change is active and the
    generation is the one the computation started with.
  \<^item> \<open>DepBarrier\<close> (\<open>cache/signals.py\<close>, the miss path of \<open>cache/cache_decorator.py\<close>): all
    interleavings of data changes and computations. What started outside a data change never
    publishes a stale value; what starts inside one can, which is a finding.

  \<^bold>\<open>Run-context cache budget.\<close> \<open>RunCacheLru\<close>, \<open>RunCacheOps\<close>, \<open>RunCacheStep\<close>
  (\<open>cache/run_context_lru.py\<close>): the process-wide accounting of cached values, eviction, the two
  critical sections of an admission and the finalizers, as a transition system. The incremental
  totals are exact in every reachable state; eviction takes a least-recently-used prefix.

  \<^bold>\<open>Permissions.\<close> \<open>PermRegistry\<close> (\<open>permission/permission_checks.py\<close>, \<open>permission/utils.py\<close>):
  expressions and built-in permissions. \<open>PermPlan\<close> (locale \<open>prefilter_contract\<close>): how read
  expressions become query constraints plus the flag that the instance gate must run.
  \<open>PermObject\<close>, \<open>PermCaching\<close> (\<open>permission/manager_based_permission.py\<close>): permission objects with
  delegation and caches, which answer as their cache-free semantics. \<open>PermRead\<close>
  (\<open>api/graphql_resolvers.py\<close>, \<open>api/graphql_search.py\<close>): lists and searches return exactly the
  rows the gate grants. \<open>PermChecks\<close> (\<open>permission/base_permission.py\<close>,
  \<open>permission/mutation_permission.py\<close>): writes and mutations with their audit events.

  \<^bold>\<open>Workflows.\<close> \<open>WfConfig\<close> (\<open>workflow/config.py\<close>), \<open>WfRouting\<close> (in-memory part of
  \<open>workflow/event_registry.py\<close>), \<open>WfOutbox\<close>, \<open>WfOutboxStep\<close>, \<open>WfOutboxRuns\<close> (database registry, outbox
  claims, delivery, dead letters, any interleaving of workers), \<open>WfEngine\<close>, \<open>WfEngineStep\<close>
  (\<open>workflow/backends/celery.py\<close>, \<open>workflow/tasks.py\<close>), \<open>WfLocal\<close> (\<open>workflow/backends/local.py\<close>).
  Each database transaction is one step.

  \<^bold>\<open>Paths, date ranges and startup.\<close> \<open>PathMap\<close> (\<open>utils/path_mapping.py\<close>): shortest paths between manager
  classes. \<open>CalDates\<close>, \<open>CalDomain\<close> (\<open>manager/input.py\<close>): the calendar and the date ranges that
  inputs of calculations take, enumerated and tested by loops that always return. \<open>StartupOrder\<close> (\<open>interface/infrastructure/startup_hooks.py\<close>): order of startup hooks.

  \<^bold>\<open>File uploads.\<close> A client asks for an upload intent, sends the bytes (directly to the storage
  or through the server) and later hands the token to a mutation, which binds the stored object
  to a file column; a cleanup job finishes or removes what is left over. The intent row passes
  through the states of \<open>uploads/types.py\<close>.
  \<^item> \<open>UpIntent\<close> (\<open>uploads/models.py\<close>, \<open>types.py\<close>, \<open>errors.py\<close>, the normalisers of
    \<open>uploads/services.py\<close>): the row, policies, stored versions, token lookup and binding checks.
  \<^item> \<open>UpAdmit\<close> (\<open>uploads/services.py\<close>): admission of an intent under the pending quotas, and the
    preflight, which replaces tokens by candidates. Storage adapters are a record of operations
    over an external state \<open>'w\<close>, a parameter.
  \<^item> \<open>UpTransfer\<close> (\<open>uploads/views.py\<close>): the proxy upload with its lease, generation and attempt
    keys; the staging keys a row may have used.
  \<^item> \<open>UpFinal\<close>, \<open>UpCleanup\<close> (\<open>uploads/finalization.py\<close>, the claim path of
    \<open>interface/capabilities/orm/mutations.py\<close>): claiming tokens in a mutation, reservation of
    final names, finalisation attempts, terminal cleanup, expiry, retention and the cleanup job
    with its share of the batch per phase.
  \<^item> \<open>UpMachine\<close> is the row's state machine with its invariant; \<open>UpStep\<close> has one step per database
    transaction, client, worker and storage call in any order, with ghost sets for what was
    granted and seen; \<open>UpRuns\<close>, \<open>UpNames\<close>, \<open>UpProps\<close> show over all reachable states that rows stay
    well formed, states only move forward, quotas hold, cleanup derives every staging key that
    was handed out, and a deleted object is not the one a live row refers to. \<open>UpFlow\<close> shows that
    the sequential operations (preflight, finalisation, cleanup) are runs of this machine.

  \<^bold>\<open>How the code is represented.\<close> Exceptions are values (\<open>Inl\<close>, \<open>None\<close> or an error datatype);
  a failed \<open>assert\<close> is a result too. Python integers are \<open>int\<close> (they do not overflow), strings are
  lists of the 256 characters of \<^typ>\<open>char\<close>, dicts whose order matters are association lists, sets
  are HOL sets. State is passed explicitly; concurrency is a step relation whose steps are the
  critical sections (index lock, coordinator lock, database transaction). Callables, model
  instances and ORM rows of the user's program are parameters. A recursion that is not
  structural has a measure; the JSON parser has its input length as fuel, and its round trip
  shows that this is enough for every printed value; the path search and the ordering of
  startup hooks terminate by the number of classes and interfaces not yet visited.

  \<^bold>\<open>Assumptions.\<close> SHA-256 is injective on the cache keys in use (\<open>inj_on sha U\<close>); application cache
  keys do not start with the prefix of the metadata keys (\<open>app_keys\<close>); the shared cache loses
  nothing and a section under the index lock ends before the lock's time to live; the result of
  a cached function and its dependencies are a function of the committed database.

  \<^bold>\<open>Not modelled.\<close> The chat assistant, search backends, the GraphQL schema
  builder, the ORM and request interfaces, buckets over Django querysets, factories, metrics,
  logging and management commands: they are dominated by calls into Django, graphene, boto3 or
  model providers, whose code is not part of the repository. Inside the modelled parts: the
  legacy full-index storage of \<open>cache/dependency_index.py\<close> (superseded by the shards at the first
  recording), the size estimators of \<open>cache/run_context_lru.py\<close> (they inspect Python objects), the
  polling for a value another worker computes, pickling, logging and telemetry, and a data change
  inside a transaction of its caller, which commits after the barrier has come down. Of the
  uploads: the storage adapters themselves, downloads, rate limits, content inspection, the
  GraphQL types, configuration checks, the heartbeat thread of a finalisation (its renewals are
  steps of the machine) and retries on a busy SQLite database.
\<close>

end
